(* ===== verification/Prelude.thy ===== *)
theory Prelude
  imports
    Main
    "HOL-Library.Word"
    "HOL-Library.Char_ord"
    "HOL-Library.List_Lexorder"
    "HOL-Library.Sublist"
    "HOL-Library.Code_Target_Nat"
begin

text \<open>
  Shared vocabulary of the development: the machine types of the C++ code, the string
  searches of \<open>std::string_view\<close> that the sources use, and generic facts on lists and
  strings that several components need.

  Conventions.
  \<^item> A \<open>std::string\<close> is a \<open>string\<close> (a list of bytes); HOL-Library's order on it is
    the byte-wise lexicographic order of \<open>std::string::operator<\<close>.
  \<^item> Identifiers and counters of type \<open>uint64_t\<close> (chunk handles, versions, client
    sequence numbers) are 64-bit words; the log's own numbering is \<open>nat\<close>.
    Positions and sizes in byte strings are \<open>nat\<close>, and wherever the code adds or subtracts two of them the wrap-around at \<open>2 ^ 64\<close> is written out with
    \<open>add64\<close>, \<open>sub64\<close> and \<open>mul64\<close>.
  \<^item> A \<open>TimePoint\<close> is an \<open>int\<close> of nanoseconds; a \<open>Millis\<close> duration is an \<open>int\<close> of
    milliseconds and \<open>after_ms\<close> adds one to a time point.
\<close>

named_theorems u64_simps \<open>64-bit arithmetic on positions that does not wrap\<close>
named_theorems str_simps \<open>facts on string searches\<close>

type_synonym u64 = "64 word"
type_synonym u32 = "32 word"
type_synonym bytes = string
type_synonym time_point = int
type_synonym millis = int

text \<open>\<open>rpc::Replica\<close> (\<open>proto/gfs.proto\<close>).\<close>

record replica =
  rp_chunkserver_id :: string
  rp_address :: string
  rp_rack :: string

section \<open>Positions and sizes modulo \<open>2 ^ 64\<close>\<close>

definition add64 :: "nat \<Rightarrow> nat \<Rightarrow> nat" where
  "add64 a b = (a + b) mod 2 ^ 64"

definition sub64 :: "nat \<Rightarrow> nat \<Rightarrow> nat" where
  "sub64 a b = (a + (2 ^ 64 - b mod 2 ^ 64)) mod 2 ^ 64"

definition mul64 :: "nat \<Rightarrow> nat \<Rightarrow> nat" where
  "mul64 a b = (a * b) mod 2 ^ 64"

lemma add64_eq [u64_simps]: "a + b < 2 ^ 64 \<Longrightarrow> add64 a b = a + b"
  by (simp add: add64_def)

lemma mul64_eq [u64_simps]: "a * b < 2 ^ 64 \<Longrightarrow> mul64 a b = a * b"
  by (simp add: mul64_def)

lemma sub64_eq [u64_simps]:
  assumes "b \<le> a" "a < 2 ^ 64"
  shows "sub64 a b = a - b"
proof -
  have "a + (2 ^ 64 - b mod 2 ^ 64) = (a - b) + 2 ^ 64"
    using assms by simp
  then have "sub64 a b = ((a - b) + 2 ^ 64) mod 2 ^ 64"
    by (simp only: sub64_def)
  also have "\<dots> = (a - b) mod 2 ^ 64" by (rule mod_add_self2)
  also have "\<dots> = a - b" using assms by (intro mod_less) simp
  finally show ?thesis .
qed

lemma add64_bound: "add64 a b < 2 ^ 64"
  by (simp add: add64_def)

section \<open>Time\<close>

definition after_ms :: "time_point \<Rightarrow> millis \<Rightarrow> time_point" where
  "after_ms t d = t + d * 1000000"

lemma after_ms_mono: "d \<le> d' \<Longrightarrow> after_ms t d \<le> after_ms t d'"
  by (simp add: after_ms_def)

section \<open>Words as identifiers\<close>

lemma word_less_Suc:
  fixes x y :: "'a::len word"
  assumes "x < x + 1"
  shows "y < x + 1 \<longleftrightarrow> y \<le> x"
proof
  assume "y < x + 1"
  then show "y \<le> x" by (rule less_inc_imp_less_eq)
next
  assume "y \<le> x"
  with assms show "y < x + 1" by simp
qed

section \<open>String searches\<close>

text \<open>\<open>std::string_view::find(c)\<close> and \<open>rfind(c)\<close>, with \<open>None\<close> for \<open>npos\<close>.\<close>

fun str_find :: "char \<Rightarrow> string \<Rightarrow> nat option" where
  "str_find c [] = None"
| "str_find c (x # xs) = (if x = c then Some 0 else map_option Suc (str_find c xs))"

definition str_rfind :: "char \<Rightarrow> string \<Rightarrow> nat option" where
  "str_rfind c s = map_option (\<lambda>i. length s - 1 - i) (str_find c (rev s))"

text \<open>\<open>s.compare(0, p.size(), p) == 0\<close>: \<open>s\<close> starts with \<open>p\<close>.\<close>

definition starts_with :: "string \<Rightarrow> string \<Rightarrow> bool" where
  "starts_with p s \<longleftrightarrow> take (length p) s = p"

lemma starts_with_prefix: "starts_with p s \<longleftrightarrow> prefix p s"
  by (metis append_eq_conv_conj append_take_drop_id prefix_def starts_with_def)

lemma starts_with_append [simp]: "starts_with p (p @ s)"
  by (simp add: starts_with_def)

lemma starts_withE:
  assumes "starts_with p s"
  obtains r where "s = p @ r"
  using assms by (auto simp: starts_with_prefix prefix_def)

lemma str_find_None [str_simps]: "str_find c s = None \<longleftrightarrow> c \<notin> set s"
  by (induction s) auto

lemma str_find_append: 
  "str_find c (a @ b) = (if c \<in> set a then str_find c a else map_option ((+) (length a)) (str_find c b))"
proof (induction a)
  case Nil
  then show ?case by (cases "str_find c b") auto
next
  case (Cons x a)
  then show ?case by (auto simp: option.map_comp comp_def)
qed

lemma str_find_here [str_simps]: "c \<notin> set a \<Longrightarrow> str_find c (a @ c # b) = Some (length a)"
  by (simp add: str_find_append)

lemma str_find_SomeD:
  "str_find c s = Some i \<Longrightarrow> i < length s \<and> s ! i = c \<and> c \<notin> set (take i s)"
proof (induction s arbitrary: i)
  case Nil
  then show ?case by simp
next
  case (Cons x xs)
  then show ?case by (cases i) (auto split: if_splits)
qed

lemma str_find_split:
  assumes "str_find c s = Some i"
  shows "s = take i s @ c # drop (Suc i) s" "c \<notin> set (take i s)" "i < length s"
  using str_find_SomeD [OF assms] by (auto simp: id_take_nth_drop)

lemma str_rfind_None [str_simps]: "str_rfind c s = None \<longleftrightarrow> c \<notin> set s"
  by (simp add: str_rfind_def str_find_None)

lemma str_rfind_here [str_simps]: "c \<notin> set b \<Longrightarrow> str_rfind c (a @ c # b) = Some (length a)"
  using str_find_here [of c "rev b" "rev a"] by (simp add: str_rfind_def)

lemma str_rfind_split:
  assumes "str_rfind c s = Some i"
  shows "s = take i s @ c # drop (Suc i) s" "c \<notin> set (drop (Suc i) s)"
proof -
  from assms obtain j where j: "str_find c (rev s) = Some j" and i: "i = length s - 1 - j"
    by (auto simp: str_rfind_def)
  from str_find_split [OF j] have s: "s = rev (drop (Suc j) (rev s)) @ c # rev (take j (rev s))"
    and notin: "c \<notin> set (take j (rev s))" and "j < length s"
    by (metis append.assoc append_Cons append_Nil rev.simps(2) rev_append rev_rev_ident, simp, simp)
  then have len: "length (rev (drop (Suc j) (rev s))) = i" by (simp add: i)
  from s len show "s = take i s @ c # drop (Suc i) s"
    by (metis append_eq_conv_conj drop_Suc list.sel(3) tl_drop)
  from s len have "drop (Suc i) s = rev (take j (rev s))"
    by (metis append_eq_conv_conj drop_Suc list.sel(3) tl_drop)
  with notin show "c \<notin> set (drop (Suc i) s)" by simp
qed

section \<open>Prefixes are intervals of the string order\<close>

lemma prefix_imp_le:
  fixes p s :: "'a::linorder list"
  shows "prefix p s \<Longrightarrow> p \<le> s"
proof (induction p arbitrary: s)
  case Nil
  then show ?case by simp
next
  case (Cons x p)
  then show ?case by (cases s) auto
qed

lemma prefix_interval:
  fixes p a b c :: "'a::linorder list"
  assumes "prefix p c" "p \<le> b" "b \<le> c"
  shows "prefix p b"
  using assms
proof (induction p arbitrary: b c)
  case Nil
  then show ?case by simp
next
  case (Cons x p)
  then obtain c' where c: "c = x # c'" and "prefix p c'"
    by (cases c) auto
  show ?case
  proof (cases b)
    case Nil
    with Cons.prems show ?thesis by simp
  next
    case (Cons y b')
    with Cons.prems c have "x = y" by auto
    with Cons Cons.prems c \<open>prefix p c'\<close> show ?thesis
      using Cons.IH [of c' b'] by simp
  qed
qed

section \<open>Lists\<close>

lemma fold_invariant:
  assumes "P s" "\<And>x s. x \<in> set xs \<Longrightarrow> P s \<Longrightarrow> P (f x s)"
  shows "P (fold f xs s)"
  using assms by (induction xs arbitrary: s) auto

end
