(* ===== verification/StdMap.thy ===== *)
theory StdMap
  imports Prelude
begin

text \<open>
  The containers of the C++ standard library that the sources use. A \<open>std::map\<close> is an
  association list in strictly increasing key order (\<open>om_ok\<close>), so that iteration,
  \<open>lower_bound\<close> and range erasure read as they do in the code. A \<open>std::unordered_map\<close>
  is modelled by the same type: its iteration order is not specified by the language, and the
  lemmas about the code that iterates over one do not depend on the order.
  A \<open>std::set\<close> is a strictly increasing list.
\<close>

type_synonym ('k, 'v) omap = "('k \<times> 'v) list"

named_theorems om_intros \<open>operations keep the order of an \<open>omap\<close>\<close>

section \<open>Operations\<close>

abbreviation om_find :: "('k, 'v) omap \<Rightarrow> 'k \<Rightarrow> 'v option" where
  "om_find m k \<equiv> map_of m k"

definition om_count :: "('k, 'v) omap \<Rightarrow> 'k \<Rightarrow> nat" where
  "om_count m k = (if om_find m k = None then 0 else 1)"

text \<open>\<open>m[k] = v\<close>\<close>

fun om_assign :: "'k::linorder \<Rightarrow> 'v \<Rightarrow> ('k, 'v) omap \<Rightarrow> ('k, 'v) omap" where
  "om_assign k v [] = [(k, v)]"
| "om_assign k v (e # m) =
     (if fst e < k then e # om_assign k v m
      else if fst e = k then (k, v) # m
      else (k, v) # e # m)"

text \<open>\<open>m.emplace(k, v)\<close> and \<open>m.try_emplace(k, v)\<close>: an existing entry is kept; the
  flag says whether the entry is new.\<close>

definition om_emplace :: "'k::linorder \<Rightarrow> 'v \<Rightarrow> ('k, 'v) omap \<Rightarrow> ('k, 'v) omap \<times> bool" where
  "om_emplace k v m = (if om_find m k = None then (om_assign k v m, True) else (m, False))"

definition om_erase :: "'k \<Rightarrow> ('k, 'v) omap \<Rightarrow> ('k, 'v) omap" where
  "om_erase k m = filter (\<lambda>e. fst e \<noteq> k) m"

text \<open>Writing through a pointer or reference to the entry of \<open>k\<close>.\<close>

definition om_modify :: "'k \<Rightarrow> ('v \<Rightarrow> 'v) \<Rightarrow> ('k, 'v) omap \<Rightarrow> ('k, 'v) omap" where
  "om_modify k f m = map (\<lambda>e. if fst e = k then (k, f (snd e)) else e) m"

text \<open>The suffix of the map from the iterator \<open>m.lower_bound(k)\<close> on.\<close>

definition om_lower_bound :: "'k::linorder \<Rightarrow> ('k, 'v) omap \<Rightarrow> ('k, 'v) omap" where
  "om_lower_bound k m = dropWhile (\<lambda>e. fst e < k) m"

definition om_ok :: "('k::linorder, 'v) omap \<Rightarrow> bool" where
  "om_ok m \<longleftrightarrow> sorted_wrt (<) (map fst m)"

definition om_keys :: "('k, 'v) omap \<Rightarrow> 'k set" where
  "om_keys m = fst ` set m"

text \<open>\<open>std::set\<close>\<close>

definition os_insert :: "'a::linorder \<Rightarrow> 'a list \<Rightarrow> 'a list" where
  "os_insert x xs = (if x \<in> set xs then xs else insort x xs)"

definition os_erase :: "'a \<Rightarrow> 'a list \<Rightarrow> 'a list" where
  "os_erase x xs = filter (\<lambda>y. y \<noteq> x) xs"

abbreviation os_ok :: "'a::linorder list \<Rightarrow> bool" where
  "os_ok xs \<equiv> sorted_wrt (<) xs"

section \<open>Lookup after an update\<close>

lemma map_of_assign [simp]: "map_of (om_assign k v m) = (map_of m)(k \<mapsto> v)"
  by (induction m) auto

lemma map_of_erase [simp]: "map_of (om_erase k m) = (map_of m)(k := None)"
  by (induction m) (auto simp: om_erase_def)

lemma map_of_modify [simp]: "map_of (om_modify k f m) = (map_of m)(k := map_option f (map_of m k))"
  by (induction m) (auto simp: om_modify_def)

lemma map_of_map_snd: "map_of (map (\<lambda>e. (fst e, f (snd e))) m) k = map_option f (map_of m k)"
  by (induction m) auto

lemma om_emplace_find:
  "om_emplace k v m = (m', b) \<Longrightarrow>
     map_of m' = (map_of m)(k \<mapsto> (case map_of m k of None \<Rightarrow> v | Some w \<Rightarrow> w)) \<and>
     (b \<longleftrightarrow> map_of m k = None)"
  by (auto simp: om_emplace_def fun_eq_iff split: if_splits)

lemma om_keys_dom: "om_keys m = dom (map_of m)"
  by (simp add: om_keys_def dom_map_of_conv_image_fst)

lemma om_keys_assign [simp]: "om_keys (om_assign k v m) = insert k (om_keys m)"
  by (auto simp: om_keys_dom)

lemma om_keys_erase [simp]: "om_keys (om_erase k m) = om_keys m - {k}"
  by (auto simp: om_keys_dom)

lemma om_keys_modify [simp]: "om_keys (om_modify k f m) = om_keys m"
  by (auto simp: om_keys_dom split: if_splits)

lemma om_find_in_keys: "k \<in> om_keys m \<longleftrightarrow> om_find m k \<noteq> None"
  by (auto simp: om_keys_dom)

lemma om_find_NoneI: "k \<notin> om_keys m \<Longrightarrow> om_find m k = None"
  by (simp add: om_find_in_keys)

lemma om_erase_id: "k \<notin> om_keys m \<Longrightarrow> om_erase k m = m"
  by (force simp: om_erase_def om_keys_def filter_id_conv)

section \<open>The order is kept\<close>

lemma om_ok_Nil [simp]: "om_ok []"
  by (simp add: om_ok_def)

lemma om_keys_Nil [simp]: "om_keys [] = {}"
  by (simp add: om_keys_def)

lemma om_keys_Cons [simp]: "om_keys (e # m) = insert (fst e) (om_keys m)"
  by (simp add: om_keys_def)

lemma om_ok_Cons: "om_ok (e # m) \<longleftrightarrow> (\<forall>k \<in> om_keys m. fst e < k) \<and> om_ok m"
  by (auto simp: om_ok_def om_keys_def)

lemma om_ok_assign [om_intros]: "om_ok m \<Longrightarrow> om_ok (om_assign k v m)"
proof (induction m)
  case Nil
  then show ?case by (simp add: om_ok_Cons)
next
  case (Cons e m)
  then show ?case by (fastforce simp: om_ok_Cons)
qed

lemma om_ok_erase [om_intros]: "om_ok m \<Longrightarrow> om_ok (om_erase k m)"
  by (induction m) (auto simp: om_ok_Cons om_erase_def om_keys_def)

lemma map_fst_modify [simp]: "map fst (om_modify k f m) = map fst m"
  by (auto simp: om_modify_def)

lemma om_ok_modify [om_intros, simp]: "om_ok (om_modify k f m) = om_ok m"
  by (simp add: om_ok_def)

lemma om_ok_emplace [om_intros]: "om_ok m \<Longrightarrow> om_ok (fst (om_emplace k v m))"
  by (simp add: om_emplace_def om_ok_assign)

lemma om_ok_filter [om_intros]: "om_ok m \<Longrightarrow> om_ok (filter P m)"
  by (induction m) (auto simp: om_ok_Cons om_keys_def)

lemma om_ok_distinct: "om_ok m \<Longrightarrow> distinct (map fst m)"
  by (simp add: om_ok_def strict_sorted_iff)

lemma om_find_in: "om_ok m \<Longrightarrow> om_find m k = Some v \<longleftrightarrow> (k, v) \<in> set m"
  by (simp add: om_ok_distinct)

text \<open>Two ordered maps with the same lookups are the same list.\<close>

lemma om_rebuild:
  assumes "om_ok m"
  shows "m = map (\<lambda>k. (k, the (map_of m k))) (map fst m)"
proof -
  have "(fst e, the (map_of m (fst e))) = e" if "e \<in> set m" for e
    using that om_find_in [OF assms, of "fst e" "snd e"] by simp
  then show ?thesis by (simp add: comp_def map_idI)
qed

lemma om_ext:
  assumes "om_ok m" "om_ok m'" "map_of m = map_of m'"
  shows "m = m'"
proof -
  have "fst ` set m = fst ` set m'"
    using assms(3) by (metis dom_map_of_conv_image_fst)
  then have "set (map fst m) = set (map fst m')" by simp
  with assms(1,2) have keys: "map fst m = map fst m'"
    by (simp add: om_ok_def strict_sorted_equal)
  have "m = map (\<lambda>k. (k, the (map_of m' k))) (map fst m')"
    using om_rebuild [OF assms(1)] by (simp only: keys assms(3))
  also have "\<dots> = m'" using om_rebuild [OF assms(2)] by simp
  finally show ?thesis .
qed

section \<open>Ranges\<close>

lemma om_lower_bound_filter:
  "om_ok m \<Longrightarrow> om_lower_bound k m = filter (\<lambda>e. k \<le> fst e) m"
proof (induction m)
  case Nil
  then show ?case by (simp add: om_lower_bound_def)
next
  case (Cons e m)
  show ?case
  proof (cases "fst e < k")
    case True
    with Cons show ?thesis by (auto simp: om_lower_bound_def om_ok_Cons)
  next
    case False
    with Cons.prems have "\<forall>x \<in> set m. k \<le> fst x"
      by (fastforce simp: om_ok_Cons om_keys_def)
    with False show ?thesis by (simp add: om_lower_bound_def)
  qed
qed

text \<open>
  The loop \<open>for (it = m.lower_bound(p); it != m.end() && it->first starts with p; ++it)\<close>
  visits exactly the keys that start with \<open>p\<close>: they are an interval of the string order.
\<close>

lemma om_prefix_range:
  fixes m :: "(string, 'v) omap"
  assumes "om_ok m"
  shows "takeWhile (\<lambda>e. starts_with p (fst e)) (om_lower_bound p m) =
         filter (\<lambda>e. starts_with p (fst e)) m"
  using assms
proof (induction m)
  case Nil
  then show ?case by (simp add: om_lower_bound_def)
next
  case (Cons e m)
  have IH: "takeWhile (\<lambda>e. starts_with p (fst e)) (om_lower_bound p m) =
      filter (\<lambda>e. starts_with p (fst e)) m" and
    above: "\<And>x. x \<in> set m \<Longrightarrow> fst e < fst x"
    using Cons by (auto simp: om_ok_Cons om_keys_def)
  show ?case
  proof (cases "fst e < p")
    case True
    then have "\<not> starts_with p (fst e)"
      using prefix_imp_le [of p "fst e"] by (auto simp: starts_with_prefix)
    with True IH show ?thesis by (simp add: om_lower_bound_def)
  next
    case False
    then have lb: "om_lower_bound p (e # m) = e # m" by (simp add: om_lower_bound_def)
    have m: "om_lower_bound p m = m"
    proof (cases m)
      case (Cons x xs)
      with above [of x] False show ?thesis by (auto simp: om_lower_bound_def)
    qed (simp add: om_lower_bound_def)
    show ?thesis
    proof (cases "starts_with p (fst e)")
      case True
      with lb m IH show ?thesis by simp
    next
      case no: False
      have "\<not> starts_with p (fst x)" if "x \<in> set m" for x
      proof
        assume "starts_with p (fst x)"
        then have "prefix p (fst e)"
          using prefix_interval [of p "fst x" "fst e"] False above [OF that]
          by (auto simp: starts_with_prefix)
        with no show False by (simp add: starts_with_prefix)
      qed
      with lb no show ?thesis by (auto simp: filter_empty_conv)
    qed
  qed
qed

section \<open>Sets\<close>

lemma set_os_insert [simp]: "set (os_insert x xs) = insert x (set xs)"
  by (auto simp: os_insert_def set_insort_key)

lemma set_os_erase [simp]: "set (os_erase x xs) = set xs - {x}"
  by (auto simp: os_erase_def)

lemma os_ok_insert [om_intros]: "os_ok xs \<Longrightarrow> os_ok (os_insert x xs)"
  by (auto simp: os_insert_def strict_sorted_iff sorted_insort distinct_insort)

lemma os_ok_erase [om_intros]: "os_ok xs \<Longrightarrow> os_ok (os_erase x xs)"
  by (auto simp: os_erase_def strict_sorted_iff sorted_filter [where f = id, simplified] distinct_filter)

section \<open>Sums over the entries of a map\<close>

lemma sum_list_assign:
  fixes f :: "'v \<Rightarrow> nat"
  assumes "om_ok m"
  shows "sum_list (map (\<lambda>e. f (snd e)) (om_assign k v m)) +
           (case om_find m k of None \<Rightarrow> 0 | Some w \<Rightarrow> f w) =
         sum_list (map (\<lambda>e. f (snd e)) m) + f v"
  using assms
proof (induction m)
  case Nil
  then show ?case by simp
next
  case (Cons e m)
  then have "om_find m k = None" if "\<not> fst e < k"
    using that by (intro om_find_NoneI) (auto simp: om_ok_Cons)
  with Cons show ?case by (auto simp: om_ok_Cons split: option.splits)
qed

lemma sum_list_erase:
  fixes f :: "'v \<Rightarrow> nat"
  assumes "om_ok m"
  shows "sum_list (map (\<lambda>e. f (snd e)) (om_erase k m)) +
           (case om_find m k of None \<Rightarrow> 0 | Some w \<Rightarrow> f w) =
         sum_list (map (\<lambda>e. f (snd e)) m)"
  using assms
proof (induction m)
  case Nil
  then show ?case by (simp add: om_erase_def)
next
  case (Cons e m)
  then have "k \<notin> om_keys m" if "fst e = k"
    using that by (auto simp: om_ok_Cons)
  then have "om_find m k = None \<and> om_erase k m = m" if "fst e = k"
    using that by (simp add: om_find_NoneI om_erase_id)
  with Cons show ?case by (auto simp: om_ok_Cons om_erase_def split: option.splits)
qed

end
