(* ===== verification/Paths.thy ===== *)
theory Paths
  imports Prelude
begin

text \<open>
  The path rules of \<open>src/src/common/paths.cc\<close>: which strings are paths, parents, base names,
  ancestors, and the hidden names a deleted file gets
  (\<open>/dir/.deleted.<unix seconds>.<name>\<close>). The reference view of a valid path is a list
  of components (\<open>render\<close>); the lemmas relate every function of the source to it.
\<close>

section \<open>The functions of paths.cc\<close>

abbreviation slash :: char where
  "slash \<equiv> CHR ''/''"

text \<open>The loop of \<open>IsValidPath\<close>; \<open>start\<close> is the loop variable.\<close>

function valid_components :: "string \<Rightarrow> nat \<Rightarrow> bool" where
  "valid_components path start =
     (if start \<le> length path then
        (let e = (case str_find slash (drop start path) of
                    None \<Rightarrow> length path | Some i \<Rightarrow> start + i);
             component = take (e - start) (drop start path)
         in if component = [] \<or> component = ''.'' \<or> component = ''..'' then False
            else valid_components path (e + 1))
      else True)"
  by pat_completeness auto
termination
  by (relation "measure (\<lambda>(path, start). length path + 1 - start)")
     (auto split: option.splits)

declare valid_components.simps [simp del]

definition IsValidPath :: "string \<Rightarrow> bool" where
  "IsValidPath path =
     (if path = [] \<or> path ! 0 \<noteq> slash then False
      else if path = ''/'' then True
      else if last path = slash then False
      else valid_components path 1)"

definition ParentOf :: "string \<Rightarrow> string" where
  "ParentOf path =
     (if path = ''/'' then ''/''
      else case str_rfind slash path of
             None \<Rightarrow> path
           | Some s \<Rightarrow> (if s = 0 then ''/'' else take s path))"

definition BaseName :: "string \<Rightarrow> string" where
  "BaseName path =
     (case str_rfind slash path of None \<Rightarrow> path | Some s \<Rightarrow> drop (s + 1) path)"

definition AncestorsOf :: "string \<Rightarrow> string list" where
  "AncestorsOf path =
     (if path = ''/'' then []
      else ''/'' # [take i path. i \<leftarrow> [1..<length path], path ! i = slash])"

definition IsAncestorOrSelf :: "string \<Rightarrow> string \<Rightarrow> bool" where
  "IsAncestorOrSelf ancestor path =
     (if ancestor = path then True
      else if ancestor = ''/'' then True
      else length path > length ancestor \<and> take (length ancestor) path = ancestor \<and>
           path ! length ancestor = slash)"

definition ChildPrefix :: "string \<Rightarrow> string" where
  "ChildPrefix directory = (if directory = ''/'' then ''/'' else directory @ ''/'')"

definition kHiddenPrefix :: string where
  "kHiddenPrefix = ''.deleted.''"

definition IsHiddenPath :: "string \<Rightarrow> bool" where
  "IsHiddenPath path =
     (let name = BaseName path
      in length name > length kHiddenPrefix \<and>
         take (length kHiddenPrefix) name = kHiddenPrefix)"

section \<open>Decimal numbers: \<open>std::to_string\<close> and \<open>std::from_chars\<close>\<close>

definition is_digit :: "char \<Rightarrow> bool" where
  "is_digit c \<longleftrightarrow> 48 \<le> (of_char c :: nat) \<and> (of_char c :: nat) \<le> 57"

definition digit_val :: "char \<Rightarrow> nat" where
  "digit_val c = of_char c - 48"

definition digit_char :: "nat \<Rightarrow> char" where
  "digit_char d = char_of (48 + d)"

fun show_nat :: "nat \<Rightarrow> string" where
  "show_nat n = (if n < 10 then [digit_char n] else show_nat (n div 10) @ [digit_char (n mod 10)])"

declare show_nat.simps [simp del]

definition to_string_int :: "int \<Rightarrow> string" where
  "to_string_int i = (if i < 0 then CHR ''-'' # show_nat (nat (- i)) else show_nat (nat i))"

definition digits_val :: "string \<Rightarrow> nat" where
  "digits_val s = foldl (\<lambda>a c. 10 * a + digit_val c) 0 s"

text \<open>
  \<open>std::from_chars\<close> for an \<open>int64_t\<close> in base 10: the value and the number of characters
  consumed, or \<open>None\<close> when the error code is set (no digits, or out of range).
\<close>

definition from_chars_int64 :: "string \<Rightarrow> (int \<times> nat) option" where
  "from_chars_int64 s =
     (let neg = (s \<noteq> [] \<and> hd s = CHR ''-'');
          ds = takeWhile is_digit (if neg then tl s else s);
          v = (if neg then - int (digits_val ds) else int (digits_val ds))
      in if ds = [] \<or> v < - (2 ^ 63) \<or> 2 ^ 63 \<le> v then None
         else Some (v, (if neg then 1 else 0) + length ds))"

section \<open>Hidden names\<close>

definition HiddenNameFor :: "string \<Rightarrow> int \<Rightarrow> string" where
  "HiddenNameFor path unix_seconds =
     (let parent = ParentOf path; name = BaseName path
      in ChildPrefix parent @ kHiddenPrefix @ to_string_int unix_seconds @ ''.'' @ name)"

definition ParseHiddenName :: "string \<Rightarrow> (int \<times> string) option" where
  "ParseHiddenName path =
     (if \<not> IsHiddenPath path then None
      else let name = BaseName path; rest = drop (length kHiddenPrefix) name
           in case str_find (CHR ''.'') rest of
                None \<Rightarrow> None
              | Some dot \<Rightarrow>
                  if dot = 0 \<or> dot + 1 \<ge> length rest then None
                  else case from_chars_int64 (take dot rest) of
                         None \<Rightarrow> None
                       | Some (ts, n) \<Rightarrow>
                           if n \<noteq> dot then None
                           else Some (ts, ChildPrefix (ParentOf path) @ drop (dot + 1) rest))"

section \<open>Paths as lists of components\<close>

definition good_component :: "string \<Rightarrow> bool" where
  "good_component c \<longleftrightarrow> c \<noteq> [] \<and> c \<noteq> ''.'' \<and> c \<noteq> ''..'' \<and> slash \<notin> set c"

definition render :: "string list \<Rightarrow> string" where
  "render cs = concat (map (\<lambda>c. slash # c) cs)"

text \<open>\<open>p\<close> lies strictly below the directory \<open>a\<close>.\<close>

definition below :: "string \<Rightarrow> string \<Rightarrow> bool" where
  "below a p \<longleftrightarrow> starts_with (ChildPrefix a) p"

lemma render_simps [simp]:
  "render [] = []" "render (c # cs) = slash # c @ render cs"
  "render (cs @ ds) = render cs @ render ds"
  by (simp_all add: render_def)

lemma good_componentD:
  "good_component c \<Longrightarrow> c \<noteq> []" "good_component c \<Longrightarrow> slash \<notin> set c"
  by (simp_all add: good_component_def)

lemma render_eq_Nil [simp]: "render cs = [] \<longleftrightarrow> cs = []"
  by (cases cs) auto

lemma render_not_root:
  "\<forall>c \<in> set cs. good_component c \<Longrightarrow> render cs \<noteq> ''/''"
  by (cases cs) (auto dest: good_componentD)

text \<open>The first component of what is left of the path, and the rest.\<close>

lemma valid_components_step:
  assumes "slash \<notin> set c" "start = length pre" "path = pre @ c @ rest" "rest = [] \<or> hd rest = slash"
  shows "valid_components path start \<longleftrightarrow>
           good_component c \<and> (rest = [] \<or> valid_components path (start + length c + 1))"
proof -
  have find: "str_find slash (drop start path) = (if rest = [] then None else Some (length c))"
    using assms by (cases rest) (auto simp: str_simps)
  then have e: "(case str_find slash (drop start path) of None \<Rightarrow> length path | Some i \<Rightarrow> start + i) =
      start + length c"
    using assms by auto
  have comp: "take (start + length c - start) (drop start path) = c"
    using assms by simp
  have "start \<le> length path" using assms by simp
  then have "valid_components path start =
      (if c = [] \<or> c = ''.'' \<or> c = ''..'' then False
       else valid_components path (start + length c + 1))"
    by (subst valid_components.simps) (simp only: Let_def e comp if_True)
  then have "valid_components path start \<longleftrightarrow>
      good_component c \<and> valid_components path (start + length c + 1)"
    using assms(1) by (simp add: good_component_def)
  moreover have "valid_components path (start + length c + 1)" if "rest = []"
    using that assms by (subst valid_components.simps) simp
  ultimately show ?thesis by blast
qed

lemma valid_components_render:
  "\<lbrakk>path = pre @ c @ render cs; slash \<notin> set c; start = length pre; \<forall>d \<in> set cs. slash \<notin> set d\<rbrakk> \<Longrightarrow>
     valid_components path start \<longleftrightarrow> (\<forall>d \<in> set (c # cs). good_component d)"
proof (induction cs arbitrary: pre c start)
  case Nil
  then show ?case using valid_components_step [of c start pre path "[]"] by simp
next
  case (Cons d cs)
  have "valid_components path (start + length c + 1) \<longleftrightarrow> (\<forall>e \<in> set (d # cs). good_component e)"
    by (rule Cons.IH [of "pre @ c @ [slash]"]) (use Cons.prems in auto)
  then show ?case
    using Cons.prems valid_components_step [of c start pre path "render (d # cs)"] by auto
qed

text \<open>Every string that starts with a slash is a rendered list of slash-free pieces.\<close>

lemma render_split:
  assumes "p \<noteq> []" "hd p = slash"
  shows "\<exists>cs. cs \<noteq> [] \<and> p = render cs \<and> (\<forall>c \<in> set cs. slash \<notin> set c)"
  using assms
proof (induction p rule: length_induct)
  case (1 p)
  then obtain q where p: "p = slash # q" by (cases p) auto
  show ?case
  proof (cases "str_find slash q")
    case None
    with p show ?thesis by (intro exI [of _ "[q]"]) (auto simp: str_simps)
  next
    case (Some i)
    note q = str_find_split [OF Some]
    have "\<exists>cs. cs \<noteq> [] \<and> drop i q = render cs \<and> (\<forall>c \<in> set cs. slash \<notin> set c)"
      using "1.IH" [rule_format, of "drop i q"] p q(3) str_find_SomeD [OF Some]
      by (simp add: hd_drop_conv_nth)
    then obtain cs where cs: "drop i q = render cs" "\<forall>c \<in> set cs. slash \<notin> set c" by blast
    have "p = render (take i q # cs)"
      using p cs(1) append_take_drop_id [of i q] by simp
    with cs(2) q(2) show ?thesis by (intro exI [of _ "take i q # cs"]) simp
  qed
qed

lemma IsValidPath_render:
  assumes "cs \<noteq> []" "\<forall>c \<in> set cs. slash \<notin> set c"
  shows "IsValidPath (render cs) \<longleftrightarrow> cs = [''''] \<or> (\<forall>c \<in> set cs. good_component c)"
proof -
  obtain c cs' where cs: "cs = c # cs'" using assms(1) by (cases cs) auto
  have valid: "valid_components (render cs) 1 \<longleftrightarrow> (\<forall>d \<in> set cs. good_component d)"
    using valid_components_render [of "render cs" "[slash]" c cs' 1] assms cs by simp
  have root: "render cs = ''/'' \<longleftrightarrow> cs = ['''']"
    using cs by (cases cs') auto
  have "last (render cs) = slash \<longleftrightarrow> last cs = []"
    using assms by (cases cs rule: rev_cases) (auto simp: last_append, metis last_in_set)
  then have "last (render cs) \<noteq> slash" if "\<forall>c \<in> set cs. good_component c"
    using that assms(1) good_componentD(1) last_in_set by blast
  with valid root cs show ?thesis by (auto simp: IsValidPath_def)
qed


section \<open>Ancestors\<close>

lemma IsAncestorOrSelf_iff:
  "IsAncestorOrSelf a p \<longleftrightarrow> a = p \<or> a = ''/'' \<or> prefix (a @ ''/'') p"
proof -
  have "prefix (a @ [slash]) p \<longleftrightarrow>
      length a < length p \<and> take (length a) p = a \<and> p ! length a = slash"
    by (auto simp: prefix_def take_Suc_conv_app_nth nth_append)
      (metis append.assoc append_Cons append_Nil id_take_nth_drop)
  then show ?thesis by (auto simp: IsAncestorOrSelf_def)
qed

lemma AncestorsOf_iff:
  assumes "p \<noteq> ''/''"
  shows "a \<in> set (AncestorsOf p) \<longleftrightarrow> a = ''/'' \<or> a \<noteq> [] \<and> prefix (a @ ''/'') p"
proof -
  have "(\<exists>i. 1 \<le> i \<and> i < length p \<and> p ! i = slash \<and> a = take i p) \<longleftrightarrow>
      a \<noteq> [] \<and> prefix (a @ [slash]) p" (is "?L \<longleftrightarrow> ?R")
  proof
    assume ?L
    then obtain i where i: "1 \<le> i" "i < length p" "p ! i = slash" "a = take i p" by blast
    then have "take (Suc i) p = a @ [slash]" by (simp add: take_Suc_conv_app_nth)
    then have "prefix (a @ [slash]) p" by (metis take_is_prefix)
    with i show ?R by auto
  next
    assume ?R
    then obtain r where "p = a @ slash # r" and "a \<noteq> []" by (auto simp: prefix_def)
    then show ?L by (intro exI [of _ "length a"]) (auto simp: Suc_le_eq nth_append)
  qed
  with assms show ?thesis
    by (auto simp: AncestorsOf_def image_iff Bex_def)
qed

lemma below_iff: "a \<noteq> ''/'' \<Longrightarrow> below a p \<longleftrightarrow> prefix (a @ ''/'') p"
  by (simp add: below_def ChildPrefix_def starts_with_prefix)

lemma below_trans: "a \<noteq> ''/'' \<Longrightarrow> below a b \<Longrightarrow> below b c \<Longrightarrow> below a c"
  by (cases "b = ''/''"; cases a) (auto simp: below_iff prefix_def below_def ChildPrefix_def
      starts_with_prefix)

lemma below_length: "a \<noteq> ''/'' \<Longrightarrow> below a p \<Longrightarrow> length a < length p"
  by (auto simp: below_iff prefix_def)

lemma below_irrefl [simp]: "a \<noteq> ''/'' \<Longrightarrow> \<not> below a a"
  by (auto simp: below_iff prefix_def)

text \<open>Two directories above the same path are comparable.\<close>

lemma below_linear:
  assumes "a \<noteq> ''/''" "b \<noteq> ''/''" "below a p" "below b p"
  shows "a = b \<or> below a b \<or> below b a"
proof -
  obtain r where p: "p = a @ slash # r" using assms by (auto simp: below_iff prefix_def)
  moreover obtain s where "p = b @ slash # s" using assms by (auto simp: below_iff prefix_def)
  ultimately have "a @ slash # r = b @ slash # s" by simp
  then consider u where "a = b @ u" "u @ slash # r = slash # s"
    | u where "b = a @ u" "u @ slash # s = slash # r"
    by (auto simp: append_eq_append_conv2)
  then show ?thesis
  proof cases
    case 1
    then show ?thesis using assms(2) by (cases u) (auto simp: below_iff prefix_def)
  next
    case 2
    then show ?thesis using assms(1) by (cases u) (auto simp: below_iff prefix_def)
  qed
qed

lemma strict_prefix_snoc: "strict_prefix xs (ys @ [y]) \<longleftrightarrow> prefix xs ys"
  by (auto simp: strict_prefix_def prefix_snoc dest: prefix_length_le)

section \<open>Valid paths and their components\<close>

lemma IsValidPath_cases:
  assumes "IsValidPath p"
  obtains "p = ''/''" | cs where "cs \<noteq> []" "\<forall>c \<in> set cs. good_component c" "p = render cs"
proof -
  have "p \<noteq> []" "hd p = slash"
    using assms by (auto simp: IsValidPath_def hd_conv_nth split: if_splits)
  then obtain cs where cs: "cs \<noteq> []" "p = render cs" "\<forall>c \<in> set cs. slash \<notin> set c"
    using render_split by blast
  with assms IsValidPath_render [OF cs(1,3)] that show thesis by auto
qed

lemma IsValidPath_rendered:
  "cs \<noteq> [] \<Longrightarrow> \<forall>c \<in> set cs. good_component c \<Longrightarrow> IsValidPath (render cs)"
  by (subst IsValidPath_render) (auto dest: good_componentD)

lemma BaseName_snoc: "slash \<notin> set c \<Longrightarrow> BaseName (d @ slash # c) = c"
  by (simp add: BaseName_def str_simps)

lemma ParentOf_snoc: "slash \<notin> set c \<Longrightarrow> c \<noteq> [] \<Longrightarrow>
    ParentOf (d @ slash # c) = (if d = [] then ''/'' else d)"
  by (auto simp: ParentOf_def str_simps append_eq_Cons_conv)

text \<open>A path that is not the root is its parent's child prefix and its base name.\<close>

lemma path_split:
  assumes "IsValidPath p" "p \<noteq> ''/''"
  shows "p = ChildPrefix (ParentOf p) @ BaseName p" "good_component (BaseName p)"
proof -
  from assms obtain cs where "cs \<noteq> []" "\<forall>c \<in> set cs. good_component c" "p = render cs"
    by (auto elim: IsValidPath_cases)
  then obtain ds c where cs: "p = render ds @ slash # c" and c: "good_component c"
    and ds: "\<forall>c \<in> set ds. good_component c"
    by (cases cs rule: rev_cases) auto
  have "ParentOf p = (if ds = [] then ''/'' else render ds)" "BaseName p = c"
    using cs c by (simp_all add: BaseName_snoc ParentOf_snoc good_componentD)
  then show "p = ChildPrefix (ParentOf p) @ BaseName p" "good_component (BaseName p)"
    using cs c render_not_root [OF ds] by (auto simp: ChildPrefix_def)
qed

lemma slash_cancel:
  "slash \<notin> set x \<Longrightarrow> slash \<notin> set y \<Longrightarrow> x @ slash # s = y @ slash # t \<longleftrightarrow> x = y \<and> s = t"
proof (induction x arbitrary: y)
  case Nil
  then show ?case by (cases y) auto
next
  case (Cons a x)
  then show ?case by (cases y) auto
qed

lemma render_prefix_iff:
  assumes "\<forall>c \<in> set xs. slash \<notin> set c" "\<forall>c \<in> set ys. slash \<notin> set c" "xs \<noteq> []"
  shows "prefix (render xs @ ''/'') (render ys) \<longleftrightarrow> strict_prefix xs ys"
  using assms
proof (induction xs arbitrary: ys)
  case Nil
  then show ?case by simp
next
  case (Cons x xs)
  show ?case
  proof (cases ys)
    case Nil
    then show ?thesis by simp
  next
    case ys: (Cons y ys')
    have x: "slash \<notin> set x" and y: "slash \<notin> set y" using Cons.prems ys by auto
    note cancel = slash_cancel [OF x y] slash_cancel [OF y x]
    show ?thesis
    proof (cases xs)
      case Nil
      have "prefix (x @ [slash]) (y @ render ys') \<longleftrightarrow> x = y \<and> ys' \<noteq> []"
        using cancel y by (cases ys') (auto simp: prefix_def)
      with ys Nil show ?thesis by (auto simp: strict_prefix_def)
    next
      case xs: (Cons d ds)
      have "prefix (x @ render xs @ [slash]) (y @ render ys') \<longleftrightarrow>
          x = y \<and> prefix (render xs @ [slash]) (render ys')"
        using cancel y xs by (cases ys') (auto simp: prefix_def)
      with Cons xs ys show ?thesis by (auto simp: strict_prefix_def)
    qed
  qed
qed

text \<open>The ancestor order of the source is the prefix order on component lists.\<close>

lemma IsAncestorOrSelf_render:
  assumes "\<forall>c \<in> set xs. good_component c" "\<forall>c \<in> set ys. good_component c" "xs \<noteq> []" "ys \<noteq> []"
  shows "IsAncestorOrSelf (render xs) (render ys) \<longleftrightarrow> prefix xs ys"
proof -
  have xs: "\<forall>c \<in> set xs. slash \<notin> set c" and ys: "\<forall>c \<in> set ys. slash \<notin> set c"
    using assms by (auto dest: good_componentD)
  have inj: "xs = ys" if "render xs = render ys"
  proof -
    have "prefix us vs" if "render us = render vs" "\<forall>c \<in> set us. slash \<notin> set c"
      "\<forall>c \<in> set vs. slash \<notin> set c" "us \<noteq> []" for us vs
      using render_prefix_iff [of us "vs @ [[]]"] that by (simp add: strict_prefix_snoc)
    with that xs ys assms(3,4) show ?thesis by (metis prefix_order.antisym)
  qed
  show ?thesis
    using inj render_prefix_iff [OF xs ys assms(3)] render_not_root [OF assms(1)]
    by (auto simp: IsAncestorOrSelf_iff strict_prefix_def)
qed


section \<open>Decimal round trip\<close>

lemma of_char_digit_char: "d < 10 \<Longrightarrow> (of_char (digit_char d) :: nat) = 48 + d"
  by (simp add: digit_char_def)

lemma digit_char_props:
  assumes "d < 10"
  shows "is_digit (digit_char d)" "digit_val (digit_char d) = d" "digit_char d \<noteq> CHR ''-''"
    "digit_char d \<noteq> CHR ''.''" "digit_char d \<noteq> slash"
  using of_char_digit_char [OF assms] assms by (auto simp: is_digit_def digit_val_def)

lemma show_nat_props:
  "show_nat n \<noteq> [] \<and> (\<forall>c \<in> set (show_nat n). is_digit c) \<and> digits_val (show_nat n) = n"
proof (induction n rule: show_nat.induct)
  case (1 n)
  show ?case
  proof (cases "n < 10")
    case True
    then show ?thesis
      by (simp add: show_nat.simps [of n] digit_char_props digits_val_def)
  next
    case False
    with "1.IH" show ?thesis
      by (simp add: show_nat.simps [of n] digit_char_props digits_val_def)
  qed
qed

lemma not_digit: "\<not> is_digit (CHR ''-'')" "\<not> is_digit (CHR ''.'')" "\<not> is_digit slash"
  by (simp_all add: is_digit_def)

lemma show_nat_not_in [simp]:
  "CHR ''-'' \<notin> set (show_nat n)" "CHR ''.'' \<notin> set (show_nat n)" "slash \<notin> set (show_nat n)"
  using show_nat_props [of n] not_digit by blast+

lemma to_string_int_not_in [simp]:
  "CHR ''.'' \<notin> set (to_string_int i)" "slash \<notin> set (to_string_int i)" "to_string_int i \<noteq> []"
  using show_nat_props by (auto simp: to_string_int_def)

lemma from_chars_to_string:
  assumes "- (2 ^ 63) \<le> i" "i < 2 ^ 63"
  shows "from_chars_int64 (to_string_int i) = Some (i, length (to_string_int i))"
proof -
  have tw: "takeWhile is_digit (show_nat n) = show_nat n" for n
    using show_nat_props by (simp add: takeWhile_eq_all_conv)
  have nonneg: "show_nat n \<noteq> [] \<and> hd (show_nat n) \<noteq> CHR ''-''" for n
    using show_nat_props [of n] not_digit(1) hd_in_set by metis
  have val: "digits_val (show_nat n) = n" for n
    using show_nat_props by blast
  show ?thesis
    using assms nonneg
    by (auto simp: from_chars_int64_def to_string_int_def Let_def tw val)
qed

section \<open>Hidden names\<close>

lemma HiddenNameFor_parts:
  fixes p :: string and ts :: int
  assumes "IsValidPath p" "p \<noteq> ''/''"
  defines "h \<equiv> kHiddenPrefix @ to_string_int ts @ ''.'' @ BaseName p"
  shows "HiddenNameFor p ts = ChildPrefix (ParentOf p) @ h" "good_component h"
    "BaseName (HiddenNameFor p ts) = h" "ParentOf (HiddenNameFor p ts) = ParentOf p"
    "ParentOf p = ''/'' \<or> IsValidPath (ParentOf p)"
    "IsValidPath (HiddenNameFor p ts)"
proof -
  from assms(1,2) obtain cs where "cs \<noteq> []" "\<forall>c \<in> set cs. good_component c" "p = render cs"
    by (auto elim: IsValidPath_cases)
  then obtain ds c where cs: "p = render ds @ slash # c" and c: "good_component c"
    and ds: "\<forall>c \<in> set ds. good_component c"
    by (cases cs rule: rev_cases) auto
  have par: "ParentOf p = (if ds = [] then ''/'' else render ds)" and base: "BaseName p = c"
    using cs c by (simp_all add: BaseName_snoc ParentOf_snoc good_componentD)
  show eq: "HiddenNameFor p ts = ChildPrefix (ParentOf p) @ h"
    by (simp add: HiddenNameFor_def h_def Let_def)
  show h: "good_component h"
    using c base by (auto simp: h_def good_component_def kHiddenPrefix_def)
  have "ChildPrefix (ParentOf p) = render ds @ ''/''"
    using par render_not_root [OF ds] by (auto simp: ChildPrefix_def)
  then have full: "HiddenNameFor p ts = render ds @ slash # h" using eq by simp
  show "BaseName (HiddenNameFor p ts) = h"
    using full h by (simp add: BaseName_snoc good_componentD)
  show "ParentOf (HiddenNameFor p ts) = ParentOf p"
    using full h par by (simp add: ParentOf_snoc good_componentD)
  show "ParentOf p = ''/'' \<or> IsValidPath (ParentOf p)"
    using par ds by (auto intro: IsValidPath_rendered)
  have "HiddenNameFor p ts = render (ds @ [h])" using full by simp
  then show "IsValidPath (HiddenNameFor p ts)"
    using IsValidPath_rendered [of "ds @ [h]"] ds h by auto
qed

lemma HiddenNameFor_hidden:
  assumes "IsValidPath p" "p \<noteq> ''/''"
  shows "IsHiddenPath (HiddenNameFor p ts)" "HiddenNameFor p ts \<noteq> ''/''"
proof -
  from HiddenNameFor_parts(3) [OF assms, where ts = ts]
  show hid: "IsHiddenPath (HiddenNameFor p ts)" by (simp add: IsHiddenPath_def)
  have "\<not> IsHiddenPath ''/''" by (simp add: IsHiddenPath_def BaseName_def str_rfind_def kHiddenPrefix_def)
  with hid show "HiddenNameFor p ts \<noteq> ''/''" by metis
qed

lemma HiddenNameFor_inj:
  assumes "HiddenNameFor p ts = HiddenNameFor p ts'" "- (2 ^ 63) \<le> ts" "ts < 2 ^ 63"
    "- (2 ^ 63) \<le> ts'" "ts' < 2 ^ 63"
  shows "ts = ts'"
proof -
  have "to_string_int ts @ CHR ''.'' # BaseName p = to_string_int ts' @ CHR ''.'' # BaseName p"
    using assms(1) by (simp add: HiddenNameFor_def Let_def)
  then have "to_string_int ts = to_string_int ts'" by simp
  then have "Some (ts, length (to_string_int ts)) = Some (ts', length (to_string_int ts'))"
    using from_chars_to_string [of ts] from_chars_to_string [of ts'] assms(2-) by metis
  then show ?thesis by simp
qed

text \<open>
  Parsing the hidden name that a deleted file gets returns the time of its deletion and
  its old path.
\<close>

lemma ParseHiddenName_HiddenNameFor:
  assumes "IsValidPath p" "p \<noteq> ''/''" "- (2 ^ 63) \<le> ts" "ts < 2 ^ 63"
  shows "ParseHiddenName (HiddenNameFor p ts) = Some (ts, p)"
proof -
  let ?rest = "to_string_int ts @ CHR ''.'' # BaseName p"
  note parts = HiddenNameFor_parts(1-4) [OF assms(1,2), where ts = ts]
  have base: "BaseName p \<noteq> []" and p: "p = ChildPrefix (ParentOf p) @ BaseName p"
    using path_split [OF assms(1,2)] good_componentD(1) by auto
  have find: "str_find (CHR ''.'') ?rest = Some (length (to_string_int ts))"
    by (simp add: str_simps)
  show ?thesis
    using from_chars_to_string [OF assms(3,4)] HiddenNameFor_hidden(1) [OF assms(1,2)] base
    by (simp add: ParseHiddenName_def parts(3,4) find Let_def p [symmetric])
qed

text \<open>
  C39: the paths that \<open>IsValidPath\<close> accepts are the root and the paths rendered
  from a non-empty list of components that are neither empty, nor \<open>.\<close> or
  \<open>..\<close>, and hold no slash.
\<close>

theorem IsValidPath_iff_components:
  "IsValidPath p \<longleftrightarrow>
     p = ''/'' \<or> (\<exists>cs. cs \<noteq> [] \<and> (\<forall>c \<in> set cs. good_component c) \<and> p = render cs)"
proof
  assume "IsValidPath p"
  then show "p = ''/'' \<or> (\<exists>cs. cs \<noteq> [] \<and> (\<forall>c \<in> set cs. good_component c) \<and> p = render cs)"
    by (rule IsValidPath_cases) auto
next
  assume "p = ''/'' \<or> (\<exists>cs. cs \<noteq> [] \<and> (\<forall>c \<in> set cs. good_component c) \<and> p = render cs)"
  then show "IsValidPath p"
    by (auto intro: IsValidPath_rendered) (simp add: IsValidPath_def)
qed

section \<open>Witnesses\<close>

theorem IsValidPath_iff_components_witness: "IsValidPath (render [''a'', ''b'']) \<and> \<not> IsValidPath ''/a/../b''"
proof -
  have "IsValidPath (render [''a'', ''b''])"
    unfolding IsValidPath_iff_components
    by (rule disjI2, rule exI [of _ "[''a'', ''b'']"]) (simp add: good_component_def)
  moreover have "\<not> IsValidPath ''/a/../b''" by code_simp
  ultimately show ?thesis by simp
qed

theorem ParseHiddenName_HiddenNameFor_witness:
  "IsValidPath ''/a/b'' \<and> ParseHiddenName (HiddenNameFor ''/a/b'' 1700000000) = Some (1700000000, ''/a/b'')"
proof -
  have v: "IsValidPath ''/a/b''" by code_simp
  show ?thesis using v ParseHiddenName_HiddenNameFor [OF v, of 1700000000] by simp
qed

end
