(* ===== verification/Namespace.thy ===== *)
theory Namespace
  imports StdMap Paths
begin

text \<open>
  The master's name space, \<open>src/src/master/namespace.cc\<close>: an ordered map from full path
  names to file metadata. Directories are not stored; a directory exists exactly when some
  file lies below it. The lemmas give every scan of the source its meaning as a filter over
  the whole map, and \<open>ns_tree\<close> is the invariant that makes the flat map a tree.
\<close>

section \<open>State\<close>

record file_meta =
  fm_chunks :: "u64 list"

record list_entry =
  le_name :: string
  le_is_directory :: bool

type_synonym name_space = "(string, file_meta) omap"

definition empty_meta :: file_meta where
  "empty_meta = \<lparr>fm_chunks = []\<rparr>"

section \<open>Operations\<close>

definition ns_Find :: "name_space \<Rightarrow> string \<Rightarrow> file_meta option" where
  "ns_Find files path = om_find files path"

definition ns_Exists :: "name_space \<Rightarrow> string \<Rightarrow> bool" where
  "ns_Exists files path \<longleftrightarrow> om_count files path > 0"

definition ns_IsDirectory :: "name_space \<Rightarrow> string \<Rightarrow> bool" where
  "ns_IsDirectory files path =
     (if path = ''/'' then True
      else let pre = ChildPrefix path
           in case om_lower_bound pre files of
                [] \<Rightarrow> False
              | e # _ \<Rightarrow> starts_with pre (fst e))"

definition ns_HasFileAncestor :: "name_space \<Rightarrow> string \<Rightarrow> bool" where
  "ns_HasFileAncestor files path =
     list_ex (\<lambda>a. a \<noteq> ''/'' \<and> ns_Exists files a) (AncestorsOf path)"

definition ns_Insert :: "string \<Rightarrow> file_meta \<Rightarrow> name_space \<Rightarrow> name_space \<times> bool" where
  "ns_Insert path meta files = om_emplace path meta files"

definition ns_Erase :: "string \<Rightarrow> name_space \<Rightarrow> name_space \<times> bool" where
  "ns_Erase path files = (om_erase path files, om_count files path > 0)"

text \<open>The scan of \<open>Subtree\<close>: from the iterator on, stop at the first key without the prefix.\<close>

fun subtree_walk :: "string \<Rightarrow> bool \<Rightarrow> name_space \<Rightarrow> name_space" where
  "subtree_walk pre skip_hidden [] = []"
| "subtree_walk pre skip_hidden (e # it) =
     (if \<not> starts_with pre (fst e) then []
      else if skip_hidden \<and> IsHiddenPath (fst e) then subtree_walk pre skip_hidden it
      else e # subtree_walk pre skip_hidden it)"

definition ns_Subtree :: "name_space \<Rightarrow> string \<Rightarrow> bool \<Rightarrow> name_space" where
  "ns_Subtree files root skip_hidden =
     (case ns_Find files root of
        None \<Rightarrow> []
      | Some self \<Rightarrow> if \<not> skip_hidden \<or> \<not> IsHiddenPath root then [(root, self)] else []) @
     (let pre = ChildPrefix root
      in subtree_walk pre skip_hidden (om_lower_bound pre files))"

text \<open>The scan of \<open>List\<close>.\<close>

fun list_walk :: "string \<Rightarrow> bool \<Rightarrow> string \<Rightarrow> name_space \<Rightarrow> list_entry list" where
  "list_walk pre include_hidden last_directory [] = []"
| "list_walk pre include_hidden last_directory (e # it) =
     (if \<not> starts_with pre (fst e) then []
      else let rest = drop (length pre) (fst e)
           in case str_find slash rest of
                None \<Rightarrow>
                  if \<not> include_hidden \<and> IsHiddenPath (fst e)
                  then list_walk pre include_hidden last_directory it
                  else \<lparr>le_name = rest, le_is_directory = False\<rparr> #
                       list_walk pre include_hidden last_directory it
              | Some s \<Rightarrow>
                  let name = take s rest
                  in if name = last_directory then list_walk pre include_hidden last_directory it
                     else \<lparr>le_name = name, le_is_directory = True\<rparr> #
                          list_walk pre include_hidden name it)"

definition ns_List :: "name_space \<Rightarrow> string \<Rightarrow> bool \<Rightarrow> list_entry list" where
  "ns_List files directory include_hidden =
     (let pre = ChildPrefix directory
      in list_walk pre include_hidden '''' (om_lower_bound pre files))"

text \<open>
  \<open>RenameSubtree\<close>: the entry of the source itself and the range below it are moved out of the
  map into \<open>moved\<close>, then every moved entry is stored under its new name.
\<close>

definition ns_RenameSubtree :: "string \<Rightarrow> string \<Rightarrow> name_space \<Rightarrow> name_space" where
  "ns_RenameSubtree source target files =
     (let self = (case om_find files source of None \<Rightarrow> [] | Some m \<Rightarrow> [(target, m)]);
          files1 = om_erase source files;
          pre = ChildPrefix source;
          range = takeWhile (\<lambda>e. starts_with pre (fst e)) (om_lower_bound pre files1);
          moved = self @ map (\<lambda>e. (ChildPrefix target @ drop (length pre) (fst e), snd e)) range;
          files2 = fold om_erase (map fst range) files1
      in fold (\<lambda>e m. om_assign (fst e) (snd e) m) moved files2)"

definition ns_Clear :: "name_space \<Rightarrow> name_space" where
  "ns_Clear files = []"

section \<open>What the scans compute\<close>

lemma ns_Exists_iff: "ns_Exists files p \<longleftrightarrow> p \<in> om_keys files"
  by (simp add: ns_Exists_def om_count_def om_find_in_keys)

lemma ns_Find_iff: "ns_Find files p = None \<longleftrightarrow> p \<notin> om_keys files"
  by (simp add: ns_Find_def om_find_in_keys)

lemma subtree_walk_filter:
  "subtree_walk pre skip it =
     filter (\<lambda>e. \<not> (skip \<and> IsHiddenPath (fst e))) (takeWhile (\<lambda>e. starts_with pre (fst e)) it)"
  by (induction it) auto

lemma list_walk_takeWhile:
  "list_walk pre incl ld it = list_walk pre incl ld (takeWhile (\<lambda>e. starts_with pre (fst e)) it)"
proof (induction it arbitrary: ld)
  case Nil
  then show ?case by simp
next
  case (Cons e it)
  have eq: "list_walk pre incl l it = list_walk pre incl l (takeWhile (\<lambda>e. starts_with pre (fst e)) it)" for l
    by (rule Cons.IH)
  show ?case
  proof (cases "starts_with pre (fst e)")
    case True
    then show ?thesis
      by (simp only: takeWhile.simps if_True list_walk.simps Let_def eq [of ld]
          eq [of "take i (drop (length pre) (fst e))" for i] not_True_eq_False if_False)
  qed simp
qed

lemma ns_IsDirectory_iff:
  assumes "om_ok files"
  shows "ns_IsDirectory files p \<longleftrightarrow> p = ''/'' \<or> (\<exists>k \<in> om_keys files. below p k)"
proof -
  let ?pre = "ChildPrefix p" and ?lb = "om_lower_bound (ChildPrefix p) files"
  have "(case ?lb of [] \<Rightarrow> False | e # _ \<Rightarrow> starts_with ?pre (fst e)) \<longleftrightarrow>
      takeWhile (\<lambda>e. starts_with ?pre (fst e)) ?lb \<noteq> []"
    by (cases ?lb) auto
  also have "\<dots> \<longleftrightarrow> (\<exists>k \<in> om_keys files. below p k)"
    by (auto simp: om_prefix_range [OF assms] om_keys_def below_def filter_empty_conv)
  finally show ?thesis by (simp add: ns_IsDirectory_def Let_def)
qed

lemma ns_HasFileAncestor_iff:
  assumes "p \<noteq> ''/''" "[] \<notin> om_keys files"
  shows "ns_HasFileAncestor files p \<longleftrightarrow> (\<exists>a \<in> om_keys files. a \<noteq> ''/'' \<and> below a p)"
  using assms
  by (auto simp: ns_HasFileAncestor_def list_ex_iff ns_Exists_iff AncestorsOf_iff below_iff)

lemma ns_Subtree_filter:
  assumes "om_ok files"
  shows "ns_Subtree files root skip =
     (case om_find files root of
        None \<Rightarrow> [] | Some m \<Rightarrow> if skip \<and> IsHiddenPath root then [] else [(root, m)]) @
     filter (\<lambda>e. below root (fst e) \<and> \<not> (skip \<and> IsHiddenPath (fst e))) files"
  by (auto simp: ns_Subtree_def ns_Find_def Let_def subtree_walk_filter om_prefix_range [OF assms]
      below_def filter_filter conj_commute split: option.splits)

section \<open>The name space is a tree\<close>

definition ns_tree :: "name_space \<Rightarrow> bool" where
  "ns_tree files \<longleftrightarrow>
     om_ok files \<and>
     (\<forall>p \<in> om_keys files. IsValidPath p \<and> p \<noteq> ''/'') \<and>
     (\<forall>p \<in> om_keys files. \<forall>q \<in> om_keys files. \<not> below p q)"

lemma not_valid_Nil: "\<not> IsValidPath []"
  by (simp add: IsValidPath_def)

lemma ns_treeD:
  assumes "ns_tree files"
  shows "om_ok files" "[] \<notin> om_keys files" "''/'' \<notin> om_keys files"
    "\<And>p. p \<in> om_keys files \<Longrightarrow> IsValidPath p \<and> p \<noteq> ''/''"
    "\<And>p q. p \<in> om_keys files \<Longrightarrow> q \<in> om_keys files \<Longrightarrow> \<not> below p q"
  using assms not_valid_Nil unfolding ns_tree_def by blast+

lemma ns_tree_Nil [simp]: "ns_tree []"
  by (simp add: ns_tree_def)

text \<open>The guards of the master's \<open>Create\<close>, \<open>Rename\<close> and \<open>Snapshot\<close>: the target is free.\<close>

definition ns_free :: "name_space \<Rightarrow> string \<Rightarrow> bool" where
  "ns_free files p \<longleftrightarrow>
     \<not> ns_Exists files p \<and> \<not> ns_IsDirectory files p \<and> \<not> ns_HasFileAncestor files p"

lemma ns_free_iff:
  assumes "ns_tree files" "p \<noteq> ''/''"
  shows "ns_free files p \<longleftrightarrow>
    p \<notin> om_keys files \<and> (\<forall>k \<in> om_keys files. \<not> below p k \<and> \<not> below k p)"
  using ns_HasFileAncestor_iff [OF assms(2) ns_treeD(2) [OF assms(1)]] ns_treeD(3) [OF assms(1)]
  by (auto simp: ns_free_def ns_Exists_iff ns_IsDirectory_iff [OF ns_treeD(1) [OF assms(1)]] assms(2))

lemma ns_tree_assign:
  assumes "ns_tree files" "ns_free files p" "IsValidPath p" "p \<noteq> ''/''"
  shows "ns_tree (om_assign p m files)"
  using assms ns_treeD [OF assms(1)]
  by (auto simp: ns_tree_def ns_free_iff om_intros)

lemma ns_tree_erase: "ns_tree files \<Longrightarrow> ns_tree (om_erase p files)"
  by (auto simp: ns_tree_def om_intros)

lemma ns_tree_modify: "ns_tree (om_modify p f files) = ns_tree files"
  by (simp add: ns_tree_def)

lemma ns_tree_Insert:
  assumes "ns_tree files" "ns_free files p" "IsValidPath p" "p \<noteq> ''/''"
  shows "ns_tree (fst (ns_Insert p m files))"
  using assms ns_tree_assign by (auto simp: ns_Insert_def om_emplace_def)


section \<open>Renaming a subtree\<close>

lemma map_of_fold_assign:
  "map_of (fold (\<lambda>e m. om_assign (fst e) (snd e) m) xs m) = map_of m ++ map_of (rev xs)"
  by (induction xs arbitrary: m) (auto simp: map_add_def fun_eq_iff map_of_append split: option.splits)

lemma map_of_fold_erase: "map_of (fold om_erase ks m) = (map_of m) |` (- set ks)"
  by (induction ks arbitrary: m) (auto simp: restrict_map_def fun_eq_iff)

lemma om_ok_fold_assign: "om_ok m \<Longrightarrow> om_ok (fold (\<lambda>e m. om_assign (fst e) (snd e) m) xs m)"
  by (rule fold_invariant [where P = om_ok]) (auto intro: om_intros)

lemma om_ok_fold_erase: "om_ok m \<Longrightarrow> om_ok (fold om_erase ks m)"
  by (rule fold_invariant [where P = om_ok]) (auto intro: om_intros)

lemma om_ok_RenameSubtree: "om_ok files \<Longrightarrow> om_ok (ns_RenameSubtree s t files)"
  by (simp add: ns_RenameSubtree_def Let_def om_ok_fold_assign om_ok_fold_erase om_ok_erase)

lemma below_split: "below a p \<longleftrightarrow> (\<exists>r. p = ChildPrefix a @ r)"
  by (auto simp: below_def starts_with_prefix prefix_def)

lemma below_child [simp]: "below a (ChildPrefix a @ r)"
  by (simp add: below_split)

lemma map_of_rev_distinct: "distinct (map fst xs) \<Longrightarrow> map_of (rev xs) x = map_of xs x"
  by (metis distinct_rev map_of_inject_set rev_map set_rev)

lemma map_of_self:
  "t \<notin> set (map fst xs) \<Longrightarrow>
     map_of ((case f of None \<Rightarrow> [] | Some m \<Rightarrow> [(t, m)]) @ xs) x = (if x = t then f else map_of xs x)"
  by (cases f) (auto simp: map_of_eq_None_iff)

lemma map_of_shift:
  "map_of (map (\<lambda>e. (b @ drop (length a) (fst e), snd e)) (filter (\<lambda>e. starts_with a (fst e)) m)) q =
     (if starts_with b q then map_of m (a @ drop (length b) q) else None)"
proof (induction m)
  case Nil
  then show ?case by simp
next
  case (Cons e m)
  show ?case
  proof (cases "starts_with a (fst e)")
    case False
    then have "a @ x \<noteq> fst e" for x by (metis starts_with_append)
    with False Cons show ?thesis by auto
  next
    case True
    then obtain r where "fst e = a @ r" by (rule starts_withE)
    with Cons show ?thesis
      by (auto simp: starts_with_def) (metis append_eq_conv_conj append_take_drop_id)
  qed
qed

lemma distinct_shift:
  assumes "distinct (map fst m)"
  shows "distinct (map fst (map (\<lambda>e. (b @ drop (length a) (fst e), snd e))
           (filter (\<lambda>e. starts_with a (fst e)) m)))"
proof -
  have "distinct (map fst (filter (\<lambda>e. starts_with a (fst e)) m))"
    using assms by (rule distinct_map_filter)
  moreover have "inj_on (\<lambda>k. b @ drop (length a) k) (set (map fst (filter (\<lambda>e. starts_with a (fst e)) m)))"
    by (rule inj_onI) (auto elim!: starts_withE)
  ultimately have "distinct (map (\<lambda>k. b @ drop (length a) k)
      (map fst (filter (\<lambda>e. starts_with a (fst e)) m)))"
    by (subst distinct_map) blast
  then show ?thesis by (simp only: map_map comp_def fst_conv)
qed

text \<open>
  Where the target is free and outside the source, the renamed map holds at the target and
  below it what the source and its subtree held, nothing at or below the source, and
  everything else unchanged.
\<close>

lemma RenameSubtree_lookup:
  assumes "om_ok files" "s \<noteq> ''/''" "t \<noteq> ''/''"
    and free: "\<forall>k \<in> om_keys files. k \<noteq> t \<and> \<not> below t k"
    and out: "s \<noteq> t" "\<not> below s t"
  shows "om_find (ns_RenameSubtree s t files) q =
     (if q = t then om_find files s
      else if below t q then om_find files (ChildPrefix s @ drop (length (ChildPrefix t)) q)
      else if q = s \<or> below s q then None
      else om_find files q)"
proof -
  let ?f1 = "om_erase s files" and ?a = "ChildPrefix s" and ?b = "ChildPrefix t"
  let ?in = "filter (\<lambda>e. starts_with ?a (fst e))"
  let ?sh = "map (\<lambda>e. (?b @ drop (length ?a) (fst e), snd e)) (?in ?f1)"
  let ?self = "case om_find files s of None \<Rightarrow> [] | Some m \<Rightarrow> [(t, m)]"
  have ok1: "om_ok ?f1" using assms(1) by (rule om_ok_erase)
  have "\<not> starts_with ?b t" using below_irrefl [OF assms(3)] by (simp add: below_def)
  then have "t \<noteq> ?b @ r" for r by (metis starts_with_append)
  then have tno: "t \<notin> set (map fst ?sh)" by auto
  have "distinct (map fst ?sh)" by (rule distinct_shift [OF om_ok_distinct [OF ok1]])
  with tno have dist: "distinct (map fst (?self @ ?sh))"
    by (cases "om_find files s") (simp_all only: option.case append.simps list.map distinct.simps
        fst_conv not_False_eq_True simp_thms)
  have moved: "map_of (rev (?self @ ?sh)) x =
      (if x = t then om_find files s
       else if starts_with ?b x then om_find ?f1 (?a @ drop (length ?b) x) else None)" for x
  proof -
    have "map_of (rev (?self @ ?sh)) x = map_of (?self @ ?sh) x"
      by (rule map_of_rev_distinct [OF dist])
    also have "\<dots> = (if x = t then om_find files s else map_of ?sh x)"
      by (rule map_of_self [OF tno])
    finally show ?thesis by (simp only: map_of_shift)
  qed
  have res: "ns_RenameSubtree s t files = fold (\<lambda>e m. om_assign (fst e) (snd e) m) (?self @ ?sh)
      (fold om_erase (map fst (?in ?f1)) ?f1)"
    by (simp only: ns_RenameSubtree_def Let_def om_prefix_range [OF ok1])
  have rest: "map_of (fold om_erase (map fst (?in ?f1)) ?f1) x =
      (if x = s \<or> starts_with ?a x then None else om_find files x)" for x
  proof -
    have "x \<in> set (map fst (?in ?f1)) \<longleftrightarrow> starts_with ?a x \<and> x \<in> om_keys ?f1"
      by (force simp: om_keys_def)
    moreover have "x \<notin> om_keys ?f1 \<Longrightarrow> om_find ?f1 x = None" by (rule om_find_NoneI)
    ultimately show ?thesis
      by (simp only: map_of_fold_erase restrict_map_def Compl_iff map_of_erase) (auto split: if_splits)
  qed
  have sne: "?a @ r \<noteq> s" for r
    using below_irrefl [OF assms(2)] below_child [of s r] by metis
  have none: "om_find files q = None" if "q = t \<or> below t q"
    using that free by (metis om_find_in_keys)
  have eq: "om_find (ns_RenameSubtree s t files) q =
      (case (if q = t then om_find files s
             else if starts_with ?b q then om_find ?f1 (?a @ drop (length ?b) q) else None) of
         None \<Rightarrow> if q = s \<or> starts_with ?a q then None else om_find files q
       | Some m \<Rightarrow> Some m)"
    by (simp only: res map_of_fold_assign map_add_def moved rest)
  have f1: "om_find ?f1 (?a @ r) = om_find files (?a @ r)" for r
    using sne [of r] by simp
  consider "q = t" | "q \<noteq> t" "starts_with ?b q" | "q \<noteq> t" "\<not> starts_with ?b q" by blast
  then show ?thesis
  proof cases
    case 1
    show ?thesis
      unfolding eq using 1 none by (cases "om_find files s") simp_all
  next
    case 2
    show ?thesis
      unfolding eq f1 using 2 none
      by (cases "om_find files (?a @ drop (length ?b) q)") (simp_all add: below_def)
  next
    case 3
    then show ?thesis by (simp add: eq below_def)
  qed
qed

text \<open>A renamed path is valid: its components are the target's and the moved rest.\<close>

lemma valid_graft:
  assumes "IsValidPath s" "s \<noteq> ''/''" "IsValidPath t" "t \<noteq> ''/''"
    "IsValidPath (ChildPrefix s @ r)"
  shows "IsValidPath (ChildPrefix t @ r)"
proof -
  obtain ss where ss: "ss \<noteq> []" "\<forall>c \<in> set ss. good_component c" "s = render ss"
    using assms(1,2) by (auto elim: IsValidPath_cases)
  obtain ts where ts: "ts \<noteq> []" "\<forall>c \<in> set ts. good_component c" "t = render ts"
    using assms(3,4) by (auto elim: IsValidPath_cases)
  obtain rs where rs: "rs \<noteq> []" "slash # r = render rs" "\<forall>c \<in> set rs. slash \<notin> set c"
    using render_split [of "slash # r"] by auto
  have grafted: "IsValidPath (ChildPrefix (render us) @ r) \<longleftrightarrow> (\<forall>c \<in> set rs. good_component c)"
    if "us \<noteq> []" "\<forall>c \<in> set us. good_component c" for us
  proof -
    have "ChildPrefix (render us) @ r = render (us @ rs)"
      using render_not_root [OF that(2)] rs(2) by (simp add: ChildPrefix_def)
    moreover have "us @ rs \<noteq> [[]]" using that rs(1) by (cases us) auto
    ultimately show ?thesis
      using IsValidPath_render [of "us @ rs"] that rs(3) by (auto dest: good_componentD)
  qed
  with ss ts assms(5) show ?thesis by simp
qed

lemma ChildPrefix_not_root: "t \<noteq> [] \<Longrightarrow> t \<noteq> ''/'' \<Longrightarrow> ChildPrefix t @ r \<noteq> ''/''"
  by (cases t) (auto simp: ChildPrefix_def)

lemma below_graft:
  assumes "s \<noteq> ''/''" "t \<noteq> ''/''" "s \<noteq> []" "t \<noteq> []"
  shows "below (ChildPrefix t @ x) (ChildPrefix t @ y) \<longleftrightarrow> below (ChildPrefix s @ x) (ChildPrefix s @ y)"
  using ChildPrefix_not_root [OF assms(3,1)] ChildPrefix_not_root [OF assms(4,2)]
  by (simp add: below_iff prefix_def)

text \<open>
  Any ordered map whose keys are old keys or old keys moved from \<open>s\<close> to the free path \<open>t\<close>
  is a tree again. Both \<open>Rename\<close> and \<open>Snapshot\<close> produce such a map.
\<close>

definition grafted :: "name_space \<Rightarrow> string \<Rightarrow> string \<Rightarrow> string \<Rightarrow> bool" where
  "grafted files s t q \<longleftrightarrow> q \<in> om_keys files \<or> (q = t \<and> s \<in> om_keys files) \<or>
     (\<exists>r. q = ChildPrefix t @ r \<and> ChildPrefix s @ r \<in> om_keys files)"

lemma graftedE:
  assumes "grafted files s t q"
  obtains "q = t" "s \<in> om_keys files"
  | r where "q = ChildPrefix t @ r" "ChildPrefix s @ r \<in> om_keys files"
  | "q \<in> om_keys files"
  using assms by (auto simp: grafted_def)

lemma ns_tree_graft:
  assumes "ns_tree files" "IsValidPath s" "s \<noteq> ''/''" "IsValidPath t" "t \<noteq> ''/''"
    and "ns_free files t" "om_ok new" and new: "\<And>q. q \<in> om_keys new \<Longrightarrow> grafted files s t q"
  shows "ns_tree new"
proof -
  note tree = ns_treeD [OF assms(1)]
  have tne: "t \<noteq> []" and sne: "s \<noteq> []" using assms(2,4) not_valid_Nil by auto
  have free: "k \<noteq> t" "\<not> below t k" "\<not> below k t" if "k \<in> om_keys files" for k
    using that assms(6) by (auto simp: ns_free_iff [OF assms(1,5)])
  have old: "\<not> below k (ChildPrefix t @ r)" if "k \<in> om_keys files" for k r
    using below_linear [of k t "ChildPrefix t @ r"] free [OF that] tree(4) [OF that] assms(5) by auto
  have valid: "IsValidPath q \<and> q \<noteq> ''/''" if "grafted files s t q" for q
    using that
  proof (rule graftedE)
    fix r assume q: "q = ChildPrefix t @ r" and "ChildPrefix s @ r \<in> om_keys files"
    then have "IsValidPath q" using tree(4) valid_graft [OF assms(2-5)] by auto
    moreover have "q \<noteq> ''/''" using q ChildPrefix_not_root [OF tne assms(5)] by simp
    ultimately show "IsValidPath q \<and> q \<noteq> ''/''" by blast
  qed (use assms(4,5) tree(4) in auto)
  have apart: "\<not> below p q" if pq: "grafted files s t p" "grafted files s t q" for p q
    using pq(1)
  proof (rule graftedE)
    assume p: "p = t" "s \<in> om_keys files"
    have "ChildPrefix s @ r \<notin> om_keys files" for r
      using tree(5) [OF p(2)] below_child by blast
    with pq(2) free p assms(5) show "\<not> below p q"
      by (elim graftedE) auto
  next
    fix r assume p: "p = ChildPrefix t @ r" "ChildPrefix s @ r \<in> om_keys files"
    have pt: "below t p" using p by simp
    have below_t: "below t q" if "below p q" using below_trans [OF assms(5) pt that] .
    from pq(2) show "\<not> below p q"
    proof (rule graftedE)
      fix r' assume "q = ChildPrefix t @ r'" "ChildPrefix s @ r' \<in> om_keys files"
      with p tree(5) show "\<not> below p q" using below_graft [OF assms(3,5) sne tne] by blast
    qed (use below_t free below_irrefl [OF assms(5)] in blast)+
  next
    assume p: "p \<in> om_keys files"
    from pq(2) show "\<not> below p q"
      by (rule graftedE) (use p free old tree(5) in auto)
  qed
  show ?thesis
    using valid apart new assms(7) by (auto simp: ns_tree_def)
qed

text \<open>Renaming under the master's guards keeps the tree.\<close>

lemma RenameSubtree_grafted:
  assumes "ns_tree files" "s \<noteq> ''/''" "t \<noteq> ''/''" "ns_free files t" "s \<noteq> t" "\<not> below s t"
    and "q \<in> om_keys (ns_RenameSubtree s t files)"
  shows "grafted files s t q"
proof -
  have free: "\<forall>k \<in> om_keys files. k \<noteq> t \<and> \<not> below t k"
    using assms(4) by (auto simp: ns_free_iff [OF assms(1,3)])
  show ?thesis
    using RenameSubtree_lookup [OF ns_treeD(1) [OF assms(1)] assms(2,3) free assms(5,6), of q] assms(7)
    by (auto simp: grafted_def om_find_in_keys below_split split: if_splits)
qed

lemma ns_tree_RenameSubtree:
  assumes "ns_tree files" "IsValidPath s" "s \<noteq> ''/''" "IsValidPath t" "t \<noteq> ''/''"
    and "ns_free files t" "s \<noteq> t" "\<not> below s t"
  shows "ns_tree (ns_RenameSubtree s t files)"
  using ns_tree_graft [OF assms(1-6) om_ok_RenameSubtree [OF ns_treeD(1) [OF assms(1)]]]
    RenameSubtree_grafted [OF assms(1,3,5,6,7,8)] by blast

text \<open>Renaming back restores the name space.\<close>

lemma RenameSubtree_undo:
  assumes "ns_tree files" "s \<noteq> ''/''" "t \<noteq> ''/''"
    and "ns_free files t" "s \<noteq> t" "\<not> below s t" "\<not> below t s"
  shows "ns_RenameSubtree t s (ns_RenameSubtree s t files) = files"
proof -
  let ?new = "ns_RenameSubtree s t files"
  have ok: "om_ok files" by (rule ns_treeD [OF assms(1)])
  have free: "\<forall>k \<in> om_keys files. k \<noteq> t \<and> \<not> below t k"
    using assms(4) by (auto simp: ns_free_iff [OF assms(1,3)])
  note look = RenameSubtree_lookup [OF ok assms(2,3) free assms(5,6)]
  have none: "om_find files q = None" if "q = t \<or> below t q" for q
    using that free by (metis om_find_in_keys)
  have out: "\<not> below t (ChildPrefix s @ r)" "ChildPrefix s @ r \<noteq> t" for r
    using below_linear [OF assms(3,2), of "ChildPrefix s @ r"] assms(5-7) by auto
  have gone: "\<forall>k \<in> om_keys ?new. k \<noteq> s \<and> \<not> below s k"
  proof
    fix k assume "k \<in> om_keys ?new"
    then have "om_find ?new k \<noteq> None" by (simp add: om_find_in_keys)
    with look [of k] assms(5,7) out below_split [of s k] show "k \<noteq> s \<and> \<not> below s k"
      by (auto split: if_splits)
  qed
  have "om_find (ns_RenameSubtree t s ?new) q = om_find files q" for q
  proof -
    have tno: "ChildPrefix t @ r \<noteq> t" for r
      using below_irrefl [OF assms(3)] below_child [of t r] by metis
    note bk = RenameSubtree_lookup [OF om_ok_RenameSubtree [OF ok] assms(3,2) gone
        assms(5) [symmetric] assms(7), of q]
    consider "q = s" | "q \<noteq> s" "below s q" | "q \<noteq> s" "\<not> below s q" by blast
    then show ?thesis
    proof cases
      case 1
      with bk look [of t] show ?thesis by simp
    next
      case 2
      then obtain r where q: "q = ChildPrefix s @ r" by (auto simp: below_split)
      with bk 2 have "om_find (ns_RenameSubtree t s ?new) q = om_find ?new (ChildPrefix t @ r)" by simp
      also have "\<dots> = om_find files q" using look [of "ChildPrefix t @ r"] tno q by simp
      finally show ?thesis .
    next
      case 3
      with bk have "om_find (ns_RenameSubtree t s ?new) q =
          (if q = t \<or> below t q then None else om_find ?new q)" by simp
      with none [of q] look [of q] 3 show ?thesis by simp
    qed
  qed
  then show ?thesis
    by (intro om_ext om_ok_RenameSubtree ok) (rule ext)
qed

text \<open>
  Renaming a subtree of a well-formed name space to a free place and back restores the
  name space.
\<close>

lemma RenameSubtree_back:
  assumes "ns_tree files" "s \<noteq> ''/''" "t \<noteq> ''/''"
    and "ns_free files t" "s \<noteq> t" "\<not> below s t" "\<not> below t s"
  shows "ns_RenameSubtree t s (ns_RenameSubtree s t files) = files"
  using assms by (rule RenameSubtree_undo)

section \<open>Listing a directory\<close>

lemma list_walk_files:
  assumes "\<forall>e \<in> set it. starts_with pre (fst e)"
  shows "\<lparr>le_name = n, le_is_directory = False\<rparr> \<in> set (list_walk pre incl ld it) \<longleftrightarrow>
     slash \<notin> set n \<and> pre @ n \<in> om_keys it \<and> (incl \<or> \<not> IsHiddenPath (pre @ n))"
  using assms
proof (induction it arbitrary: ld)
  case Nil
  then show ?case by simp
next
  case (Cons e it)
  then obtain r where r: "fst e = pre @ r" by (auto elim: starts_withE)
  show ?case
  proof (cases "str_find slash r")
    case None
    then have "slash \<notin> set r" by (simp add: str_simps)
    with None Cons r show ?thesis by (auto simp: Let_def)
  next
    case (Some i)
    then have "slash \<in> set r" by (metis option.distinct(1) str_find_None)
    with Some Cons r show ?thesis by (auto simp: Let_def)
  qed
qed

text \<open>The name of the child directory through which the path \<open>pre @ r\<close> goes.\<close>

lemma str_find_dir:
  "str_find slash r = Some i \<and> take i r = n \<longleftrightarrow> slash \<notin> set n \<and> i = length n \<and> prefix (n @ [slash]) r"
proof
  assume "str_find slash r = Some i \<and> take i r = n"
  with str_find_split [of slash r i] show "slash \<notin> set n \<and> i = length n \<and> prefix (n @ [slash]) r"
    by (metis append_eq_conv_conj length_take min.absorb4 prefix_def append.assoc append_Cons append_Nil)
next
  assume "slash \<notin> set n \<and> i = length n \<and> prefix (n @ [slash]) r"
  then show "str_find slash r = Some i \<and> take i r = n"
    by (auto simp: prefix_def str_simps)
qed

lemma list_walk_dirD:
  assumes "\<forall>e \<in> set it. starts_with pre (fst e)"
    and "\<lparr>le_name = n, le_is_directory = True\<rparr> \<in> set (list_walk pre incl ld it)"
  shows "slash \<notin> set n \<and> (\<exists>k \<in> om_keys it. prefix (pre @ n @ [slash]) k)"
  using assms
proof (induction it arbitrary: ld)
  case Nil
  then show ?case by simp
next
  case (Cons e it)
  then obtain r where r: "fst e = pre @ r" by (auto elim: starts_withE)
  show ?case
  proof (cases "str_find slash r")
    case None
    with Cons r show ?thesis by (auto simp: Let_def split: if_splits)
  next
    case (Some i)
    with Cons r str_find_dir [of r i "take i r"] show ?thesis
      by (auto simp: Let_def split: if_splits)
  qed
qed

lemma list_walk_dirI:
  assumes "\<forall>e \<in> set it. starts_with pre (fst e)"
    and "slash \<notin> set n" "k \<in> om_keys it" "prefix (pre @ n @ [slash]) k"
  shows "n = ld \<or> \<lparr>le_name = n, le_is_directory = True\<rparr> \<in> set (list_walk pre incl ld it)"
  using assms
proof (induction it arbitrary: ld)
  case Nil
  then show ?case by simp
next
  case (Cons e it)
  then obtain r where r: "fst e = pre @ r" by (auto elim: starts_withE)
  show ?case
  proof (cases "k = fst e")
    case True
    with Cons.prems r str_find_dir [of r "length n" n] show ?thesis by (auto simp: Let_def)
  next
    case False
    with Cons.prems have later: "n = l \<or> \<lparr>le_name = n, le_is_directory = True\<rparr> \<in> set (list_walk pre incl l it)" for l
      by (intro Cons.IH) auto
    show ?thesis
    proof (cases "str_find slash r")
      case None
      with later [of ld] r show ?thesis by (auto simp: Let_def)
    next
      case (Some i)
      with later [of ld] later [of "take i r"] r show ?thesis by (auto simp: Let_def)
    qed
  qed
qed

text \<open>
  The scan reports a child directory once: the keys below one child are an interval of the
  order, so comparing with the last reported directory is enough.
\<close>

lemma list_walk_last_directory:
  assumes "om_ok it" "\<forall>e \<in> set it. starts_with pre (fst e)"
    and "prefix (pre @ ld @ [slash]) k0" "\<forall>k \<in> om_keys it. k0 < k"
  shows "\<lparr>le_name = ld, le_is_directory = True\<rparr> \<notin> set (list_walk pre incl ld it)"
  using assms
proof (induction it)
  case Nil
  then show ?case by simp
next
  case (Cons e it)
  then obtain r where r: "fst e = pre @ r" by (auto elim: starts_withE)
  have it: "\<forall>e \<in> set it. starts_with pre (fst e)" using Cons.prems by simp
  show ?case
  proof (cases "prefix (pre @ ld @ [slash]) (fst e)")
    case True
    show ?thesis
    proof (cases "slash \<in> set ld")
      case False
      with True r have "str_find slash r = Some (length ld)" "take (length ld) r = ld"
        using str_find_dir [of r "length ld" ld] by auto
      with Cons r show ?thesis by (auto simp: Let_def om_ok_Cons)
    next
      case True
      then show ?thesis using list_walk_dirD [OF Cons.prems(2)] by blast
    qed
  next
    case False
    have no: "\<not> prefix (pre @ ld @ [slash]) k" if "k \<in> om_keys (e # it)" for k
    proof (cases "k = fst e")
      case other: False
      show ?thesis
      proof
        assume k: "prefix (pre @ ld @ [slash]) k"
        have "k0 \<le> fst e" "fst e \<le> k" using Cons.prems that other by (auto simp: om_ok_Cons)
        with k Cons.prems(3) have "prefix (pre @ ld @ [slash]) (fst e)"
          by (meson order_trans prefix_imp_le prefix_interval)
        with False show "False" by blast
      qed
    qed (use False in simp)
    then show ?thesis using list_walk_dirD [OF Cons.prems(2)] by blast
  qed
qed

lemma list_walk_distinct:
  assumes "om_ok it" "\<forall>e \<in> set it. starts_with pre (fst e)"
  shows "distinct (list_walk pre incl ld it)"
  using assms
proof (induction it arbitrary: ld)
  case Nil
  then show ?case by simp
next
  case (Cons e it)
  then obtain r where r: "fst e = pre @ r" by (auto elim: starts_withE)
  have it: "om_ok it" "\<forall>e \<in> set it. starts_with pre (fst e)" "\<forall>k \<in> om_keys it. fst e < k"
    using Cons.prems by (auto simp: om_ok_Cons)
  then have "pre @ r \<notin> om_keys it" using r by auto
  with it(2) have fresh: "\<lparr>le_name = r, le_is_directory = False\<rparr> \<notin> set (list_walk pre incl ld it)"
    by (simp add: list_walk_files)
  have dir: "\<lparr>le_name = take i r, le_is_directory = True\<rparr> \<notin> set (list_walk pre incl (take i r) it)"
    if "str_find slash r = Some i" for i
    using list_walk_last_directory [OF it(1,2), of "take i r" "fst e" incl] it(3) r
      str_find_dir [of r i "take i r"] that by auto
  show ?case
    using Cons.IH [OF it(1,2)] fresh dir r Cons.prems(2) by (auto simp: Let_def split: option.split)
qed

text \<open>
  \<open>List\<close> is a correct directory listing: every visible file in the directory and every
  child directory, each once, and nothing else.
\<close>

lemma ns_List_walk:
  assumes "om_ok files"
  shows "ns_List files d incl = list_walk (ChildPrefix d) incl '''' (filter (\<lambda>e. below d (fst e)) files)"
  using list_walk_takeWhile [of "ChildPrefix d" incl "''''" "om_lower_bound (ChildPrefix d) files"]
  by (simp add: ns_List_def Let_def om_prefix_range [OF assms] below_def)

lemma below_keys: "k \<in> om_keys (filter (\<lambda>e. below d (fst e)) files) \<longleftrightarrow> k \<in> om_keys files \<and> below d k"
  by (auto simp: om_keys_def)

text \<open>
  A listing of a directory shows a file exactly when it is directly below the directory,
  and a hidden one only on request.
\<close>

lemma ns_List_files:
  assumes "om_ok files"
  shows "\<lparr>le_name = n, le_is_directory = False\<rparr> \<in> set (ns_List files d incl) \<longleftrightarrow>
     slash \<notin> set n \<and> ns_Exists files (ChildPrefix d @ n) \<and> (incl \<or> \<not> IsHiddenPath (ChildPrefix d @ n))"
proof -
  have "\<forall>e \<in> set (filter (\<lambda>e. below d (fst e)) files). starts_with (ChildPrefix d) (fst e)"
    by (simp add: below_def)
  then show ?thesis
    by (simp add: ns_List_walk [OF assms] list_walk_files below_keys ns_Exists_iff)
qed

text \<open>
  A listing of a directory shows a subdirectory exactly when some file lies below it.
\<close>

lemma ns_List_directories:
  assumes "om_ok files" "n \<noteq> []" 
  shows "\<lparr>le_name = n, le_is_directory = True\<rparr> \<in> set (ns_List files d incl) \<longleftrightarrow>
     slash \<notin> set n \<and> ns_IsDirectory files (ChildPrefix d @ n)"
proof -
  let ?in = "filter (\<lambda>e. below d (fst e)) files"
  have all: "\<forall>e \<in> set ?in. starts_with (ChildPrefix d) (fst e)"
    by (simp add: below_def)
  have ne: "ChildPrefix d @ n \<noteq> ''/''" using assms(2) by (cases d) (auto simp: ChildPrefix_def)
  then have cp: "below (ChildPrefix d @ n) k \<longleftrightarrow> prefix (ChildPrefix d @ n @ [slash]) k" for k
    by (simp add: below_iff)
  have "below d k" if "prefix (ChildPrefix d @ n @ [slash]) k" for k
    using that by (auto simp: prefix_def below_split)
  then have "ns_IsDirectory files (ChildPrefix d @ n) \<longleftrightarrow>
      (\<exists>k \<in> om_keys ?in. prefix (ChildPrefix d @ n @ [slash]) k)"
    using ne by (auto simp: ns_IsDirectory_iff [OF assms(1)] below_keys cp)
  then show ?thesis
    using list_walk_dirD [OF all, of n incl "''''"] list_walk_dirI [OF all, of n _ "''''" incl] assms(2)
    by (auto simp: ns_List_walk [OF assms(1)])
qed

lemma ns_List_distinct: "om_ok files \<Longrightarrow> distinct (ns_List files d incl)"
  by (simp add: ns_List_walk list_walk_distinct om_intros below_def)

section \<open>Renaming, as lookups\<close>

lemma RenameSubtree_moves:
  assumes "ns_tree files" "IsValidPath s" "s \<noteq> ''/''" "IsValidPath t" "t \<noteq> ''/''"
    and "ns_free files t" "s \<noteq> t" "\<not> below s t"
  shows "ns_tree (ns_RenameSubtree s t files) \<and> ns_Find (ns_RenameSubtree s t files) q =
      (if q = t then ns_Find files s
       else if below t q then ns_Find files (ChildPrefix s @ drop (length (ChildPrefix t)) q)
       else if q = s \<or> below s q then None
       else ns_Find files q)"
proof -
  have tree: "ns_tree (ns_RenameSubtree s t files)" using assms by (rule ns_tree_RenameSubtree)
  have free: "\<forall>k \<in> om_keys files. k \<noteq> t \<and> \<not> below t k"
    using assms(6) by (auto simp: ns_free_iff [OF assms(1,5)])
  have "ns_Find (ns_RenameSubtree s t files) q =
      (if q = t then ns_Find files s
       else if below t q then ns_Find files (ChildPrefix s @ drop (length (ChildPrefix t)) q)
       else if q = s \<or> below s q then None
       else ns_Find files q)"
    unfolding ns_Find_def by (rule RenameSubtree_lookup [OF ns_treeD(1) [OF assms(1)] assms(3,5) free assms(7,8)])
  with tree show ?thesis by blast
qed

text \<open>
  C37: after a rename to a free place, what lay under the source is found under the target and
  nowhere else, and every other path is unchanged; the name space stays well formed.
\<close>

theorem rename_moves:
  assumes "ns_tree files" "IsValidPath s" "s \<noteq> ''/''" "IsValidPath t" "t \<noteq> ''/''"
    and "ns_free files t" "s \<noteq> t" "\<not> below s t"
  shows "ns_tree (ns_RenameSubtree s t files) \<and> ns_Find (ns_RenameSubtree s t files) q =
      (if q = t then ns_Find files s
       else if below t q then ns_Find files (ChildPrefix s @ drop (length (ChildPrefix t)) q)
       else if q = s \<or> below s q then None
       else ns_Find files q)"
  using assms by (rule RenameSubtree_moves)

section \<open>Witnesses\<close>

text \<open>A name space with the files \<open>/a/x\<close> and \<open>/b\<close>.\<close>

definition two_files :: name_space where
  "two_files = [(''/a/x'', \<lparr>fm_chunks = [7]\<rparr>), (''/b'', \<lparr>fm_chunks = []\<rparr>)]"

lemma two_files_ok: "om_ok two_files" "ns_tree two_files" "ns_free two_files ''/c''"
  by code_simp+

theorem rename_moves_witness:
  "ns_tree (ns_RenameSubtree ''/a'' ''/c'' two_files) \<and>
   ns_Find (ns_RenameSubtree ''/a'' ''/c'' two_files) ''/c/x'' = Some \<lparr>fm_chunks = [7]\<rparr>"
proof -
  have "IsValidPath ''/a''" "IsValidPath ''/c''" "\<not> below ''/a'' ''/c''" by code_simp+
  from rename_moves [OF two_files_ok(2) this(1) _ this(2) _ two_files_ok(3) _ this(3), of "''/c/x''"]
  have "ns_tree (ns_RenameSubtree ''/a'' ''/c'' two_files)" by simp
  moreover have "ns_Find (ns_RenameSubtree ''/a'' ''/c'' two_files) ''/c/x'' = Some \<lparr>fm_chunks = [7]\<rparr>" by code_simp
  ultimately show ?thesis ..
qed

theorem RenameSubtree_back_witness:
  "ns_RenameSubtree ''/c'' ''/a'' (ns_RenameSubtree ''/a'' ''/c'' two_files) = two_files"
proof -
  have "\<not> below ''/a'' ''/c''" "\<not> below ''/c'' ''/a''" by code_simp+
  with RenameSubtree_back [OF two_files_ok(2), of "''/a''" "''/c''"] two_files_ok(3) show ?thesis by simp
qed

theorem ns_List_files_witness:
  "\<lparr>le_name = ''b'', le_is_directory = False\<rparr> \<in> set (ns_List two_files ''/'' False)"
  unfolding ns_List_files [OF two_files_ok(1)] by code_simp

theorem ns_List_directories_witness:
  "\<lparr>le_name = ''a'', le_is_directory = True\<rparr> \<in> set (ns_List two_files ''/'' False)"
  using ns_List_directories [OF two_files_ok(1), of "''a''" "''/''" False] by code_simp

end
