(* ===== verification/ChunkTable.thy ===== *)
theory ChunkTable
  imports StdMap
begin

text \<open>
  The master's chunk table, \<open>src/src/master/chunk_table.cc\<close>: chunk metadata by handle, with a
  reverse index from a chunkserver to the handles it holds. The invariant \<open>ct_ok\<close> says that
  the reverse index is exact: it holds no stale handle, misses none, and has no empty set.
\<close>

section \<open>State\<close>

record lease =
  ls_primary :: string
  ls_expiry :: time_point
  ls_revoked :: bool

record chunk_meta =
  cm_version :: u64
  cm_refcount :: u32
  cm_pending :: bool
  cm_granting :: bool
  cm_locations :: "(string, time_point) omap"
  cm_lease :: "lease option"

record chunk_table =
  ct_chunks :: "(u64, chunk_meta) omap"
  ct_held_by :: "(string, u64 list) omap"

definition new_chunk :: chunk_meta where
  "new_chunk = \<lparr>cm_version = 1, cm_refcount = 0, cm_pending = False, cm_granting = False,
     cm_locations = [], cm_lease = None\<rparr>"

definition empty_chunk_table :: chunk_table where
  "empty_chunk_table = \<lparr>ct_chunks = [], ct_held_by = []\<rparr>"

section \<open>Operations\<close>

definition ct_Find :: "chunk_table \<Rightarrow> u64 \<Rightarrow> chunk_meta option" where
  "ct_Find t handle = om_find (ct_chunks t) handle"

text \<open>An assignment through the pointer or reference that \<open>Find\<close> or \<open>Create\<close> returned.\<close>

definition ct_update :: "u64 \<Rightarrow> (chunk_meta \<Rightarrow> chunk_meta) \<Rightarrow> chunk_table \<Rightarrow> chunk_table" where
  "ct_update handle f t = t\<lparr>ct_chunks := om_modify handle f (ct_chunks t)\<rparr>"

definition ct_Create :: "u64 \<Rightarrow> u64 \<Rightarrow> chunk_table \<Rightarrow> chunk_table" where
  "ct_Create handle version t =
     t\<lparr>ct_chunks := fst (om_emplace handle (new_chunk\<lparr>cm_version := version\<rparr>) (ct_chunks t))\<rparr>"

text \<open>The common end of \<open>Erase\<close> and \<open>RemoveLocation\<close>: take one handle out of the reverse index.\<close>

definition held_erase :: "u64 \<Rightarrow> string \<Rightarrow> (string, u64 list) omap \<Rightarrow> (string, u64 list) omap" where
  "held_erase handle server held_by =
     (case om_find held_by server of
        None \<Rightarrow> held_by
      | Some held \<Rightarrow>
          let held' = os_erase handle held
          in if held' = [] then om_erase server held_by else om_assign server held' held_by)"

definition ct_Erase :: "u64 \<Rightarrow> chunk_table \<Rightarrow> chunk_table" where
  "ct_Erase handle t =
     (case ct_Find t handle of
        None \<Rightarrow> t
      | Some meta \<Rightarrow>
          \<lparr>ct_chunks = om_erase handle (ct_chunks t),
           ct_held_by = fold (held_erase handle) (map fst (cm_locations meta)) (ct_held_by t)\<rparr>)"

definition ct_AddLocation :: "u64 \<Rightarrow> string \<Rightarrow> time_point \<Rightarrow> chunk_table \<Rightarrow> chunk_table \<times> bool" where
  "ct_AddLocation handle chunkserver when t =
     (case ct_Find t handle of
        None \<Rightarrow> (t, False)
      | Some meta \<Rightarrow>
          let (locations, inserted) = om_emplace chunkserver when (cm_locations meta)
          in if inserted then
               (\<lparr>ct_chunks = om_modify handle (cm_locations_update (\<lambda>_. locations)) (ct_chunks t),
                 ct_held_by = om_assign chunkserver
                   (os_insert handle (case om_find (ct_held_by t) chunkserver of None \<Rightarrow> [] | Some hs \<Rightarrow> hs))
                   (ct_held_by t)\<rparr>, True)
             else (t, False))"

definition ct_RemoveLocation :: "u64 \<Rightarrow> string \<Rightarrow> chunk_table \<Rightarrow> chunk_table \<times> bool" where
  "ct_RemoveLocation handle chunkserver t =
     (case ct_Find t handle of
        None \<Rightarrow> (t, False)
      | Some meta \<Rightarrow>
          if om_count (cm_locations meta) chunkserver = 0 then (t, False)
          else
            (\<lparr>ct_chunks = om_modify handle (cm_locations_update (om_erase chunkserver)) (ct_chunks t),
              ct_held_by = held_erase handle chunkserver (ct_held_by t)\<rparr>, True))"

definition ct_HeldBy :: "chunk_table \<Rightarrow> string \<Rightarrow> u64 list" where
  "ct_HeldBy t chunkserver =
     (case om_find (ct_held_by t) chunkserver of None \<Rightarrow> [] | Some hs \<Rightarrow> hs)"

definition ct_HeldCount :: "chunk_table \<Rightarrow> string \<Rightarrow> nat" where
  "ct_HeldCount t chunkserver =
     (case om_find (ct_held_by t) chunkserver of None \<Rightarrow> 0 | Some hs \<Rightarrow> length hs)"

definition ct_Size :: "chunk_table \<Rightarrow> nat" where
  "ct_Size t = length (ct_chunks t)"

definition ct_Clear :: "chunk_table \<Rightarrow> chunk_table" where
  "ct_Clear t = empty_chunk_table"

section \<open>The invariant\<close>

text \<open>The servers that the chunk itself records, and the exactness of the reverse index.\<close>

definition holders :: "chunk_table \<Rightarrow> u64 \<Rightarrow> string set" where
  "holders t h = (case ct_Find t h of None \<Rightarrow> {} | Some m \<Rightarrow> om_keys (cm_locations m))"

definition ct_ok :: "chunk_table \<Rightarrow> bool" where
  "ct_ok t \<longleftrightarrow>
     om_ok (ct_chunks t) \<and> om_ok (ct_held_by t) \<and>
     (\<forall>h m. ct_Find t h = Some m \<longrightarrow> om_ok (cm_locations m)) \<and>
     (\<forall>s hs. om_find (ct_held_by t) s = Some hs \<longrightarrow> hs \<noteq> [] \<and> os_ok hs) \<and>
     (\<forall>s h. h \<in> set (ct_HeldBy t s) \<longleftrightarrow> s \<in> holders t h)"

lemma ct_okD:
  assumes "ct_ok t"
  shows "om_ok (ct_chunks t)" "om_ok (ct_held_by t)"
    "\<And>h m. ct_Find t h = Some m \<Longrightarrow> om_ok (cm_locations m)"
    "\<And>s hs. om_find (ct_held_by t) s = Some hs \<Longrightarrow> hs \<noteq> [] \<and> os_ok hs"
    "\<And>s h. h \<in> set (ct_HeldBy t s) \<longleftrightarrow> s \<in> holders t h"
  using assms by (auto simp: ct_ok_def)

named_theorems ct_simps \<open>lookups in an updated chunk table\<close>

lemma ct_Find_update [ct_simps]:
  "ct_Find (ct_update h f t) h' = (if h' = h then map_option f (ct_Find t h) else ct_Find t h')"
  by (simp add: ct_Find_def ct_update_def)

lemma ct_Find_Create [ct_simps]:
  "ct_Find (ct_Create h v t) h' =
     (if h' = h then Some (case ct_Find t h of None \<Rightarrow> new_chunk\<lparr>cm_version := v\<rparr> | Some m \<Rightarrow> m)
      else ct_Find t h')"
  by (auto simp: ct_Find_def ct_Create_def om_emplace_def)

lemma ct_Find_Erase [ct_simps]:
  "ct_Find (ct_Erase h t) h' = (if h' = h then None else ct_Find t h')"
  by (auto simp: ct_Find_def ct_Erase_def split: option.split)

lemma ct_Find_AddLocation [ct_simps]:
  "ct_Find (fst (ct_AddLocation h s w t)) h' =
     (if h' = h then map_option (cm_locations_update (\<lambda>l. fst (om_emplace s w l))) (ct_Find t h)
      else ct_Find t h')"
  by (auto simp: ct_Find_def ct_AddLocation_def om_emplace_def split: option.split)

lemma ct_Find_RemoveLocation [ct_simps]:
  "ct_Find (fst (ct_RemoveLocation h s t)) h' =
     (if h' = h then map_option (cm_locations_update (om_erase s)) (ct_Find t h)
      else ct_Find t h')"
  by (auto simp: ct_Find_def ct_RemoveLocation_def om_count_def om_erase_id om_find_in_keys
      split: option.split)

lemma ct_Find_empty [simp]: "ct_Find empty_chunk_table h = None"
  by (simp add: ct_Find_def empty_chunk_table_def)

lemma ct_held_by_Create [simp]: "ct_held_by (ct_Create h v t) = ct_held_by t"
  and ct_held_by_update [simp]: "ct_held_by (ct_update h f t) = ct_held_by t"
  by (simp_all add: ct_Create_def ct_update_def)

lemma ct_HeldBy_Create [simp]: "ct_HeldBy (ct_Create h v t) s = ct_HeldBy t s"
  and ct_HeldBy_update [simp]: "ct_HeldBy (ct_update h f t) s = ct_HeldBy t s"
  by (simp_all add: ct_HeldBy_def)

lemma held_erase_find:
  "om_find (held_erase h s hb) s' =
     (if s' = s then (case om_find hb s of None \<Rightarrow> None
        | Some hs \<Rightarrow> if os_erase h hs = [] then None else Some (os_erase h hs))
      else om_find hb s')"
  by (auto simp: held_erase_def Let_def split: option.split)

lemma om_ok_held_erase: "om_ok hb \<Longrightarrow> om_ok (held_erase h s hb)"
  by (auto simp: held_erase_def Let_def om_intros split: option.split)

definition held_set :: "(string, u64 list) omap \<Rightarrow> string \<Rightarrow> u64 set" where
  "held_set held_by s = (case om_find held_by s of None \<Rightarrow> {} | Some hs \<Rightarrow> set hs)"

lemma set_HeldBy: "set (ct_HeldBy t s) = held_set (ct_held_by t) s"
  by (simp add: ct_HeldBy_def held_set_def split: option.split)

lemma held_set_erase [simp]:
  "held_set (held_erase h s hb) s' = (if s' = s then held_set hb s - {h} else held_set hb s')"
  by (auto simp: held_set_def held_erase_find os_erase_def filter_empty_conv split: option.splits if_splits)

lemma held_set_fold_erase:
  "held_set (fold (held_erase h) ss hb) s' = held_set hb s' - (if s' \<in> set ss then {h} else {})"
  by (induction ss arbitrary: hb) auto

text \<open>The shape of the reverse index alone.\<close>

definition held_ok :: "(string, u64 list) omap \<Rightarrow> bool" where
  "held_ok hb \<longleftrightarrow> om_ok hb \<and> (\<forall>s hs. om_find hb s = Some hs \<longrightarrow> hs \<noteq> [] \<and> os_ok hs)"

lemma held_ok_erase: "held_ok hb \<Longrightarrow> held_ok (held_erase h s hb)"
  by (auto simp: held_ok_def om_ok_held_erase held_erase_find os_ok_erase split: if_splits option.splits)

lemma ct_ok_split:
  "ct_ok t \<longleftrightarrow> om_ok (ct_chunks t) \<and> held_ok (ct_held_by t) \<and>
     (\<forall>h m. ct_Find t h = Some m \<longrightarrow> om_ok (cm_locations m)) \<and>
     (\<forall>s h. h \<in> set (ct_HeldBy t s) \<longleftrightarrow> s \<in> holders t h)"
  by (auto simp: ct_ok_def held_ok_def)

section \<open>Every operation keeps the reverse index exact\<close>

lemma ct_ok_empty [simp]: "ct_ok empty_chunk_table"
  by (simp add: ct_ok_def holders_def ct_HeldBy_def) (simp add: empty_chunk_table_def)

lemma ct_ok_Create: "ct_ok t \<Longrightarrow> ct_ok (ct_Create h v t)"
  by (auto simp: ct_ok_def holders_def ct_simps new_chunk_def split: option.splits if_splits)
     (simp_all add: ct_Create_def om_intros)

lemma ct_ok_update:
  assumes "ct_ok t" "\<And>m. cm_locations (f m) = cm_locations m"
  shows "ct_ok (ct_update h f t)"
  using assms(1)
  by (auto simp: ct_ok_def holders_def ct_simps assms(2) split: option.splits if_splits)
     (simp_all add: ct_update_def)

lemma ct_ok_Erase:
  assumes "ct_ok t"
  shows "ct_ok (ct_Erase h t)"
proof (cases "ct_Find t h")
  case None
  with assms show ?thesis by (simp add: ct_Erase_def)
next
  case (Some m)
  have hb: "ct_held_by (ct_Erase h t) = fold (held_erase h) (map fst (cm_locations m)) (ct_held_by t)"
    using Some by (simp add: ct_Erase_def)
  have "held_ok (ct_held_by (ct_Erase h t))"
    unfolding hb using assms by (intro fold_invariant [where P = held_ok]) (auto simp: held_ok_erase ct_ok_split)
  moreover have "h' \<in> set (ct_HeldBy (ct_Erase h t) s) \<longleftrightarrow> s \<in> holders (ct_Erase h t) h'" for s h'
  proof -
    have "h' \<in> set (ct_HeldBy (ct_Erase h t) s) \<longleftrightarrow>
        h' \<in> set (ct_HeldBy t s) \<and> \<not> (h' = h \<and> s \<in> om_keys (cm_locations m))"
      by (auto simp: set_HeldBy hb held_set_fold_erase om_keys_def)
    with Some ct_okD(5) [OF assms] show ?thesis by (auto simp: holders_def ct_simps)
  qed
  moreover have "om_ok (ct_chunks (ct_Erase h t))"
    using ct_okD(1) [OF assms] Some by (simp add: ct_Erase_def om_intros)
  ultimately show ?thesis
    using ct_okD(3) [OF assms] by (auto simp: ct_ok_split ct_simps split: if_splits)
qed

lemma ct_ok_AddLocation:
  assumes "ct_ok t"
  shows "ct_ok (fst (ct_AddLocation h s w t))"
proof (cases "\<exists>m. ct_Find t h = Some m \<and> om_find (cm_locations m) s = None")
  case False
  then have "fst (ct_AddLocation h s w t) = t"
    by (auto simp: ct_AddLocation_def om_emplace_def split: option.split)
  with assms show ?thesis by simp
next
  case True
  then obtain m where m: "ct_Find t h = Some m" "om_find (cm_locations m) s = None" by blast
  let ?t = "fst (ct_AddLocation h s w t)"
  have t: "?t = \<lparr>ct_chunks = om_modify h (cm_locations_update (\<lambda>_. om_assign s w (cm_locations m))) (ct_chunks t),
      ct_held_by = om_assign s (os_insert h (ct_HeldBy t s)) (ct_held_by t)\<rparr>"
    using m by (simp add: ct_AddLocation_def om_emplace_def ct_HeldBy_def)
  have heldby: "ct_HeldBy ?t s' = (if s' = s then os_insert h (ct_HeldBy t s) else ct_HeldBy t s')" for s'
    by (simp add: t ct_HeldBy_def)
  have os: "os_ok (ct_HeldBy t s)"
    using ct_okD(4) [OF assms, of s] by (auto simp: ct_HeldBy_def split: option.split)
  have "held_ok (ct_held_by ?t)"
    using assms os_ok_insert [OF os, of h] set_os_insert [of h "ct_HeldBy t s"]
    by (auto simp: t held_ok_def ct_ok_split om_intros simp del: set_os_insert)
  moreover have "h' \<in> set (ct_HeldBy ?t s') \<longleftrightarrow> s' \<in> holders ?t h'" for s' h'
    using ct_okD(5) [OF assms] m
    by (auto simp: heldby holders_def ct_simps om_emplace_def split: option.splits)
  moreover have "om_ok (cm_locations m')" if "ct_Find ?t h' = Some m'" for h' m'
    using ct_okD(3) [OF assms] that m by (auto simp: ct_simps om_intros split: if_splits)
  ultimately show ?thesis
    using ct_okD(1) [OF assms] by (simp add: ct_ok_split) (simp add: t)
qed

lemma ct_ok_RemoveLocation:
  assumes "ct_ok t"
  shows "ct_ok (fst (ct_RemoveLocation h s t))"
proof (cases "\<exists>m. ct_Find t h = Some m \<and> s \<in> om_keys (cm_locations m)")
  case False
  then have "fst (ct_RemoveLocation h s t) = t"
    by (auto simp: ct_RemoveLocation_def om_count_def om_find_in_keys split: option.split)
  with assms show ?thesis by simp
next
  case True
  then obtain m where m: "ct_Find t h = Some m" "s \<in> om_keys (cm_locations m)" by blast
  let ?t = "fst (ct_RemoveLocation h s t)"
  have t: "?t = \<lparr>ct_chunks = om_modify h (cm_locations_update (om_erase s)) (ct_chunks t),
      ct_held_by = held_erase h s (ct_held_by t)\<rparr>"
    using m by (auto simp: ct_RemoveLocation_def om_count_def om_find_in_keys)
  have "h' \<in> set (ct_HeldBy ?t s') \<longleftrightarrow> h' \<in> set (ct_HeldBy t s') \<and> \<not> (h' = h \<and> s' = s)" for s' h'
    by (auto simp: set_HeldBy t)
  then have "h' \<in> set (ct_HeldBy ?t s') \<longleftrightarrow> s' \<in> holders ?t h'" for s' h'
    using ct_okD(5) [OF assms] m by (auto simp: holders_def ct_simps split: option.splits)
  moreover have "held_ok (ct_held_by ?t)"
    using assms by (simp add: t held_ok_erase ct_ok_split)
  moreover have "om_ok (cm_locations m')" if "ct_Find ?t h' = Some m'" for h' m'
    using ct_okD(3) [OF assms] that m by (auto simp: ct_simps om_intros split: if_splits)
  ultimately show ?thesis
    using ct_okD(1) [OF assms] by (simp add: ct_ok_split) (simp add: t)
qed

lemmas ct_ok_intros = ct_ok_Create ct_ok_update ct_ok_Erase ct_ok_AddLocation ct_ok_RemoveLocation

text \<open>
  The reverse index of the chunk table is exact: it lists a chunk under a server exactly
  when the chunk records the server as a location, and the count of chunks per server is the
  size of that set.
\<close>

lemma HeldBy_exact:
  assumes "ct_ok t"
  shows "(h \<in> set (ct_HeldBy t s) \<longleftrightarrow> (\<exists>m. ct_Find t h = Some m \<and> s \<in> om_keys (cm_locations m))) \<and>
     ct_HeldCount t s = card {h. s \<in> holders t h}"
proof
  show "h \<in> set (ct_HeldBy t s) \<longleftrightarrow> (\<exists>m. ct_Find t h = Some m \<and> s \<in> om_keys (cm_locations m))"
    by (auto simp: ct_okD(5) [OF assms] holders_def split: option.split)
  have "distinct (ct_HeldBy t s)"
    using ct_okD(4) [OF assms, of s] by (auto simp: ct_HeldBy_def strict_sorted_iff split: option.split)
  then have "card (set (ct_HeldBy t s)) = length (ct_HeldBy t s)" by (rule distinct_card)
  moreover have "set (ct_HeldBy t s) = {h. s \<in> holders t h}" using ct_okD(5) [OF assms] by auto
  moreover have "ct_HeldCount t s = length (ct_HeldBy t s)"
    by (simp add: ct_HeldCount_def ct_HeldBy_def split: option.split)
  ultimately show "ct_HeldCount t s = card {h. s \<in> holders t h}" by simp
qed

theorem HeldBy_exact_witness:
  "7 \<in> set (ct_HeldBy (fst (ct_AddLocation 7 ''s1'' 0 (ct_Create 7 1 empty_chunk_table))) ''s1'') \<and>
   ct_HeldCount (fst (ct_AddLocation 7 ''s1'' 0 (ct_Create 7 1 empty_chunk_table))) ''s1'' =
     card {h. ''s1'' \<in> holders (fst (ct_AddLocation 7 ''s1'' 0 (ct_Create 7 1 empty_chunk_table))) h}"
proof -
  have "ct_ok (fst (ct_AddLocation 7 ''s1'' 0 (ct_Create 7 1 empty_chunk_table)))"
    by (intro ct_ok_intros ct_ok_empty)
  from HeldBy_exact [OF this, of 7 "''s1''"] show ?thesis
    by (simp add: ct_simps om_emplace_def new_chunk_def)
qed

end
