(* ===== verification/MasterInvariant.thy ===== *)
theory MasterInvariant
  imports MasterState
begin

text \<open>
  The invariant of the replicated state machine and its preservation by every log record:
  the name space is a tree, the reverse index of the chunk table is exact, the reference
  count of a chunk is the number of its occurrences in files, handles in use are below
  \<open>next_handle\<close>, and a pending chunk is fresh. A record preserves it where the guards the
  master checks before logging it hold (\<open>rec_ok\<close>) and no reference count leaves 32 bits
  (\<open>refs_fit\<close>).
\<close>

section \<open>References from files\<close>

definition refs :: "name_space \<Rightarrow> u64 \<Rightarrow> nat" where
  "refs files h = sum_list (map (\<lambda>e. count_list (fm_chunks (snd e)) h) files)"

definition refs_fit :: "name_space \<Rightarrow> bool" where
  "refs_fit files \<longleftrightarrow> (\<forall>h. refs files h < 2 ^ 32)"

lemma refs_Nil [simp]: "refs [] h = 0"
  by (simp add: refs_def)

lemma refs_Cons [simp]: "refs (e # files) h = count_list (fm_chunks (snd e)) h + refs files h"
  by (simp add: refs_def)

lemma refs_append [simp]: "refs (a @ b) h = refs a h + refs b h"
  by (simp add: refs_def)

lemma refs_assign:
  assumes "om_ok files"
  shows "refs (om_assign p m files) h + (case om_find files p of None \<Rightarrow> 0 | Some w \<Rightarrow> count_list (fm_chunks w) h) =
     refs files h + count_list (fm_chunks m) h"
  using sum_list_assign [OF assms, of "\<lambda>m. count_list (fm_chunks m) h" p m] by (simp add: refs_def)

lemma refs_erase:
  assumes "om_ok files"
  shows "refs (om_erase p files) h + (case om_find files p of None \<Rightarrow> 0 | Some w \<Rightarrow> count_list (fm_chunks w) h) =
     refs files h"
  using sum_list_erase [OF assms, of "\<lambda>m. count_list (fm_chunks m) h" p] by (simp add: refs_def)

lemma om_modify_assign:
  "om_ok m \<Longrightarrow> om_find m k = Some v \<Longrightarrow> om_modify k f m = om_assign k (f v) m"
  by (rule om_ext) (auto simp: om_intros)

lemma refs_modify:
  assumes "om_ok files" "om_find files p = Some m"
  shows "refs (om_modify p f files) h + count_list (fm_chunks m) h =
     refs files h + count_list (fm_chunks (f m)) h"
  using refs_assign [OF assms(1), of p "f m" h] by (simp add: om_modify_assign [OF assms] assms(2))

lemma count_list_update:
  "i < length xs \<Longrightarrow> count_list (xs[i := x]) h + (if xs ! i = h then 1 else 0) =
     count_list xs h + (if x = h then 1 else 0)"
proof (induction xs arbitrary: i)
  case Nil
  then show ?case by simp
next
  case (Cons y xs)
  show ?case
  proof (cases i)
    case (Suc n)
    with Cons.IH [of n] Cons.prems show ?thesis by auto
  qed (use Cons in simp)
qed

lemma refs_ge_count: "om_find files p = Some m \<Longrightarrow> count_list (fm_chunks m) h \<le> refs files h"
  by (induction files) (auto split: if_splits intro: trans_le_add2)

lemma refs_ge_entry: "(p, m) \<in> set files \<Longrightarrow> count_list (fm_chunks m) h \<le> refs files h"
  by (induction files) (auto intro: trans_le_add2)

lemma refs_filter: "refs files h = refs (filter P files) h + refs (filter (\<lambda>e. \<not> P e) files) h"
  by (induction files) auto

lemma refs_map_key: "refs (map (\<lambda>e. (g e, snd e)) files) h = refs files h"
  by (induction files) auto

lemma fold_erase_filter: "fold om_erase ks m = filter (\<lambda>e. fst e \<notin> set ks) m"
  by (induction ks arbitrary: m) (auto simp: om_erase_def filter_filter conj_commute)

lemma refs_fold_assign:
  assumes "om_ok m" "distinct (map fst xs)" "\<forall>k \<in> fst ` set xs. k \<notin> om_keys m"
  shows "refs (fold (\<lambda>e m. om_assign (fst e) (snd e) m) xs m) h = refs m h + refs xs h"
  using assms
proof (induction xs arbitrary: m)
  case Nil
  then show ?case by simp
next
  case (Cons e xs)
  have "refs (om_assign (fst e) (snd e) m) h = refs m h + count_list (fm_chunks (snd e)) h"
    using refs_assign [OF Cons.prems(1), of "fst e" "snd e" h] Cons.prems(3)
    by (simp add: om_find_NoneI)
  moreover have "refs (fold (\<lambda>e m. om_assign (fst e) (snd e) m) xs (om_assign (fst e) (snd e) m)) h =
      refs (om_assign (fst e) (snd e) m) h + refs xs h"
  proof (rule Cons.IH)
    show "\<forall>k \<in> fst ` set xs. k \<notin> om_keys (om_assign (fst e) (snd e) m)"
    proof
      fix k assume k: "k \<in> fst ` set xs"
      then have "k \<noteq> fst e" using Cons.prems(2) by (metis distinct.simps(2) list.set_map list.simps(9))
      moreover have "k \<notin> om_keys m" using Cons.prems(3) k by auto
      ultimately show "k \<notin> om_keys (om_assign (fst e) (snd e) m)" by simp
    qed
  qed (use Cons.prems in \<open>auto simp: om_intros\<close>)
  ultimately show ?case by simp
qed

text \<open>Renaming moves entries, it neither copies nor drops a reference.\<close>

lemma refs_RenameSubtree:
  assumes "om_ok files" "s \<noteq> ''/''" "t \<noteq> ''/''"
    and free: "\<forall>k \<in> om_keys files. k \<noteq> t \<and> \<not> below t k" and "\<not> below s t"
  shows "refs (ns_RenameSubtree s t files) h = refs files h"
proof -
  let ?f1 = "om_erase s files" and ?a = "ChildPrefix s" and ?b = "ChildPrefix t"
  let ?range = "filter (\<lambda>e. starts_with ?a (fst e)) ?f1"
  let ?sh = "map (\<lambda>e. (?b @ drop (length ?a) (fst e), snd e)) ?range"
  let ?self = "case om_find files s of None \<Rightarrow> [] | Some m \<Rightarrow> [(t, m)]"
  let ?rest = "filter (\<lambda>e. fst e \<notin> set (map fst ?range)) ?f1"
  have ok1: "om_ok ?f1" using assms(1) by (rule om_ok_erase)
  have rest: "?rest = filter (\<lambda>e. \<not> starts_with ?a (fst e)) ?f1"
    by (rule filter_cong) auto
  have res: "ns_RenameSubtree s t files =
      fold (\<lambda>e m. om_assign (fst e) (snd e) m) (?self @ ?sh) ?rest"
    by (simp only: ns_RenameSubtree_def Let_def om_prefix_range [OF ok1] fold_erase_filter)
  have "\<not> starts_with ?b t" using below_irrefl [OF assms(3)] by (simp add: below_def)
  then have tno: "t \<noteq> ?b @ r" for r by (metis starts_with_append)
  have "distinct (map fst ?sh)" by (rule distinct_shift [OF om_ok_distinct [OF ok1]])
  moreover have "t \<notin> set (map fst ?sh)" using tno by auto
  ultimately have dist: "distinct (map fst (?self @ ?sh))"
    by (cases "om_find files s") (simp_all only: option.case append.simps list.map distinct.simps
        fst_conv not_False_eq_True simp_thms)
  have fresh: "\<forall>k \<in> fst ` set (?self @ ?sh). k \<notin> om_keys ?rest"
  proof
    fix k assume "k \<in> fst ` set (?self @ ?sh)"
    then have "k \<in> fst ` set ?self \<or> k \<in> fst ` set ?sh" by (simp only: set_append image_Un Un_iff)
    moreover have "k = t" if "k \<in> fst ` set ?self"
      using that by (auto split: option.splits)
    moreover have "below t k" if "k \<in> fst ` set ?sh"
      using that by auto
    ultimately have "k = t \<or> below t k" by blast
    with free have "k \<notin> om_keys files" by blast
    then show "k \<notin> om_keys ?rest" by (auto simp: om_keys_def om_erase_def)
  qed
  have "refs (ns_RenameSubtree s t files) h = refs ?rest h + (refs ?self h + refs ?sh h)"
    by (simp only: res refs_fold_assign [OF om_ok_filter [OF ok1] dist fresh] refs_append)
  also have "\<dots> = refs ?f1 h + refs ?self h"
    using refs_filter [of ?f1 h "\<lambda>e. starts_with ?a (fst e)"]
      refs_map_key [of "\<lambda>e. ?b @ drop (length ?a) (fst e)" ?range h] by (simp only: rest)
  also have "\<dots> = refs files h"
    using refs_erase [OF assms(1), of s h] by (simp split: option.splits)
  finally show ?thesis .
qed

section \<open>Reference counts\<close>

definition counts :: "chunk_table \<Rightarrow> u64 \<Rightarrow> nat" where
  "counts t h = (case ct_Find t h of None \<Rightarrow> 0 | Some m \<Rightarrow> unat (cm_refcount m))"

lemma unat_pred: "(0::u32) < r \<Longrightarrow> unat (r - 1) = unat r - 1"
  by (simp add: unat_minus_one word_greater_zero_iff)

lemma unat_succ: "Suc (unat (r::u32)) < 2 ^ 32 \<Longrightarrow> unat (r + 1) = Suc (unat r)"
  using unat_add_lem [of r 1] by simp

lemma counts_unref: "counts (unref h t) h' = (if h' = h then counts t h - 1 else counts t h')"
  by (auto simp: counts_def unref_def ct_simps unat_pred word_greater_zero_iff split: option.split)

lemma counts_fold_unref: "counts (fold unref hs t) h = counts t h - count_list hs h"
  by (induction hs arbitrary: t) (auto simp: counts_unref)

lemma counts_ref:
  assumes "ct_Find t h \<noteq> None" "Suc (counts t h) < 2 ^ 32"
  shows "counts (ref h t) h' = counts t h' + (if h' = h then 1 else 0)"
  using assms by (auto simp: counts_def ref_def ct_simps unat_succ split: option.split)

lemma ct_Find_ref [ct_simps]: "ct_Find (ref h t) h' = None \<longleftrightarrow> ct_Find t h' = None"
  by (simp add: ref_def ct_simps)

lemma counts_fold_ref:
  assumes "\<forall>h \<in> set hs. ct_Find t h \<noteq> None" "\<forall>h. counts t h + count_list hs h < 2 ^ 32"
  shows "counts (fold ref hs t) h = counts t h + count_list hs h"
  using assms
proof (induction hs arbitrary: t)
  case Nil
  then show ?case by simp
next
  case (Cons x hs)
  have x: "ct_Find t x \<noteq> None" and lt: "Suc (counts t x) < 2 ^ 32"
    using Cons.prems(1) spec [OF Cons.prems(2), of x] by auto
  have step: "counts (ref x t) h' = counts t h' + (if h' = x then 1 else 0)" for h'
    by (rule counts_ref [OF x lt])
  have "counts (fold ref hs (ref x t)) h = counts (ref x t) h + count_list hs h"
  proof (rule Cons.IH)
    show "\<forall>h \<in> set hs. ct_Find (ref x t) h \<noteq> None"
      using Cons.prems(1) by (simp add: ct_Find_ref)
    show "\<forall>h. counts (ref x t) h + count_list hs h < 2 ^ 32"
      using Cons.prems(2) by (auto simp: step split: if_splits)
  qed
  then show ?case by (simp add: step)
qed

lemma counts_adopt:
  assumes "Suc (counts t h) < 2 ^ 32"
  shows "counts (adopt_chunk h t) h' = counts t h' + (if h' = h then 1 else 0)"
  using assms
  by (auto simp: counts_def adopt_chunk_def ct_simps unat_succ new_chunk_def split: option.split)

lemma ct_ok_unref: "ct_ok t \<Longrightarrow> ct_ok (unref h t)"
  and ct_ok_ref: "ct_ok t \<Longrightarrow> ct_ok (ref h t)"
  and ct_ok_adopt: "ct_ok t \<Longrightarrow> ct_ok (adopt_chunk h t)"
  by (auto simp: unref_def ref_def adopt_chunk_def intro!: ct_ok_update ct_ok_Create)

lemma ct_ok_fold_unref: "ct_ok t \<Longrightarrow> ct_ok (fold unref hs t)"
  and ct_ok_fold_ref: "ct_ok t \<Longrightarrow> ct_ok (fold ref hs t)"
  by (rule fold_invariant [where P = ct_ok]; simp add: ct_ok_unref ct_ok_ref)+

section \<open>The invariant\<close>

text \<open>What holds of the state machine apart from the shape of the name space.\<close>

definition ms_core :: "master_state \<Rightarrow> bool" where
  "ms_core ms \<longleftrightarrow>
     om_ok (ms_files ms) \<and> ct_ok (ms_chunks ms) \<and> ms_next_handle ms \<noteq> 0 \<and>
     (\<forall>h. counts (ms_chunks ms) h = refs (ms_files ms) h) \<and>
     (\<forall>h. ct_Find (ms_chunks ms) h \<noteq> None \<longrightarrow> h < ms_next_handle ms) \<and>
     (\<forall>h m. ct_Find (ms_chunks ms) h = Some m \<longrightarrow> cm_pending m \<longrightarrow> cm_version m = 1 \<and> cm_refcount m = 0)"

definition ms_ok :: "master_state \<Rightarrow> bool" where
  "ms_ok ms \<longleftrightarrow> ns_tree (ms_files ms) \<and> ms_core ms"

lemma ms_coreD:
  assumes "ms_core ms"
  shows "om_ok (ms_files ms)" "ct_ok (ms_chunks ms)" "ms_next_handle ms \<noteq> 0"
    "\<And>h. counts (ms_chunks ms) h = refs (ms_files ms) h"
    "\<And>h. ct_Find (ms_chunks ms) h \<noteq> None \<Longrightarrow> h < ms_next_handle ms"
    "\<And>h m. ct_Find (ms_chunks ms) h = Some m \<Longrightarrow> cm_pending m \<Longrightarrow> cm_version m = 1 \<and> cm_refcount m = 0"
  using assms by (auto simp: ms_core_def)

lemma ms_okD: "ms_ok ms \<Longrightarrow> ns_tree (ms_files ms)" "ms_ok ms \<Longrightarrow> ms_core ms"
  by (simp_all add: ms_ok_def)

lemma ms_ok_init: "ms_ok init_master_state"
  by (simp add: ms_ok_def ms_core_def init_master_state_def counts_def)

text \<open>A chunk that some file lists is in the table and is not pending.\<close>

lemma ms_core_present:
  assumes "ms_core ms" "(p, m) \<in> set (ms_files ms)" "h \<in> set (fm_chunks m)"
  shows "\<exists>c. ct_Find (ms_chunks ms) h = Some c \<and> \<not> cm_pending c"
proof -
  have "0 < refs (ms_files ms) h"
    using refs_ge_entry [OF assms(2), of h] assms(3) by (auto simp: count_list_0_iff intro: gr0I)
  then have "0 < counts (ms_chunks ms) h" by (simp add: ms_coreD(4) [OF assms(1)])
  then obtain c where c: "ct_Find (ms_chunks ms) h = Some c" "cm_refcount c \<noteq> 0"
    by (auto simp: counts_def unat_gt_0 split: option.splits)
  with ms_coreD(6) [OF assms(1) c(1)] show ?thesis by auto
qed

section \<open>Every record preserves it\<close>

text \<open>The conditions under which the master logs a record.\<close>

fun rec_ok :: "log_record \<Rightarrow> master_state \<Rightarrow> bool" where
  "rec_ok (CreateRec p) ms \<longleftrightarrow> IsValidPath p \<and> p \<noteq> ''/'' \<and> ns_free (ms_files ms) p"
| "rec_ok (RenameRec s t) ms \<longleftrightarrow> IsValidPath s \<and> s \<noteq> ''/'' \<and> IsValidPath t \<and> t \<noteq> ''/'' \<and>
     ns_free (ms_files ms) t \<and> \<not> IsAncestorOrSelf s t"
| "rec_ok (AddChunkRec p i h) ms \<longleftrightarrow> h + 1 \<noteq> 0"
| "rec_ok (ReplaceChunkRec p i h) ms \<longleftrightarrow> h + 1 \<noteq> 0"
| "rec_ok (BumpVersionRec h v) ms \<longleftrightarrow>
     (case ct_Find (ms_chunks ms) h of None \<Rightarrow> True | Some m \<Rightarrow> \<not> cm_pending m)"
| "rec_ok (SnapshotRec s t) ms \<longleftrightarrow> IsValidPath s \<and> s \<noteq> ''/'' \<and> IsValidPath t \<and> t \<noteq> ''/'' \<and>
     ns_free (ms_files ms) t \<and> \<not> IsAncestorOrSelf s t"
| "rec_ok (DropChunkRec h) ms \<longleftrightarrow> refs (ms_files ms) h = 0"
| "rec_ok _ ms \<longleftrightarrow> True"

lemma ms_core_Create: "ms_core ms \<Longrightarrow> ms_core (ApplyCreate p ms)"
proof -
  assume "ms_core ms"
  moreover from this have "refs (fst (ns_Insert p empty_meta (ms_files ms))) h = refs (ms_files ms) h" for h
    using refs_assign [OF ms_coreD(1), of ms p empty_meta h]
    by (auto simp: ns_Insert_def om_emplace_def empty_meta_def)
  ultimately show ?thesis
    by (auto simp: ms_core_def ApplyCreate_def ns_Insert_def om_intros)
qed

lemma ms_core_Rename:
  assumes "ms_core ms" "ns_tree (ms_files ms)" "s \<noteq> ''/''" "t \<noteq> ''/''" "ns_free (ms_files ms) t" "\<not> below s t"
  shows "ms_core (ApplyRename s t ms)"
proof -
  have free: "\<forall>k \<in> om_keys (ms_files ms). k \<noteq> t \<and> \<not> below t k"
    using assms(5) by (auto simp: ns_free_iff [OF assms(2,4)])
  have "refs (ns_RenameSubtree s t (ms_files ms)) h = refs (ms_files ms) h" for h
    by (rule refs_RenameSubtree [OF ns_treeD(1) [OF assms(2)] assms(3,4) free assms(6)])
  with assms(1) show ?thesis
    by (auto simp: ms_core_def ApplyRename_def om_ok_RenameSubtree)
qed

lemma unref_Find:
  "ct_Find (fold unref hs t) h = None \<longleftrightarrow> ct_Find t h = None"
  by (induction hs arbitrary: t) (auto simp: unref_def ct_simps)

lemma unref_pending:
  "ct_Find (fold unref hs t) h = Some m \<Longrightarrow>
     \<exists>m'. ct_Find t h = Some m' \<and> cm_pending m = cm_pending m' \<and> cm_version m = cm_version m' \<and>
       (cm_refcount m' = 0 \<longrightarrow> cm_refcount m = 0)"
proof (induction hs arbitrary: t)
  case Nil
  then show ?case by auto
next
  case (Cons x hs)
  then obtain m' where m': "ct_Find (unref x t) h = Some m'" "cm_pending m = cm_pending m'"
    "cm_version m = cm_version m'" "cm_refcount m' = 0 \<longrightarrow> cm_refcount m = 0"
    by (metis comp_apply fold_simps(2))
  then show ?case by (auto simp: unref_def ct_simps split: if_splits)
qed

lemma ref_pending:
  "ct_Find (fold ref hs t) h = Some m \<Longrightarrow>
     \<exists>m'. ct_Find t h = Some m' \<and> cm_pending m = cm_pending m' \<and> cm_version m = cm_version m' \<and>
       (h \<notin> set hs \<longrightarrow> cm_refcount m = cm_refcount m')"
proof (induction hs arbitrary: t)
  case Nil
  then show ?case by auto
next
  case (Cons x hs)
  then obtain m' where "ct_Find (ref x t) h = Some m'" "cm_pending m = cm_pending m'"
    "cm_version m = cm_version m'" "h \<notin> set hs \<longrightarrow> cm_refcount m = cm_refcount m'"
    by (metis comp_apply fold_simps(2))
  then show ?case by (auto simp: ref_def ct_simps split: if_splits)
qed

lemma ms_core_Remove:
  assumes "ms_core ms"
  shows "ms_core (ApplyRemove p ms)"
proof (cases "ns_Find (ms_files ms) p")
  case None
  with assms show ?thesis by (simp add: ApplyRemove_def)
next
  case (Some m)
  let ?ms = "ApplyRemove p ms"
  have ms: "ms_files ?ms = om_erase p (ms_files ms)" "ms_chunks ?ms = fold unref (fm_chunks m) (ms_chunks ms)"
    "ms_next_handle ?ms = ms_next_handle ms"
    using Some by (simp_all add: ApplyRemove_def ns_Erase_def)
  note core = ms_coreD [OF assms]
  have "counts (ms_chunks ?ms) h = refs (ms_files ?ms) h" for h
    using refs_erase [OF core(1), of p h] Some
    by (simp add: ms counts_fold_unref core(4) ns_Find_def)
  moreover have "cm_version c = 1 \<and> cm_refcount c = 0" if "ct_Find (ms_chunks ?ms) h = Some c" "cm_pending c" for h c
    using unref_pending [OF that(1) [unfolded ms]] core(6) that(2) by fastforce
  ultimately show ?thesis
    using core by (auto simp: ms_core_def ms om_intros ct_ok_fold_unref unref_Find)
qed

lemma ms_core_AllocHandle: "ms_core ms \<Longrightarrow> ms_core (ApplyAllocHandle h ms)"
  by (auto simp: ms_core_def ApplyAllocHandle_def max_def)


lemma ct_Find_adopt [ct_simps]:
  "ct_Find (adopt_chunk h t) h' =
     (if h' = h then Some (let c = (case ct_Find t h of None \<Rightarrow> new_chunk | Some c \<Rightarrow> c)
        in c\<lparr>cm_pending := False, cm_refcount := cm_refcount c + 1\<rparr>) else ct_Find t h')"
  by (auto simp: adopt_chunk_def ct_simps new_chunk_def split: option.split)

lemma less_max_Suc: "(h::'a::len word) + 1 \<noteq> 0 \<Longrightarrow> h < max n (h + 1)"
  by (metis add.commute add.right_inverse inc_less_eq_self_iff_eq leI less_max_iff_disj)

text \<open>The state after a reference to \<open>h\<close> was added to a file, with everything else balanced.\<close>

lemma ms_core_adopt:
  assumes "ms_core ms" "h + 1 \<noteq> 0" "om_ok files" "ct_ok t" "refs_fit files"
    and count: "\<And>h'. refs files h' = counts t h' + (if h' = h then 1 else 0)"
    and find: "\<And>h'. ct_Find t h' = None \<longleftrightarrow> ct_Find (ms_chunks ms) h' = None"
    and pending: "\<And>h' c. ct_Find t h' = Some c \<Longrightarrow> cm_pending c \<Longrightarrow> cm_version c = 1 \<and> cm_refcount c = 0"
  shows "ms_core (ApplyAllocHandle h (ms\<lparr>ms_files := files, ms_chunks := adopt_chunk h t\<rparr>))"
proof -
  have "Suc (counts t h) < 2 ^ 32" using assms(5) count [of h] by (metis refs_fit_def Suc_eq_plus1)
  note adopt = counts_adopt [OF this]
  note core = ms_coreD [OF assms(1)]
  have "h' < max (ms_next_handle ms) (h + 1)" if "ct_Find (adopt_chunk h t) h' \<noteq> None" for h'
    using that core(5) [of h'] find [of h'] less_max_Suc [OF assms(2)]
    by (auto simp: ct_simps less_max_iff_disj split: if_splits)
  moreover have "max (ms_next_handle ms) (h + 1) \<noteq> 0"
    using core(3) by (metis max_def word_le_0_iff)
  moreover have "cm_version c = 1 \<and> cm_refcount c = 0"
    if "ct_Find (adopt_chunk h t) h' = Some c" "cm_pending c" for h' c
    using that pending by (auto simp: ct_simps Let_def split: if_splits)
  ultimately show ?thesis
    using assms(3,4) count by (auto simp: ms_core_def ApplyAllocHandle_def ct_ok_adopt adopt)
qed

lemma ms_core_ReplaceChunk:
  assumes "ms_core ms" "h + 1 \<noteq> 0" "refs_fit (ms_files (ApplyReplaceChunk p i h ms))"
  shows "ms_core (ApplyReplaceChunk p i h ms)"
proof (cases "\<exists>m. ns_Find (ms_files ms) p = Some m \<and> i < length (fm_chunks m) \<and> fm_chunks m ! i \<noteq> h")
  case False
  then have "ApplyReplaceChunk p i h ms = ms"
    by (auto simp: ApplyReplaceChunk_def Let_def split: option.split)
  with assms show ?thesis by simp
next
  case True
  then obtain m where m: "ns_Find (ms_files ms) p = Some m" "i < length (fm_chunks m)" "fm_chunks m ! i \<noteq> h" by blast
  let ?old = "fm_chunks m ! i" and ?t = "unref (fm_chunks m ! i) (ms_chunks ms)"
  let ?files = "om_modify p (fm_chunks_update (\<lambda>chunks. chunks[i := h])) (ms_files ms)"
  have eq: "ApplyReplaceChunk p i h ms =
      ApplyAllocHandle h (ms\<lparr>ms_files := ?files, ms_chunks := adopt_chunk h ?t\<rparr>)"
    using m by (cases ms) (simp add: ApplyReplaceChunk_def Let_def)
  note core = ms_coreD [OF assms(1)]
  have "count_list (fm_chunks m) ?old \<noteq> 0" using m(2) by (simp add: count_list_0_iff)
  then have pos: "0 < refs (ms_files ms) ?old"
    using refs_ge_count [of "ms_files ms" p m ?old] m(1) by (simp add: ns_Find_def)
  have "refs ?files h' = counts ?t h' + (if h' = h then 1 else 0)" for h'
    using refs_modify [OF core(1), of p m "fm_chunks_update (\<lambda>chunks. chunks[i := h])" h']
      count_list_update [OF m(2), of h h'] m(1,3) pos
    by (auto simp: counts_unref core(4) ns_Find_def split: if_splits)
  moreover have "refs_fit ?files" using assms(3) by (simp add: eq ApplyAllocHandle_def)
  moreover have "cm_version c = 1 \<and> cm_refcount c = 0" if "ct_Find ?t h' = Some c" "cm_pending c" for h' c
  proof -
    from unref_pending [of "[?old]" "ms_chunks ms" h' c] that(1)
    obtain c' where "ct_Find (ms_chunks ms) h' = Some c'" "cm_pending c = cm_pending c'"
      "cm_version c = cm_version c'" "cm_refcount c' = 0 \<longrightarrow> cm_refcount c = 0" by auto
    with core(6) [of h' c'] that(2) show ?thesis by simp
  qed
  moreover have "ct_Find ?t h' = None \<longleftrightarrow> ct_Find (ms_chunks ms) h' = None" for h'
    using unref_Find [of "[?old]" "ms_chunks ms" h'] by simp
  moreover have "om_ok ?files" "ct_ok ?t" using core(1,2) by (simp_all add: ct_ok_unref)
  ultimately show ?thesis
    unfolding eq using ms_core_adopt [OF assms(1,2)] by blast
qed

lemma ms_core_AddChunk:
  assumes "ms_core ms" "h + 1 \<noteq> 0" "refs_fit (ms_files (ApplyAddChunk p i h ms))"
  shows "ms_core (ApplyAddChunk p i h ms)"
proof (cases "ns_Find (ms_files ms) p")
  case None
  with assms show ?thesis by (simp add: ApplyAddChunk_def)
next
  case (Some m)
  note core = ms_coreD [OF assms(1)]
  let ?files = "om_modify p (fm_chunks_update (\<lambda>chunks. chunks @ [h])) (ms_files ms)"
  consider "i < length (fm_chunks m)" | "i = length (fm_chunks m)" | "length (fm_chunks m) < i" by linarith
  then show ?thesis
  proof cases
    case 1
    with Some assms ms_core_ReplaceChunk [OF assms(1,2)] show ?thesis
      by (auto simp: ApplyAddChunk_def split: if_splits)
  next
    case 2
    with Some have eq: "ApplyAddChunk p i h ms =
        ApplyAllocHandle h (ms\<lparr>ms_files := ?files, ms_chunks := adopt_chunk h (ms_chunks ms)\<rparr>)"
      by (simp add: ApplyAddChunk_def)
    have "refs ?files h' = counts (ms_chunks ms) h' + (if h' = h then 1 else 0)" for h'
      using refs_modify [OF core(1), of p m "fm_chunks_update (\<lambda>chunks. chunks @ [h])" h'] Some
      by (simp add: core(4) ns_Find_def)
    moreover have "refs_fit ?files" using assms(3) by (simp add: eq ApplyAllocHandle_def)
    ultimately show ?thesis
      unfolding eq using assms(1,2) core by (intro ms_core_adopt) auto
  next
    case 3
    with Some assms show ?thesis by (simp add: ApplyAddChunk_def)
  qed
qed

lemma ms_core_BumpVersion:
  assumes "ms_core ms" "case ct_Find (ms_chunks ms) h of None \<Rightarrow> True | Some m \<Rightarrow> \<not> cm_pending m"
  shows "ms_core (ApplyBumpVersion h v ms)"
proof -
  have "counts (ms_chunks (ApplyBumpVersion h v ms)) h' = counts (ms_chunks ms) h'" for h'
    by (simp add: counts_def ApplyBumpVersion_def ct_simps split: option.split)
  with assms show ?thesis
    by (auto simp: ms_core_def ApplyBumpVersion_def ct_simps intro!: ct_ok_update split: if_splits)
qed

lemma ms_core_DropChunk:
  assumes "ms_core ms" "refs (ms_files ms) h = 0"
  shows "ms_core (ApplyDropChunk h ms)"
  using assms by (auto simp: ms_core_def ApplyDropChunk_def ct_simps counts_def ct_ok_Erase)

text \<open>
  \<open>ApplySnapshot\<close> inserts one copied entry at a time. Each copy takes one more reference to
  each of its chunks, and the references only grow, so the final bound covers every step.
\<close>

lemma snapshot_step_files:
  "om_keys (ms_files (snapshot_step s t e ms)) =
     insert (snapshot_copied s t (fst e)) (om_keys (ms_files ms))"
  by (auto simp: snapshot_step_def Let_def ns_Exists_iff ns_Insert_def om_emplace_def om_find_in_keys)

lemma snapshot_fold_files:
  "om_keys (ms_files (fold (snapshot_step s t) es ms)) =
     (snapshot_copied s t \<circ> fst) ` set es \<union> om_keys (ms_files ms)"
  by (induction es arbitrary: ms) (auto simp: snapshot_step_files)

lemma snapshot_step_refs:
  assumes "om_ok (ms_files ms)"
  shows "refs (ms_files (snapshot_step s t e ms)) h =
     refs (ms_files ms) h +
     (if snapshot_copied s t (fst e) \<in> om_keys (ms_files ms) then 0 else count_list (fm_chunks (snd e)) h)"
  using refs_assign [OF assms, of "snapshot_copied s t (fst e)" "snd e" h]
  by (auto simp: snapshot_step_def Let_def ns_Exists_iff ns_Insert_def om_emplace_def om_find_in_keys)

lemma snapshot_step_ok: "om_ok (ms_files ms) \<Longrightarrow> om_ok (ms_files (snapshot_step s t e ms))"
  by (auto simp: snapshot_step_def Let_def ns_Insert_def om_intros)

lemma snapshot_fold_refs:
  "om_ok (ms_files ms) \<Longrightarrow> refs (ms_files ms) h \<le> refs (ms_files (fold (snapshot_step s t) es ms)) h"
proof (induction es arbitrary: ms)
  case Nil
  then show ?case by simp
next
  case (Cons e es)
  have "refs (ms_files ms) h \<le> refs (ms_files (snapshot_step s t e ms)) h"
    by (simp add: snapshot_step_refs [OF Cons.prems])
  also have "\<dots> \<le> refs (ms_files (fold (snapshot_step s t) es (snapshot_step s t e ms))) h"
    by (rule Cons.IH [OF snapshot_step_ok [OF Cons.prems]])
  finally show ?case by simp
qed

lemma snapshot_step_chunks:
  "ct_Find (ms_chunks (snapshot_step s t e ms)) h = None \<longleftrightarrow> ct_Find (ms_chunks ms) h = None"
  "ct_Find (ms_chunks (snapshot_step s t e ms)) h = Some c \<Longrightarrow>
     \<exists>c'. ct_Find (ms_chunks ms) h = Some c' \<and> cm_pending c = cm_pending c' \<and> cm_version c = cm_version c' \<and>
       (h \<notin> set (fm_chunks (snd e)) \<longrightarrow> cm_refcount c = cm_refcount c')"
proof -
  have none: "ct_Find (fold ref hs t) h = None \<longleftrightarrow> ct_Find t h = None" for hs t
    by (induction hs arbitrary: t) (simp_all add: ct_Find_ref)
  show "ct_Find (ms_chunks (snapshot_step s t e ms)) h = None \<longleftrightarrow> ct_Find (ms_chunks ms) h = None"
    by (simp add: snapshot_step_def Let_def none)
  show "ct_Find (ms_chunks (snapshot_step s t e ms)) h = Some c \<Longrightarrow>
     \<exists>c'. ct_Find (ms_chunks ms) h = Some c' \<and> cm_pending c = cm_pending c' \<and> cm_version c = cm_version c' \<and>
       (h \<notin> set (fm_chunks (snd e)) \<longrightarrow> cm_refcount c = cm_refcount c')"
    using ref_pending by (auto simp: snapshot_step_def Let_def split: if_splits)
qed

definition listed_ok :: "u64 list \<Rightarrow> master_state \<Rightarrow> bool" where
  "listed_ok hs ms \<longleftrightarrow> (\<forall>h \<in> set hs. \<exists>c. ct_Find (ms_chunks ms) h = Some c \<and> \<not> cm_pending c)"

lemma listed_ok_step: 
  assumes "listed_ok hs ms"
  shows "listed_ok hs (snapshot_step s t e ms)"
  unfolding listed_ok_def
proof
  fix h assume "h \<in> set hs"
  with assms obtain c where c: "ct_Find (ms_chunks ms) h = Some c" "\<not> cm_pending c"
    by (auto simp: listed_ok_def)
  then obtain c' where "ct_Find (ms_chunks (snapshot_step s t e ms)) h = Some c'"
    using snapshot_step_chunks(1) [of s t e ms h] by auto
  with snapshot_step_chunks(2) [OF this] c
  show "\<exists>c. ct_Find (ms_chunks (snapshot_step s t e ms)) h = Some c \<and> \<not> cm_pending c" by auto
qed

lemma ms_core_snapshot_step:
  assumes "ms_core ms" "listed_ok (fm_chunks (snd e)) ms"
    "refs_fit (ms_files (snapshot_step s t e ms))"
  shows "ms_core (snapshot_step s t e ms)"
proof (cases "snapshot_copied s t (fst e) \<in> om_keys (ms_files ms)")
  case True
  then have "snapshot_step s t e ms = ms" by (simp add: snapshot_step_def Let_def ns_Exists_iff)
  with assms show ?thesis by simp
next
  case False
  let ?ms = "snapshot_step s t e ms"
  note core = ms_coreD [OF assms(1)]
  have chunks: "ms_chunks ?ms = fold ref (fm_chunks (snd e)) (ms_chunks ms)"
    and next_eq: "ms_next_handle ?ms = ms_next_handle ms"
    using False by (simp_all add: snapshot_step_def Let_def ns_Exists_iff)
  have refs: "refs (ms_files ?ms) h = counts (ms_chunks ms) h + count_list (fm_chunks (snd e)) h" for h
    using False by (simp add: snapshot_step_refs core(1,4))
  then have count: "counts (ms_chunks ?ms) h = refs (ms_files ?ms) h" for h
    using assms(2,3) unfolding chunks
    by (subst counts_fold_ref) (auto simp: refs_fit_def listed_ok_def)
  have "cm_version c = 1 \<and> cm_refcount c = 0" if c: "ct_Find (ms_chunks ?ms) h = Some c" "cm_pending c" for h c
    using snapshot_step_chunks(2) [OF c(1)] core(6) [of h] c(2) assms(2) by (force simp: listed_ok_def)
  then show ?thesis
    using core count snapshot_step_chunks(1) [of s t e ms]
    by (auto simp: ms_core_def chunks next_eq ct_ok_fold_ref snapshot_step_ok
        simp del: not_None_eq simp flip: not_None_eq)
qed

lemma ms_core_snapshot_fold:
  "ms_core ms \<Longrightarrow> \<forall>e \<in> set es. listed_ok (fm_chunks (snd e)) ms \<Longrightarrow>
     refs_fit (ms_files (fold (snapshot_step s t) es ms)) \<Longrightarrow>
     ms_core (fold (snapshot_step s t) es ms)"
proof (induction es arbitrary: ms)
  case Nil
  then show ?case by simp
next
  case (Cons e es)
  have "refs_fit (ms_files (snapshot_step s t e ms))"
    unfolding refs_fit_def
  proof
    fix h
    have "refs (ms_files (snapshot_step s t e ms)) h \<le> refs (ms_files (fold (snapshot_step s t) (e # es) ms)) h"
      using snapshot_fold_refs [OF snapshot_step_ok [OF ms_coreD(1) [OF Cons.prems(1)]], of s t e h s t es] by simp
    also have "\<dots> < 2 ^ 32" using Cons.prems(3) by (simp only: refs_fit_def)
    finally show "refs (ms_files (snapshot_step s t e ms)) h < 2 ^ 32" .
  qed
  with Cons show ?case by (simp add: ms_core_snapshot_step listed_ok_step)
qed

lemma Subtree_in:
  assumes "om_ok files" "e \<in> set (ns_Subtree files s skip)"
  shows "e \<in> set files \<and> (fst e = s \<or> below s (fst e))"
  using assms by (cases "om_find files s") (auto simp: ns_Subtree_filter dest: map_of_SomeD split: if_splits)

lemma snapshot_fold_ok: "om_ok (ms_files ms) \<Longrightarrow> om_ok (ms_files (fold (snapshot_step s t) es ms))"
  by (rule fold_invariant [where P = "\<lambda>ms. om_ok (ms_files ms)"]) (auto simp: snapshot_step_ok)

lemma ns_tree_Snapshot:
  assumes "ns_tree (ms_files ms)" "rec_ok (SnapshotRec s t) ms"
  shows "ns_tree (ms_files (ApplySnapshot s t ms))"
proof -
  have ok: "om_ok (ms_files ms)" using assms(1) by (rule ns_treeD)
  note sub = Subtree_in [OF ok, of _ s True]
  have "grafted (ms_files ms) s t q" if "q \<in> om_keys (ms_files (ApplySnapshot s t ms))" for q
  proof -
    from that consider "q \<in> om_keys (ms_files ms)"
      | e where "e \<in> set (ns_Subtree (ms_files ms) s True)" "q = snapshot_copied s t (fst e)"
      by (auto simp: ApplySnapshot_def snapshot_fold_files)
    then show ?thesis
    proof cases
      case 2
      have k: "fst e \<in> om_keys (ms_files ms)" and "fst e = s \<or> below s (fst e)"
        using sub [OF 2(1)] by (auto simp: om_keys_def)
      then consider "fst e = s" | r where "fst e \<noteq> s" "fst e = ChildPrefix s @ r"
        by (metis below_split)
      then show ?thesis
        by cases (use k 2(2) in \<open>simp_all add: grafted_def snapshot_copied_def\<close>)
    qed (simp add: grafted_def)
  qed
  moreover have "om_ok (ms_files (ApplySnapshot s t ms))"
    by (simp add: ApplySnapshot_def snapshot_fold_ok ok)
  ultimately show ?thesis
    using assms(2) by (intro ns_tree_graft [OF assms(1), of s t]) auto
qed

lemma ns_tree_Apply:
  assumes "ns_tree (ms_files ms)" "rec_ok r ms"
  shows "ns_tree (ms_files (Apply r ms))"
proof (cases r)
  case (RenameRec s t)
  with assms(2) have "s \<noteq> t" "\<not> below s t" by (auto simp: IsAncestorOrSelf_iff below_iff)
  with RenameRec assms show ?thesis by (simp add: ApplyRename_def ns_tree_RenameSubtree)
next
  case (SnapshotRec s t)
  with assms ns_tree_Snapshot show ?thesis by simp
qed (use assms in \<open>simp_all add: ApplyCreate_def ns_tree_Insert ApplyAddChunk_def ApplyReplaceChunk_def
    ApplyAllocHandle_def ApplyRemove_def ns_Erase_def ns_tree_erase ApplyBumpVersion_def ApplyDropChunk_def
    Let_def ns_tree_modify split: option.split\<close>)

lemma ms_core_Snapshot:
  assumes "ms_core ms" "refs_fit (ms_files (ApplySnapshot s t ms))"
  shows "ms_core (ApplySnapshot s t ms)"
proof -
  have "\<forall>e \<in> set (ns_Subtree (ms_files ms) s True). listed_ok (fm_chunks (snd e)) ms"
    unfolding listed_ok_def
  proof (intro ballI)
    fix e h assume "e \<in> set (ns_Subtree (ms_files ms) s True)" "h \<in> set (fm_chunks (snd e))"
    with Subtree_in [OF ms_coreD(1) [OF assms(1)], of e s True] ms_core_present [OF assms(1), of "fst e" "snd e" h]
    show "\<exists>c. ct_Find (ms_chunks ms) h = Some c \<and> \<not> cm_pending c" by simp
  qed
  then show ?thesis
    using ms_core_snapshot_fold [OF assms(1)] assms(2) by (simp add: ApplySnapshot_def)
qed

lemma ms_core_Apply:
  assumes "ms_ok ms" "rec_ok r ms" "refs_fit (ms_files (Apply r ms))"
  shows "ms_core (Apply r ms)"
proof (cases r)
  case (RenameRec s t)
  with assms(2) have "\<not> below s t" by (auto simp: IsAncestorOrSelf_iff below_iff)
  with RenameRec assms ms_core_Rename ms_okD show ?thesis by simp
qed (use assms ms_okD(2) [OF assms(1)] in \<open>simp_all add: ms_core_Create ms_core_Remove ms_core_AllocHandle
    ms_core_AddChunk ms_core_ReplaceChunk ms_core_BumpVersion ms_core_Snapshot ms_core_DropChunk\<close>)

lemma ms_ok_Apply:
  assumes "ms_ok ms" "rec_ok r ms" "refs_fit (ms_files (Apply r ms))"
  shows "ms_ok (Apply r ms)"
  using ns_tree_Apply [OF ms_okD(1) [OF assms(1)] assms(2)] ms_core_Apply [OF assms] by (simp add: ms_ok_def)

end
