(* ===== verification/Replay.thy ===== *)
theory Replay
  imports Main
begin

text \<open>
  Log-structured state: a live state executes and logs operations, a replica re-executes the
  log. \<open>run\<close> is the life of a live state between two points, the locale
  \<open>replicated\<close> is the contract a replicated state has to meet so that a checkpoint and the
  log after it restore it: the operation log relies on it, and the master's state machine
  (\<open>MasterRecovery\<close>) provides it.
\<close>

text \<open>
  Between two logged operations a live state may change in ways that are not logged
  (\<open>quiet\<close>). \<open>run exec allowed quiet s0 rs s\<close>: from \<open>s0\<close> the records \<open>rs\<close> were executed and
  logged, and \<open>s\<close> was reached.
\<close>

inductive run :: "('r \<Rightarrow> 's \<Rightarrow> 's) \<Rightarrow> ('r \<Rightarrow> 's \<Rightarrow> bool) \<Rightarrow> ('s \<Rightarrow> 's \<Rightarrow> bool) \<Rightarrow> 's \<Rightarrow> 'r list \<Rightarrow> 's \<Rightarrow> bool"
  for exec allowed quiet s0 where
  start: "run exec allowed quiet s0 [] s0"
| logged: "run exec allowed quiet s0 rs s \<Longrightarrow> allowed r s \<Longrightarrow> run exec allowed quiet s0 (rs @ [r]) (exec r s)"
| silent: "run exec allowed quiet s0 rs s \<Longrightarrow> quiet s s' \<Longrightarrow> run exec allowed quiet s0 rs s'"

lemma run_trans:
  assumes "run exec allowed quiet s1 rs' s2" "run exec allowed quiet s0 rs s1"
  shows "run exec allowed quiet s0 (rs @ rs') s2"
  using assms
proof induction
  case (logged rs' s r)
  then show ?case using run.logged [of exec allowed quiet s0 "rs @ rs'" s r] by simp
qed (auto intro: run.intros)

lemma run_split:
  assumes "run exec allowed quiet s0 rs s" "rs = as @ bs"
  shows "\<exists>m. run exec allowed quiet s0 as m \<and> run exec allowed quiet m bs s"
  using assms
proof (induction arbitrary: bs)
  case start
  then show ?case by (auto intro: run.start)
next
  case (logged rs s r)
  show ?case
  proof (cases bs rule: rev_cases)
    case Nil
    with logged show ?thesis by (metis append_Nil2 run.logged run.start)
  next
    case (snoc cs x)
    with logged obtain m where "run exec allowed quiet s0 as m" "run exec allowed quiet m cs s" by auto
    with logged snoc show ?thesis by (auto intro: run.logged)
  qed
next
  case (silent rs s s')
  then show ?case by (metis run.silent)
qed

locale replicated =
  fixes exec :: "'r \<Rightarrow> 's \<Rightarrow> 's"
    and allowed :: "'r \<Rightarrow> 's \<Rightarrow> bool"
    and quiet :: "'s \<Rightarrow> 's \<Rightarrow> bool"
    and similar :: "'s \<Rightarrow> 's \<Rightarrow> bool"
    and snapshot :: "'s \<Rightarrow> 'c"
    and load :: "'c \<Rightarrow> 's"
    and restore :: "'s \<Rightarrow> 's"
  assumes similar_exec: "similar a b \<Longrightarrow> allowed r a \<Longrightarrow> similar (exec r a) (exec r b)"
    and similar_quiet: "similar a b \<Longrightarrow> quiet a a' \<Longrightarrow> similar a' b"
    and similar_load: "similar a b \<Longrightarrow> similar a (load (snapshot a))"
    and similar_restore: "similar a b \<Longrightarrow> similar a (restore b)"
    and quiet_restore: "similar a b \<Longrightarrow> quiet a (restore b)"
begin

lemma similar_run:
  assumes "run exec allowed quiet a rs a'" "similar a b"
  shows "similar a' (fold exec rs b)"
  using assms
proof induction
  case (logged rs s r)
  then show ?case by (simp add: similar_exec)
next
  case (silent rs s s')
  then show ?case by (blast intro: similar_quiet)
qed simp

text \<open>Loading a snapshot and replaying the records after it restores the live state.\<close>

lemma recovered:
  assumes "similar a b" "run exec allowed quiet a rs a'"
  shows "similar a' (restore (fold exec rs (load (snapshot a))))"
    and "quiet a' (restore (fold exec rs (load (snapshot a))))"
proof -
  have "similar a' (fold exec rs (load (snapshot a)))"
    using similar_run [OF assms(2) similar_load [OF assms(1)]] .
  then show "similar a' (restore (fold exec rs (load (snapshot a))))"
    "quiet a' (restore (fold exec rs (load (snapshot a))))"
    by (rule similar_restore, rule quiet_restore)
qed

end

end
