(* ===== verification/MasterRecovery.thy ===== *)
theory MasterRecovery
  imports MasterInvariant Replay
begin

text \<open>
  What survives a crash. \<open>ms_view\<close> forgets locations, leases, pending chunks and the
  representation of the maps; \<open>dApply\<close> is the specification of each log record on that
  abstraction, and every operation of the state machine refines it. Replay works on states
  whose reference counts are not yet correct, so the refinement rests on the weaker
  \<open>rep_ok\<close>; \<open>RecomputeRefcounts\<close> then restores the full invariant.
\<close>

section \<open>The abstract state machine\<close>

record durable =
  d_files :: "string \<rightharpoonup> u64 list"
  d_versions :: "u64 \<rightharpoonup> u64"
  d_next :: u64

definition ms_view :: "master_state \<Rightarrow> durable" where
  "ms_view ms =
     \<lparr>d_files = (\<lambda>p. map_option fm_chunks (ns_Find (ms_files ms) p)),
      d_versions = (\<lambda>h. case ct_Find (ms_chunks ms) h of None \<Rightarrow> None
         | Some c \<Rightarrow> if cm_pending c then None else Some (cm_version c)),
      d_next = ms_next_handle ms\<rparr>"

definition d_reference :: "u64 \<Rightarrow> durable \<Rightarrow> durable" where
  "d_reference h d =
     d\<lparr>d_versions := (d_versions d)(h \<mapsto> (case d_versions d h of None \<Rightarrow> 1 | Some v \<Rightarrow> v)),
       d_next := max (d_next d) (h + 1)\<rparr>"

definition d_replace :: "string \<Rightarrow> nat \<Rightarrow> u64 \<Rightarrow> durable \<Rightarrow> durable" where
  "d_replace p i h d =
     (case d_files d p of
        None \<Rightarrow> d
      | Some cs \<Rightarrow> if length cs \<le> i \<or> cs ! i = h then d
                   else d_reference h (d\<lparr>d_files := (d_files d)(p \<mapsto> cs[i := h])\<rparr>))"

text \<open>The path below \<open>s\<close> that corresponds to the path \<open>q\<close> below \<open>t\<close>.\<close>

definition moved_from :: "string \<Rightarrow> string \<Rightarrow> string \<Rightarrow> string" where
  "moved_from s t q = (if q = t then s else ChildPrefix s @ drop (length (ChildPrefix t)) q)"

fun dApply :: "log_record \<Rightarrow> durable \<Rightarrow> durable" where
  "dApply (CreateRec p) d = (if d_files d p = None then d\<lparr>d_files := (d_files d)(p \<mapsto> [])\<rparr> else d)"
| "dApply (RenameRec s t) d = d\<lparr>d_files := (\<lambda>q.
     if q = t \<or> below t q then d_files d (moved_from s t q)
     else if q = s \<or> below s q then None else d_files d q)\<rparr>"
| "dApply (RemoveRec p) d = d\<lparr>d_files := (d_files d)(p := None)\<rparr>"
| "dApply (AllocHandleRec h) d = d\<lparr>d_next := max (d_next d) (h + 1)\<rparr>"
| "dApply (AddChunkRec p i h) d =
     (case d_files d p of
        None \<Rightarrow> d
      | Some cs \<Rightarrow> if i = length cs
                   then d_reference h (d\<lparr>d_files := (d_files d)(p \<mapsto> cs @ [h])\<rparr>)
                   else d_replace p i h d)"
| "dApply (ReplaceChunkRec p i h) d = d_replace p i h d"
| "dApply (BumpVersionRec h v) d =
     d\<lparr>d_versions := (d_versions d)(h := map_option (\<lambda>w. max w v) (d_versions d h))\<rparr>"
| "dApply (SnapshotRec s t) d = d\<lparr>d_files := (\<lambda>q.
     if d_files d q = None \<and> (q = t \<or> below t q) \<and> \<not> IsHiddenPath (moved_from s t q)
     then d_files d (moved_from s t q) else d_files d q)\<rparr>"
| "dApply (DropChunkRec h) d = d\<lparr>d_versions := (d_versions d)(h := None)\<rparr>"
| "dApply BodyNotSet d = d"

section \<open>The invariant of replay\<close>

definition rep_ok :: "master_state \<Rightarrow> bool" where
  "rep_ok ms \<longleftrightarrow> ns_tree (ms_files ms) \<and> ct_ok (ms_chunks ms) \<and>
     (\<forall>h c. ct_Find (ms_chunks ms) h = Some c \<longrightarrow> cm_pending c \<longrightarrow> cm_version c = 1)"

definition no_pending :: "master_state \<Rightarrow> bool" where
  "no_pending ms \<longleftrightarrow> (\<forall>h c. ct_Find (ms_chunks ms) h = Some c \<longrightarrow> \<not> cm_pending c)"

lemma ms_ok_rep_ok: "ms_ok ms \<Longrightarrow> rep_ok ms"
  by (auto simp: ms_ok_def ms_core_def rep_ok_def)

lemma durable_eqI:
  "\<lbrakk>\<And>p. d_files a p = d_files b p; \<And>h. d_versions a h = d_versions b h; d_next a = d_next b\<rbrakk> \<Longrightarrow>
     a = (b :: durable)"
  by (cases a; cases b) auto

text \<open>Files with the same view are the same list.\<close>

lemma file_meta_eq: "fm_chunks a = fm_chunks b \<Longrightarrow> a = (b :: file_meta)"
  by simp

lemma view_files:
  assumes "om_ok (ms_files a)" "om_ok (ms_files b)" "d_files (ms_view a) = d_files (ms_view b)"
  shows "ms_files a = ms_files b"
proof (rule om_ext [OF assms(1,2)], rule ext)
  fix p
  have "map_option fm_chunks (om_find (ms_files a) p) = map_option fm_chunks (om_find (ms_files b) p)"
    using fun_cong [OF assms(3), of p] by (simp add: ms_view_def ns_Find_def)
  then show "om_find (ms_files a) p = om_find (ms_files b) p"
    by (cases "om_find (ms_files a) p"; cases "om_find (ms_files b) p") auto
qed

text \<open>The version that a chunk table shows for a handle.\<close>

definition shown :: "chunk_table \<Rightarrow> u64 \<Rightarrow> u64 option" where
  "shown t h = (case ct_Find t h of None \<Rightarrow> None | Some c \<Rightarrow> if cm_pending c then None else Some (cm_version c))"

definition pending_new :: "chunk_table \<Rightarrow> bool" where
  "pending_new t \<longleftrightarrow> (\<forall>h c. ct_Find t h = Some c \<longrightarrow> cm_pending c \<longrightarrow> cm_version c = 1)"

lemma shown_unref [simp]: "shown (unref h t) h' = shown t h'"
  and shown_ref [simp]: "shown (ref h t) h' = shown t h'"
  by (auto simp: shown_def unref_def ref_def ct_simps split: option.split)

lemma shown_fold_unref [simp]: "shown (fold unref hs t) h' = shown t h'"
  by (induction hs arbitrary: t) auto

lemma shown_fold_ref [simp]: "shown (fold ref hs t) h' = shown t h'"
  by (induction hs arbitrary: t) auto

lemma pending_new_unref: "pending_new t \<Longrightarrow> pending_new (unref h t)"
  and pending_new_ref: "pending_new t \<Longrightarrow> pending_new (ref h t)"
  and pending_new_adopt: "pending_new t \<Longrightarrow> pending_new (adopt_chunk h t)"
  by (auto simp: pending_new_def unref_def ref_def ct_simps Let_def split: if_splits)

lemma pending_new_fold:
  "pending_new t \<Longrightarrow> pending_new (fold unref hs t)"
  "pending_new t \<Longrightarrow> pending_new (fold ref hs t)"
  by (rule fold_invariant [where P = pending_new]; simp add: pending_new_unref pending_new_ref)+

lemma shown_adopt:
  assumes "pending_new t"
  shows "shown (adopt_chunk h t) h' =
     (if h' = h then Some (case shown t h of None \<Rightarrow> 1 | Some v \<Rightarrow> v) else shown t h')"
  using assms by (auto simp: shown_def pending_new_def ct_simps Let_def new_chunk_def split: option.split)

lemma view_versions: "d_versions (ms_view ms) = shown (ms_chunks ms)"
  by (simp add: ms_view_def shown_def fun_eq_iff)

lemma view_simps:
  "d_files (ms_view ms) p = map_option fm_chunks (om_find (ms_files ms) p)"
  "d_next (ms_view ms) = ms_next_handle ms"
  by (simp_all add: ms_view_def ns_Find_def)

lemma rep_ok_alt: "rep_ok ms \<longleftrightarrow> ns_tree (ms_files ms) \<and> ct_ok (ms_chunks ms) \<and> pending_new (ms_chunks ms)"
  by (simp add: rep_ok_def pending_new_def)

section \<open>Every record refines its specification\<close>

lemma view_Create: "ms_view (ApplyCreate p ms) = dApply (CreateRec p) (ms_view ms)"
  by (rule durable_eqI)
    (auto simp: view_simps view_versions ApplyCreate_def ns_Insert_def om_emplace_def empty_meta_def)

lemma view_Rename:
  assumes "rep_ok ms" "rec_ok (RenameRec s t) ms"
  shows "ms_view (ApplyRename s t ms) = dApply (RenameRec s t) (ms_view ms)"
proof -
  have tree: "ns_tree (ms_files ms)" and g: "s \<noteq> ''/''" "t \<noteq> ''/''" "s \<noteq> t" "\<not> below s t"
    using assms by (auto simp: rep_ok_def IsAncestorOrSelf_iff below_iff)
  have ok: "om_ok (ms_files ms)" using tree by (rule ns_treeD)
  have free: "\<forall>k \<in> om_keys (ms_files ms). k \<noteq> t \<and> \<not> below t k"
    using assms(2) by (auto simp: ns_free_iff [OF tree g(2)])
  note look = RenameSubtree_lookup [OF ok g(1,2) free g(3,4)]
  show ?thesis
  proof (cases "ns_Exists (ms_files ms) s \<or> ns_IsDirectory (ms_files ms) s")
    case True
    then have files: "ms_files (ApplyRename s t ms) = ns_RenameSubtree s t (ms_files ms)"
      by (auto simp: ApplyRename_def)
    show ?thesis
      by (rule durable_eqI) (auto simp: view_simps view_versions files look moved_from_def,
          auto simp: ApplyRename_def)
  next
    case False
    then have none: "om_find (ms_files ms) q = None" if "q = s \<or> below s q" for q
      using that g(1) by (auto simp: ns_Exists_iff ns_IsDirectory_iff [OF ok] om_find_in_keys)
    have tnone: "om_find (ms_files ms) q = None" if "q = t \<or> below t q" for q
      using that free by (metis om_find_in_keys)
    have "ApplyRename s t ms = ms" using False by (simp add: ApplyRename_def)
    then show ?thesis
      by (intro durable_eqI) (auto simp: view_simps view_versions none tnone moved_from_def)
  qed
qed

lemma view_Remove: "rep_ok ms \<Longrightarrow> ms_view (ApplyRemove p ms) = dApply (RemoveRec p) (ms_view ms)"
  by (rule durable_eqI)
    (auto simp: view_simps view_versions ApplyRemove_def ns_Erase_def ns_Find_def split: option.split)

lemma view_AllocHandle: "ms_view (ApplyAllocHandle h ms) = dApply (AllocHandleRec h) (ms_view ms)"
  by (rule durable_eqI) (auto simp: view_simps view_versions ApplyAllocHandle_def)

lemma view_adopt:
  assumes "pending_new t" "shown t = shown (ms_chunks ms)"
  shows "ms_view (ApplyAllocHandle h (ms\<lparr>ms_chunks := adopt_chunk h t, ms_files := files\<rparr>)) =
     d_reference h ((ms_view ms)\<lparr>d_files := (\<lambda>p. map_option fm_chunks (om_find files p))\<rparr>)"
  by (rule durable_eqI)
    (auto simp: view_simps view_versions d_reference_def ApplyAllocHandle_def shown_adopt [OF assms(1)] assms(2))

lemma view_Replace:
  assumes "rep_ok ms"
  shows "ms_view (ApplyReplaceChunk p i h ms) = d_replace p i h (ms_view ms)"
proof (cases "ns_Find (ms_files ms) p")
  case None
  then show ?thesis by (simp add: ApplyReplaceChunk_def d_replace_def view_simps ns_Find_def)
next
  case (Some m)
  have "pending_new (unref (fm_chunks m ! i) (ms_chunks ms))"
    using assms by (simp add: rep_ok_alt pending_new_unref)
  moreover have "shown (unref (fm_chunks m ! i) (ms_chunks ms)) = shown (ms_chunks ms)" by (rule ext) simp
  ultimately have "ms_view (ApplyAllocHandle h (ms\<lparr>ms_chunks := adopt_chunk h (unref (fm_chunks m ! i) (ms_chunks ms)),
        ms_files := om_modify p (fm_chunks_update (\<lambda>chunks. chunks[i := h])) (ms_files ms)\<rparr>)) =
      d_reference h ((ms_view ms)\<lparr>d_files := (d_files (ms_view ms))(p \<mapsto> (fm_chunks m)[i := h])\<rparr>)"
    using Some
    by (subst view_adopt) (auto intro!: arg_cong [where f = "d_reference h"] durable_eqI
        simp: view_simps ns_Find_def)
  with Some show ?thesis
    by (auto simp: ApplyReplaceChunk_def d_replace_def view_simps ns_Find_def Let_def)
qed

lemma view_AddChunk:
  assumes "rep_ok ms"
  shows "ms_view (ApplyAddChunk p i h ms) = dApply (AddChunkRec p i h) (ms_view ms)"
proof (cases "ns_Find (ms_files ms) p")
  case None
  then show ?thesis by (simp add: ApplyAddChunk_def view_simps ns_Find_def)
next
  case (Some m)
  let ?ms = "ms\<lparr>ms_files := om_modify p (fm_chunks_update (\<lambda>chunks. chunks @ [h])) (ms_files ms),
      ms_chunks := adopt_chunk h (ms_chunks ms)\<rparr>"
  have swap: "?ms = ms\<lparr>ms_chunks := adopt_chunk h (ms_chunks ms),
      ms_files := om_modify p (fm_chunks_update (\<lambda>chunks. chunks @ [h])) (ms_files ms)\<rparr>"
    by (cases ms) simp
  have "pending_new (ms_chunks ms)" using assms by (simp add: rep_ok_alt)
  then have "ms_view (ApplyAllocHandle h ?ms) =
      d_reference h ((ms_view ms)\<lparr>d_files := (d_files (ms_view ms))(p \<mapsto> fm_chunks m @ [h])\<rparr>)"
    unfolding swap using Some
    by (subst view_adopt) (auto intro!: arg_cong [where f = "d_reference h"] durable_eqI
        simp: view_simps ns_Find_def)
  with Some view_Replace [OF assms, of p i h] show ?thesis
    by (auto simp: ApplyAddChunk_def d_replace_def view_simps ns_Find_def)
qed

lemma view_BumpVersion:
  assumes "rec_ok (BumpVersionRec h v) ms"
  shows "ms_view (ApplyBumpVersion h v ms) = dApply (BumpVersionRec h v) (ms_view ms)"
  using assms
  by (intro durable_eqI) (auto simp: view_simps view_versions ApplyBumpVersion_def shown_def ct_simps
      split: option.splits)

lemma view_DropChunk: "ms_view (ApplyDropChunk h ms) = dApply (DropChunkRec h) (ms_view ms)"
  by (rule durable_eqI) (auto simp: view_simps view_versions ApplyDropChunk_def shown_def ct_simps)

lemma snapshot_step_find:
  "om_find (ms_files (snapshot_step s t e ms)) q =
     (case om_find (ms_files ms) q of
        Some m \<Rightarrow> Some m
      | None \<Rightarrow> if q = snapshot_copied s t (fst e) then Some (snd e) else None)"
  by (auto simp: snapshot_step_def Let_def ns_Exists_iff ns_Insert_def om_emplace_def om_find_in_keys
      split: option.split)

lemma snapshot_fold_find:
  "om_find (ms_files (fold (snapshot_step s t) es ms)) q =
     (case om_find (ms_files ms) q of
        Some m \<Rightarrow> Some m
      | None \<Rightarrow> map_of (map (\<lambda>e. (snapshot_copied s t (fst e), snd e)) es) q)"
proof (induction es arbitrary: ms)
  case Nil
  then show ?case by (simp split: option.split)
next
  case (Cons e es)
  show ?case by (simp add: Cons.IH snapshot_step_find split: option.split)
qed

lemma snapshot_fold_shown [simp]: "shown (ms_chunks (fold (snapshot_step s t) es ms)) h = shown (ms_chunks ms) h"
  by (induction es arbitrary: ms) (auto simp: snapshot_step_def Let_def)

lemma snapshot_fold_next [simp]: "ms_next_handle (fold (snapshot_step s t) es ms) = ms_next_handle ms"
  by (induction es arbitrary: ms) (auto simp: snapshot_step_def Let_def)

lemma map_of_filter_key: "map_of (filter (\<lambda>e. P (fst e)) m) k = (if P k then map_of m k else None)"
  by (induction m) auto

lemma Subtree_copied:
  assumes "om_ok files" "s \<noteq> ''/''" "t \<noteq> ''/''"
  shows "map_of (map (\<lambda>e. (snapshot_copied s t (fst e), snd e)) (ns_Subtree files s True)) q =
     (if (q = t \<or> below t q) \<and> \<not> IsHiddenPath (moved_from s t q) then om_find files (moved_from s t q) else None)"
proof -
  let ?a = "ChildPrefix s" and ?b = "ChildPrefix t"
  let ?vis = "filter (\<lambda>e. \<not> IsHiddenPath (fst e)) files"
  have below: "filter (\<lambda>e. below s (fst e) \<and> \<not> IsHiddenPath (fst e)) files =
      filter (\<lambda>e. starts_with ?a (fst e)) ?vis"
    by (auto simp: below_def filter_filter conj_commute)
  have sno: "\<not> starts_with ?a s" using below_irrefl [OF assms(2)] by (simp add: below_def)
  have sh: "map (\<lambda>e. (snapshot_copied s t (fst e), snd e)) (filter (\<lambda>e. starts_with ?a (fst e)) ?vis) =
      map (\<lambda>e. (?b @ drop (length ?a) (fst e), snd e)) (filter (\<lambda>e. starts_with ?a (fst e)) ?vis)"
    using sno by (auto simp: snapshot_copied_def)
  have tno: "\<not> starts_with ?b t" using below_irrefl [OF assms(3)] by (simp add: below_def)
  have shift: "map_of (map (\<lambda>e. (?b @ drop (length ?a) (fst e), snd e)) (filter (\<lambda>e. starts_with ?a (fst e)) ?vis)) q =
      (if starts_with ?b q \<and> \<not> IsHiddenPath (?a @ drop (length ?b) q) then om_find files (?a @ drop (length ?b) q) else None)"
    unfolding map_of_shift map_of_filter_key [of "\<lambda>k. \<not> IsHiddenPath k"] by simp
  let ?F = "filter (\<lambda>e. below s (fst e) \<and> \<not> (True \<and> IsHiddenPath (fst e))) files"
  have F: "map_of (map (\<lambda>e. (snapshot_copied s t (fst e), snd e)) ?F) q =
      (if starts_with ?b q \<and> \<not> IsHiddenPath (?a @ drop (length ?b) q) then om_find files (?a @ drop (length ?b) q) else None)"
    by (simp only: simp_thms below sh shift)
  let ?S = "case om_find files s of None \<Rightarrow> [] | Some m \<Rightarrow> if True \<and> IsHiddenPath s then [] else [(s, m)]"
  have S: "map_of (map (\<lambda>e. (snapshot_copied s t (fst e), snd e)) ?S) q =
      (if q = t \<and> \<not> IsHiddenPath s then om_find files s else None)"
    by (simp add: snapshot_copied_def split: option.split)
  show ?thesis
    unfolding ns_Subtree_filter [OF assms(1)] map_append map_of_append map_add_def F S
    using tno by (auto simp: below_def moved_from_def split: option.split)
qed

lemma view_Snapshot:
  assumes "rep_ok ms" "rec_ok (SnapshotRec s t) ms"
  shows "ms_view (ApplySnapshot s t ms) = dApply (SnapshotRec s t) (ms_view ms)"
proof -
  have ok: "om_ok (ms_files ms)" using assms(1) by (auto simp: rep_ok_def dest: ns_treeD)
  have g: "s \<noteq> ''/''" "t \<noteq> ''/''" using assms(2) by auto
  show ?thesis
    by (rule durable_eqI) (auto simp: view_simps view_versions ApplySnapshot_def snapshot_fold_find
        Subtree_copied [OF ok g] split: option.split)
qed

lemma view_Apply:
  assumes "rep_ok ms" "rec_ok r ms"
  shows "ms_view (Apply r ms) = dApply r (ms_view ms)"
  using assms view_Create view_Rename view_Remove view_AllocHandle view_AddChunk view_Replace
    view_BumpVersion view_Snapshot view_DropChunk
  by (cases r) simp_all

section \<open>Replay\<close>

lemma ct_ok_snapshot_fold: "ct_ok (ms_chunks ms) \<Longrightarrow> ct_ok (ms_chunks (fold (snapshot_step s t) es ms))"
  by (rule fold_invariant [where P = "\<lambda>ms. ct_ok (ms_chunks ms)"])
    (auto simp: snapshot_step_def Let_def ct_ok_fold_ref)

lemma ct_ok_Apply: "ct_ok (ms_chunks ms) \<Longrightarrow> ct_ok (ms_chunks (Apply r ms))"
  by (cases r) (auto simp: ApplyCreate_def ApplyRename_def ApplyRemove_def ApplyAllocHandle_def ApplyAddChunk_def
      ApplyReplaceChunk_def ApplyBumpVersion_def ApplySnapshot_def ApplyDropChunk_def Let_def
      ct_ok_fold_unref ct_ok_adopt ct_ok_unref ct_ok_Erase ct_ok_snapshot_fold intro!: ct_ok_update
      split: option.split)

text \<open>Which pending chunks a state has; no record introduces one.\<close>

definition pending_of :: "chunk_table \<Rightarrow> u64 \<Rightarrow> bool" where
  "pending_of t h = (case ct_Find t h of None \<Rightarrow> False | Some c \<Rightarrow> cm_pending c)"

lemma pending_of_unref [simp]: "pending_of (unref h t) h' = pending_of t h'"
  and pending_of_ref [simp]: "pending_of (ref h t) h' = pending_of t h'"
  and pending_of_adopt: "pending_of (adopt_chunk h t) h' \<Longrightarrow> pending_of t h'"
  by (auto simp: pending_of_def unref_def ref_def ct_simps Let_def split: option.splits if_splits)

lemma pending_of_fold [simp]:
  "pending_of (fold unref hs t) h' = pending_of t h'"
  "pending_of (fold ref hs t) h' = pending_of t h'"
  by (induction hs arbitrary: t) auto

lemma pending_of_snapshot_fold [simp]:
  "pending_of (ms_chunks (fold (snapshot_step s t) es ms)) h = pending_of (ms_chunks ms) h"
  by (induction es arbitrary: ms) (auto simp: snapshot_step_def Let_def)

lemma pending_of_Apply: "pending_of (ms_chunks (Apply r ms)) h \<Longrightarrow> pending_of (ms_chunks ms) h"
  by (cases r) (auto simp: ApplyCreate_def ApplyRename_def ApplyRemove_def ApplyAllocHandle_def ApplyAddChunk_def
      ApplyReplaceChunk_def ApplySnapshot_def Let_def split: option.splits if_splits dest!: pending_of_adopt,
      auto simp: ApplyBumpVersion_def ApplyDropChunk_def pending_of_def ct_simps split: option.splits if_splits)

lemma no_pending_alt: "no_pending ms \<longleftrightarrow> (\<forall>h. \<not> pending_of (ms_chunks ms) h)"
  by (auto simp: no_pending_def pending_of_def split: option.splits)

lemma no_pending_Apply: "no_pending ms \<Longrightarrow> no_pending (Apply r ms)"
  by (auto simp: no_pending_alt dest: pending_of_Apply)

lemma rep_ok_no_pending:
  "no_pending ms \<Longrightarrow> rep_ok ms \<longleftrightarrow> ns_tree (ms_files ms) \<and> ct_ok (ms_chunks ms)"
  by (auto simp: rep_ok_def no_pending_def)

lemma rep_ok_Apply:
  assumes "rep_ok ms" "no_pending ms" "rec_ok r ms"
  shows "rep_ok (Apply r ms)"
  using assms ns_tree_Apply ct_ok_Apply no_pending_Apply rep_ok_no_pending by metis

text \<open>The guards of a record carry over to a replayed state with the same view.\<close>

lemma rec_ok_view:
  assumes "rec_ok r a" "ms_files a = ms_files b" "no_pending b"
  shows "rec_ok r b"
  using assms by (cases r) (auto simp: no_pending_def split: option.splits)

definition replica_of :: "master_state \<Rightarrow> master_state \<Rightarrow> bool" where
  "replica_of a b \<longleftrightarrow> ms_ok a \<and> rep_ok b \<and> no_pending b \<and> ms_view a = ms_view b"

lemma replica_of_Apply:
  assumes "replica_of a b" "rec_ok r a" "refs_fit (ms_files (Apply r a))"
  shows "replica_of (Apply r a) (Apply r b)"
proof -
  have ab: "ms_ok a" "rep_ok a" "rep_ok b" "no_pending b" "ms_view a = ms_view b"
    using assms(1) ms_ok_rep_ok by (auto simp: replica_of_def)
  have "ms_files a = ms_files b"
    using ab by (intro view_files) (auto simp: rep_ok_def dest: ns_treeD(1))
  then have b: "rec_ok r b" by (rule rec_ok_view [OF assms(2) _ ab(4)])
  show ?thesis
    using ms_ok_Apply [OF ab(1) assms(2,3)] rep_ok_Apply [OF ab(3,4) b] no_pending_Apply [OF ab(4)]
      view_Apply [OF ab(2) assms(2)] view_Apply [OF ab(3) b] ab(5)
    by (simp add: replica_of_def)
qed

section \<open>Loading a checkpoint\<close>

lemma load_files_find:
  "om_find (ms_files (fold load_file es ms)) p =
     (case om_find (ms_files ms) p of
        Some m \<Rightarrow> Some m
      | None \<Rightarrow> map_option (\<lambda>cs. \<lparr>fm_chunks = cs\<rparr>) (map_of es p))"
proof (induction es arbitrary: ms)
  case Nil
  then show ?case by (simp split: option.split)
next
  case (Cons e es)
  have "om_find (ms_files (load_file e ms)) p =
     (case om_find (ms_files ms) p of Some m \<Rightarrow> Some m
      | None \<Rightarrow> if p = fst e then Some \<lparr>fm_chunks = snd e\<rparr> else None)"
    by (auto simp: load_file_def ns_Insert_def om_emplace_def split: option.split)
  then show ?case by (simp add: Cons.IH split: option.split)
qed

lemma load_files_rest [simp]:
  "ms_chunks (fold load_file es ms) = ms_chunks ms" "ms_next_handle (fold load_file es ms) = ms_next_handle ms"
  by (induction es arbitrary: ms) (simp_all add: load_file_def)

lemma load_files_ok: "om_ok (ms_files ms) \<Longrightarrow> om_ok (ms_files (fold load_file es ms))"
  by (rule fold_invariant [where P = "\<lambda>ms. om_ok (ms_files ms)"])
    (auto simp: load_file_def ns_Insert_def om_intros)

lemma load_chunks_find:
  "ct_Find (ms_chunks (fold load_chunk es ms)) h =
     (case ct_Find (ms_chunks ms) h of
        Some c \<Rightarrow> Some c
      | None \<Rightarrow> map_option (\<lambda>v. new_chunk\<lparr>cm_version := v\<rparr>) (map_of es h))"
proof (induction es arbitrary: ms)
  case Nil
  then show ?case by (simp split: option.split)
next
  case (Cons e es)
  have "ct_Find (ms_chunks (load_chunk e ms)) h =
     (case ct_Find (ms_chunks ms) h of Some c \<Rightarrow> Some c
      | None \<Rightarrow> if h = fst e then Some (new_chunk\<lparr>cm_version := snd e\<rparr>) else None)"
    by (auto simp: load_chunk_def ApplyAllocHandle_def ct_simps split: option.split)
  then show ?case by (simp add: Cons.IH split: option.split)
qed

lemma load_chunks_rest [simp]: "ms_files (fold load_chunk es ms) = ms_files ms"
  by (induction es arbitrary: ms) (simp_all add: load_chunk_def ApplyAllocHandle_def)

lemma load_chunks_ok: "ct_ok (ms_chunks ms) \<Longrightarrow> ct_ok (ms_chunks (fold load_chunk es ms))"
  by (rule fold_invariant [where P = "\<lambda>ms. ct_ok (ms_chunks ms)"])
    (auto simp: load_chunk_def ApplyAllocHandle_def ct_ok_Create)

lemma AllocHandle_below: "h < ms_next_handle ms \<Longrightarrow> ApplyAllocHandle h ms = ms"
  by (cases ms) (simp add: ApplyAllocHandle_def max_absorb1 inc_le)

lemma load_chunks_next:
  assumes "\<forall>h \<in> fst ` set es. h < ms_next_handle ms"
  shows "ms_next_handle (fold load_chunk es ms) = ms_next_handle ms"
  by (rule fold_invariant [where P = "\<lambda>s. ms_next_handle s = ms_next_handle ms"])
    (use assms in \<open>auto simp: load_chunk_def AllocHandle_below\<close>)

lemma Load_replica:
  assumes "ms_ok m"
  shows "replica_of m (Load (ToCheckpoint m) x)"
proof -
  let ?b = "Load (ToCheckpoint m) x"
  let ?f = "fold load_file (ck_files (ToCheckpoint m)) (x\<lparr>ms_files := ns_Clear (ms_files x),
      ms_chunks := ct_Clear (ms_chunks x), ms_next_handle := max 1 (ck_next_chunk_handle (ToCheckpoint m))\<rparr>)"
  have b: "?b = fold load_chunk (ck_chunks (ToCheckpoint m)) ?f" by (simp add: Load_def)
  note core = ms_coreD [OF ms_okD(2) [OF assms]]
  have "om_find (ms_files ?f) p = om_find (ms_files m) p" for p
  proof -
    have "map_of (ck_files (ToCheckpoint m)) p = map_option fm_chunks (om_find (ms_files m) p)"
      by (simp add: ToCheckpoint_def map_of_map_snd)
    then show ?thesis
      by (cases "om_find (ms_files m) p") (simp_all add: load_files_find ns_Clear_def)
  qed
  then have files: "ms_files ?b = ms_files m"
    unfolding b load_chunks_rest
    by (intro om_ext core load_files_ok ext) (simp_all add: ns_Clear_def)
  have distinct: "om_ok (filter (\<lambda>e. \<not> cm_pending (snd e)) (ct_chunks (ms_chunks m)))"
    using core(2) by (simp add: ct_okD om_intros)
  have chunks: "map_of (ck_chunks (ToCheckpoint m)) h = shown (ms_chunks m) h" for h
  proof -
    have "map_of (ck_chunks (ToCheckpoint m)) h =
        map_option cm_version (map_of (filter (\<lambda>e. \<not> cm_pending (snd e)) (ct_chunks (ms_chunks m))) h)"
      by (simp add: ToCheckpoint_def map_of_map_snd)
    also have "map_of (filter (\<lambda>e. \<not> cm_pending (snd e)) (ct_chunks (ms_chunks m))) h =
        (case ct_Find (ms_chunks m) h of None \<Rightarrow> None | Some c \<Rightarrow> if cm_pending c then None else Some c)"
      using map_of_filter_in [of "ct_chunks (ms_chunks m)"] om_find_in [OF distinct, of h]
        om_find_in [OF ct_okD(1) [OF core(2)], of h]
      by (auto simp: ct_Find_def split: option.split) (metis option.exhaust)+
    finally show ?thesis by (simp add: shown_def split: option.split)
  qed
  have find: "ct_Find (ms_chunks ?b) h = map_option (\<lambda>v. new_chunk\<lparr>cm_version := v\<rparr>) (shown (ms_chunks m) h)" for h
    by (simp add: b load_chunks_find ct_Clear_def chunks)
  have next_f: "ms_next_handle ?f = ms_next_handle m"
  proof -
    have "1 \<le> ms_next_handle m" using core(3) by (metis word_le_less_eq word_less_1 linorder_not_le)
    then show ?thesis by (simp add: ToCheckpoint_def max_absorb2)
  qed
  have "\<forall>h \<in> fst ` set (ck_chunks (ToCheckpoint m)). h < ms_next_handle ?f"
    unfolding next_f
  proof
    fix h assume "h \<in> fst ` set (ck_chunks (ToCheckpoint m))"
    then have "shown (ms_chunks m) h \<noteq> None" by (metis chunks map_of_eq_None_iff)
    then show "h < ms_next_handle m" using core(5) [of h] by (auto simp: shown_def split: option.splits)
  qed
  then have next_b: "ms_next_handle ?b = ms_next_handle m"
    using load_chunks_next next_f by (simp add: b)
  have "ct_ok (ms_chunks ?b)"
    unfolding b by (rule load_chunks_ok) (simp add: ct_Clear_def)
  moreover have np: "no_pending ?b" by (auto simp: no_pending_def find new_chunk_def)
  moreover have "shown (ms_chunks ?b) h = shown (ms_chunks m) h" for h
    by (subst shown_def) (simp add: find new_chunk_def split: option.split)
  then have "ms_view ?b = ms_view m"
    by (intro durable_eqI) (simp_all add: view_simps view_versions files next_b)
  ultimately show ?thesis
    using assms ms_okD(1) [OF assms] files by (simp add: replica_of_def rep_ok_no_pending)
qed

section \<open>Recomputing the reference counts\<close>

definition listed :: "name_space \<Rightarrow> u64 list" where
  "listed files = concat (map (\<lambda>e. fm_chunks (snd e)) files)"

lemma count_listed: "count_list (listed files) h = refs files h"
  by (induction files) (simp_all add: listed_def)

lemma fold_recount_listed:
  "fold (\<lambda>e. fold recount (fm_chunks (snd e))) files ms = fold recount (listed files) ms"
  by (induction files arbitrary: ms) (simp_all add: listed_def)

lemma ct_Create_present: "ct_Find t h \<noteq> None \<Longrightarrow> ct_Create h v t = t"
  by (cases t) (auto simp: ct_Create_def ct_Find_def om_emplace_def)

lemma fold_recount:
  "\<forall>h \<in> set hs. ct_Find (ms_chunks ms) h \<noteq> None \<and> h < ms_next_handle ms \<Longrightarrow>
     fold recount hs ms = ms\<lparr>ms_chunks := fold ref hs (ms_chunks ms)\<rparr>"
proof (induction hs arbitrary: ms)
  case Nil
  then show ?case by simp
next
  case (Cons h hs)
  then have "recount h ms = ms\<lparr>ms_chunks := ref h (ms_chunks ms)\<rparr>"
    by (simp add: recount_def ct_Create_present AllocHandle_below)
  moreover have "fold recount hs (ms\<lparr>ms_chunks := ref h (ms_chunks ms)\<rparr>) =
      ms\<lparr>ms_chunks := fold ref hs (ref h (ms_chunks ms))\<rparr>"
    using Cons.prems by (subst Cons.IH) (simp_all add: ct_Find_ref)
  ultimately show ?case by simp
qed

lemma ct_Find_reset: "ct_Find (reset_refcounts t) h = map_option (cm_refcount_update (\<lambda>_. 0)) (ct_Find t h)"
  by (simp add: ct_Find_def reset_refcounts_def map_of_map_snd)

lemma ct_ok_reset: "ct_ok t \<Longrightarrow> ct_ok (reset_refcounts t)"
proof -
  assume t: "ct_ok t"
  have hb: "ct_held_by (reset_refcounts t) = ct_held_by t"
    and keys: "map fst (ct_chunks (reset_refcounts t)) = map fst (ct_chunks t)"
    by (simp_all add: reset_refcounts_def comp_def)
  have "holders (reset_refcounts t) h = holders t h" for h
    by (simp add: holders_def ct_Find_reset split: option.split)
  moreover have "ct_HeldBy (reset_refcounts t) s = ct_HeldBy t s" for s by (simp add: ct_HeldBy_def hb)
  ultimately show ?thesis
    using t keys by (auto simp: ct_ok_def hb om_ok_def ct_Find_reset)
qed

text \<open>A view in which every listed handle has a version and lies below the allocator.\<close>

definition d_closed :: "durable \<Rightarrow> bool" where
  "d_closed d \<longleftrightarrow> d_next d \<noteq> 0 \<and> (\<forall>p cs h. d_files d p = Some cs \<longrightarrow> h \<in> set cs \<longrightarrow> d_versions d h \<noteq> None) \<and>
     (\<forall>h. d_versions d h \<noteq> None \<longrightarrow> h < d_next d)"

lemma ms_ok_closed:
  assumes "ms_ok m"
  shows "d_closed (ms_view m)"
proof -
  note core = ms_okD(2) [OF assms]
  have "d_versions (ms_view m) h \<noteq> None" if "om_find (ms_files m) p = Some f" "h \<in> set (fm_chunks f)" for p f h
    using ms_core_present [OF core map_of_SomeD [OF that(1)] that(2)] by (auto simp: view_versions shown_def)
  moreover have "h < ms_next_handle m" if "d_versions (ms_view m) h \<noteq> None" for h
    using that ms_coreD(5) [OF core, of h] by (auto simp: view_versions shown_def split: option.splits)
  ultimately show ?thesis
    using ms_coreD(3) [OF core] by (auto simp: d_closed_def view_simps)
qed

lemma ms_core_fits: "ms_core m \<Longrightarrow> refs_fit (ms_files m)"
  unfolding refs_fit_def
proof
  fix h assume "ms_core m"
  then have "refs (ms_files m) h = counts (ms_chunks m) h" by (simp add: ms_coreD(4))
  also have "\<dots> < 2 ^ 32"
    using unsigned_less [where ?'b = 32 and ?'a = nat] by (auto simp: counts_def split: option.split)
  finally show "refs (ms_files m) h < 2 ^ 32" .
qed

lemma RecomputeRefcounts_restores:
  assumes "replica_of m b"
  shows "replica_of m (RecomputeRefcounts b)" "ms_ok (RecomputeRefcounts b)"
proof -
  let ?t = "reset_refcounts (ms_chunks b)" and ?hs = "listed (ms_files b)"
  have m: "ms_ok m" and b: "rep_ok b" "no_pending b" and view: "ms_view b = ms_view m"
    using assms by (auto simp: replica_of_def)
  have files: "ms_files b = ms_files m"
    using m b view by (intro view_files) (auto simp: rep_ok_def ms_ok_def dest: ns_treeD(1))
  have closed: "d_closed (ms_view b)" using ms_ok_closed [OF m] view by simp
  have next_above: "h < ms_next_handle b" if "ct_Find (ms_chunks b) h \<noteq> None" for h
    using that closed b(2) by (auto simp: d_closed_def view_simps view_versions shown_def no_pending_def split: option.splits)
  have present: "ct_Find (ms_chunks b) h \<noteq> None" if "h \<in> set ?hs" for h
  proof -
    from that obtain e where e: "e \<in> set (ms_files b)" "h \<in> set (fm_chunks (snd e))" by (auto simp: listed_def)
    have "om_find (ms_files b) (fst e) = Some (snd e)"
      using e(1) b(1) om_find_in [of "ms_files b" "fst e" "snd e"] by (auto simp: rep_ok_def dest: ns_treeD(1))
    then have "d_files (ms_view b) (fst e) = Some (fm_chunks (snd e))" by (simp add: view_simps)
    with closed e(2) have "d_versions (ms_view b) h \<noteq> None" unfolding d_closed_def by blast
    then show ?thesis by (auto simp: view_versions shown_def split: option.splits)
  qed
  have rec: "RecomputeRefcounts b = b\<lparr>ms_chunks := fold ref ?hs ?t\<rparr>"
    unfolding RecomputeRefcounts_def fold_recount_listed
    by (subst fold_recount) (auto simp: ct_Find_reset dest: present intro: next_above)
  have fits: "refs_fit (ms_files b)" using ms_core_fits [OF ms_okD(2) [OF m]] files by simp
  have zero: "counts ?t h = 0" for h by (simp add: counts_def ct_Find_reset split: option.split)
  have count: "counts (fold ref ?hs ?t) h = refs (ms_files b) h" for h
    using fits by (subst counts_fold_ref) (auto simp: ct_Find_reset zero count_listed refs_fit_def dest: present)
  have none: "ct_Find (fold ref hs t) h = None \<longleftrightarrow> ct_Find t h = None" for hs t h
    by (induction hs arbitrary: t) (simp_all add: ct_Find_ref)
  have np: "no_pending (RecomputeRefcounts b)"
    using b(2) by (auto simp: no_pending_alt rec) (auto simp: pending_of_def ct_Find_reset split: option.splits)
  have ct: "ct_ok (fold ref ?hs ?t)" using b(1) by (simp add: ct_ok_fold_ref ct_ok_reset rep_ok_def)
  have "shown ?t h = shown (ms_chunks b) h" for h
    by (simp add: shown_def ct_Find_reset split: option.split)
  then have same: "ms_view (RecomputeRefcounts b) = ms_view b"
    by (intro durable_eqI) (simp_all add: view_simps view_versions rec)
  show "replica_of m (RecomputeRefcounts b)"
    using m same view np ct b(1) by (simp add: replica_of_def rep_ok_no_pending) (simp add: rec rep_ok_def)
  have "ms_core (RecomputeRefcounts b)"
    using ct count next_above closed np b(1)
    by (auto simp: ms_core_def rec d_closed_def view_simps rep_ok_def none ct_Find_reset no_pending_def
        simp del: not_None_eq dest: ns_treeD(1))
  then show "ms_ok (RecomputeRefcounts b)"
    using b(1) by (simp add: ms_ok_def) (simp add: rec rep_ok_def)
qed

section \<open>The state machine is a replicated state\<close>

text \<open>
  In between the logged records a live master changes what is not durable (locations,
  leases, pending chunks), which leaves the view alone.
\<close>

definition master_allowed :: "log_record \<Rightarrow> master_state \<Rightarrow> bool" where
  "master_allowed r m \<longleftrightarrow> rec_ok r m \<and> refs_fit (ms_files (Apply r m))"

definition master_quiet :: "master_state \<Rightarrow> master_state \<Rightarrow> bool" where
  "master_quiet m m' \<longleftrightarrow> ms_ok m' \<and> ms_view m' = ms_view m"

abbreviation master_run :: "master_state \<Rightarrow> log_record list \<Rightarrow> master_state \<Rightarrow> bool" where
  "master_run \<equiv> run Apply master_allowed master_quiet"

interpretation master: replicated Apply master_allowed master_quiet replica_of
  ToCheckpoint "\<lambda>ck. Load ck init_master_state" RecomputeRefcounts
proof
  show "replica_of a b \<Longrightarrow> master_allowed r a \<Longrightarrow> replica_of (Apply r a) (Apply r b)" for a b r
    by (simp add: master_allowed_def replica_of_Apply)
  show "replica_of a b \<Longrightarrow> master_quiet a a' \<Longrightarrow> replica_of a' b" for a a' b
    by (simp add: master_quiet_def replica_of_def)
  show "replica_of a b \<Longrightarrow> replica_of a (Load (ToCheckpoint a) init_master_state)" for a b
    by (rule Load_replica) (simp add: replica_of_def)
  show "replica_of a b \<Longrightarrow> replica_of a (RecomputeRefcounts b)" for a b
    by (rule RecomputeRefcounts_restores)
  show "replica_of a b \<Longrightarrow> master_quiet a (RecomputeRefcounts b)" for a b
    using RecomputeRefcounts_restores [of a b] by (simp add: master_quiet_def replica_of_def)
qed

lemma replica_of_init: "replica_of init_master_state init_master_state"
  using ms_ok_init ms_ok_rep_ok [OF ms_ok_init]
  by (simp add: replica_of_def no_pending_def) (simp add: init_master_state_def)

lemma ms_ok_run: "master_run m rs m' \<Longrightarrow> ms_ok m \<Longrightarrow> ms_ok m'"
  by (induction rule: run.induct) (auto simp: master_allowed_def master_quiet_def ms_ok_Apply)

section \<open>The log's meaning\<close>


text \<open>
  C14: loading a checkpoint of a state and counting the references again gives a state that
  satisfies the invariant and holds the same files, versions and next handle.
\<close>

theorem checkpoint_roundtrip:
  assumes "ms_ok ms"
  shows "ms_ok (RecomputeRefcounts (Load (ToCheckpoint ms) init_master_state)) \<and>
     ms_view (RecomputeRefcounts (Load (ToCheckpoint ms) init_master_state)) = ms_view ms"
  using RecomputeRefcounts_restores [OF Load_replica [OF assms]] by (simp add: replica_of_def)


theorem checkpoint_roundtrip_witness:
  "ms_view (RecomputeRefcounts (Load (ToCheckpoint init_master_state) init_master_state)) = ms_view init_master_state"
  using checkpoint_roundtrip [OF ms_ok_init] by simp

end
