(* ===== verification/MasterQuiet.thy ===== *)
theory MasterQuiet
  imports MasterRecovery
begin

text \<open>
  Changes of the chunk table that no log record carries: locations, leases, the \<open>granting\<close>
  mark, and chunks that are created pending or dropped while pending. They are invisible to a
  restart (\<open>master_quiet\<close>), and so are sequences of them.
\<close>

definition core_of :: "chunk_meta \<Rightarrow> u64 \<times> u32 \<times> bool" where
  "core_of c = (cm_version c, cm_refcount c, cm_pending c)"

text \<open>What a chunk contributes to a restart: a fresh pending one contributes nothing.\<close>

definition fresh :: "chunk_meta \<Rightarrow> bool" where
  "fresh c \<longleftrightarrow> core_of c = (1, 0, True)"

definition quiet_table :: "u64 \<Rightarrow> chunk_table \<Rightarrow> chunk_table \<Rightarrow> bool" where
  "quiet_table n t t' \<longleftrightarrow> (ct_ok t \<longrightarrow> ct_ok t') \<and>
     (\<forall>h. case ct_Find t h of
            None \<Rightarrow> (case ct_Find t' h of None \<Rightarrow> True | Some c' \<Rightarrow> fresh c' \<and> h < n)
          | Some c \<Rightarrow> (case ct_Find t' h of None \<Rightarrow> fresh c | Some c' \<Rightarrow> core_of c' = core_of c))"

named_theorems quiet_intros \<open>operations on the chunk table that a restart does not see\<close>

lemma quiet_refl [quiet_intros]: "quiet_table n t t"
  by (auto simp: quiet_table_def split: option.split)

lemma quiet_trans:
  assumes "quiet_table n t t1" "quiet_table n t1 t2"
  shows "quiet_table n t t2"
proof -
  have "case ct_Find t h of
            None \<Rightarrow> (case ct_Find t2 h of None \<Rightarrow> True | Some c' \<Rightarrow> fresh c' \<and> h < n)
          | Some c \<Rightarrow> (case ct_Find t2 h of None \<Rightarrow> fresh c | Some c' \<Rightarrow> core_of c' = core_of c)" for h
  proof -
    have "case ct_Find t h of
            None \<Rightarrow> (case ct_Find t1 h of None \<Rightarrow> True | Some c' \<Rightarrow> fresh c' \<and> h < n)
          | Some c \<Rightarrow> (case ct_Find t1 h of None \<Rightarrow> fresh c | Some c' \<Rightarrow> core_of c' = core_of c)"
      "case ct_Find t1 h of
            None \<Rightarrow> (case ct_Find t2 h of None \<Rightarrow> True | Some c' \<Rightarrow> fresh c' \<and> h < n)
          | Some c \<Rightarrow> (case ct_Find t2 h of None \<Rightarrow> fresh c | Some c' \<Rightarrow> core_of c' = core_of c)"
      using assms by (auto simp: quiet_table_def)
    then show ?thesis by (auto simp: fresh_def split: option.splits)
  qed
  then show ?thesis using assms by (simp add: quiet_table_def)
qed

lemma quiet_update [quiet_intros]:
  assumes "\<And>c. cm_locations (f c) = cm_locations c" "\<And>c. core_of (f c) = core_of c"
  shows "quiet_table n t (ct_update h f t)"
  using assms by (auto simp: quiet_table_def ct_simps ct_ok_update split: option.split)

lemma quiet_AddLocation [quiet_intros]: "quiet_table n t (fst (ct_AddLocation h s w t))"
  by (auto simp: quiet_table_def ct_simps core_of_def ct_ok_AddLocation split: option.split)

lemma quiet_RemoveLocation [quiet_intros]: "quiet_table n t (fst (ct_RemoveLocation h s t))"
  by (auto simp: quiet_table_def ct_simps core_of_def ct_ok_RemoveLocation split: option.split)

lemma quiet_create_pending [quiet_intros]:
  "h < n \<Longrightarrow> ct_Find t h = None \<Longrightarrow> quiet_table n t (ct_update h (\<lambda>c. c\<lparr>cm_pending := True\<rparr>) (ct_Create h 1 t))"
  by (auto simp: quiet_table_def ct_simps core_of_def fresh_def new_chunk_def
      intro!: ct_ok_update ct_ok_Create split: option.split)

lemma quiet_erase_pending [quiet_intros]:
  "(\<And>c. ct_Find t h = Some c \<Longrightarrow> fresh c) \<Longrightarrow> quiet_table n t (ct_Erase h t)"
  by (auto simp: quiet_table_def ct_simps ct_ok_Erase split: option.split)

lemma quiet_table_quiet:
  assumes ok: "ms_ok ms" and q: "quiet_table (ms_next_handle ms) (ms_chunks ms) t"
  shows "master_quiet ms (ms\<lparr>ms_chunks := t\<rparr>)"
proof -
  note core = ms_okD(2) [OF ok]
  have rel: "case ct_Find (ms_chunks ms) h of
            None \<Rightarrow> (case ct_Find t h of None \<Rightarrow> True | Some c' \<Rightarrow> fresh c' \<and> h < ms_next_handle ms)
          | Some c \<Rightarrow> (case ct_Find t h of None \<Rightarrow> fresh c | Some c' \<Rightarrow> core_of c' = core_of c)" for h
    using q by (simp add: quiet_table_def)
  have "counts t h = counts (ms_chunks ms) h" for h
    using rel [of h] by (auto simp: counts_def fresh_def core_of_def split: option.splits)
  moreover have "h < ms_next_handle ms" if "ct_Find t h \<noteq> None" for h
    using rel [of h] that ms_coreD(5) [OF core, of h] by (auto split: option.splits)
  moreover have "cm_version m = 1 \<and> cm_refcount m = 0" if "ct_Find t h = Some m" "cm_pending m" for h m
    using rel [of h] that ms_coreD(6) [OF core, of h] by (auto simp: fresh_def core_of_def split: option.splits)
  moreover have "ct_ok t" using q ms_coreD(2) [OF core] by (simp add: quiet_table_def)
  ultimately have "ms_ok (ms\<lparr>ms_chunks := t\<rparr>)"
    using ok core by (auto simp: ms_ok_def ms_core_def)
  moreover have "shown t h = shown (ms_chunks ms) h" for h
    using rel [of h] by (auto simp: shown_def fresh_def core_of_def split: option.splits)
  then have "ms_view (ms\<lparr>ms_chunks := t\<rparr>) = ms_view ms"
    by (intro durable_eqI) (auto simp: view_simps view_versions)
  ultimately show ?thesis by (simp add: master_quiet_def)
qed

text \<open>States that differ by such changes only.\<close>

definition quiet_from :: "master_state \<Rightarrow> master_state \<Rightarrow> bool" where
  "quiet_from ms ms' \<longleftrightarrow> ms_files ms' = ms_files ms \<and> ms_next_handle ms' = ms_next_handle ms \<and>
     quiet_table (ms_next_handle ms) (ms_chunks ms) (ms_chunks ms')"

lemma quiet_from_refl [quiet_intros]: "quiet_from ms ms"
  by (simp add: quiet_from_def quiet_refl)

lemma quiet_from_trans: "quiet_from a b \<Longrightarrow> quiet_from b c \<Longrightarrow> quiet_from a c"
  by (auto simp: quiet_from_def intro: quiet_trans)

lemma quiet_from_chunks [quiet_intros]:
  "quiet_table (ms_next_handle ms) (ms_chunks ms) t \<Longrightarrow> quiet_from ms (ms\<lparr>ms_chunks := t\<rparr>)"
  by (simp add: quiet_from_def)

lemma quiet_from_quiet: "ms_ok ms \<Longrightarrow> quiet_from ms ms' \<Longrightarrow> master_quiet ms ms'"
  using quiet_table_quiet [of ms "ms_chunks ms'"] by (cases ms; cases ms') (auto simp: quiet_from_def)

lemma quiet_from_ok: "ms_ok ms \<Longrightarrow> quiet_from ms ms' \<Longrightarrow> ms_ok ms'"
  using quiet_from_quiet by (auto simp: master_quiet_def)

section \<open>Runs\<close>

text \<open>How the handlers' critical sections compose into runs of the state machine.\<close>

lemma run_quiet: "master_run s0 rs s \<Longrightarrow> ms_ok s \<Longrightarrow> quiet_from s s' \<Longrightarrow> master_run s0 rs s'"
  by (auto intro: run.silent quiet_from_quiet)

lemma run_log1: "master_allowed r s \<Longrightarrow> master_run s [r] (Apply r s)"
  using run.logged [OF run.start, of master_allowed r s Apply master_quiet] by simp

text \<open>The bound on reference counts is part of the invariant.\<close>

lemma ms_ok_refs_fit: "ms_ok ms \<Longrightarrow> refs_fit (ms_files ms)"
proof -
  assume "ms_ok ms"
  then have "refs (ms_files ms) h = counts (ms_chunks ms) h" for h using ms_coreD(4) [OF ms_okD(2)] by simp
  moreover have "counts t h < 2 ^ 32" for t h
  proof (cases "ct_Find t h")
    case (Some m)
    then show ?thesis using unsigned_less [of "cm_refcount m"] by (simp add: counts_def)
  qed (simp add: counts_def)
  ultimately show ?thesis by (simp add: refs_fit_def)
qed

lemma ct_update_cong:
  assumes "ct_ok t" "\<And>c. ct_Find t h = Some c \<Longrightarrow> f c = g c"
  shows "ct_update h f t = ct_update h g t"
proof -
  have "om_modify h f (ct_chunks t) = om_modify h g (ct_chunks t)"
    using assms ct_okD(1) [OF assms(1)] by (intro om_ext) (auto simp: ct_Find_def fun_eq_iff option.map_sel intro!: option.map_cong0)
  then show ?thesis by (simp add: ct_update_def)
qed

section \<open>A sample state\<close>

text \<open>One file with one chunk, which two chunkservers hold: the state the examples start from.\<close>

definition sample_state :: master_state where
  "sample_state =
     (let ms = fold Apply [CreateRec ''/a'', AddChunkRec ''/a'' 0 7] init_master_state
      in ms\<lparr>ms_chunks := fst (ct_AddLocation 7 ''t'' 0 (fst (ct_AddLocation 7 ''s'' 0 (ms_chunks ms))))\<rparr>)"

lemma sample_state_ok: "ms_ok sample_state"
proof -
  let ?a = "Apply (CreateRec ''/a'') init_master_state" and ?b = "Apply (AddChunkRec ''/a'' 0 7) (Apply (CreateRec ''/a'') init_master_state)"
  have rec: "rec_ok (CreateRec ''/a'') init_master_state" "rec_ok (AddChunkRec ''/a'' 0 7) ?a" by code_simp+
  have files: "ms_files ?a = [(''/a'', \<lparr>fm_chunks = []\<rparr>)]" "ms_files ?b = [(''/a'', \<lparr>fm_chunks = [7]\<rparr>)]" by code_simp+
  have fit: "refs_fit (ms_files ?a)" "refs_fit (ms_files ?b)"
    unfolding files by (simp_all add: refs_fit_def refs_def)
  have a: "ms_ok ?a" by (rule ms_ok_Apply [OF ms_ok_init rec(1) fit(1)])
  have b: "ms_ok ?b" by (rule ms_ok_Apply [OF a rec(2) fit(2)])
  have e: "fold Apply [CreateRec ''/a'', AddChunkRec ''/a'' 0 7] init_master_state = ?b" by simp
  have "quiet_from ?b sample_state"
    unfolding sample_state_def e Let_def
    by (rule quiet_from_chunks [OF quiet_trans [OF quiet_AddLocation quiet_AddLocation]])
  with b show ?thesis by (rule quiet_from_ok)
qed

lemma sample_chunk: "ct_Find (ms_chunks sample_state) 7 = Some (new_chunk\<lparr>cm_refcount := 1, cm_locations := [(''s'', 0), (''t'', 0)]\<rparr>)"
  by code_simp

lemma sample_files: "ms_files sample_state = [(''/a'', \<lparr>fm_chunks = [7]\<rparr>)]"
  by code_simp

end
