(* ===== verification/Registry.thy ===== *)
theory Registry
  imports StdMap
begin

text \<open>
  The master's registry of chunkservers, \<open>src/src/master/chunkserver_registry.cc\<close>: who they
  are, when they were last heard of and whether they count as alive. The channels and
  deadlines of \<open>Stub\<close> and \<open>Context\<close> are gRPC's and not modelled.
\<close>

record chunkserver_info =
  ci_id :: string
  ci_address :: string
  ci_rack :: string
  ci_last_heartbeat :: time_point
  ci_alive :: bool

type_synonym registry = "(string, chunkserver_info) omap"

definition new_info :: chunkserver_info where
  "new_info = \<lparr>ci_id = [], ci_address = [], ci_rack = [], ci_last_heartbeat = 0, ci_alive = True\<rparr>"

definition Touch :: "string \<Rightarrow> string \<Rightarrow> string \<Rightarrow> time_point \<Rightarrow> registry \<Rightarrow> registry \<times> bool" where
  "Touch sid address rack when servers =
     (let (servers1, inserted) = om_emplace sid new_info servers;
          info = (case om_find servers1 sid of None \<Rightarrow> new_info | Some i \<Rightarrow> i);
          newly_alive = inserted \<or> \<not> ci_alive info
      in (om_modify sid (\<lambda>_. \<lparr>ci_id = sid, ci_address = address, ci_rack = rack,
            ci_last_heartbeat = when, ci_alive = True\<rparr>) servers1, newly_alive))"

definition Get :: "string \<Rightarrow> registry \<Rightarrow> chunkserver_info option" where
  "Get sid servers = om_find servers sid"

definition Resolve :: "string \<Rightarrow> registry \<Rightarrow> replica option" where
  "Resolve sid servers =
     (case om_find servers sid of
        None \<Rightarrow> None
      | Some info \<Rightarrow> if \<not> ci_alive info then None
          else Some \<lparr>rp_chunkserver_id = sid, rp_address = ci_address info, rp_rack = ci_rack info\<rparr>)"

definition Alive :: "registry \<Rightarrow> chunkserver_info list" where
  "Alive servers = filter ci_alive (map snd servers)"

text \<open>The condition under which a sweep at \<open>now\<close> declares a server dead.\<close>

definition overdue :: "millis \<Rightarrow> time_point \<Rightarrow> chunkserver_info \<Rightarrow> bool" where
  "overdue dead_timeout now info \<longleftrightarrow>
     ci_alive info \<and> now - ci_last_heartbeat info > dead_timeout * 1000000"

definition Sweep :: "millis \<Rightarrow> time_point \<Rightarrow> registry \<Rightarrow> registry \<times> string list" where
  "Sweep dead_timeout now servers =
     (map (\<lambda>e. (fst e, if overdue dead_timeout now (snd e) then (snd e)\<lparr>ci_alive := False\<rparr> else snd e)) servers,
      map fst (filter (\<lambda>e. overdue dead_timeout now (snd e)) servers))"

section \<open>Properties\<close>

definition registry_ok :: "registry \<Rightarrow> bool" where
  "registry_ok servers \<longleftrightarrow> om_ok servers \<and> (\<forall>sid i. om_find servers sid = Some i \<longrightarrow> ci_id i = sid)"

lemma Touch_find:
  "om_find (fst (Touch sid address rack when servers)) sid' =
     (if sid' = sid then Some \<lparr>ci_id = sid, ci_address = address, ci_rack = rack,
        ci_last_heartbeat = when, ci_alive = True\<rparr> else om_find servers sid')"
  "snd (Touch sid address rack when servers) \<longleftrightarrow> Resolve sid servers = None"
  by (auto simp: Touch_def om_emplace_def Resolve_def Let_def new_info_def split: option.splits)

lemma registry_ok_Touch: "registry_ok servers \<Longrightarrow> registry_ok (fst (Touch sid address rack when servers))"
  by (auto simp: registry_ok_def Touch_find) (auto simp: Touch_def om_emplace_def Let_def om_intros)

lemma Sweep_find:
  "om_find (fst (Sweep timeout now servers)) sid =
     map_option (\<lambda>i. if overdue timeout now i then i\<lparr>ci_alive := False\<rparr> else i) (om_find servers sid)"
  unfolding Sweep_def fst_conv
  by (rule map_of_map_snd [of "\<lambda>i. if overdue timeout now i then i\<lparr>ci_alive := False\<rparr> else i"])

lemma registry_ok_Sweep: "registry_ok servers \<Longrightarrow> registry_ok (fst (Sweep timeout now servers))"
  by (auto simp: registry_ok_def Sweep_find split: if_splits) (simp add: Sweep_def om_ok_def comp_def)

lemma Sweep_exact:
  assumes "om_ok servers"
  shows "sid \<in> set (snd (Sweep timeout now servers)) \<longleftrightarrow>
     Resolve sid servers \<noteq> None \<and> Resolve sid (fst (Sweep timeout now servers)) = None"
proof -
  have "sid \<in> set (snd (Sweep timeout now servers)) \<longleftrightarrow> (\<exists>i. om_find servers sid = Some i \<and> overdue timeout now i)"
    using om_find_in [OF assms, of sid] by (force simp: Sweep_def)
  then show ?thesis
    by (auto simp: Resolve_def Sweep_find overdue_def split: option.splits if_splits)
qed

text \<open>
  A sweep reports exactly the servers that were alive before it and are not afterwards.
\<close>

lemma Sweep_dead:
  assumes "om_ok servers"
  shows "sid \<in> set (snd (Sweep timeout now servers)) \<longleftrightarrow>
     Resolve sid servers \<noteq> None \<and> Resolve sid (fst (Sweep timeout now servers)) = None"
  using assms by (rule Sweep_exact)

text \<open>A server that is heard of in time is never declared dead.\<close>

text \<open>
  A server that was heard of within the timeout survives a sweep.
\<close>

lemma heard_stays_alive:
  assumes "Get sid servers = Some i" "ci_alive i" "now - ci_last_heartbeat i \<le> timeout * 1000000"
  shows "Resolve sid (fst (Sweep timeout now servers)) = Resolve sid servers"
  using assms by (simp add: Resolve_def Sweep_find Get_def overdue_def)

section \<open>Witness\<close>

definition one_server :: registry where
  "one_server = fst (Touch ''s'' ''10.0.0.1:1'' ''r'' 0 [])"

theorem Sweep_dead_witness:
  "''s'' \<in> set (snd (Sweep 15000 15000000001 one_server)) \<and>
   Resolve ''s'' (fst (Sweep 15000 15000000001 one_server)) = None"
proof -
  have "om_ok one_server" by code_simp
  moreover have "''s'' \<in> set (snd (Sweep 15000 15000000001 one_server))" by code_simp
  ultimately show ?thesis using Sweep_dead [of one_server "''s''" 15000 15000000001] by blast
qed

end
