(* ===== verification/Rpc.thy ===== *)
theory Rpc
  imports Prelude
begin

text \<open>
  The messages of \<open>proto/gfs.proto\<close> that the handlers of the master and of the chunkservers
  read and write, as records with the fields of the protocol. Handles, versions and sequence
  numbers are words; positions and lengths are \<open>nat\<close> (of 64 bits: see \<open>Prelude\<close>).
\<close>

datatype result_code =
    OK | STALE_VERSION | NOT_PRIMARY | DATA_MISSING | RETRY_NEXT_CHUNK | CHECKSUM_MISMATCH
  | NO_SUCH_CHUNK | OUT_OF_RANGE | NO_REPLICAS | LEASE_EXPIRED | FAILED

record chunk_info =
  inf_index :: nat
  inf_handle :: u64
  inf_version :: u64
  inf_replicas :: "replica list"

record chunk_report =
  cr_handle :: u64
  cr_version :: u64
  cr_length :: nat

record heartbeat_request =
  hb_chunkserver_id :: string
  hb_address :: string
  hb_rack :: string
  hb_chunks :: "chunk_report list"
  hb_lease_extension_requests :: "u64 list"
  hb_corrupt :: "u64 list"

record heartbeat_response =
  hr_delete_handles :: "u64 list"
  hr_extended :: "(u64 \<times> millis) list"

record push_header =
  ph_client_id :: string
  ph_sequence :: u64
  ph_total_length :: nat
  ph_forward_to :: "replica list"

text \<open>The payload of a \<open>PushDataRequest\<close>.\<close>

datatype push_message = PushHeader push_header | PushBytes bytes | PushNothing

datatype mutation_kind = WRITE | PAD

record apply_mutation_request =
  am_handle :: u64
  am_version :: u64
  am_serial :: u64
  am_kind :: mutation_kind
  am_offset :: nat
  am_client_id :: string
  am_sequence :: u64

end
