(* ===== verification/Config.thy ===== *)
theory Config
  imports Complex_Main Rpc
begin

text \<open>
  The settings, \<open>src/src/common/config.h\<close> and \<open>config.cc\<close>: the structure with its defaults,
  the derived values, the parsers of durations and sizes, and the table of options. Numbers
  are read with \<open>std::stod\<close>, a parameter here: \<open>None\<close> is an exception, else the value and the
  number of characters it consumed. Its values are rationals; \<open>value * factor\<close> is exact for
  the literals a command line holds. A size out of the range of \<open>uint64_t\<close>, for which the C++
  conversion is undefined, is \<open>None\<close>.
\<close>

record config =
  cf_chunk_size :: nat
  cf_max_record_append_size :: nat
  cf_replication_goal :: nat
  cf_min_replicas_for_write :: nat
  cf_checksum_block_size :: nat
  cf_lease_duration :: millis
  cf_lease_clock_skew_margin :: millis
  cf_heartbeat_interval :: millis
  cf_chunkserver_dead_timeout :: millis
  cf_deleted_file_retention :: millis
  cf_client_location_cache_ttl :: millis
  cf_gc_interval :: millis
  cf_mutation_retry_inner :: nat
  cf_mutation_retry_outer :: nat
  cf_retry_backoff_base :: millis
  cf_outer_retry_delay :: millis
  cf_log_flush_batch_size :: nat
  cf_log_flush_max_delay :: millis
  cf_checkpoint_log_threshold :: nat
  cf_rpc_deadline :: millis
  cf_client_rpc_deadline :: millis
  cf_master_worker_threads :: nat
  cf_push_frame_size :: nat
  cf_data_buffer_capacity :: nat
  cf_rack :: string
  cf_listen :: string
  cf_advertise :: string
  cf_master_address :: string
  cf_data_dir :: string

definition default_config :: config where
  "default_config =
     \<lparr>cf_chunk_size = 64 * 2 ^ 20, cf_max_record_append_size = 0, cf_replication_goal = 3,
      cf_min_replicas_for_write = 1, cf_checksum_block_size = 64 * 2 ^ 10,
      cf_lease_duration = 60000, cf_lease_clock_skew_margin = 5000, cf_heartbeat_interval = 3000,
      cf_chunkserver_dead_timeout = 15000, cf_deleted_file_retention = 3 * 24 * 3600 * 1000,
      cf_client_location_cache_ttl = 60000, cf_gc_interval = 60000,
      cf_mutation_retry_inner = 3, cf_mutation_retry_outer = 2, cf_retry_backoff_base = 200,
      cf_outer_retry_delay = 0, cf_log_flush_batch_size = 32, cf_log_flush_max_delay = 10,
      cf_checkpoint_log_threshold = 64 * 2 ^ 20, cf_rpc_deadline = 2000, cf_client_rpc_deadline = 10000,
      cf_master_worker_threads = 16, cf_push_frame_size = 256 * 2 ^ 10, cf_data_buffer_capacity = 64 * 2 ^ 20,
      cf_rack = [], cf_listen = ''127.0.0.1:7000'', cf_advertise = [],
      cf_master_address = ''127.0.0.1:7000'', cf_data_dir = []\<rparr>"

definition EffectiveMaxRecordAppendSize :: "config \<Rightarrow> nat" where
  "EffectiveMaxRecordAppendSize c =
     (if cf_max_record_append_size c = 0 then cf_chunk_size c div 4 else cf_max_record_append_size c)"

definition EffectiveOuterRetryDelay :: "config \<Rightarrow> millis" where
  "EffectiveOuterRetryDelay c =
     (if cf_outer_retry_delay c = 0 then cf_chunkserver_dead_timeout c else cf_outer_retry_delay c)"

definition EffectiveAdvertise :: "config \<Rightarrow> string" where
  "EffectiveAdvertise c = (if cf_advertise c = [] then cf_listen c else cf_advertise c)"

section \<open>Parsing\<close>

type_synonym stod = "string \<Rightarrow> (rat \<times> nat) option"

text \<open>\<open>static_cast<int64_t>\<close> of a double: towards zero.\<close>

definition truncated :: "rat \<Rightarrow> int" where
  "truncated x = (if 0 \<le> x then floor x else ceiling x)"

definition ParseDuration :: "stod \<Rightarrow> string \<Rightarrow> millis option" where
  "ParseDuration stod txt =
     (case stod txt of
        None \<Rightarrow> None
      | Some (value, pos) \<Rightarrow>
          let unit = drop pos txt
          in if unit = [] \<or> unit = ''ms'' then Some (truncated value)
             else if unit = ''s'' then Some (truncated (value * 1000))
             else if unit = ''m'' then Some (truncated (value * 60000))
             else if unit = ''h'' then Some (truncated (value * 3600000))
             else if unit = ''d'' then Some (truncated (value * 86400000))
             else None)"

definition to_u64 :: "rat \<Rightarrow> nat option" where
  "to_u64 x = (if -1 < x \<and> x < 2 ^ 64 then Some (nat (truncated x)) else None)"

definition ParseSize :: "stod \<Rightarrow> string \<Rightarrow> nat option" where
  "ParseSize stod txt =
     (case stod txt of
        None \<Rightarrow> None
      | Some (value, pos) \<Rightarrow>
          let unit = drop pos txt
          in if unit = [] then to_u64 value
             else if unit \<in> {''K'', ''KB'', ''k''} then to_u64 (value * 1024)
             else if unit \<in> {''M'', ''MB'', ''m''} then to_u64 (value * (1024 * 1024))
             else if unit \<in> {''G'', ''GB'', ''g''} then to_u64 (value * (1024 * 1024 * 1024))
             else None)"

section \<open>Options\<close>

text \<open>A setter writes one field; \<open>None\<close> where the code returns false.\<close>

type_synonym setter = "string \<Rightarrow> config \<Rightarrow> config option"

definition SizeSetter :: "stod \<Rightarrow> ((nat \<Rightarrow> nat) \<Rightarrow> config \<Rightarrow> config) \<Rightarrow> setter" where
  "SizeSetter stod field v c = map_option (\<lambda>n. field (\<lambda>_. n) c) (ParseSize stod v)"

definition CountSetter :: "stod \<Rightarrow> ((nat \<Rightarrow> nat) \<Rightarrow> config \<Rightarrow> config) \<Rightarrow> setter" where
  "CountSetter stod field v c =
     (case ParseSize stod v of
        None \<Rightarrow> None
      | Some n \<Rightarrow> if n > 2 ^ 32 - 1 then None else Some (field (\<lambda>_. n) c))"

definition DurationSetter :: "stod \<Rightarrow> ((int \<Rightarrow> int) \<Rightarrow> config \<Rightarrow> config) \<Rightarrow> setter" where
  "DurationSetter stod field v c = map_option (\<lambda>d. field (\<lambda>_. d) c) (ParseDuration stod v)"

definition StringSetter :: "((string \<Rightarrow> string) \<Rightarrow> config \<Rightarrow> config) \<Rightarrow> setter" where
  "StringSetter field v c = Some (field (\<lambda>_. v) c)"

definition Setters :: "stod \<Rightarrow> (string \<times> setter) list" where
  "Setters stod =
    [(''chunk_size'', SizeSetter stod cf_chunk_size_update),
     (''max_record_append_size'', SizeSetter stod cf_max_record_append_size_update),
     (''replication_goal'', CountSetter stod cf_replication_goal_update),
     (''min_replicas_for_write'', CountSetter stod cf_min_replicas_for_write_update),
     (''checksum_block_size'', SizeSetter stod cf_checksum_block_size_update),
     (''lease_duration'', DurationSetter stod cf_lease_duration_update),
     (''lease_clock_skew_margin'', DurationSetter stod cf_lease_clock_skew_margin_update),
     (''heartbeat_interval'', DurationSetter stod cf_heartbeat_interval_update),
     (''chunkserver_dead_timeout'', DurationSetter stod cf_chunkserver_dead_timeout_update),
     (''deleted_file_retention'', DurationSetter stod cf_deleted_file_retention_update),
     (''client_location_cache_ttl'', DurationSetter stod cf_client_location_cache_ttl_update),
     (''gc_interval'', DurationSetter stod cf_gc_interval_update),
     (''mutation_retry_inner'', CountSetter stod cf_mutation_retry_inner_update),
     (''mutation_retry_outer'', CountSetter stod cf_mutation_retry_outer_update),
     (''retry_backoff_base'', DurationSetter stod cf_retry_backoff_base_update),
     (''outer_retry_delay'', DurationSetter stod cf_outer_retry_delay_update),
     (''log_flush_batch_size'', CountSetter stod cf_log_flush_batch_size_update),
     (''log_flush_max_delay'', DurationSetter stod cf_log_flush_max_delay_update),
     (''checkpoint_log_threshold'', SizeSetter stod cf_checkpoint_log_threshold_update),
     (''rpc_deadline'', DurationSetter stod cf_rpc_deadline_update),
     (''client_rpc_deadline'', DurationSetter stod cf_client_rpc_deadline_update),
     (''master_worker_threads'', CountSetter stod cf_master_worker_threads_update),
     (''push_frame_size'', SizeSetter stod cf_push_frame_size_update),
     (''data_buffer_capacity'', SizeSetter stod cf_data_buffer_capacity_update),
     (''rack'', StringSetter cf_rack_update),
     (''listen'', StringSetter cf_listen_update),
     (''advertise'', StringSetter cf_advertise_update),
     (''master_address'', StringSetter cf_master_address_update),
     (''data_dir'', StringSetter cf_data_dir_update)]"

definition Set :: "stod \<Rightarrow> config \<Rightarrow> string \<Rightarrow> string \<Rightarrow> config option" where
  "Set stod c key value = (case map_of (Setters stod) key of None \<Rightarrow> None | Some setter \<Rightarrow> setter value c)"

text \<open>
  \<open>FromArgs\<close> on the arguments after the program's name; \<open>None\<close> is \<open>std::exit(2)\<close>.
\<close>

definition split_option :: "string \<Rightarrow> (string \<times> string) option" where
  "split_option arg =
     (case str_find CHR ''='' arg of
        None \<Rightarrow> None
      | Some eq \<Rightarrow> Some (take eq arg, drop (eq + 1) arg))"

fun parse_args :: "stod \<Rightarrow> string list \<Rightarrow> config \<Rightarrow> config option" where
  "parse_args stod [] c = Some c"
| "parse_args stod (arg # rest) c =
     (if take 2 arg \<noteq> ''--'' then None
      else case split_option (drop 2 arg) of
             Some (key, value) \<Rightarrow>
               (case Set stod c key value of None \<Rightarrow> None | Some c' \<Rightarrow> parse_args stod rest c')
           | None \<Rightarrow>
               (case rest of
                  [] \<Rightarrow> None
                | value # rest' \<Rightarrow>
                    (case Set stod c (drop 2 arg) value of None \<Rightarrow> None | Some c' \<Rightarrow> parse_args stod rest' c')))"

definition FromArgs :: "stod \<Rightarrow> string list \<Rightarrow> config option" where
  "FromArgs stod args = parse_args stod args default_config"

section \<open>Properties\<close>

lemma Setters_distinct: "distinct (map fst (Setters stod))"
  by (simp add: Setters_def)

text \<open>Both spellings of an option mean the same.\<close>

text \<open>
  The two spellings of a command-line option, with an equals sign or with a separate
  argument, mean the same.
\<close>

lemma option_forms:
  assumes "CHR ''='' \<notin> set key"
  shows "parse_args stod ((''--'' @ key @ ''='' @ value) # rest) c = parse_args stod ((''--'' @ key) # value # rest) c"
proof -
  have "str_find CHR ''='' (key @ CHR ''='' # value) = Some (length key)"
    using assms by (simp add: str_find_append)
  moreover have "str_find CHR ''='' key = None" using assms by (simp add: str_find_None)
  ultimately show ?thesis by (simp add: split_option_def)
qed

text \<open>A command line of \<open>--key=value\<close> options sets the options from left to right.\<close>

fun set_all :: "stod \<Rightarrow> (string \<times> string) list \<Rightarrow> config \<Rightarrow> config option" where
  "set_all stod [] c = Some c"
| "set_all stod ((key, value) # kvs) c =
     (case Set stod c key value of None \<Rightarrow> None | Some c' \<Rightarrow> set_all stod kvs c')"

text \<open>
  A command line of options is the settings applied from left to right, so a later
  option wins.
\<close>

lemma parse_rendered:
  "\<forall>kv \<in> set kvs. CHR ''='' \<notin> set (fst kv) \<Longrightarrow>
     parse_args stod (map (\<lambda>kv. ''--'' @ fst kv @ ''='' @ snd kv) kvs) c = set_all stod kvs c"
proof (induction kvs arbitrary: c)
  case (Cons kv kvs)
  then have "str_find CHR ''='' (fst kv @ CHR ''='' # snd kv) = Some (length (fst kv))"
    by (simp add: str_find_append)
  with Cons show ?case by (cases kv) (auto simp: split_option_def split: option.split)
qed simp

theorem parse_rendered_witness:
  "parse_args (\<lambda>_. None) [''--rack=r1''] default_config = set_all (\<lambda>_. None) [(''rack'', ''r1'')] default_config"
proof -
  have "\<forall>kv \<in> set [(''rack'', ''r1'')]. CHR ''='' \<notin> set (fst kv)" by simp
  from parse_rendered [OF this, of "\<lambda>_. None" default_config] show ?thesis by simp
qed

end
