(* ===== verification/LeaseManager.thy ===== *)
theory LeaseManager
  imports MasterQuiet Registry Config
begin

text \<open>
  Leases on the master's side, \<open>src/src/master/lease_manager.cc\<close>. The functions that hold the
  state mutex are functions on the state machine; the rounds of \<open>GrantSerialized\<close> and the
  two halves of \<open>Revoke\<close> are joined by what the chunkservers answer in between. What a round
  reads from outside is a \<open>round_env\<close>: the registry before and after the calls, who
  acknowledged, and the time at the end. \<open>BeginHandle\<close> and \<open>EndHandle\<close> keep two grants of a
  chunk from overlapping; the log's \<open>WaitFlushed\<close> blocks and changes nothing.

  \<open>*registry_.Resolve(primary)\<close> dereferences an empty optional when the primary has been
  declared dead meanwhile; the model's result then has no primary (\<open>None\<close>).
\<close>

section \<open>Validity of a lease\<close>

definition unexpired :: "config \<Rightarrow> lease \<Rightarrow> time_point \<Rightarrow> bool" where
  "unexpired cfg l now \<longleftrightarrow> \<not> now > after_ms (ls_expiry l) (cf_lease_clock_skew_margin cfg)"

definition IsValid :: "config \<Rightarrow> chunk_meta \<Rightarrow> time_point \<Rightarrow> bool" where
  "IsValid cfg meta now =
     (case cm_lease meta of
        None \<Rightarrow> False
      | Some l \<Rightarrow> \<not> ls_revoked l \<and> unexpired cfg l now \<and> om_count (cm_locations meta) (ls_primary l) > 0)"

definition IsPendingExpiry :: "config \<Rightarrow> chunk_meta \<Rightarrow> time_point \<Rightarrow> bool" where
  "IsPendingExpiry cfg meta now =
     (case cm_lease meta of
        None \<Rightarrow> False
      | Some l \<Rightarrow> unexpired cfg l now \<and> (ls_revoked l \<or> om_count (cm_locations meta) (ls_primary l) = 0))"

text \<open>Only called when there is a lease.\<close>

definition WaitUntil :: "config \<Rightarrow> lease \<Rightarrow> time_point" where
  "WaitUntil cfg l = after_ms (ls_expiry l) (cf_lease_clock_skew_margin cfg + 1)"

definition ExtendLocked :: "config \<Rightarrow> string \<Rightarrow> time_point \<Rightarrow> chunk_meta \<Rightarrow> chunk_meta \<times> bool" where
  "ExtendLocked cfg primary now meta =
     (case cm_lease meta of
        None \<Rightarrow> (meta, False)
      | Some l \<Rightarrow>
          if \<not> IsValid cfg meta now \<or> ls_primary l \<noteq> primary then (meta, False)
          else (meta\<lparr>cm_lease := Some (l\<lparr>ls_expiry := after_ms now (cf_lease_duration cfg)\<rparr>)\<rparr>, True))"

section \<open>Granting\<close>

record attempt =
  at_primary :: string
  at_secondaries :: "string list"
  at_version :: u64

text \<open>A write through the pointer that \<open>state_.chunks.Find(handle)\<close> returned.\<close>

definition update_chunk :: "u64 \<Rightarrow> (chunk_meta \<Rightarrow> chunk_meta) \<Rightarrow> master_state \<Rightarrow> master_state" where
  "update_chunk handle f ms = ms\<lparr>ms_chunks := ct_update handle f (ms_chunks ms)\<rparr>"

definition live_locations :: "registry \<Rightarrow> chunk_meta \<Rightarrow> string list" where
  "live_locations servers meta = filter (\<lambda>sid. Resolve sid servers \<noteq> None) (map fst (cm_locations meta))"

definition choose_primary :: "chunk_meta \<Rightarrow> string list \<Rightarrow> string" where
  "choose_primary meta live =
     (case cm_lease meta of
        None \<Rightarrow> hd live
      | Some l \<Rightarrow> if ls_primary l \<in> set live then ls_primary l else hd live)"

text \<open>\<open>None\<close> is an attempt that is not possible.\<close>

definition PrepareLocked :: "config \<Rightarrow> registry \<Rightarrow> u64 \<Rightarrow> master_state \<Rightarrow> master_state \<times> attempt option" where
  "PrepareLocked cfg servers handle ms =
     (case ct_Find (ms_chunks ms) handle of
        None \<Rightarrow> (ms, None)
      | Some meta \<Rightarrow>
          (let live = live_locations servers meta
           in if length live < cf_min_replicas_for_write cfg \<or> live = [] then (ms, None)
              else let primary = choose_primary meta live
                   in (update_chunk handle (\<lambda>c. c\<lparr>cm_granting := True\<rparr>) ms,
                       Some \<lparr>at_primary = primary, at_secondaries = filter (\<lambda>sid. sid \<noteq> primary) live,
                             at_version = cm_version meta + 1\<rparr>)))"

record grant_result =
  gr_code :: result_code
  gr_version :: u64
  gr_primary :: "replica option"
  gr_secondaries :: "replica list"

definition refused :: "result_code \<Rightarrow> grant_result" where
  "refused code = \<lparr>gr_code = code, gr_version = 0, gr_primary = None, gr_secondaries = []\<rparr>"

definition remove_locations :: "u64 \<Rightarrow> string list \<Rightarrow> master_state \<Rightarrow> master_state" where
  "remove_locations handle sids =
     fold (\<lambda>sid ms. ms\<lparr>ms_chunks := fst (ct_RemoveLocation handle sid (ms_chunks ms))\<rparr>) sids"

text \<open>
  The end of a round under the mutex: drop who did not acknowledge and, when everybody did,
  log the new version and set the lease. \<open>Inl\<close> is the \<open>continue\<close> of the loop.
\<close>

definition finish_round ::
    "config \<Rightarrow> registry \<Rightarrow> (string \<Rightarrow> bool) \<Rightarrow> time_point \<Rightarrow> u64 \<Rightarrow> attempt \<Rightarrow> master_state \<Rightarrow>
     master_state + (master_state \<times> log_record list \<times> grant_result)" where
  "finish_round cfg servers acked now handle attempt ms =
     (case ct_Find (ms_chunks ms) handle of
        None \<Rightarrow> Inr (ms, [], refused NO_SUCH_CHUNK)
      | Some meta \<Rightarrow>
          (let failed = filter (\<lambda>sid. \<not> acked sid) (at_primary attempt # at_secondaries attempt);
               ms1 = remove_locations handle failed ms
           in if failed \<noteq> [] then Inl ms1
              else let version = max (cm_version meta) (at_version attempt);
                       ms2 = update_chunk handle (\<lambda>c. c\<lparr>cm_version := version\<rparr>) ms1;
                       ms3 = update_chunk handle (\<lambda>c. c\<lparr>cm_granting := False, cm_lease :=
                         Some \<lparr>ls_primary = at_primary attempt,
                               ls_expiry = after_ms now (cf_lease_duration cfg), ls_revoked = False\<rparr>\<rparr>) ms2
                   in Inr (ms3, [BumpVersionRec handle version],
                        \<lparr>gr_code = OK, gr_version = version, gr_primary = Resolve (at_primary attempt) servers,
                         gr_secondaries = List.map_filter (\<lambda>sid. Resolve sid servers) (at_secondaries attempt)\<rparr>)))"

record round_env =
  re_before :: registry
  re_acked :: "string \<Rightarrow> bool"
  re_after :: registry
  re_now :: time_point

definition clear_granting :: "u64 \<Rightarrow> master_state \<Rightarrow> master_state" where
  "clear_granting handle = update_chunk handle (\<lambda>c. c\<lparr>cm_granting := False\<rparr>)"

text \<open>The rounds, one per environment; the code has eight.\<close>

fun grant_rounds ::
    "config \<Rightarrow> round_env list \<Rightarrow> u64 \<Rightarrow> master_state \<Rightarrow> master_state \<times> log_record list \<times> grant_result" where
  "grant_rounds cfg [] handle ms = (clear_granting handle ms, [], refused NO_REPLICAS)"
| "grant_rounds cfg (env # envs) handle ms =
     (case PrepareLocked cfg (re_before env) handle ms of
        (ms1, None) \<Rightarrow> (clear_granting handle ms1, [], refused NO_REPLICAS)
      | (ms1, Some attempt) \<Rightarrow>
          (case finish_round cfg (re_after env) (re_acked env) (re_now env) handle attempt ms1 of
             Inl ms2 \<Rightarrow> grant_rounds cfg envs handle ms2
           | Inr answer \<Rightarrow> answer))"

definition GrantSerialized ::
    "config \<Rightarrow> (nat \<Rightarrow> round_env) \<Rightarrow> u64 \<Rightarrow> master_state \<Rightarrow> master_state \<times> log_record list \<times> grant_result" where
  "GrantSerialized cfg env handle ms = grant_rounds cfg (map env [0..<8]) handle ms"

definition Regrant ::
    "config \<Rightarrow> time_point \<Rightarrow> (nat \<Rightarrow> round_env) \<Rightarrow> u64 \<Rightarrow> master_state \<Rightarrow> master_state \<times> log_record list" where
  "Regrant cfg now env handle ms =
     (case ct_Find (ms_chunks ms) handle of
        None \<Rightarrow> (ms, [])
      | Some meta \<Rightarrow>
          if IsValid cfg meta now
          then case GrantSerialized cfg env handle ms of (ms', rs, _) \<Rightarrow> (ms', rs)
          else (ms, []))"

section \<open>Revoking\<close>

record revoke_result =
  rv_had_lease :: bool
  rv_acked :: bool
  rv_expiry :: time_point

definition no_lease :: revoke_result where
  "no_lease = \<lparr>rv_had_lease = False, rv_acked = False, rv_expiry = 0\<rparr>"

text \<open>The first half of \<open>Revoke\<close>; \<open>Some\<close> the lease whose primary has to be asked.\<close>

definition revoke_begin :: "config \<Rightarrow> time_point \<Rightarrow> u64 \<Rightarrow> master_state \<Rightarrow> master_state \<times> lease option" where
  "revoke_begin cfg now handle ms =
     (case ct_Find (ms_chunks ms) handle of
        None \<Rightarrow> (ms, None)
      | Some meta \<Rightarrow>
          (case cm_lease meta of
             None \<Rightarrow> (ms, None)
           | Some l \<Rightarrow>
               if \<not> unexpired cfg l now then (update_chunk handle (\<lambda>c. c\<lparr>cm_lease := None\<rparr>) ms, None)
               else (update_chunk handle (\<lambda>c. c\<lparr>cm_lease := Some (l\<lparr>ls_revoked := True\<rparr>)\<rparr>) ms, Some l)))"

text \<open>The second half, given whether the primary acknowledged.\<close>

definition revoke_end :: "u64 \<Rightarrow> string \<Rightarrow> bool \<Rightarrow> master_state \<Rightarrow> master_state \<times> bool" where
  "revoke_end handle primary ok ms =
     (case ct_Find (ms_chunks ms) handle of
        None \<Rightarrow> (ms, False)
      | Some meta \<Rightarrow>
          (case cm_lease meta of
             None \<Rightarrow> (ms, False)
           | Some l \<Rightarrow> if ok \<and> ls_primary l = primary
                       then (update_chunk handle (\<lambda>c. c\<lparr>cm_lease := None\<rparr>) ms, True) else (ms, False)))"

text \<open>
  \<open>Revoke\<close>; \<open>rpc primary\<close> says whether the call to it succeeds. It is not made to a primary
  that was found unreachable before.
\<close>

definition Revoke ::
    "config \<Rightarrow> time_point \<Rightarrow> (string \<Rightarrow> bool) \<Rightarrow> u64 \<Rightarrow> string set \<Rightarrow> master_state \<Rightarrow>
     master_state \<times> string set \<times> revoke_result" where
  "Revoke cfg now rpc handle unreachable ms =
     (case revoke_begin cfg now handle ms of
        (ms1, None) \<Rightarrow> (ms1, unreachable, no_lease)
      | (ms1, Some l) \<Rightarrow>
          (let primary = ls_primary l;
               ok = (primary \<notin> unreachable \<and> rpc primary);
               unreachable1 = (if primary \<notin> unreachable \<and> \<not> ok then insert primary unreachable else unreachable)
           in case revoke_end handle primary ok ms1 of
                (ms2, acked) \<Rightarrow>
                  (ms2, unreachable1, \<lparr>rv_had_lease = True, rv_acked = acked, rv_expiry = ls_expiry l\<rparr>)))"

section \<open>What a restart sees of it\<close>

lemma quiet_update_chunk:
  "(\<And>c. cm_locations (f c) = cm_locations c) \<Longrightarrow> (\<And>c. core_of (f c) = core_of c) \<Longrightarrow> quiet_from ms (update_chunk h f ms)"
  unfolding update_chunk_def by (intro quiet_intros)

lemma quiet_lease [quiet_intros]: "quiet_from ms (update_chunk h (\<lambda>c. c\<lparr>cm_lease := l\<rparr>) ms)"
  and quiet_granting [quiet_intros]: "quiet_from ms (update_chunk h (\<lambda>c. c\<lparr>cm_granting := b\<rparr>) ms)"
  and quiet_lease_granting [quiet_intros]: "quiet_from ms (update_chunk h (\<lambda>c. c\<lparr>cm_granting := b, cm_lease := l\<rparr>) ms)"
  by (rule quiet_update_chunk; simp add: core_of_def)+

lemma quiet_remove_locations [quiet_intros]: "quiet_from ms (remove_locations h sids ms)"
proof (induction sids arbitrary: ms)
  case (Cons sid sids)
  have "quiet_from ms (ms\<lparr>ms_chunks := fst (ct_RemoveLocation h sid (ms_chunks ms))\<rparr>)" by (intro quiet_intros)
  from quiet_from_trans [OF this Cons] show ?case by (simp add: remove_locations_def)
qed (simp add: remove_locations_def quiet_from_refl)

lemma quiet_PrepareLocked: "PrepareLocked cfg servers h ms = (ms', a) \<Longrightarrow> quiet_from ms ms'"
  by (auto simp: PrepareLocked_def Let_def intro: quiet_intros split: option.splits if_splits)

lemma quiet_revoke_begin: "revoke_begin cfg now h ms = (ms', l) \<Longrightarrow> quiet_from ms ms'"
  by (auto simp: revoke_begin_def intro: quiet_intros split: option.splits if_splits)

lemma quiet_revoke_end: "revoke_end h p ok ms = (ms', b) \<Longrightarrow> quiet_from ms ms'"
  by (auto simp: revoke_end_def intro: quiet_intros split: option.splits if_splits)

lemma quiet_Revoke: "Revoke cfg now rpc h unreachable ms = (ms', u, r) \<Longrightarrow> quiet_from ms ms'"
  by (auto simp: Revoke_def Let_def dest: quiet_revoke_begin quiet_revoke_end intro: quiet_from_trans split: prod.splits option.splits)

lemma Find_update_chunk [ct_simps]:
  "ct_Find (ms_chunks (update_chunk h f ms)) h' =
     (if h' = h then map_option f (ct_Find (ms_chunks ms) h) else ct_Find (ms_chunks ms) h')"
  by (simp add: update_chunk_def ct_simps)

lemma Find_remove_locations:
  "ct_Find (ms_chunks (remove_locations h sids ms)) h' =
     (if h' = h then map_option (cm_locations_update (fold om_erase sids)) (ct_Find (ms_chunks ms) h) else ct_Find (ms_chunks ms) h')"
proof (induction sids arbitrary: ms)
  case (Cons sid sids)
  have "ct_Find (ms_chunks (remove_locations h (sid # sids) ms)) h' =
      ct_Find (ms_chunks (remove_locations h sids (ms\<lparr>ms_chunks := fst (ct_RemoveLocation h sid (ms_chunks ms))\<rparr>))) h'"
    by (simp add: remove_locations_def)
  also have "\<dots> = (if h' = h then map_option (cm_locations_update (fold om_erase (sid # sids))) (ct_Find (ms_chunks ms) h) else ct_Find (ms_chunks ms) h')"
    unfolding Cons by (simp add: ct_simps option.map_comp comp_def)
  finally show ?case .
next
  case Nil
  show ?case by (cases "ct_Find (ms_chunks ms) h") (simp_all add: remove_locations_def)
qed

text \<open>The effect of a round in which everybody acknowledged.\<close>

lemma finish_round_OK:
  assumes ok: "ms_ok ms" and fin: "finish_round cfg servers acked now h a ms = Inr (ms', rs, r)"
    and here: "ct_Find (ms_chunks ms) h = Some c" "\<not> cm_pending c"
  shows "master_run ms rs ms'" "gr_code r = OK" "gr_version r = max (cm_version c) (at_version a)"
    "rs = [BumpVersionRec h (gr_version r)]" "gr_primary r = Resolve (at_primary a) servers"
    "\<forall>sid \<in> set (at_primary a # at_secondaries a). acked sid"
    "ct_Find (ms_chunks ms') h = Some (c\<lparr>cm_version := gr_version r, cm_granting := False, cm_lease :=
       Some \<lparr>ls_primary = at_primary a, ls_expiry = after_ms now (cf_lease_duration cfg), ls_revoked = False\<rparr>\<rparr>)"
proof -
  let ?v = "max (cm_version c) (at_version a)"
  let ?l = "Some \<lparr>ls_primary = at_primary a, ls_expiry = after_ms now (cf_lease_duration cfg), ls_revoked = False\<rparr>"
  let ?m2 = "update_chunk h (\<lambda>c. c\<lparr>cm_version := ?v\<rparr>) ms"
  from fin here have all: "filter (\<lambda>sid. \<not> acked sid) (at_primary a # at_secondaries a) = []"
    and r: "ms' = update_chunk h (\<lambda>c. c\<lparr>cm_granting := False, cm_lease := ?l\<rparr>) ?m2" "rs = [BumpVersionRec h ?v]"
      "gr_code r = OK" "gr_version r = ?v" "gr_primary r = Resolve (at_primary a) servers"
    by (auto simp: finish_round_def Let_def remove_locations_def split: if_splits)
  show "gr_code r = OK" "gr_version r = ?v" "rs = [BumpVersionRec h (gr_version r)]" "gr_primary r = Resolve (at_primary a) servers"
    using r by simp_all
  show "\<forall>sid \<in> set (at_primary a # at_secondaries a). acked sid" using all by (simp add: filter_empty_conv split: if_splits)
  show "ct_Find (ms_chunks ms') h = Some (c\<lparr>cm_version := gr_version r, cm_granting := False, cm_lease := ?l\<rparr>)"
    using here r by (simp add: ct_simps)
  have ct: "ct_ok (ms_chunks ms)" using ok by (intro ms_coreD(2) ms_okD(2))
  have "Apply (BumpVersionRec h ?v) ms = ?m2"
    using ct_update_cong [OF ct, of h "\<lambda>c. c\<lparr>cm_version := max (cm_version c) ?v\<rparr>" "\<lambda>c. c\<lparr>cm_version := ?v\<rparr>"] here(1)
    by (simp add: ApplyBumpVersion_def update_chunk_def)
  moreover have allowed: "master_allowed (BumpVersionRec h ?v) ms"
    using here ms_ok_refs_fit [OF ok] by (simp add: master_allowed_def ApplyBumpVersion_def)
  ultimately have "master_run ms [BumpVersionRec h ?v] ?m2" using run_log1 by metis
  moreover have "ms_ok ?m2" using calculation ok by (rule ms_ok_run)
  ultimately show "master_run ms rs ms'" unfolding r(1,2) by (rule run_quiet) (intro quiet_intros)
qed

lemma finish_round_again:
  assumes "finish_round cfg servers acked now h a ms = Inl ms'"
  shows "quiet_from ms ms'" "\<exists>sid \<in> set (at_primary a # at_secondaries a). \<not> acked sid"
    "map_option core_of (ct_Find (ms_chunks ms') h) = map_option core_of (ct_Find (ms_chunks ms) h)"
proof -
  from assms have ms': "ms' = remove_locations h (filter (\<lambda>sid. \<not> acked sid) (at_primary a # at_secondaries a)) ms"
    and f: "filter (\<lambda>sid. \<not> acked sid) (at_primary a # at_secondaries a) \<noteq> []"
    by (auto simp: finish_round_def Let_def split: option.splits if_splits)
  show "quiet_from ms ms'" unfolding ms' by (intro quiet_intros)
  show "\<exists>sid \<in> set (at_primary a # at_secondaries a). \<not> acked sid" using f by (auto simp: filter_empty_conv split: if_splits)
  show "map_option core_of (ct_Find (ms_chunks ms') h) = map_option core_of (ct_Find (ms_chunks ms) h)"
    by (cases "ct_Find (ms_chunks ms) h") (simp_all add: ms' Find_remove_locations core_of_def)
qed

section \<open>The outcome of a grant\<close>

definition not_pending :: "u64 \<Rightarrow> master_state \<Rightarrow> bool" where
  "not_pending h ms \<longleftrightarrow> (case ct_Find (ms_chunks ms) h of None \<Rightarrow> True | Some c \<Rightarrow> \<not> cm_pending c)"

lemma not_pending_core:
  "map_option core_of (ct_Find (ms_chunks ms') h) = map_option core_of (ct_Find (ms_chunks ms) h) \<Longrightarrow>
   not_pending h ms' = not_pending h ms"
  by (auto simp: not_pending_def core_of_def split: option.splits)

lemma choose_primary_live: "live \<noteq> [] \<Longrightarrow> choose_primary meta live \<in> set live"
  by (auto simp: choose_primary_def split: option.split)

text \<open>A possible attempt goes to exactly the holders that are alive, the primary among them.\<close>

lemma PrepareLocked_Some:
  assumes "PrepareLocked cfg servers h ms = (ms1, Some a)"
  obtains c where "ct_Find (ms_chunks ms) h = Some c" "ms1 = update_chunk h (\<lambda>c. c\<lparr>cm_granting := True\<rparr>) ms"
    "ct_Find (ms_chunks ms1) h = Some (c\<lparr>cm_granting := True\<rparr>)" "at_version a = cm_version c + 1"
    "set (at_primary a # at_secondaries a) = {sid \<in> om_keys (cm_locations c). Resolve sid servers \<noteq> None}"
    "at_primary a \<notin> set (at_secondaries a)" "cf_min_replicas_for_write cfg \<le> length (live_locations servers c)"
proof -
  from assms obtain c where c: "ct_Find (ms_chunks ms) h = Some c" "live_locations servers c \<noteq> []"
    "ms1 = update_chunk h (\<lambda>c. c\<lparr>cm_granting := True\<rparr>) ms" "cf_min_replicas_for_write cfg \<le> length (live_locations servers c)"
    "a = \<lparr>at_primary = choose_primary c (live_locations servers c),
          at_secondaries = filter (\<lambda>sid. sid \<noteq> choose_primary c (live_locations servers c)) (live_locations servers c),
          at_version = cm_version c + 1\<rparr>"
    by (auto simp: PrepareLocked_def Let_def split: option.splits if_splits)
  have "set (live_locations servers c) = {sid \<in> om_keys (cm_locations c). Resolve sid servers \<noteq> None}"
    by (auto simp: live_locations_def om_keys_def)
  with c choose_primary_live [OF c(2), of c] show thesis by (intro that [of c]) (auto simp: ct_simps)
qed

lemma core_update [simp]:
  "map_option core_of (ct_Find (ms_chunks (update_chunk h (\<lambda>c. c\<lparr>cm_granting := b\<rparr>) ms)) h) =
   map_option core_of (ct_Find (ms_chunks ms) h)"
  by (cases "ct_Find (ms_chunks ms) h") (simp_all add: ct_simps core_of_def)

lemma grant_rounds_run:
  "ms_ok ms \<Longrightarrow> not_pending h ms \<Longrightarrow> grant_rounds cfg envs h ms = (ms', rs, r) \<Longrightarrow> master_run ms rs ms'"
proof (induction envs arbitrary: ms)
  case Nil
  then show ?case
    by (auto simp: clear_granting_def intro!: run_quiet [OF run.start] quiet_intros)
next
  case (Cons env envs)
  obtain ms1 a where p: "PrepareLocked cfg (re_before env) h ms = (ms1, a)" by fastforce
  have q: "quiet_from ms ms1" and ok1: "ms_ok ms1"
    using quiet_PrepareLocked [OF p] quiet_from_ok [OF Cons.prems(1)] by auto
  have run1: "master_run ms [] ms1" using run_quiet [OF run.start Cons.prems(1) q] .
  show ?case
  proof (cases a)
    case None
    then show ?thesis
      using Cons.prems(3) p run1 ok1 by (auto simp: clear_granting_def intro!: run_quiet [OF run1 ok1] quiet_intros)
  next
    case (Some att)
    note p' = p [unfolded Some]
    obtain c where c: "ct_Find (ms_chunks ms) h = Some c" "ct_Find (ms_chunks ms1) h = Some (c\<lparr>cm_granting := True\<rparr>)"
      by (rule PrepareLocked_Some [OF p'])
    have np: "\<not> cm_pending (c\<lparr>cm_granting := True\<rparr>)" "not_pending h ms1"
      using Cons.prems(2) c by (simp_all add: not_pending_def)
    show ?thesis
    proof (cases "finish_round cfg (re_after env) (re_acked env) (re_now env) h att ms1")
      case (Inl ms2)
      note again = finish_round_again [OF Inl]
      have ok2: "ms_ok ms2" using quiet_from_ok [OF ok1 again(1)] .
      have "master_run ms2 rs ms'"
        using Cons.IH [OF ok2, of] Cons.prems(3) p' Inl np(2) not_pending_core [OF again(3)] by simp
      from run_trans [OF this run_quiet [OF run1 ok1 again(1)]] show ?thesis by simp
    next
      case (Inr b)
      then have "finish_round cfg (re_after env) (re_acked env) (re_now env) h att ms1 = Inr (ms', rs, r)"
        using Cons.prems(3) p' by simp
      from run_trans [OF finish_round_OK(1) [OF ok1 this c(2) np(1)] run1] show ?thesis by simp
    qed
  qed
qed

text \<open>
  When a grant succeeds, the chunk's version has gone up by one, the log has the new version, the
  lease is set and runs for its whole duration, and every holder of the chunk that was alive
  has acknowledged the new version.
\<close>

lemma grant_rounds_OK:
  "ms_ok ms \<Longrightarrow> ct_Find (ms_chunks ms) h = Some c \<Longrightarrow> \<not> cm_pending c \<Longrightarrow>
   grant_rounds cfg envs h ms = (ms', rs, r) \<Longrightarrow> gr_code r = OK \<Longrightarrow>
   \<exists>env \<in> set envs. \<exists>c' p. ct_Find (ms_chunks ms') h = Some c' \<and> rs = [BumpVersionRec h (gr_version r)] \<and>
     cm_version c' = gr_version r \<and> gr_version r = max (cm_version c) (cm_version c + 1) \<and> \<not> cm_granting c' \<and>
     cm_lease c' = Some \<lparr>ls_primary = p, ls_expiry = after_ms (re_now env) (cf_lease_duration cfg), ls_revoked = False\<rparr> \<and>
     p \<in> om_keys (cm_locations c') \<and> gr_primary r = Resolve p (re_after env) \<and>
     (\<forall>sid \<in> om_keys (cm_locations c'). Resolve sid (re_before env) \<noteq> None \<longrightarrow> re_acked env sid)"
proof (induction envs arbitrary: ms c)
  case Nil
  then show ?case by (auto simp: refused_def)
next
  case (Cons env envs)
  obtain ms1 a where p: "PrepareLocked cfg (re_before env) h ms = (ms1, a)" by fastforce
  have ok1: "ms_ok ms1" using quiet_PrepareLocked [OF p] quiet_from_ok [OF Cons.prems(1)] by auto
  from Cons.prems(4,5) p obtain att where att: "a = Some att" by (auto simp: refused_def split: option.splits)
  note p' = p [unfolded att]
  obtain c0 where c0: "ct_Find (ms_chunks ms) h = Some c0" "ct_Find (ms_chunks ms1) h = Some (c0\<lparr>cm_granting := True\<rparr>)"
    "at_version att = cm_version c0 + 1"
    "set (at_primary att # at_secondaries att) = {sid \<in> om_keys (cm_locations c0). Resolve sid (re_before env) \<noteq> None}"
    by (rule PrepareLocked_Some [OF p'])
  with Cons.prems(2) have c: "c0 = c" by simp
  show ?case
  proof (cases "finish_round cfg (re_after env) (re_acked env) (re_now env) h att ms1")
    case (Inl ms2)
    note again = finish_round_again [OF Inl]
    have ok2: "ms_ok ms2" using quiet_from_ok [OF ok1 again(1)] .
    obtain c2 where c2: "ct_Find (ms_chunks ms2) h = Some c2" "core_of c2 = core_of c"
      using again(3) c0(2) c by (auto simp: core_of_def)
    then have v: "cm_version c2 = cm_version c" "\<not> cm_pending c2" using Cons.prems(3) by (auto simp: core_of_def)
    have "grant_rounds cfg envs h ms2 = (ms', rs, r)" using Cons.prems(4) p' Inl by simp
    from Cons.IH [OF ok2 c2(1) v(2) this Cons.prems(5)] show ?thesis by (simp add: v(1))
  next
    case (Inr b)
    then have fin: "finish_round cfg (re_after env) (re_acked env) (re_now env) h att ms1 = Inr (ms', rs, r)"
      using Cons.prems(4) p' by simp
    have "\<not> cm_pending (c0\<lparr>cm_granting := True\<rparr>)" using Cons.prems(3) c by simp
    note f = finish_round_OK [OF ok1 fin c0(2) this]
    let ?c' = "c0\<lparr>cm_granting := True, cm_version := gr_version r, cm_granting := False, cm_lease := Some \<lparr>ls_primary = at_primary att,
       ls_expiry = after_ms (re_now env) (cf_lease_duration cfg), ls_revoked = False\<rparr>\<rparr>"
    have keys: "om_keys (cm_locations ?c') = om_keys (cm_locations c0)" by simp
    have "at_primary att \<in> om_keys (cm_locations c0)" using c0(4) by auto
    moreover have "\<forall>sid \<in> om_keys (cm_locations c0). Resolve sid (re_before env) \<noteq> None \<longrightarrow> re_acked env sid"
      using f(6) c0(4) by blast
    ultimately show ?thesis
      using f(3,4,5,7) c0(3) c
      by (intro bexI [of _ env] exI [of _ ?c'] exI [of _ "at_primary att"]) auto
  qed
qed

text \<open>When it does not succeed, nothing is logged and the version stays.\<close>

lemma grant_rounds_refused:
  "grant_rounds cfg envs h ms = (ms', rs, r) \<Longrightarrow> gr_code r \<noteq> OK \<Longrightarrow>
   rs = [] \<and> quiet_from ms ms' \<and> (\<forall>c'. ct_Find (ms_chunks ms') h = Some c' \<longrightarrow> \<not> cm_granting c')"
proof (induction envs arbitrary: ms)
  case Nil
  then show ?case by (auto simp: clear_granting_def ct_simps intro: quiet_intros)
next
  case (Cons env envs)
  obtain ms1 a where p: "PrepareLocked cfg (re_before env) h ms = (ms1, a)" by fastforce
  note q = quiet_PrepareLocked [OF p]
  show ?case
  proof (cases a)
    case None
    with Cons.prems(1) p have "ms' = clear_granting h ms1" "rs = []" by auto
    then show ?thesis using q quiet_from_trans [OF q quiet_granting [of ms1 h False]] by (auto simp: clear_granting_def ct_simps)
  next
    case (Some att)
    show ?thesis
    proof (cases "finish_round cfg (re_after env) (re_acked env) (re_now env) h att ms1")
      case (Inl ms2)
      with Cons.IH [of ms2] Cons.prems p Some show ?thesis
        using quiet_from_trans [OF q finish_round_again(1) [OF Inl]] quiet_from_trans by auto
    next
      case (Inr b)
      then have "finish_round cfg (re_after env) (re_acked env) (re_now env) h att ms1 = Inr (ms', rs, r)"
        using Cons.prems(1) p Some by simp
      then show ?thesis using Cons.prems(2) q
        by (auto simp: finish_round_def Let_def split: option.splits if_splits)
    qed
  qed
qed

section \<open>What a grant promises\<close>

text \<open>
  A successful grant, after at most eight rounds, raises the version by one, logs exactly
  this, sets an unrevoked lease of full duration for a holder of the chunk, and has the
  acknowledgement of the new version from every remaining holder that the registry had as alive.
\<close>

lemma GrantSerialized_OK:
  assumes "ms_ok ms" "ct_Find (ms_chunks ms) h = Some c" "\<not> cm_pending c"
    and "GrantSerialized cfg env h ms = (ms', rs, r)" "gr_code r = OK"
  shows "\<exists>i < 8. \<exists>c' p. ct_Find (ms_chunks ms') h = Some c' \<and> rs = [BumpVersionRec h (gr_version r)] \<and>
     cm_version c' = gr_version r \<and> gr_version r = max (cm_version c) (cm_version c + 1) \<and> \<not> cm_granting c' \<and>
     cm_lease c' = Some \<lparr>ls_primary = p, ls_expiry = after_ms (re_now (env i)) (cf_lease_duration cfg), ls_revoked = False\<rparr> \<and>
     p \<in> om_keys (cm_locations c') \<and> gr_primary r = Resolve p (re_after (env i)) \<and>
     (\<forall>sid \<in> om_keys (cm_locations c'). Resolve sid (re_before (env i)) \<noteq> None \<longrightarrow> re_acked (env i) sid)"
  using grant_rounds_OK [OF assms(1-3) assms(4) [unfolded GrantSerialized_def] assms(5)] by (auto simp del: not_None_eq)

text \<open>
  A grant that fails logs nothing and changes nothing that a restart sees, and leaves
  the chunk without the mark that a grant is in progress.
\<close>

lemma GrantSerialized_refused:
  assumes "GrantSerialized cfg env h ms = (ms', rs, r)" "gr_code r \<noteq> OK"
  shows "rs = [] \<and> quiet_from ms ms' \<and> (\<forall>c'. ct_Find (ms_chunks ms') h = Some c' \<longrightarrow> \<not> cm_granting c')"
  using grant_rounds_refused [OF assms(1) [unfolded GrantSerialized_def] assms(2)] .

lemma GrantSerialized_run:
  "ms_ok ms \<Longrightarrow> not_pending h ms \<Longrightarrow> GrantSerialized cfg env h ms = (ms', rs, r) \<Longrightarrow> master_run ms rs ms'"
  unfolding GrantSerialized_def by (rule grant_rounds_run)

text \<open>The default durations with small sizes, for evaluation.\<close>

definition small_config :: config where
  "small_config = default_config\<lparr>cf_chunk_size := 64, cf_checksum_block_size := 16, cf_checkpoint_log_threshold := 64,
     cf_push_frame_size := 16, cf_data_buffer_capacity := 64\<rparr>"

lemma small_config_code [code]:
  "small_config =
     \<lparr>cf_chunk_size = 64, cf_max_record_append_size = 0, cf_replication_goal = 3,
      cf_min_replicas_for_write = 1, cf_checksum_block_size = 16,
      cf_lease_duration = 60000, cf_lease_clock_skew_margin = 5000, cf_heartbeat_interval = 3000,
      cf_chunkserver_dead_timeout = 15000, cf_deleted_file_retention = 259200000,
      cf_client_location_cache_ttl = 60000, cf_gc_interval = 60000,
      cf_mutation_retry_inner = 3, cf_mutation_retry_outer = 2, cf_retry_backoff_base = 200,
      cf_outer_retry_delay = 0, cf_log_flush_batch_size = 32, cf_log_flush_max_delay = 10,
      cf_checkpoint_log_threshold = 64, cf_rpc_deadline = 2000, cf_client_rpc_deadline = 10000,
      cf_master_worker_threads = 16, cf_push_frame_size = 16, cf_data_buffer_capacity = 64,
      cf_rack = [], cf_listen = ''127.0.0.1:7000'', cf_advertise = [],
      cf_master_address = ''127.0.0.1:7000'', cf_data_dir = []\<rparr>"
  by (simp add: small_config_def default_config_def)

text \<open>A registry that knows the two servers, and rounds in which \<open>t\<close> does or does not answer.\<close>

definition two_servers :: registry where
  "two_servers = fst (Touch ''t'' ''10.0.0.2:1'' ''r'' 0 (fst (Touch ''s'' ''10.0.0.1:1'' ''r'' 0 [])))"

definition grant_env :: "string list \<Rightarrow> nat \<Rightarrow> round_env" where
  "grant_env answering i = \<lparr>re_before = two_servers, re_acked = (\<lambda>sid. sid \<in> set answering), re_after = two_servers, re_now = 5\<rparr>"

theorem GrantSerialized_OK_witness:
  "gr_code (snd (snd (GrantSerialized small_config (grant_env [''s'']) 7 sample_state))) = OK \<and>
   fst (snd (GrantSerialized small_config (grant_env [''s'']) 7 sample_state)) = [BumpVersionRec 7 2]"
proof -
  let ?g = "GrantSerialized small_config (grant_env [''s'']) 7 sample_state"
  have code: "gr_code (snd (snd ?g)) = OK" "gr_version (snd (snd ?g)) = 2" by code_simp+
  have g: "?g = (fst ?g, fst (snd ?g), snd (snd ?g))" by simp
  show ?thesis
    using GrantSerialized_OK [OF sample_state_ok sample_chunk _ g code(1)] code by (auto simp: new_chunk_def simp del: not_None_eq)
qed

theorem GrantSerialized_refused_witness:
  "fst (snd (GrantSerialized small_config (grant_env []) 7 sample_state)) = []"
proof -
  let ?g = "GrantSerialized small_config (grant_env []) 7 sample_state"
  have code: "gr_code (snd (snd ?g)) \<noteq> OK" by code_simp
  have g: "?g = (fst ?g, fst (snd ?g), snd (snd ?g))" by simp
  show ?thesis using GrantSerialized_refused [OF g code] by simp
qed

end
