(* ===== verification/MasterRequests.thy ===== *)
theory MasterRequests
  imports LeaseManager
begin

text \<open>
  The requests on the name space, \<open>src/src/master/master.cc\<close>. A handler takes the state and
  returns the new one, the records it appends to the operation log, and the answer; it
  answers after these records are flushed. The path locks a handler holds (\<open>LockTable\<close>) keep
  other handlers away from the files it works on, so its critical sections are taken together.

  The section at the end relates every handler to the logged state machine: what a handler
  does is a run of it that logs exactly the records it returns, so that \<open>MasterLog\<close> applies to
  sequences of requests.
\<close>

section \<open>Answers\<close>

datatype status = StatusOk | InvalidArgument | NotFound | AlreadyExists

text \<open>\<open>CheckPath\<close>: \<open>None\<close> when the path is acceptable, else the status to answer with.\<close>

definition CheckPath :: "string \<Rightarrow> bool \<Rightarrow> status option" where
  "CheckPath path allow_root =
     (if \<not> IsValidPath path then Some InvalidArgument
      else if \<not> allow_root \<and> path = ''/'' then Some InvalidArgument
      else None)"

section \<open>Handlers\<close>

definition Master_GetClusterInfo :: "config \<Rightarrow> nat \<times> nat" where
  "Master_GetClusterInfo cfg = (cf_chunk_size cfg, EffectiveMaxRecordAppendSize cfg)"

definition Master_Create :: "string \<Rightarrow> master_state \<Rightarrow> master_state \<times> log_record list \<times> status" where
  "Master_Create path ms =
     (case CheckPath path False of
        Some status \<Rightarrow> (ms, [], status)
      | None \<Rightarrow>
          if ns_Exists (ms_files ms) path \<or> ns_IsDirectory (ms_files ms) path then (ms, [], AlreadyExists)
          else if ns_HasFileAncestor (ms_files ms) path then (ms, [], InvalidArgument)
          else (ApplyCreate path ms, [CreateRec path], StatusOk))"

text \<open>The number of chunks, when the file exists.\<close>

definition Master_Open :: "string \<Rightarrow> master_state \<Rightarrow> status \<times> nat" where
  "Master_Open path ms =
     (case CheckPath path False of
        Some status \<Rightarrow> (status, 0)
      | None \<Rightarrow>
          (case ns_Find (ms_files ms) path of
             None \<Rightarrow> (NotFound, 0)
           | Some meta \<Rightarrow> (StatusOk, length (fm_chunks meta))))"

subsection \<open>Removing\<close>

text \<open>
  A removed file gets a hidden name with the time of its removal, or a later one when that
  name is taken. The loop ends because the names of different times differ and there are
  finitely many files.
\<close>

lemma to_string_int_inj: "to_string_int a = to_string_int b \<Longrightarrow> a = b"
proof -
  assume eq: "to_string_int a = to_string_int b"
  have val: "digits_val (show_nat n) = n" for n using show_nat_props by blast
  have "hd (show_nat n) \<noteq> CHR ''-''" for n using show_nat_not_in(1) show_nat_props hd_in_set by metis
  then have "(a < 0) = (b < 0)" using eq by (auto simp: to_string_int_def split: if_splits) (metis list.sel(1))+
  moreover from this have "show_nat (nat \<bar>a\<bar>) = show_nat (nat \<bar>b\<bar>)"
    using eq by (auto simp: to_string_int_def split: if_splits)
  then have "nat \<bar>a\<bar> = nat \<bar>b\<bar>" using val by metis
  ultimately show "a = b" by linarith
qed

lemma HiddenNameFor_inj_time: "inj (HiddenNameFor path)"
  by (rule injI, rule to_string_int_inj) (simp add: HiddenNameFor_def Let_def)

lemma finite_taken: "finite {t. stamp \<le> t \<and> ns_Exists files (HiddenNameFor path t)}"
proof (rule finite_subset)
  show "finite (HiddenNameFor path -` om_keys files)"
    by (rule finite_vimageI [OF _ HiddenNameFor_inj_time]) (simp add: om_keys_def)
qed (auto simp: ns_Exists_iff)

function free_stamp :: "string \<Rightarrow> name_space \<Rightarrow> int \<Rightarrow> int" where
  "free_stamp path files stamp =
     (if ns_Exists files (HiddenNameFor path stamp) then free_stamp path files (stamp + 1) else stamp)"
  by pat_completeness auto
termination
proof (relation "measure (\<lambda>(path, files, stamp). card {t. stamp \<le> t \<and> ns_Exists files (HiddenNameFor path t)})")
  fix path files and stamp :: int
  assume taken: "ns_Exists files (HiddenNameFor path stamp)"
  have "{t. stamp + 1 \<le> t \<and> ns_Exists files (HiddenNameFor path t)} \<subset>
        {t. stamp \<le> t \<and> ns_Exists files (HiddenNameFor path t)}"
    using taken by force
  from psubset_card_mono [OF finite_taken this]
  show "((path, files, stamp + 1), (path, files, stamp)) \<in>
      measure (\<lambda>(path, files, stamp). card {t. stamp \<le> t \<and> ns_Exists files (HiddenNameFor path t)})"
    by simp
qed simp

declare free_stamp.simps [simp del]

definition hidden_name :: "string \<Rightarrow> name_space \<Rightarrow> int \<Rightarrow> string" where
  "hidden_name path files unix_seconds = HiddenNameFor path (free_stamp path files unix_seconds)"

definition Master_Remove :: "int \<Rightarrow> string \<Rightarrow> master_state \<Rightarrow> master_state \<times> log_record list \<times> status" where
  "Master_Remove unix_seconds path ms =
     (case CheckPath path False of
        Some status \<Rightarrow> (ms, [], status)
      | None \<Rightarrow>
          if \<not> ns_Exists (ms_files ms) path then (ms, [], NotFound)
          else if IsHiddenPath path then (ApplyRemove path ms, [RemoveRec path], StatusOk)
          else let hidden = hidden_name path (ms_files ms) unix_seconds
               in (ApplyRename path hidden ms, [RenameRec path hidden], StatusOk))"

lemma free_stamp_free: "\<not> ns_Exists files (HiddenNameFor path (free_stamp path files stamp))"
  by (induction path files stamp rule: free_stamp.induct) (subst free_stamp.simps, simp)

lemma free_stamp_later: "stamp \<le> free_stamp path files stamp"
  by (induction path files stamp rule: free_stamp.induct) (subst free_stamp.simps, force)

subsection \<open>Revoking leases\<close>

text \<open>
  One handle after the other: \<open>now handle\<close> is the time at which its turn comes and
  \<open>rpc handle primary\<close> whether the primary would acknowledge. The state also carries the servers
  found unreachable, and the time to wait for.
\<close>

definition revoke_one ::
    "config \<Rightarrow> (u64 \<Rightarrow> time_point) \<Rightarrow> (u64 \<Rightarrow> string \<Rightarrow> bool) \<Rightarrow> u64 \<Rightarrow>
     master_state \<times> string set \<times> time_point \<Rightarrow> master_state \<times> string set \<times> time_point" where
  "revoke_one cfg now rpc handle acc =
     (case acc of (ms, unreachable, wait_until) \<Rightarrow>
        (case ct_Find (ms_chunks ms) handle of
           None \<Rightarrow> acc
         | Some meta \<Rightarrow>
             if cm_lease meta = None then acc
             else case Revoke cfg (now handle) (rpc handle) handle unreachable ms of
                    (ms1, unreachable1, result) \<Rightarrow>
                      (ms1, unreachable1,
                       if rv_had_lease result \<and> \<not> rv_acked result
                       then max wait_until (after_ms (rv_expiry result) (cf_lease_clock_skew_margin cfg + 1))
                       else wait_until)))"

definition RevokeLeasesOn ::
    "config \<Rightarrow> (u64 \<Rightarrow> time_point) \<Rightarrow> (u64 \<Rightarrow> string \<Rightarrow> bool) \<Rightarrow> u64 list \<Rightarrow> time_point \<Rightarrow> master_state \<Rightarrow>
     master_state \<times> time_point" where
  "RevokeLeasesOn cfg now rpc handles wait_until ms =
     (case fold (revoke_one cfg now rpc) handles (ms, {}, wait_until) of (ms1, _, wait1) \<Rightarrow> (ms1, wait1))"

subsection \<open>Renaming\<close>

text \<open>The guards that \<open>Rename\<close> and \<open>Snapshot\<close> share, before and under the locks.\<close>

definition check_paths :: "string \<Rightarrow> string \<Rightarrow> status option" where
  "check_paths source target =
     (case CheckPath source False of
        Some status \<Rightarrow> Some status
      | None \<Rightarrow>
          (case CheckPath target False of
             Some status \<Rightarrow> Some status
           | None \<Rightarrow>
               if source = target then Some AlreadyExists
               else if IsAncestorOrSelf source target then Some InvalidArgument
               else None))"

definition check_move :: "name_space \<Rightarrow> string \<Rightarrow> string \<Rightarrow> status option" where
  "check_move files source target =
     (if \<not> ns_Exists files source \<and> \<not> ns_IsDirectory files source then Some NotFound
      else if ns_Exists files target \<or> ns_IsDirectory files target then Some AlreadyExists
      else if ns_HasFileAncestor files target then Some InvalidArgument
      else None)"

definition Master_Rename ::
    "config \<Rightarrow> (u64 \<Rightarrow> time_point) \<Rightarrow> (u64 \<Rightarrow> string \<Rightarrow> bool) \<Rightarrow> string \<Rightarrow> string \<Rightarrow> master_state \<Rightarrow>
     master_state \<times> log_record list \<times> status" where
  "Master_Rename cfg now rpc source target ms =
     (case check_paths source target of
        Some status \<Rightarrow> (ms, [], status)
      | None \<Rightarrow>
          (case check_move (ms_files ms) source target of
             Some status \<Rightarrow> (ms, [], status)
           | None \<Rightarrow>
               (let handles = concat (map (\<lambda>e. fm_chunks (snd e)) (ns_Subtree (ms_files ms) source False));
                    (ms1, _) = RevokeLeasesOn cfg now rpc handles 0 ms
                in (ApplyRename source target ms1, [RenameRec source target], StatusOk))))"

subsection \<open>Snapshots\<close>

text \<open>
  A snapshot revokes the leases on the chunks it shares, and when a primary did not
  acknowledge it is finished only after the lease has expired: \<open>Inr\<close> is a snapshot to finish,
  with the time from which on that may be done and the handles it covers.
\<close>

definition Master_Snapshot ::
    "config \<Rightarrow> (u64 \<Rightarrow> time_point) \<Rightarrow> (u64 \<Rightarrow> string \<Rightarrow> bool) \<Rightarrow> time_point \<Rightarrow> string \<Rightarrow> string \<Rightarrow> master_state \<Rightarrow>
     master_state \<times> (status + time_point \<times> u64 list)" where
  "Master_Snapshot cfg now rpc start source target ms =
     (case check_paths source target of
        Some status \<Rightarrow> (ms, Inl status)
      | None \<Rightarrow>
          (case check_move (ms_files ms) source target of
             Some status \<Rightarrow> (ms, Inl status)
           | None \<Rightarrow>
               (let handles = sort (remdups (concat (map (\<lambda>e. fm_chunks (snd e)) (ns_Subtree (ms_files ms) source True))));
                    (ms1, wait_until) = RevokeLeasesOn cfg now rpc handles start ms
                in (ms1, Inr (wait_until, handles)))))"

definition reset_invalid :: "config \<Rightarrow> time_point \<Rightarrow> u64 \<Rightarrow> master_state \<Rightarrow> master_state" where
  "reset_invalid cfg t handle ms =
     (case ct_Find (ms_chunks ms) handle of
        None \<Rightarrow> ms
      | Some meta \<Rightarrow>
          if cm_lease meta \<noteq> None \<and> \<not> IsValid cfg meta t
          then update_chunk handle (\<lambda>c. c\<lparr>cm_lease := None\<rparr>) ms else ms)"

definition SnapshotFinish ::
    "config \<Rightarrow> time_point \<Rightarrow> u64 list \<Rightarrow> string \<Rightarrow> string \<Rightarrow> master_state \<Rightarrow>
     master_state \<times> log_record list \<times> status" where
  "SnapshotFinish cfg t handles source target ms =
     (let ms1 = fold (reset_invalid cfg t) handles ms
      in (ApplySnapshot source target ms1, [SnapshotRec source target], StatusOk))"

subsection \<open>Looking things up\<close>

definition Master_FindMatchingFiles :: "string \<Rightarrow> bool \<Rightarrow> master_state \<Rightarrow> status \<times> list_entry list" where
  "Master_FindMatchingFiles directory include_hidden ms =
     (case CheckPath directory True of
        Some status \<Rightarrow> (status, [])
      | None \<Rightarrow>
          if ns_Exists (ms_files ms) directory then (InvalidArgument, [])
          else if directory \<noteq> ''/'' \<and> \<not> ns_IsDirectory (ms_files ms) directory then (NotFound, [])
          else (StatusOk, ns_List (ms_files ms) directory include_hidden))"

definition ResolveLocations :: "registry \<Rightarrow> chunk_meta \<Rightarrow> replica list" where
  "ResolveLocations servers meta = List.map_filter (\<lambda>e. Resolve (fst e) servers) (cm_locations meta)"

definition FillChunkInfo :: "registry \<Rightarrow> nat \<Rightarrow> u64 \<Rightarrow> chunk_meta \<Rightarrow> chunk_info" where
  "FillChunkInfo servers index handle meta =
     \<lparr>inf_index = index, inf_handle = handle, inf_version = cm_version meta, inf_replicas = ResolveLocations servers meta\<rparr>"

text \<open>The loop over \<open>index\<close>, which stops at the wrapped sum \<open>first_index + count\<close>.\<close>

definition Master_FindLocation :: "registry \<Rightarrow> string \<Rightarrow> nat \<Rightarrow> nat \<Rightarrow> master_state \<Rightarrow> status \<times> chunk_info list" where
  "Master_FindLocation servers path first_index count ms =
     (case CheckPath path False of
        Some status \<Rightarrow> (status, [])
      | None \<Rightarrow>
          (case ns_Find (ms_files ms) path of
             None \<Rightarrow> (NotFound, [])
           | Some meta \<Rightarrow>
               (let chunks = fm_chunks meta;
                    stop = min (length chunks) (add64 first_index (max 1 count))
                in (StatusOk, List.map_filter (\<lambda>index.
                      map_option (FillChunkInfo servers index (chunks ! index))
                        (ct_Find (ms_chunks ms) (chunks ! index))) [first_index..<stop]))))"

section \<open>Requests are runs of the logged state machine\<close>

text \<open>Records that add no reference leave the bound on reference counts alone.\<close>

lemma refs_fit_less: "refs_fit files \<Longrightarrow> (\<And>h. refs files' h \<le> refs files h) \<Longrightarrow> refs_fit files'"
  unfolding refs_fit_def using le_less_trans by blast

lemma below_of_ancestor: "\<not> IsAncestorOrSelf s t \<Longrightarrow> s \<noteq> ''/'' \<Longrightarrow> s \<noteq> t \<and> \<not> below s t"
  by (simp add: IsAncestorOrSelf_iff below_iff)

lemma refs_Create: "om_ok (ms_files ms) \<Longrightarrow> refs (ms_files (ApplyCreate p ms)) h = refs (ms_files ms) h"
  using refs_assign [of "ms_files ms" p empty_meta h]
  by (auto simp: ApplyCreate_def ns_Insert_def om_emplace_def empty_meta_def)

lemma refs_Remove: "om_ok (ms_files ms) \<Longrightarrow> refs (ms_files (ApplyRemove p ms)) h \<le> refs (ms_files ms) h"
  using refs_erase [of "ms_files ms" p h]
  by (auto simp: ApplyRemove_def ns_Erase_def split: option.split)

lemma allowed_Create:
  "ms_ok ms \<Longrightarrow> IsValidPath p \<Longrightarrow> p \<noteq> ''/'' \<Longrightarrow> ns_free (ms_files ms) p \<Longrightarrow> master_allowed (CreateRec p) ms"
  using refs_fit_less [OF ms_ok_refs_fit, of ms "ms_files (ApplyCreate p ms)"] ns_treeD(1) [OF ms_okD(1), of ms]
  by (simp add: master_allowed_def refs_Create)

lemma allowed_Remove: "ms_ok ms \<Longrightarrow> master_allowed (RemoveRec p) ms"
  using refs_fit_less [OF ms_ok_refs_fit refs_Remove, of ms p] ns_treeD(1) [OF ms_okD(1), of ms]
  by (simp add: master_allowed_def)

lemma allowed_Rename:
  assumes "ms_ok ms" "IsValidPath s" "s \<noteq> ''/''" "IsValidPath t" "t \<noteq> ''/''" "ns_free (ms_files ms) t" "\<not> IsAncestorOrSelf s t"
  shows "master_allowed (RenameRec s t) ms"
proof -
  have tree: "ns_tree (ms_files ms)" using assms(1) by (rule ms_okD)
  have free: "\<forall>k \<in> om_keys (ms_files ms). k \<noteq> t \<and> \<not> below t k"
    using assms(6) by (auto simp: ns_free_iff [OF tree assms(5)])
  have "\<not> below s t" using below_of_ancestor [OF assms(7,3)] by simp
  then have "refs (ms_files (ApplyRename s t ms)) h = refs (ms_files ms) h" for h
    using refs_RenameSubtree [OF ns_treeD(1) [OF tree] assms(3,5) free] by (simp add: ApplyRename_def)
  then show ?thesis
    using assms refs_fit_less [OF ms_ok_refs_fit [OF assms(1)]] by (simp add: master_allowed_def)
qed

text \<open>A hidden name lies in the directory of the path.\<close>

lemma prefix_in_directory:
  assumes "prefix (k @ [slash]) (c @ h)" "slash \<notin> set h"
  shows "prefix (k @ [slash]) c"
proof -
  from assms(1) consider "prefix (k @ [slash]) c" | us where "k @ [slash] = c @ us" "prefix us h"
    unfolding prefix_append by blast
  then show ?thesis
  proof cases
    case 2
    show ?thesis
    proof (cases us rule: rev_cases)
      case (snoc vs x)
      then have "slash \<in> set us" using 2(1) by (metis append_assoc last_in_set last_snoc snoc_eq_iff_butlast)
      then show ?thesis using 2(2) assms(2) set_mono_prefix by blast
    qed (use 2 in simp)
  qed
qed

lemma ChildPrefix_ParentOf:
  assumes "IsValidPath p" "p \<noteq> ''/''"
  shows "ChildPrefix (ParentOf p) @ BaseName p = p"
proof -
  from assms obtain cs where "cs \<noteq> []" "\<forall>c \<in> set cs. good_component c" "p = render cs"
    by (auto elim: IsValidPath_cases)
  then obtain ds c where "p = render ds @ slash # c" "good_component c" "\<forall>c \<in> set ds. good_component c"
    by (cases cs rule: rev_cases) auto
  then show ?thesis
    using render_not_root [of ds] by (simp add: BaseName_snoc ParentOf_snoc good_componentD ChildPrefix_def)
qed

lemma hidden_beside:
  assumes "IsValidPath p" "p \<noteq> ''/''" "k \<noteq> ''/''" "below k (HiddenNameFor p ts)"
  shows "below k p \<and> k \<noteq> p"
proof -
  let ?c = "ChildPrefix (ParentOf p)"
  obtain h where h: "HiddenNameFor p ts = ?c @ h" "slash \<notin> set h"
    using HiddenNameFor_parts(1,2) [OF assms(1,2), of ts] by (auto simp: good_component_def)
  have "prefix (k @ [slash]) ?c"
    using prefix_in_directory [of k ?c h] assms(3,4) h by (simp add: below_iff)
  moreover have "p = ?c @ BaseName p" using ChildPrefix_ParentOf [OF assms(1,2)] by simp
  ultimately show ?thesis
    using assms(3) by (metis append_assoc below_iff below_irrefl prefix_def)
qed

lemma hidden_no_file_above:
  assumes "ns_tree files" "IsValidPath p" "p \<noteq> ''/''" "p \<in> om_keys files"
  shows "\<not> ns_HasFileAncestor files (hidden_name p files now)"
proof
  let ?h = "hidden_name p files now"
  have "?h \<noteq> ''/''" using HiddenNameFor_hidden [OF assms(2,3)] by (simp add: hidden_name_def)
  moreover assume "ns_HasFileAncestor files ?h"
  ultimately obtain k where k: "k \<in> om_keys files" "k \<noteq> ''/''" "below k ?h"
    using ns_HasFileAncestor_iff [OF _ ns_treeD(2) [OF assms(1)]] by auto
  then have "below k p" using hidden_beside [OF assms(2,3)] by (simp add: hidden_name_def)
  then show False using assms(1,4) k(1) by (auto simp: ns_tree_def)
qed

lemma CheckPath_None: "CheckPath p allow_root = None \<longleftrightarrow> IsValidPath p \<and> (allow_root \<or> p \<noteq> ''/'')"
  by (simp add: CheckPath_def)

lemma check_paths_None:
  "check_paths s t = None \<longleftrightarrow>
     IsValidPath s \<and> s \<noteq> ''/'' \<and> IsValidPath t \<and> t \<noteq> ''/'' \<and> s \<noteq> t \<and> \<not> IsAncestorOrSelf s t"
  by (auto simp: check_paths_def CheckPath_def)

lemma check_move_None:
  "check_move files s t = None \<longleftrightarrow> (ns_Exists files s \<or> ns_IsDirectory files s) \<and> ns_free files t"
  by (auto simp: check_move_def ns_free_def)

lemma quiet_revoke_one:
  "revoke_one cfg now rpc h (ms, u, w) = (ms', u', w') \<Longrightarrow> quiet_from ms ms'"
  by (auto simp: revoke_one_def split: option.splits if_splits prod.splits intro: quiet_from_refl quiet_Revoke)

lemma quiet_RevokeLeasesOn:
  assumes "RevokeLeasesOn cfg now rpc hs w ms = (ms', w')"
  shows "quiet_from ms ms'"
proof -
  have "quiet_from ms (fst (fold (revoke_one cfg now rpc) hs acc))" if "quiet_from ms (fst acc)" for acc
    using that
  proof (induction hs arbitrary: acc)
    case (Cons h hs)
    obtain m u v where acc: "acc = (m, u, v)" by (cases acc)
    obtain m' u' v' where one: "revoke_one cfg now rpc h acc = (m', u', v')" by (metis prod_cases3)
    have "quiet_from ms m'"
      using quiet_from_trans [of ms m m'] quiet_revoke_one [OF one [unfolded acc]] Cons.prems acc by simp
    with Cons.IH [of "revoke_one cfg now rpc h acc"] one show ?case by simp
  qed simp
  from this [of "(ms, {}, w)"] assms show ?thesis
    by (auto simp: RevokeLeasesOn_def quiet_from_refl split: prod.splits)
qed

lemma quiet_reset_invalid: "quiet_from ms (reset_invalid cfg t h ms)"
  by (auto simp: reset_invalid_def intro: quiet_intros split: option.split)

lemma quiet_fold_reset: "quiet_from ms (fold (reset_invalid cfg t) hs ms)"
  by (rule fold_invariant [where P = "quiet_from ms"]) (auto intro: quiet_from_refl quiet_from_trans quiet_reset_invalid)

lemma Create_run:
  assumes "ms_ok ms" "Master_Create p ms = (ms', rs, st)"
  shows "master_run ms rs ms'"
  using assms allowed_Create [OF assms(1), of p] run_log1 [of "CreateRec p" ms] run.start
  by (auto simp: Master_Create_def CheckPath_None ns_free_def split: option.splits if_splits)

lemma Remove_run:
  assumes "ms_ok ms" "Master_Remove now p ms = (ms', rs, st)"
    and "\<not> ns_IsDirectory (ms_files ms) (hidden_name p (ms_files ms) now)"
  shows "master_run ms rs ms'"
proof (cases "CheckPath p False = None \<and> ns_Exists (ms_files ms) p \<and> \<not> IsHiddenPath p")
  case True
  let ?h = "hidden_name p (ms_files ms) now"
  have p: "IsValidPath p" "p \<noteq> ''/''" using True by (auto simp: CheckPath_None)
  have tree: "ns_tree (ms_files ms)" using assms(1) by (rule ms_okD)
  have h: "IsValidPath ?h" "?h \<noteq> ''/''" "ParentOf ?h = ParentOf p" "IsHiddenPath ?h"
    using HiddenNameFor_parts(4,6) [OF p] HiddenNameFor_hidden [OF p] by (simp_all add: hidden_name_def)
  have apart: "p \<noteq> ?h" using True h(4) by metis
  have "\<not> IsAncestorOrSelf p ?h"
    using hidden_beside [OF p p(2)] apart p(2) by (auto simp: IsAncestorOrSelf_iff below_iff hidden_name_def)
  moreover have "\<not> ns_HasFileAncestor (ms_files ms) ?h"
    using True by (intro hidden_no_file_above tree p) (simp add: ns_Exists_iff)
  ultimately have "master_allowed (RenameRec p ?h) ms"
    using assms(3) free_stamp_free [of "ms_files ms" p now]
    by (intro allowed_Rename assms(1) p h(1,2)) (simp_all add: ns_free_def hidden_name_def)
  then show ?thesis
    using assms(2) True run_log1 [of "RenameRec p ?h" ms] by (auto simp: Master_Remove_def Let_def)
next
  case False
  then show ?thesis
    using assms(2) run_log1 [OF allowed_Remove [OF assms(1), of p]] run.start
    by (auto simp: Master_Remove_def Let_def split: option.splits if_splits)
qed

lemma Rename_run:
  assumes "ms_ok ms" "Master_Rename cfg now rpc s t ms = (ms', rs, st)"
  shows "master_run ms rs ms'"
proof (cases "check_paths s t = None \<and> check_move (ms_files ms) s t = None")
  case True
  let ?hs = "concat (map (\<lambda>e. fm_chunks (snd e)) (ns_Subtree (ms_files ms) s False))"
  obtain ms1 w where rev: "RevokeLeasesOn cfg now rpc ?hs 0 ms = (ms1, w)" by fastforce
  note q = quiet_RevokeLeasesOn [OF rev]
  have ok1: "ms_ok ms1" "ms_files ms1 = ms_files ms" using quiet_from_ok [OF assms(1) q] q by (simp_all add: quiet_from_def)
  have "master_allowed (RenameRec s t) ms1"
    using True ok1 by (intro allowed_Rename) (auto simp: check_paths_None check_move_None)
  then have "master_run ms [RenameRec s t] (Apply (RenameRec s t) ms1)"
    using run_trans [OF run_log1 run_quiet [OF run.start assms(1) q]] by fastforce
  moreover have "ms' = Apply (RenameRec s t) ms1" "rs = [RenameRec s t]"
    using assms(2) True rev by (auto simp: Master_Rename_def)
  ultimately show ?thesis by simp
next
  case False
  then show ?thesis
    using assms(2) run.start by (auto simp: Master_Rename_def split: option.splits)
qed

lemma Snapshot_run:
  assumes "ms_ok ms" "Master_Snapshot cfg now rpc t0 s t ms = (ms', r)"
  shows "master_run ms [] ms' \<and> ms_files ms' = ms_files ms"
  using assms run_quiet [OF run.start assms(1)] quiet_RevokeLeasesOn run.start
  by (force simp: Master_Snapshot_def Let_def quiet_from_def split: option.splits prod.splits)

lemma SnapshotFinish_run:
  assumes "ms_ok ms" "check_paths s t = None" "check_move (ms_files ms) s t = None"
    and "SnapshotFinish cfg now hs s t ms = (ms', rs, st)" "refs_fit (ms_files ms')"
  shows "master_run ms rs ms'"
proof -
  let ?ms1 = "fold (reset_invalid cfg now) hs ms"
  have q: "quiet_from ms ?ms1" by (rule quiet_fold_reset)
  have ok1: "ms_ok ?ms1" "ms_files ?ms1 = ms_files ms" using quiet_from_ok [OF assms(1) q] q by (simp_all add: quiet_from_def)
  have e: "ms' = Apply (SnapshotRec s t) ?ms1" "rs = [SnapshotRec s t]" using assms(4) by (auto simp: SnapshotFinish_def)
  have "master_allowed (SnapshotRec s t) ?ms1"
    using assms(2,3,5) ok1 e by (auto simp: master_allowed_def check_paths_None check_move_None)
  from run_trans [OF run_log1 [OF this] run_quiet [OF run.start assms(1) q]] show ?thesis using e by simp
qed

section \<open>What the requests do\<close>

lemma ns_Find_Insert:
  "ns_Find (fst (ns_Insert p m files)) q =
     (if q = p then Some (case ns_Find files p of None \<Rightarrow> m | Some w \<Rightarrow> w) else ns_Find files q)"
  by (auto simp: ns_Find_def ns_Insert_def om_emplace_def split: option.split)

text \<open>
  Creating a file succeeds exactly when the path is valid, not the root, not in use and
  below no file; then there is one more file, which is empty, and else nothing changes.
\<close>

lemma Create_creates:
  assumes "ms_ok ms" "Master_Create p ms = (ms', rs, st)"
  shows "ms_ok ms' \<and>
    (st = StatusOk \<longleftrightarrow> IsValidPath p \<and> p \<noteq> ''/'' \<and> ns_free (ms_files ms) p) \<and>
    (st = StatusOk \<longrightarrow> rs = [CreateRec p] \<and>
       (\<forall>q. ns_Find (ms_files ms') q = (if q = p then Some empty_meta else ns_Find (ms_files ms) q))) \<and>
    (st \<noteq> StatusOk \<longrightarrow> ms' = ms \<and> rs = [])"
proof -
  have "ms_ok ms'" by (rule ms_ok_run [OF Create_run [OF assms] assms(1)])
  moreover have "ns_Find (ms_files ms) p = None" if "\<not> ns_Exists (ms_files ms) p"
    using that by (simp add: ns_Find_iff ns_Exists_iff)
  ultimately show ?thesis
    using assms(2)
    by (auto simp: Master_Create_def CheckPath_def ns_free_def ApplyCreate_def ns_Find_Insert split: if_splits)
qed

text \<open>The hidden name of a removed file is free, so that removing only renames.\<close>

lemma hidden_free:
  assumes "ms_ok ms" "IsValidPath p" "p \<noteq> ''/''" "ns_Exists (ms_files ms) p" "\<not> IsHiddenPath p"
    and "\<not> ns_IsDirectory (ms_files ms) (hidden_name p (ms_files ms) now)"
  shows "ns_free (ms_files ms) (hidden_name p (ms_files ms) now)" "hidden_name p (ms_files ms) now \<noteq> p"
    "\<not> below p (hidden_name p (ms_files ms) now)" "\<not> below (hidden_name p (ms_files ms) now) p"
proof -
  let ?h = "hidden_name p (ms_files ms) now"
  have tree: "ns_tree (ms_files ms)" using assms(1) by (rule ms_okD)
  have h: "?h \<noteq> ''/''" "IsHiddenPath ?h" using HiddenNameFor_hidden [OF assms(2,3)] by (simp_all add: hidden_name_def)
  show "?h \<noteq> p" using h(2) assms(5) by metis
  show "\<not> below p ?h" using hidden_beside [OF assms(2,3,3)] by (auto simp: hidden_name_def)
  have "\<not> ns_HasFileAncestor (ms_files ms) ?h"
    using assms(4) by (intro hidden_no_file_above tree assms(2,3)) (simp add: ns_Exists_iff)
  then show "ns_free (ms_files ms) ?h"
    using assms(6) free_stamp_free by (simp add: ns_free_def hidden_name_def)
  show "\<not> below ?h p"
    using assms(4,6) h(1) by (auto simp: ns_IsDirectory_iff [OF ns_treeD(1) [OF tree]] ns_Exists_iff)
qed

text \<open>
  A file that was removed is still there under its hidden name, and renaming that back
  restores the name space as it was, provided that no directory has the hidden name.
\<close>

lemma removed_restored:
  assumes "ms_ok ms" "IsValidPath p" "p \<noteq> ''/''" "ns_Exists (ms_files ms) p" "\<not> IsHiddenPath p"
    and "\<not> ns_IsDirectory (ms_files ms) (hidden_name p (ms_files ms) now)"
    and "Master_Remove now p ms = (ms1, rs1, st1)"
    and "Master_Rename cfg clock rpc (hidden_name p (ms_files ms) now) p ms1 = (ms2, rs2, st2)"
  shows "st1 = StatusOk \<and> \<not> ns_Exists (ms_files ms1) p \<and>
    ns_Find (ms_files ms1) (hidden_name p (ms_files ms) now) = ns_Find (ms_files ms) p \<and>
    st2 = StatusOk \<and> ms_files ms2 = ms_files ms"
proof -
  let ?h = "hidden_name p (ms_files ms) now"
  note free = hidden_free [OF assms(1-6)]
  have tree: "ns_tree (ms_files ms)" using assms(1) by (rule ms_okD)
  have h: "IsValidPath ?h" "?h \<noteq> ''/''"
    using HiddenNameFor_parts(6) [OF assms(2,3)] HiddenNameFor_hidden(2) [OF assms(2,3)] by (simp_all add: hidden_name_def)
  have one: "ms1 = ApplyRename p ?h ms" "st1 = StatusOk"
    using assms(2-5,7) by (auto simp: Master_Remove_def CheckPath_def Let_def)
  then have files: "ms_files ms1 = ns_RenameSubtree p ?h (ms_files ms)" using assms(4) by (simp add: ApplyRename_def)
  note moved = RenameSubtree_moves [OF tree assms(2,3) h free(1) free(2) [symmetric] free(3)]
  have tree1: "ns_tree (ms_files ms1)" using moved files by simp
  have gone: "ns_Find (ms_files ms1) q = None" if "q = p \<or> below p q" for q
    using that moved [of q] files free below_linear [of ?h p q] h(2) assms(3) by (auto split: if_splits)
  have at_h: "ns_Find (ms_files ms1) ?h = ns_Find (ms_files ms) p" using moved files by simp
  have present: "ns_Find (ms_files ms) p \<noteq> None" using assms(4) by (simp add: ns_Exists_iff ns_Find_iff)
  have "ns_free (ms_files ms1) p"
  proof -
    have "\<not> below k p" if k: "k \<in> om_keys (ms_files ms1)" for k
    proof
      assume b: "below k p"
      have "k \<noteq> ?h" using b free(4) by blast
      moreover have "\<not> below ?h k" using b free(4) below_trans [OF h(2)] by blast
      ultimately have "ns_Find (ms_files ms1) k = ns_Find (ms_files ms) k"
        using moved [of k] files gone [of k] k by (auto simp: ns_Find_iff split: if_splits)
      then have "k \<in> om_keys (ms_files ms)" using k by (metis ns_Find_iff)
      then show False using b tree assms(4) by (auto simp: ns_tree_def ns_Exists_iff)
    qed
    then show ?thesis
      using gone unfolding ns_Find_iff by (auto simp: ns_free_iff [OF tree1 assms(3)])
  qed
  moreover have "ns_Exists (ms_files ms1) ?h" using at_h present by (metis ns_Exists_iff ns_Find_iff)
  moreover have "\<not> IsAncestorOrSelf ?h p"
    using free(2,4) h(2) by (auto simp: IsAncestorOrSelf_iff below_iff)
  ultimately have ok: "check_paths ?h p = None" "check_move (ms_files ms1) ?h p = None"
    using h assms(2,3) free(2) by (auto simp: check_paths_None check_move_None)
  obtain ms1' w where rev: "RevokeLeasesOn cfg clock rpc
      (concat (map (\<lambda>e. fm_chunks (snd e)) (ns_Subtree (ms_files ms1) ?h False))) 0 ms1 = (ms1', w)"
    by fastforce
  have "ms_files ms1' = ms_files ms1" using quiet_RevokeLeasesOn [OF rev] by (simp add: quiet_from_def)
  moreover have "ms2 = ApplyRename ?h p ms1'" "st2 = StatusOk" using assms(8) ok rev by (auto simp: Master_Rename_def)
  ultimately have "ms_files ms2 = ns_RenameSubtree ?h p (ms_files ms1)" "st2 = StatusOk"
    using ok(2) by (auto simp: ApplyRename_def check_move_None)
  moreover have "ns_RenameSubtree ?h p (ms_files ms1) = ms_files ms"
    unfolding files by (rule RenameSubtree_undo [OF tree assms(3) h(2) free(1) free(2) [symmetric] free(3,4)])
  ultimately show ?thesis using one(2) gone [of p] at_h by (simp add: ns_Exists_iff ns_Find_iff)
qed

text \<open>A directory that has the name which the removal of \<open>/a\<close> at second 5 picks, and the file \<open>/a\<close>.\<close>

definition hidden_directory :: master_state where
  "hidden_directory =
     fst (Master_Create ''/a'' (fst (Master_Create (HiddenNameFor ''/a'' 5 @ ''/x'') init_master_state)))"

lemma ms_ok_Create: "ms_ok ms \<Longrightarrow> ms_ok (fst (Master_Create p ms))"
  using ms_ok_run [OF Create_run, of ms p] by (metis prod_cases3 fst_conv)

text \<open>
  C40: without that provision removing a file can break the name space: the loop that picks
  the hidden name does not look for directories, so the removed file can end up with the name of
  one, and is then both.
\<close>

theorem Remove_onto_directory:
  "ms_ok hidden_directory \<and>
   (let ms' = fst (Master_Remove 5 ''/a'' hidden_directory); h = HiddenNameFor ''/a'' 5
    in snd (snd (Master_Remove 5 ''/a'' hidden_directory)) = StatusOk \<and>
       ns_Exists (ms_files ms') h \<and> ns_IsDirectory (ms_files ms') h \<and> \<not> ns_tree (ms_files ms'))"
proof -
  have "ms_ok hidden_directory" unfolding hidden_directory_def by (intro ms_ok_Create ms_ok_init)
  moreover have "let ms' = fst (Master_Remove 5 ''/a'' hidden_directory); h = HiddenNameFor ''/a'' 5
    in snd (snd (Master_Remove 5 ''/a'' hidden_directory)) = StatusOk \<and>
       ns_Exists (ms_files ms') h \<and> ns_IsDirectory (ms_files ms') h \<and> \<not> ns_tree (ms_files ms')"
    by code_simp
  ultimately show ?thesis by blast
qed

section \<open>Leases and snapshots\<close>

text \<open>
  The lease of a chunk, if any; a revocation leaves none behind that is neither revoked nor
  to be waited for.
\<close>

definition lease_of :: "master_state \<Rightarrow> u64 \<Rightarrow> lease option" where
  "lease_of ms h = (case ct_Find (ms_chunks ms) h of None \<Rightarrow> None | Some c \<Rightarrow> cm_lease c)"

lemma lease_of_update [simp]:
  "lease_of (update_chunk h' (\<lambda>c. c\<lparr>cm_lease := l\<rparr>) ms) h =
     (if h = h' \<and> ct_Find (ms_chunks ms) h \<noteq> None then l else lease_of ms h)"
  by (auto simp: lease_of_def ct_simps split: option.split)

text \<open>What is left of a lease at \<open>wait\<close>: nothing, or a revoked one that has run out by then.\<close>

definition over_by :: "config \<Rightarrow> time_point \<Rightarrow> lease option \<Rightarrow> bool" where
  "over_by cfg wait l \<longleftrightarrow>
     (case l of None \<Rightarrow> True | Some l \<Rightarrow> ls_revoked l \<and> \<not> unexpired cfg l wait)"

lemma revoke_one_lease:
  assumes "revoke_one cfg now rpc h (ms, u, w) = (ms', u', w')"
  shows "w \<le> w' \<and> over_by cfg w' (lease_of ms' h) \<and> (\<forall>k. k \<noteq> h \<longrightarrow> lease_of ms' k = lease_of ms k)"
proof (cases "lease_of ms h")
  case None
  then have "(ms', u', w') = (ms, u, w)"
    using assms by (auto simp: revoke_one_def lease_of_def split: option.splits)
  then show ?thesis using None by (simp add: over_by_def)
next
  case (Some l)
  then obtain c where c: "ct_Find (ms_chunks ms) h = Some c" "cm_lease c = Some l"
    by (auto simp: lease_of_def split: option.splits)
  show ?thesis
  proof (cases "unexpired cfg l (now h)")
    case False
    then show ?thesis
      using assms c by (auto simp: revoke_one_def Revoke_def revoke_begin_def no_lease_def over_by_def)
  next
    case True
    let ?ok = "ls_primary l \<notin> u \<and> rpc h (ls_primary l)" and ?ms1 = "update_chunk h (\<lambda>c. c\<lparr>cm_lease := Some (l\<lparr>ls_revoked := True\<rparr>)\<rparr>) ms"
    have one: "ct_Find (ms_chunks ?ms1) h = Some (c\<lparr>cm_lease := Some (l\<lparr>ls_revoked := True\<rparr>)\<rparr>)"
      using c(1) by (simp add: ct_simps)
    show ?thesis
    proof (cases ?ok)
      case yes: True
      then show ?thesis
        using assms c True one by (auto simp: revoke_one_def Revoke_def revoke_begin_def revoke_end_def over_by_def Let_def)
    next
      case no: False
      then have "ms' = ?ms1" "w' = max w (after_ms (ls_expiry l) (cf_lease_clock_skew_margin cfg + 1))"
        using assms c True one by (auto simp: revoke_one_def Revoke_def revoke_begin_def revoke_end_def Let_def)
      moreover have "\<not> unexpired cfg (l\<lparr>ls_revoked := True\<rparr>) (max w (after_ms (ls_expiry l) (cf_lease_clock_skew_margin cfg + 1)))"
        by (auto simp: unexpired_def after_ms_def max_def algebra_simps)
      ultimately show ?thesis using c(1) by (auto simp: over_by_def)
    qed
  qed
qed

lemma over_by_later: "over_by cfg w l \<Longrightarrow> w \<le> w' \<Longrightarrow> over_by cfg w' l"
  by (auto simp: over_by_def unexpired_def split: option.splits)

lemma RevokeLeasesOn_mono: "fold (revoke_one cfg now rpc) hs (ms, u, w) = (ms', u', w') \<Longrightarrow> w \<le> w'"
proof (induction hs arbitrary: ms u w)
  case (Cons h hs)
  obtain m u1 w1 where one: "revoke_one cfg now rpc h (ms, u, w) = (m, u1, w1)" by (metis prod_cases3)
  then have "w1 \<le> w'" using Cons by simp
  with revoke_one_lease [OF one] show ?case by simp
qed simp

lemma RevokeLeasesOn_over:
  assumes "RevokeLeasesOn cfg now rpc hs w ms = (ms', w')"
  shows "w \<le> w' \<and> (\<forall>h \<in> set hs. over_by cfg w' (lease_of ms' h)) \<and>
     (\<forall>h. h \<notin> set hs \<longrightarrow> lease_of ms' h = lease_of ms h)"
proof -
  have "w \<le> w' \<and> (\<forall>h \<in> set hs \<union> D. over_by cfg w' (lease_of ms' h)) \<and>
      (\<forall>h. h \<notin> set hs \<longrightarrow> lease_of ms' h = lease_of ms h)"
    if "fold (revoke_one cfg now rpc) hs (ms, u, w) = (ms', u', w')" "\<forall>h \<in> D. over_by cfg w (lease_of ms h)" for D ms u w u'
    using that
  proof (induction hs arbitrary: ms u w D)
    case (Cons h hs)
    obtain m u1 w1 where one: "revoke_one cfg now rpc h (ms, u, w) = (m, u1, w1)" by (metis prod_cases3)
    note l = revoke_one_lease [OF one]
    have "\<forall>k \<in> insert h D. over_by cfg w1 (lease_of m k)"
      using Cons.prems(2) l over_by_later by (metis insert_iff)
    moreover have "fold (revoke_one cfg now rpc) hs (m, u1, w1) = (ms', u', w')" using Cons.prems(1) one by simp
    ultimately have "w1 \<le> w' \<and> (\<forall>k \<in> set hs \<union> insert h D. over_by cfg w' (lease_of ms' k)) \<and>
        (\<forall>k. k \<notin> set hs \<longrightarrow> lease_of ms' k = lease_of m k)" by (intro Cons.IH)
    with l show ?case by auto
  qed auto
  from this [where D = "{}"] assms show ?thesis by (fastforce simp: RevokeLeasesOn_def split: prod.splits)
qed

text \<open>Who had an unexpired lease was asked, and answered.\<close>

lemma revoke_one_acked:
  assumes "revoke_one cfg now rpc h (ms, u, w) = (ms', u', w')" "lease_of ms h = Some l"
    and "now h \<le> fin" "w' \<le> fin" "unexpired cfg l fin"
  shows "rpc h (ls_primary l)"
proof (rule ccontr)
  assume no: "\<not> rpc h (ls_primary l)"
  from assms(2) obtain c where c: "ct_Find (ms_chunks ms) h = Some c" "cm_lease c = Some l"
    by (auto simp: lease_of_def split: option.splits)
  moreover have "unexpired cfg l (now h)" using assms(3,5) by (simp add: unexpired_def)
  ultimately have "w' = max w (after_ms (ls_expiry l) (cf_lease_clock_skew_margin cfg + 1))"
    using assms(1) no by (auto simp: revoke_one_def Revoke_def revoke_begin_def revoke_end_def Let_def ct_simps)
  then show False using assms(4,5) by (auto simp: unexpired_def after_ms_def algebra_simps)
qed

lemma RevokeLeasesOn_acked:
  assumes "RevokeLeasesOn cfg now rpc hs w ms = (ms', w')" "distinct hs" "h \<in> set hs"
    and "lease_of ms h = Some l" "\<forall>h. now h \<le> fin" "w' \<le> fin" "unexpired cfg l fin"
  shows "rpc h (ls_primary l)"
proof -
  have "rpc h (ls_primary l)"
    if "fold (revoke_one cfg now rpc) hs (ms, u, w) = (ms', u', w')" "distinct hs" "h \<in> set hs" "lease_of ms h = Some l" for ms u w u'
    using that
  proof (induction hs arbitrary: ms u w)
    case (Cons k hs)
    obtain m u1 w1 where one: "revoke_one cfg now rpc k (ms, u, w) = (m, u1, w1)" by (metis prod_cases3)
    have rest: "fold (revoke_one cfg now rpc) hs (m, u1, w1) = (ms', u', w')" using Cons.prems(1) one by simp
    have "w1 \<le> w'"
      using RevokeLeasesOn_mono [OF rest] .
    show ?case
    proof (cases "h = k")
      case True
      have "lease_of ms k = Some l" "now k \<le> fin" "w1 \<le> fin"
        using True assms(5,6) Cons.prems(4) \<open>w1 \<le> w'\<close> by auto
      then show ?thesis using revoke_one_acked [OF one _ _ _ assms(7)] True by blast
    next
      case False
      moreover from this have "lease_of m h = Some l" using revoke_one_lease [OF one] Cons.prems(4) by simp
      ultimately show ?thesis using Cons.IH [OF rest] Cons.prems(2,3) by simp
    qed
  qed simp
  then show ?thesis using assms by (auto simp: RevokeLeasesOn_def split: prod.splits)
qed

lemma lease_of_AllocHandle [simp]: "lease_of (ApplyAllocHandle h' ms) h = lease_of ms h"
  by (simp add: lease_of_def ApplyAllocHandle_def)

lemma lease_fold_ref:
  "(case ct_Find (fold ref hs t) h of None \<Rightarrow> None | Some c \<Rightarrow> cm_lease c) =
   (case ct_Find t h of None \<Rightarrow> None | Some c \<Rightarrow> cm_lease c)"
proof (induction hs arbitrary: t)
  case (Cons k hs)
  then show ?case by (auto simp: ref_def ct_simps split: option.split)
qed simp

lemma lease_of_Snapshot [simp]: "lease_of (ApplySnapshot s t ms) h = lease_of ms h"
proof -
  have step: "lease_of (snapshot_step s t e m) h = lease_of m h" for e m
    by (simp add: snapshot_step_def Let_def lease_of_def lease_fold_ref)
  have "lease_of (fold (snapshot_step s t) es m) h = lease_of m h" for es m
    by (induction es arbitrary: m) (simp_all add: step)
  then show ?thesis by (simp add: ApplySnapshot_def)
qed

lemma lease_of_reset:
  "lease_of (reset_invalid cfg t k ms) h =
     (if h = k \<and> (case ct_Find (ms_chunks ms) h of None \<Rightarrow> True | Some c \<Rightarrow> \<not> IsValid cfg c t) then None else lease_of ms h)"
  by (auto simp: reset_invalid_def split: option.split) (auto simp: lease_of_def split: option.split)

lemma lease_of_fold_reset:
  "\<forall>h \<in> set hs. over_by cfg t (lease_of ms h) \<Longrightarrow>
   lease_of (fold (reset_invalid cfg t) hs ms) h = (if h \<in> set hs then None else lease_of ms h)"
proof (induction hs arbitrary: ms)
  case (Cons k hs)
  have "lease_of (reset_invalid cfg t k ms) k = None"
    using Cons.prems
    by (auto simp: lease_of_reset over_by_def IsValid_def split: option.splits) (auto simp: lease_of_def split: option.splits)
  moreover have "\<forall>h \<in> set hs. over_by cfg t (lease_of (reset_invalid cfg t k ms) h)"
    using Cons.prems by (auto simp: lease_of_reset over_by_def)
  ultimately show ?case using Cons.IH by (auto simp: lease_of_reset)
qed simp


section \<open>Locating chunks\<close>

lemma map_filter_Some: "\<forall>x \<in> set xs. f x \<noteq> None \<Longrightarrow> List.map_filter f xs = map (\<lambda>x. the (f x)) xs"
  by (induction xs) (auto simp: List.map_filter_simps)

text \<open>
  A client that asks for chunks of a file gets one entry for every chunk in the range it
  asked for, in order, with the handle, the current version, and the holders that are alive.
\<close>

lemma FindLocation_complete:
  assumes "ms_ok ms" "IsValidPath p" "p \<noteq> ''/''" "ns_Find (ms_files ms) p = Some meta" "first_index + max 1 count < 2 ^ 64"
  shows "\<exists>infos. Master_FindLocation servers p first_index count ms = (StatusOk, infos) \<and>
     map inf_index infos = [first_index..<min (length (fm_chunks meta)) (first_index + max 1 count)] \<and>
     (\<forall>info \<in> set infos. inf_handle info = fm_chunks meta ! inf_index info \<and>
        (\<exists>c. ct_Find (ms_chunks ms) (inf_handle info) = Some c \<and> inf_version info = cm_version c \<and>
          set (inf_replicas info) = {r. \<exists>sid \<in> om_keys (cm_locations c). Resolve sid servers = Some r}))"
proof -
  let ?cs = "fm_chunks meta" and ?stop = "min (length (fm_chunks meta)) (first_index + max 1 count)"
  let ?f = "\<lambda>i. map_option (FillChunkInfo servers i (?cs ! i)) (ct_Find (ms_chunks ms) (?cs ! i))"
  have present: "\<exists>c. ct_Find (ms_chunks ms) (?cs ! i) = Some c" if "i < length ?cs" for i
  proof -
    have "(p, meta) \<in> set (ms_files ms)" using assms(4) by (simp add: ns_Find_def map_of_SomeD)
    from ms_core_present [OF ms_okD(2) [OF assms(1)] this nth_mem [OF that]] show ?thesis by blast
  qed
  then have all: "\<forall>i \<in> set [first_index..<?stop]. ?f i \<noteq> None" by auto
  have r: "Master_FindLocation servers p first_index count ms = (StatusOk, map (\<lambda>i. the (?f i)) [first_index..<?stop])"
    using assms(2-5) map_filter_Some [OF all] by (simp add: Master_FindLocation_def CheckPath_def Let_def add64_eq)
  have replicas: "set (ResolveLocations servers c) = {r. \<exists>sid \<in> om_keys (cm_locations c). Resolve sid servers = Some r}" for c
    by (force simp: ResolveLocations_def map_filter_def om_keys_def)
  show ?thesis
    unfolding r
    using present replicas
    by (intro exI [of _ "map (\<lambda>i. the (?f i)) [first_index..<?stop]"])
      (fastforce simp: FillChunkInfo_def map_idI intro: map_idI)
qed

text \<open>A range whose end wraps is empty: the answer to a huge count from a later index on.\<close>

lemma FindLocation_wraps:
  assumes "IsValidPath p" "p \<noteq> ''/''" "ns_Find (ms_files ms) p = Some meta"
    and "1 \<le> count" "2 ^ 64 \<le> first_index + count" "count < 2 ^ 64"
  shows "Master_FindLocation servers p first_index count ms = (StatusOk, [])"
proof -
  have "add64 first_index count \<le> first_index"
  proof -
    have "(first_index + count - 2 ^ 64) + 2 ^ 64 = first_index + count" using assms(5) by simp
    then have "add64 first_index count = (first_index + count - 2 ^ 64) mod 2 ^ 64"
      unfolding add64_def by (metis mod_add_self2)
    also have "\<dots> \<le> first_index + count - 2 ^ 64" by simp
    finally show ?thesis using assms(6) by linarith
  qed
  then have "[first_index..<min (length (fm_chunks meta)) (add64 first_index (max 1 count))] = []"
    using assms(4) by (simp add: max_absorb2)
  then show ?thesis
    unfolding Master_FindLocation_def using assms(1-3) by (simp add: CheckPath_def Let_def List.map_filter_simps del: upt_eq_Nil_conv)
qed

section \<open>Witnesses\<close>

theorem Create_creates_witness:
  "ms_ok (fst (Master_Create ''/b'' sample_state)) \<and> ns_Find (ms_files (fst (Master_Create ''/b'' sample_state))) ''/b'' = Some empty_meta"
proof -
  have st: "snd (snd (Master_Create ''/b'' sample_state)) = StatusOk" by code_simp
  have e: "Master_Create ''/b'' sample_state =
      (fst (Master_Create ''/b'' sample_state), fst (snd (Master_Create ''/b'' sample_state)), StatusOk)"
    using st by (simp add: prod_eq_iff)
  show ?thesis using Create_creates [OF sample_state_ok e] by simp
qed

theorem removed_restored_witness:
  "ms_files (fst (Master_Rename small_config (\<lambda>_. 0) (\<lambda>_ _. True) (hidden_name ''/a'' (ms_files sample_state) 5) ''/a''
     (fst (Master_Remove 5 ''/a'' sample_state)))) = ms_files sample_state"
proof -
  let ?h = "hidden_name ''/a'' (ms_files sample_state) 5"
  have a: "IsValidPath ''/a''" "ns_Exists (ms_files sample_state) ''/a''" "\<not> IsHiddenPath ''/a''"
    "\<not> ns_IsDirectory (ms_files sample_state) ?h" by code_simp+
  obtain ms1 rs1 st1 where one: "Master_Remove 5 ''/a'' sample_state = (ms1, rs1, st1)" by (metis prod_cases3)
  obtain ms2 rs2 st2 where two: "Master_Rename small_config (\<lambda>_. 0) (\<lambda>_ _. True) ?h ''/a'' ms1 = (ms2, rs2, st2)"
    by (metis prod_cases3)
  have "''/a'' \<noteq> ''/''" by simp
  from removed_restored [OF sample_state_ok a(1) this a(2-4) one two] show ?thesis
    by (simp only: one two fst_conv)
qed

definition leased_state :: master_state where
  "leased_state = fst (GrantSerialized small_config (grant_env [''s'', ''t'']) 7 sample_state)"


theorem FindLocation_complete_witness:
  "\<exists>infos. Master_FindLocation two_servers ''/a'' 0 5 sample_state = (StatusOk, infos) \<and> map inf_index infos = [0]"
proof -
  have a: "IsValidPath ''/a''" "''/a'' \<noteq> ''/''" "ns_Find (ms_files sample_state) ''/a'' = Some \<lparr>fm_chunks = [7]\<rparr>" by code_simp+
  from FindLocation_complete [OF sample_state_ok a, of 0 5 two_servers] show ?thesis by auto
qed

end
