(* ===== verification/MasterChunks.thy ===== *)
theory MasterChunks
  imports MasterRequests "HOL-Library.Product_Lexorder"
begin

text \<open>
  The requests on chunks, \<open>src/src/master/master.cc\<close>: adding a chunk to a file, copying a shared
  chunk before it is written, and finding or granting the lease on a chunk. Which chunkservers
  carry out a \<open>CreateChunk\<close> call is the parameter \<open>rpc\<close>.
\<close>

section \<open>Creating chunks\<close>

definition AllocHandle :: "master_state \<Rightarrow> master_state \<times> log_record list \<times> u64" where
  "AllocHandle ms =
     (let handle = ms_next_handle ms;
          ms1 = ApplyAllocHandle handle ms;
          chunks = ct_update handle (\<lambda>c. c\<lparr>cm_pending := True\<rparr>) (ct_Create handle 1 (ms_chunks ms1))
      in (ms1\<lparr>ms_chunks := chunks\<rparr>, [AllocHandleRec handle], handle))"

text \<open>
  The servers with the fewest chunks, first at most one of each rack, then, while more are
  wanted, the others. \<open>sort_key\<close> is stable, as \<open>std::stable_sort\<close>.
\<close>

definition choose_racks :: "nat \<Rightarrow> chunkserver_info \<Rightarrow> string list \<times> string list \<Rightarrow> string list \<times> string list" where
  "choose_racks count s acc =
     (case acc of (chosen, racks) \<Rightarrow>
        if length chosen \<ge> count \<or> ci_rack s \<in> set racks then acc
        else (chosen @ [ci_id s], ci_rack s # racks))"

definition choose_more :: "nat \<Rightarrow> chunkserver_info \<Rightarrow> string list \<Rightarrow> string list" where
  "choose_more count s chosen =
     (if length chosen \<ge> count \<or> ci_id s \<in> set chosen then chosen else chosen @ [ci_id s])"

definition ChooseServers :: "nat \<Rightarrow> registry \<Rightarrow> master_state \<Rightarrow> string list" where
  "ChooseServers count servers ms =
     (let ranked = sort_key (\<lambda>s. ct_HeldCount (ms_chunks ms) (ci_id s)) (Alive servers)
      in fold (choose_more count) ranked (fst (fold (choose_racks count) ranked ([], []))))"

text \<open>
  A call asks a chunkserver to create a chunk with a handle and a version, as a copy of another
  one when that is not 0; the parameter \<open>rpc\<close> says who does. The result is in the order asked,
  that of the code in the order of the answers.
\<close>

type_synonym create_rpc = "u64 \<Rightarrow> u64 \<Rightarrow> u64 \<Rightarrow> string \<Rightarrow> bool"

definition CreateChunkOn :: "create_rpc \<Rightarrow> string list \<Rightarrow> u64 \<Rightarrow> u64 \<Rightarrow> u64 \<Rightarrow> string list" where
  "CreateChunkOn rpc ids handle version copy_from = filter (rpc handle version copy_from) ids"

definition add_locations :: "u64 \<Rightarrow> string list \<Rightarrow> time_point \<Rightarrow> master_state \<Rightarrow> master_state" where
  "add_locations handle ids t =
     fold (\<lambda>sid ms. ms\<lparr>ms_chunks := fst (ct_AddLocation handle sid t (ms_chunks ms))\<rparr>) ids"

definition drop_new :: "u64 \<Rightarrow> master_state \<Rightarrow> master_state" where
  "drop_new handle ms = ms\<lparr>ms_chunks := ct_Erase handle (ms_chunks ms)\<rparr>"

text \<open>\<open>AddChunk\<close> answers with a status, a result code and the chunk.\<close>

definition Master_AddChunk ::
    "config \<Rightarrow> registry \<Rightarrow> create_rpc \<Rightarrow> time_point \<Rightarrow> string \<Rightarrow> nat \<Rightarrow> master_state \<Rightarrow>
     master_state \<times> log_record list \<times> status \<times> result_code \<times> chunk_info option" where
  "Master_AddChunk cfg servers rpc t path index ms =
     (case CheckPath path False of
        Some status \<Rightarrow> (ms, [], status, OK, None)
      | None \<Rightarrow>
          (case ns_Find (ms_files ms) path of
             None \<Rightarrow> (ms, [], NotFound, OK, None)
           | Some file_info \<Rightarrow>
               if index < length (fm_chunks file_info)
               then (ms, [], StatusOk, OK, map_option (FillChunkInfo servers index (fm_chunks file_info ! index))
                       (ct_Find (ms_chunks ms) (fm_chunks file_info ! index)))
               else if index > length (fm_chunks file_info) then (ms, [], InvalidArgument, OK, None)
               else (case AllocHandle ms of
                       (ms1, rs, handle) \<Rightarrow>
                         (let created = CreateChunkOn rpc (ChooseServers (cf_replication_goal cfg) servers ms1) handle 1 0
                          in if length created < cf_min_replicas_for_write cfg \<or> created = []
                             then (drop_new handle ms1, rs, StatusOk, NO_REPLICAS, None)
                             else let ms2 = ApplyAddChunk path index handle (add_locations handle created t ms1)
                                  in (ms2, rs @ [AddChunkRec path index handle], StatusOk, OK,
                                      map_option (FillChunkInfo servers index handle) (ct_Find (ms_chunks ms2) handle))))))"

section \<open>Copy on write\<close>

text \<open>The handle to use, or 0 when no copy could be made.\<close>

definition CopyOnWrite ::
    "config \<Rightarrow> registry \<Rightarrow> create_rpc \<Rightarrow> time_point \<Rightarrow> string \<Rightarrow> nat \<Rightarrow> u64 \<Rightarrow> master_state \<Rightarrow>
     master_state \<times> log_record list \<times> u64" where
  "CopyOnWrite cfg servers rpc t path index old_handle ms =
     (case ns_Find (ms_files ms) path of
        None \<Rightarrow> (ms, [], 0)
      | Some file_info \<Rightarrow>
          if index \<ge> length (fm_chunks file_info) then (ms, [], 0)
          else if fm_chunks file_info ! index \<noteq> old_handle then (ms, [], fm_chunks file_info ! index)
          else (case ct_Find (ms_chunks ms) old_handle of
                  None \<Rightarrow> (ms, [], 0)
                | Some meta \<Rightarrow>
                    if cm_refcount meta \<le> 1 then (ms, [], old_handle)
                    else (case AllocHandle ms of
                            (ms1, rs, new) \<Rightarrow>
                              (let created = CreateChunkOn rpc (live_locations servers meta) new 1 old_handle
                               in if length created < cf_min_replicas_for_write cfg \<or> created = []
                                  then (drop_new new ms1, rs, 0)
                                  else (ApplyReplaceChunk path index new (add_locations new created t ms1),
                                        rs @ [ReplaceChunkRec path index new], new)))))"

section \<open>Finding the lease holder\<close>

record lease_answer =
  la_code :: result_code
  la_handle :: u64
  la_version :: u64
  la_primary :: "replica option"
  la_secondaries :: "replica list"

text \<open>
  An attempt ends with an error status, with an answer, or by being put off; \<open>LeaseCrash\<close> is the
  dereference of a primary that the registry does not resolve.
\<close>

datatype lease_outcome = LeaseStatus status | LeaseAnswer lease_answer | LeaseDeferred time_point | LeaseCrash

definition lease_refused :: "result_code \<Rightarrow> lease_answer" where
  "lease_refused code = \<lparr>la_code = code, la_handle = 0, la_version = 0, la_primary = None, la_secondaries = []\<rparr>"

definition granted_answer :: "u64 \<Rightarrow> grant_result \<Rightarrow> lease_answer" where
  "granted_answer handle result =
     (if gr_code result = OK
      then \<lparr>la_code = OK, la_handle = handle, la_version = gr_version result, la_primary = gr_primary result,
            la_secondaries = gr_secondaries result\<rparr>
      else lease_refused (gr_code result))"

text \<open>The second half of an attempt, for the handle that is not shared.\<close>

definition lease_on ::
    "config \<Rightarrow> registry \<Rightarrow> time_point \<Rightarrow> (nat \<Rightarrow> round_env) \<Rightarrow> u64 \<Rightarrow> master_state \<Rightarrow>
     master_state \<times> log_record list \<times> lease_outcome" where
  "lease_on cfg servers t env handle ms =
     (case ct_Find (ms_chunks ms) handle of
        None \<Rightarrow> (ms, [], LeaseStatus NotFound)
      | Some meta \<Rightarrow>
          if IsValid cfg meta t
          then (case cm_lease meta of
                  None \<Rightarrow> (ms, [], LeaseCrash)
                | Some l \<Rightarrow>
                    (case Resolve (ls_primary l) servers of
                       None \<Rightarrow> (ms, [], LeaseCrash)
                     | Some primary \<Rightarrow>
                         (ms, [], LeaseAnswer \<lparr>la_code = OK, la_handle = handle, la_version = cm_version meta,
                            la_primary = Some primary,
                            la_secondaries = filter (\<lambda>r. rp_chunkserver_id r \<noteq> ls_primary l) (ResolveLocations servers meta)\<rparr>)))
          else if IsPendingExpiry cfg meta t
          then (case cm_lease meta of
                  None \<Rightarrow> (ms, [], LeaseCrash)
                | Some l \<Rightarrow> (ms, [], LeaseDeferred (WaitUntil cfg l)))
          else let ms1 = (if cm_lease meta \<noteq> None then update_chunk handle (\<lambda>c. c\<lparr>cm_lease := None\<rparr>) ms else ms)
               in case GrantSerialized cfg env handle ms1 of
                    (ms2, rs, result) \<Rightarrow> (ms2, rs, LeaseAnswer (granted_answer handle result)))"

definition FindLeaseHolderAttempt ::
    "config \<Rightarrow> registry \<Rightarrow> create_rpc \<Rightarrow> time_point \<Rightarrow> (nat \<Rightarrow> round_env) \<Rightarrow> string \<Rightarrow> nat \<Rightarrow> master_state \<Rightarrow>
     master_state \<times> log_record list \<times> lease_outcome" where
  "FindLeaseHolderAttempt cfg servers rpc t env path index ms =
     (case ns_Find (ms_files ms) path of
        None \<Rightarrow> (ms, [], LeaseStatus NotFound)
      | Some file_info \<Rightarrow>
          if index \<ge> length (fm_chunks file_info) then (ms, [], LeaseStatus NotFound)
          else let handle = fm_chunks file_info ! index
               in (case ct_Find (ms_chunks ms) handle of
                     None \<Rightarrow> (ms, [], LeaseStatus NotFound)
                   | Some meta \<Rightarrow>
                       if cm_refcount meta > 1
                       then (case CopyOnWrite cfg servers rpc t path index handle ms of
                               (ms1, rs, handle1) \<Rightarrow>
                                 if handle1 = 0 then (ms1, rs, LeaseAnswer (lease_refused NO_REPLICAS))
                                 else case lease_on cfg servers t env handle1 ms1 of
                                        (ms2, rs2, outcome) \<Rightarrow> (ms2, rs @ rs2, outcome))
                       else lease_on cfg servers t env handle ms))"

definition Master_FindLeaseHolder ::
    "config \<Rightarrow> registry \<Rightarrow> create_rpc \<Rightarrow> time_point \<Rightarrow> (nat \<Rightarrow> round_env) \<Rightarrow> string \<Rightarrow> nat \<Rightarrow> master_state \<Rightarrow>
     master_state \<times> log_record list \<times> lease_outcome" where
  "Master_FindLeaseHolder cfg servers rpc t env path index ms =
     (case CheckPath path False of
        Some status \<Rightarrow> (ms, [], LeaseStatus status)
      | None \<Rightarrow> FindLeaseHolderAttempt cfg servers rpc t env path index ms)"

section \<open>Fresh chunks\<close>

lemma quiet_add_locations: "quiet_from ms (add_locations h ids t ms)"
proof (induction ids arbitrary: ms)
  case (Cons sid ids)
  have "quiet_from ms (ms\<lparr>ms_chunks := fst (ct_AddLocation h sid t (ms_chunks ms))\<rparr>)" by (intro quiet_intros)
  from quiet_from_trans [OF this Cons] show ?case by (simp add: add_locations_def)
qed (simp add: add_locations_def quiet_from_refl)

lemma Find_add_locations:
  "ct_Find (ms_chunks (add_locations h ids t ms)) h' =
     (if h' = h then map_option (cm_locations_update (fold (\<lambda>sid l. fst (om_emplace sid t l)) ids)) (ct_Find (ms_chunks ms) h)
      else ct_Find (ms_chunks ms) h')"
proof (induction ids arbitrary: ms)
  case (Cons sid ids)
  have "ct_Find (ms_chunks (add_locations h (sid # ids) t ms)) h' =
      ct_Find (ms_chunks (add_locations h ids t (ms\<lparr>ms_chunks := fst (ct_AddLocation h sid t (ms_chunks ms))\<rparr>))) h'"
    by (simp add: add_locations_def)
  then show ?case unfolding Cons by (simp add: ct_simps option.map_comp comp_def)
next
  case Nil
  show ?case by (cases "ct_Find (ms_chunks ms) h") (simp_all add: add_locations_def)
qed

lemma keys_fold_emplace: "om_keys (fold (\<lambda>sid l. fst (om_emplace sid t l)) ids l) = om_keys l \<union> set ids"
  by (induction ids arbitrary: l) (auto simp: om_emplace_def om_find_in_keys split: option.split)

text \<open>
  A fresh handle: it was in no file and in no table before, it is logged, and its chunk is pending.
\<close>

lemma AllocHandle_run:
  assumes "ms_ok ms" "ms_next_handle ms + 1 \<noteq> 0" "AllocHandle ms = (ms', rs, h)"
  shows "master_run ms rs ms'" "ms_ok ms'" "ms_files ms' = ms_files ms" "h = ms_next_handle ms" "h + 1 \<noteq> 0"
    "rs = [AllocHandleRec h]" "ct_Find (ms_chunks ms) h = None" "refs (ms_files ms) h = 0"
    "ct_Find (ms_chunks ms') k = (if k = h then Some (new_chunk\<lparr>cm_pending := True\<rparr>) else ct_Find (ms_chunks ms) k)"
proof -
  let ?ms1 = "ApplyAllocHandle (ms_next_handle ms) ms"
  note core = ms_coreD [OF ms_okD(2) [OF assms(1)]]
  show h: "h = ms_next_handle ms" "h + 1 \<noteq> 0" "rs = [AllocHandleRec h]"
    using assms(2,3) by (auto simp: AllocHandle_def Let_def)
  show none: "ct_Find (ms_chunks ms) h = None" using core(5) [of h] h(1) by (metis less_irrefl)
  then show "refs (ms_files ms) h = 0" using core(4) [of h] by (simp add: counts_def)
  have ms': "ms' = ?ms1\<lparr>ms_chunks := ct_update h (\<lambda>c. c\<lparr>cm_pending := True\<rparr>) (ct_Create h 1 (ms_chunks ?ms1))\<rparr>"
    using assms(3) h(1) by (auto simp: AllocHandle_def Let_def ApplyAllocHandle_def)
  have "h < ms_next_handle ?ms1" using less_max_Suc [OF h(2)] h(1) by (simp add: ApplyAllocHandle_def)
  then have "quiet_from ?ms1 ms'"
    unfolding ms' using none by (intro quiet_intros) (simp_all add: ApplyAllocHandle_def)
  moreover have allowed: "master_allowed (AllocHandleRec h) ms"
    using ms_ok_refs_fit [OF assms(1)] by (simp add: master_allowed_def ApplyAllocHandle_def)
  moreover have "ms_ok ?ms1" using ms_ok_run [OF run_log1 [OF allowed] assms(1)] h(1) by simp
  ultimately show run: "master_run ms rs ms'"
    using run_quiet [OF run_log1 [OF allowed]] h by simp
  show "ms_ok ms'" by (rule ms_ok_run [OF run assms(1)])
  show "ms_files ms' = ms_files ms" using ms' by (simp add: ApplyAllocHandle_def)
  show "ct_Find (ms_chunks ms') k = (if k = h then Some (new_chunk\<lparr>cm_pending := True\<rparr>) else ct_Find (ms_chunks ms) k)"
    using ms' none by (auto simp: ct_simps ApplyAllocHandle_def new_chunk_def)
qed

lemma fresh_new: "fresh (new_chunk\<lparr>cm_pending := True, cm_locations := l\<rparr>)"
  by (simp add: fresh_def core_of_def new_chunk_def)

text \<open>Dropping it again leaves nothing behind but the number that was used up.\<close>

lemma drop_new_quiet:
  assumes "ct_Find (ms_chunks ms) h = Some c" "fresh c"
  shows "quiet_from ms (drop_new h ms)"
  using assms unfolding drop_new_def by (intro quiet_from_chunks quiet_erase_pending) auto

text \<open>A fresh chunk that has locations and enters a file.\<close>

lemma located:
  assumes "AllocHandle ms = (ms1, rs, h)" "ms_ok ms" "ms_next_handle ms + 1 \<noteq> 0"
  shows "master_run ms rs (add_locations h ids t ms1)" "ms_ok (add_locations h ids t ms1)"
    "ms_files (add_locations h ids t ms1) = ms_files ms"
    "ct_Find (ms_chunks (add_locations h ids t ms1)) h =
       Some (new_chunk\<lparr>cm_pending := True, cm_locations := fold (\<lambda>sid l. fst (om_emplace sid t l)) ids []\<rparr>)"
    "k \<noteq> h \<Longrightarrow> ct_Find (ms_chunks (add_locations h ids t ms1)) k = ct_Find (ms_chunks ms) k"
proof -
  note a = AllocHandle_run [OF assms(2,3,1)]
  show run: "master_run ms rs (add_locations h ids t ms1)" using run_quiet [OF a(1,2) quiet_add_locations] .
  show "ms_ok (add_locations h ids t ms1)" by (rule ms_ok_run [OF run assms(2)])
  show "ms_files (add_locations h ids t ms1) = ms_files ms"
    using quiet_add_locations [of ms1 h ids t] a(3) by (simp add: quiet_from_def)
  show "ct_Find (ms_chunks (add_locations h ids t ms1)) h =
       Some (new_chunk\<lparr>cm_pending := True, cm_locations := fold (\<lambda>sid l. fst (om_emplace sid t l)) ids []\<rparr>)"
    using a(9) [of h] by (simp add: Find_add_locations new_chunk_def)
  show "ct_Find (ms_chunks (add_locations h ids t ms1)) k = ct_Find (ms_chunks ms) k" if "k \<noteq> h"
    using a(9) [of k] that by (simp add: Find_add_locations)
qed

lemma refs_fit_fresh:
  assumes "refs_fit files" "refs files h = 0" "\<And>k. refs files' k \<le> refs files k + (if k = h then 1 else 0)"
  shows "refs_fit files'"
  unfolding refs_fit_def
proof
  fix k show "refs files' k < 2 ^ 32"
    using assms(1,2) assms(3) [of k] by (cases "k = h") (auto simp: refs_fit_def intro: le_less_trans)
qed

text \<open>What the two operations that put a fresh chunk into a file do to the files.\<close>

lemma AddChunk_files:
  assumes "om_ok (ms_files ms)" "ns_Find (ms_files ms) p = Some m"
  shows "ns_Find (ms_files (ApplyAddChunk p (length (fm_chunks m)) h ms)) q =
      (if q = p then Some (m\<lparr>fm_chunks := fm_chunks m @ [h]\<rparr>) else ns_Find (ms_files ms) q)"
    "refs (ms_files (ApplyAddChunk p (length (fm_chunks m)) h ms)) k = refs (ms_files ms) k + (if k = h then 1 else 0)"
proof -
  have files: "ms_files (ApplyAddChunk p (length (fm_chunks m)) h ms) =
      om_modify p (fm_chunks_update (\<lambda>chunks. chunks @ [h])) (ms_files ms)"
    using assms(2) by (simp add: ApplyAddChunk_def ApplyAllocHandle_def)
  show "ns_Find (ms_files (ApplyAddChunk p (length (fm_chunks m)) h ms)) q =
      (if q = p then Some (m\<lparr>fm_chunks := fm_chunks m @ [h]\<rparr>) else ns_Find (ms_files ms) q)"
    using assms(2) by (simp add: files ns_Find_def)
  show "refs (ms_files (ApplyAddChunk p (length (fm_chunks m)) h ms)) k = refs (ms_files ms) k + (if k = h then 1 else 0)"
    using refs_modify [OF assms(1), of p m "fm_chunks_update (\<lambda>chunks. chunks @ [h])" k] assms(2)
    by (simp add: files ns_Find_def)
qed

lemma ReplaceChunk_files:
  assumes "om_ok (ms_files ms)" "ns_Find (ms_files ms) p = Some m" "i < length (fm_chunks m)" "fm_chunks m ! i \<noteq> h"
  shows "ns_Find (ms_files (ApplyReplaceChunk p i h ms)) q =
      (if q = p then Some (m\<lparr>fm_chunks := (fm_chunks m)[i := h]\<rparr>) else ns_Find (ms_files ms) q)"
    "refs (ms_files (ApplyReplaceChunk p i h ms)) k + (if k = fm_chunks m ! i then 1 else 0) =
      refs (ms_files ms) k + (if k = h then 1 else 0)"
proof -
  have files: "ms_files (ApplyReplaceChunk p i h ms) =
      om_modify p (fm_chunks_update (\<lambda>chunks. chunks[i := h])) (ms_files ms)"
    using assms(2-4) by (simp add: ApplyReplaceChunk_def ApplyAllocHandle_def Let_def)
  show "ns_Find (ms_files (ApplyReplaceChunk p i h ms)) q =
      (if q = p then Some (m\<lparr>fm_chunks := (fm_chunks m)[i := h]\<rparr>) else ns_Find (ms_files ms) q)"
    using assms(2) by (simp add: files ns_Find_def)
  show "refs (ms_files (ApplyReplaceChunk p i h ms)) k + (if k = fm_chunks m ! i then 1 else 0) =
      refs (ms_files ms) k + (if k = h then 1 else 0)"
    using refs_modify [OF assms(1), of p m "fm_chunks_update (\<lambda>chunks. chunks[i := h])" k] assms(2)
      count_list_update [OF assms(3), of h k]
    by (auto simp: files ns_Find_def split: if_splits)
qed

text \<open>\<open>AddChunk\<close> as a run, and its outcome when it creates a chunk.\<close>

lemma add_fresh:
  assumes "ms_ok ms" "ms_next_handle ms + 1 \<noteq> 0" "AllocHandle ms = (ms1, rs, h)" "ns_Find (ms_files ms) p = Some m"
  shows "master_run ms (rs @ [AddChunkRec p (length (fm_chunks m)) h])
    (ApplyAddChunk p (length (fm_chunks m)) h (add_locations h ids t ms1))"
proof -
  let ?m = "add_locations h ids t ms1"
  note a = AllocHandle_run [OF assms(1-3)] and l = located [OF assms(3,1,2), where ids = ids and t = t]
  have ok: "om_ok (ms_files ?m)" using l(2) by (intro ms_coreD(1) ms_okD(2))
  have "ns_Find (ms_files ?m) p = Some m" using assms(4) l(3) by simp
  note f = AddChunk_files(2) [OF ok this, of h]
  have "refs (ms_files (ApplyAddChunk p (length (fm_chunks m)) h ?m)) k \<le> refs (ms_files ms) k + (if k = h then 1 else 0)" for k
    unfolding f l(3) by simp
  from refs_fit_fresh [OF ms_ok_refs_fit [OF assms(1)] a(8) this]
  have "refs_fit (ms_files (ApplyAddChunk p (length (fm_chunks m)) h ?m))" .
  then have "master_allowed (AddChunkRec p (length (fm_chunks m)) h) ?m"
    using a(5) by (simp add: master_allowed_def)
  from run_trans [OF run_log1 [OF this] l(1)] show ?thesis by simp
qed

lemma replace_fresh:
  assumes "ms_ok ms" "ms_next_handle ms + 1 \<noteq> 0" "AllocHandle ms = (ms1, rs, h)" "ns_Find (ms_files ms) p = Some m"
    and "i < length (fm_chunks m)"
  shows "master_run ms (rs @ [ReplaceChunkRec p i h]) (ApplyReplaceChunk p i h (add_locations h ids t ms1))"
    "fm_chunks m ! i \<noteq> h"
proof -
  let ?m = "add_locations h ids t ms1"
  note a = AllocHandle_run [OF assms(1-3)] and l = located [OF assms(3,1,2), where ids = ids and t = t]
  have ok: "om_ok (ms_files ?m)" using l(2) by (intro ms_coreD(1) ms_okD(2))
  have "(p, m) \<in> set (ms_files ms)" using assms(4) by (simp add: ns_Find_def map_of_SomeD)
  from ms_core_present [OF ms_okD(2) [OF assms(1)] this nth_mem [OF assms(5)]] a(7)
  show old: "fm_chunks m ! i \<noteq> h" by auto
  have "ns_Find (ms_files ?m) p = Some m" using assms(4) l(3) by simp
  note f = ReplaceChunk_files(2) [OF ok this assms(5) old]
  have "refs (ms_files (ApplyReplaceChunk p i h ?m)) k \<le> refs (ms_files ms) k + (if k = h then 1 else 0)" for k
    using f [of k] unfolding l(3) by linarith
  from refs_fit_fresh [OF ms_ok_refs_fit [OF assms(1)] a(8) this]
  have "refs_fit (ms_files (ApplyReplaceChunk p i h ?m))" .
  then have "master_allowed (ReplaceChunkRec p i h) ?m"
    using a(5) by (simp add: master_allowed_def)
  from run_trans [OF run_log1 [OF this] l(1)]
  show "master_run ms (rs @ [ReplaceChunkRec p i h]) (ApplyReplaceChunk p i h ?m)" by simp
qed

lemma drop_fresh:
  assumes "ms_ok ms" "ms_next_handle ms + 1 \<noteq> 0" "AllocHandle ms = (ms1, rs, h)"
  shows "master_run ms rs (drop_new h ms1)"
proof -
  note a = AllocHandle_run [OF assms]
  have "ct_Find (ms_chunks ms1) h = Some (new_chunk\<lparr>cm_pending := True\<rparr>)" using a(9) [of h] by simp
  moreover have "fresh (new_chunk\<lparr>cm_pending := True\<rparr>)" using fresh_new [of "cm_locations new_chunk"] by (simp add: new_chunk_def)
  ultimately show ?thesis by (intro run_quiet [OF a(1,2)] drop_new_quiet)
qed

text \<open>The two ways in which the handlers change the state, as cases.\<close>

lemma AddChunk_cases:
  assumes "Master_AddChunk cfg servers rpc t p i ms = (ms', rs, st, code, info)"
  obtains (unchanged) "ms' = ms" "rs = []"
      "st = StatusOk \<Longrightarrow> code = OK \<and> (\<exists>m. ns_Find (ms_files ms) p = Some m \<and> i < length (fm_chunks m) \<and>
         info = map_option (FillChunkInfo servers i (fm_chunks m ! i)) (ct_Find (ms_chunks ms) (fm_chunks m ! i)))"
    | (failed) m ms1 h where "AllocHandle ms = (ms1, rs, h)" "ns_Find (ms_files ms) p = Some m" "i = length (fm_chunks m)"
      "ms' = drop_new h ms1" "st = StatusOk" "code = NO_REPLICAS" "info = None"
    | (added) m ms1 rs1 h created where "AllocHandle ms = (ms1, rs1, h)" "ns_Find (ms_files ms) p = Some m" "i = length (fm_chunks m)"
      "created = CreateChunkOn rpc (ChooseServers (cf_replication_goal cfg) servers ms1) h 1 0" "created \<noteq> []"
      "cf_min_replicas_for_write cfg \<le> length created"
      "ms' = ApplyAddChunk p (length (fm_chunks m)) h (add_locations h created t ms1)"
      "rs = rs1 @ [AddChunkRec p (length (fm_chunks m)) h]" "st = StatusOk" "code = OK"
      "info = map_option (FillChunkInfo servers i h) (ct_Find (ms_chunks ms') h)"
proof (cases "CheckPath p False = None \<and> (\<exists>m. ns_Find (ms_files ms) p = Some m \<and> i = length (fm_chunks m))")
  case False
  then show thesis
    using assms by (intro unchanged) (auto simp: Master_AddChunk_def CheckPath_def split: option.splits if_splits)
next
  case True
  then obtain m where m: "CheckPath p False = None" "ns_Find (ms_files ms) p = Some m" "i = length (fm_chunks m)" by blast
  obtain ms1 rs1 h where a: "AllocHandle ms = (ms1, rs1, h)" by (metis prod_cases3)
  let ?created = "CreateChunkOn rpc (ChooseServers (cf_replication_goal cfg) servers ms1) h 1 0"
  show thesis
  proof (cases "length ?created < cf_min_replicas_for_write cfg \<or> ?created = []")
    case True
    then show thesis using assms m a by (intro failed [of ms1 h m]) (auto simp: Master_AddChunk_def Let_def)
  next
    case False
    then show thesis using assms m a by (intro added [of ms1 rs1 h m ?created]) (auto simp: Master_AddChunk_def Let_def)
  qed
qed

lemma CopyOnWrite_cases:
  assumes "CopyOnWrite cfg servers rpc t p i old ms = (ms', rs, h)"
  obtains (unchanged) "ms' = ms" "rs = []"
      "h = 0 \<or> (\<exists>m. ns_Find (ms_files ms) p = Some m \<and> i < length (fm_chunks m) \<and> h = fm_chunks m ! i \<and>
         (h = old \<longrightarrow> (\<exists>c. ct_Find (ms_chunks ms) h = Some c \<and> cm_refcount c \<le> 1)))"
    | (failed) ms1 new where "AllocHandle ms = (ms1, rs, new)" "ms' = drop_new new ms1" "h = 0"
    | (copied) m c ms1 rs1 created where "AllocHandle ms = (ms1, rs1, h)" "ns_Find (ms_files ms) p = Some m"
      "i < length (fm_chunks m)" "fm_chunks m ! i = old" "ct_Find (ms_chunks ms) old = Some c" "1 < cm_refcount c"
      "created = CreateChunkOn rpc (live_locations servers c) h 1 old" "created \<noteq> []"
      "cf_min_replicas_for_write cfg \<le> length created"
      "ms' = ApplyReplaceChunk p i h (add_locations h created t ms1)" "rs = rs1 @ [ReplaceChunkRec p i h]"
proof (cases "\<exists>m c. ns_Find (ms_files ms) p = Some m \<and> i < length (fm_chunks m) \<and> fm_chunks m ! i = old \<and>
    ct_Find (ms_chunks ms) old = Some c \<and> 1 < cm_refcount c")
  case False
  then show thesis
    using assms by (intro unchanged) (auto simp: CopyOnWrite_def not_less split: option.splits if_splits)
next
  case True
  then obtain m c where m: "ns_Find (ms_files ms) p = Some m" "i < length (fm_chunks m)" "fm_chunks m ! i = old"
    "ct_Find (ms_chunks ms) old = Some c" "1 < cm_refcount c" by blast
  then have shared: "\<not> cm_refcount c \<le> 1" by simp
  obtain ms1 rs1 new where a: "AllocHandle ms = (ms1, rs1, new)" by (metis prod_cases3)
  let ?created = "CreateChunkOn rpc (live_locations servers c) new 1 old"
  show thesis
  proof (cases "length ?created < cf_min_replicas_for_write cfg \<or> ?created = []")
    case True
    then show thesis using assms m a shared by (intro failed [of ms1 new]) (auto simp: CopyOnWrite_def Let_def)
  next
    case False
    then show thesis using assms m a shared by (intro copied [of ms1 rs1 m c ?created]) (auto simp: CopyOnWrite_def Let_def)
  qed
qed

lemma AddChunk_run:
  assumes "ms_ok ms" "ms_next_handle ms + 1 \<noteq> 0" "Master_AddChunk cfg servers rpc t p i ms = (ms', rs, st, code, info)"
  shows "master_run ms rs ms'"
  using assms(3)
proof (cases rule: AddChunk_cases)
  case added
  with add_fresh [OF assms(1,2)] show ?thesis by simp
qed (use run.start drop_fresh [OF assms(1,2)] in simp_all)

lemma CopyOnWrite_run:
  assumes "ms_ok ms" "ms_next_handle ms + 1 \<noteq> 0" "CopyOnWrite cfg servers rpc t p i old ms = (ms', rs, h)"
  shows "master_run ms rs ms'"
  using assms(3)
proof (cases rule: CopyOnWrite_cases)
  case copied
  with replace_fresh(1) [OF assms(1,2)] show ?thesis by simp
qed (use run.start drop_fresh [OF assms(1,2)] in simp_all)

section \<open>Leases\<close>

lemma ms_files_update_chunk [simp]: "ms_files (update_chunk h f ms) = ms_files ms"
  by (simp add: update_chunk_def)

lemma grant_rounds_files: "ms_files (fst (grant_rounds cfg envs h ms)) = ms_files ms"
proof (induction envs arbitrary: ms)
  case (Cons env envs)
  obtain ms1 a where p: "PrepareLocked cfg (re_before env) h ms = (ms1, a)" by fastforce
  have one: "ms_files ms1 = ms_files ms" using quiet_PrepareLocked [OF p] by (simp add: quiet_from_def)
  show ?case
  proof (cases a)
    case (Some att)
    have rem: "ms_files (remove_locations h' sids m) = ms_files m" for h' sids m
      using quiet_remove_locations [of m h' sids] by (simp add: quiet_from_def)
    show ?thesis
    proof (cases "finish_round cfg (re_after env) (re_acked env) (re_now env) h att ms1")
      case (Inl ms2)
      then show ?thesis using p Some one Cons finish_round_again(1) [OF Inl] by (simp add: quiet_from_def)
    next
      case (Inr b)
      then show ?thesis using p Some one rem
        by (auto simp: finish_round_def Let_def split: option.splits if_splits)
    qed
  qed (use p one in \<open>simp add: clear_granting_def\<close>)
qed (simp add: clear_granting_def)

lemma GrantSerialized_files: "GrantSerialized cfg env h ms = (ms', rs, r) \<Longrightarrow> ms_files ms' = ms_files ms"
  unfolding GrantSerialized_def using grant_rounds_files by (metis fst_conv)

text \<open>The cases of \<open>lease_on\<close>: the answer is the lease in force, or a lease newly granted.\<close>

lemma lease_on_cases:
  assumes "lease_on cfg servers t env h ms = (ms', rs, outcome)"
  obtains (other) "ms' = ms" "rs = []" "\<And>a. outcome \<noteq> LeaseAnswer a"
      "\<And>w. outcome = LeaseDeferred w \<Longrightarrow> \<exists>c l. ct_Find (ms_chunks ms) h = Some c \<and> cm_lease c = Some l \<and>
         unexpired cfg l t \<and> \<not> IsValid cfg c t \<and> w = WaitUntil cfg l"
    | (in_force) c l primary a where "ms' = ms" "rs = []" "outcome = LeaseAnswer a" "ct_Find (ms_chunks ms) h = Some c"
      "IsValid cfg c t" "cm_lease c = Some l" "Resolve (ls_primary l) servers = Some primary"
      "a = \<lparr>la_code = OK, la_handle = h, la_version = cm_version c, la_primary = Some primary,
         la_secondaries = filter (\<lambda>r. rp_chunkserver_id r \<noteq> ls_primary l) (ResolveLocations servers c)\<rparr>"
    | (granted) c ms1 result where "outcome = LeaseAnswer (granted_answer h result)" "ct_Find (ms_chunks ms) h = Some c"
      "\<forall>l. cm_lease c = Some l \<longrightarrow> \<not> unexpired cfg l t" "quiet_from ms ms1"
      "map_option core_of (ct_Find (ms_chunks ms1) h) = map_option core_of (ct_Find (ms_chunks ms) h)"
      "GrantSerialized cfg env h ms1 = (ms', rs, result)"
proof (cases "ct_Find (ms_chunks ms) h")
  case None
  then show thesis using assms by (intro other) (auto simp: lease_on_def)
next
  case (Some c)
  consider (valid) l where "cm_lease c = Some l" "IsValid cfg c t"
    | (pending) l where "cm_lease c = Some l" "\<not> IsValid cfg c t" "IsPendingExpiry cfg c t"
    | (free) "\<not> IsValid cfg c t" "\<not> IsPendingExpiry cfg c t"
    by (cases "cm_lease c"; cases "IsValid cfg c t"; cases "IsPendingExpiry cfg c t") (auto simp: IsValid_def IsPendingExpiry_def)
  then show thesis
  proof cases
    case valid
    show thesis
    proof (cases "Resolve (ls_primary l) servers")
      case None
      then show thesis using assms Some valid by (intro other) (auto simp: lease_on_def)
    next
      case r: (Some primary)
      show thesis using assms Some valid r by (intro in_force [of _ c l primary]) (auto simp: lease_on_def)
    qed
  next
    case pending
    then show thesis
      using assms Some by (intro other) (auto simp: lease_on_def IsPendingExpiry_def)
  next
    case free
    let ?ms1 = "if cm_lease c \<noteq> None then update_chunk h (\<lambda>c. c\<lparr>cm_lease := None\<rparr>) ms else ms"
    obtain result where g: "GrantSerialized cfg env h ?ms1 = (ms', rs, result)" "outcome = LeaseAnswer (granted_answer h result)"
      using assms Some free by (auto simp: lease_on_def Let_def split: prod.splits)
    have over: "\<forall>l. cm_lease c = Some l \<longrightarrow> \<not> unexpired cfg l t"
      using free by (auto simp: IsValid_def IsPendingExpiry_def)
    have q: "quiet_from ms ?ms1" by (auto intro: quiet_intros)
    have core: "map_option core_of (ct_Find (ms_chunks ?ms1) h) = map_option core_of (ct_Find (ms_chunks ms) h)"
      using Some by (simp add: ct_simps core_of_def)
    show thesis by (rule granted [OF g(2) Some over q core g(1)])
  qed
qed

lemma lease_on_run:
  assumes "ms_ok ms" "not_pending h ms" "lease_on cfg servers t env h ms = (ms', rs, outcome)"
  shows "master_run ms rs ms' \<and> ms_files ms' = ms_files ms"
  using assms(3)
proof (cases rule: lease_on_cases)
  case (granted c ms1 result)
  have ok1: "ms_ok ms1" using quiet_from_ok [OF assms(1) granted(4)] .
  have "not_pending h ms1" using not_pending_core [OF granted(5)] assms(2) by simp
  from run_trans [OF GrantSerialized_run [OF ok1 this granted(6)] run_quiet [OF run.start assms(1) granted(4)]]
  show ?thesis using GrantSerialized_files [OF granted(6)] granted(4) by (simp add: quiet_from_def)
qed (auto intro: run.start)

lemma listed_not_pending:
  assumes "ms_ok ms" "ns_Find (ms_files ms) p = Some m" "h \<in> set (fm_chunks m)"
  shows "not_pending h ms"
proof -
  have "(p, m) \<in> set (ms_files ms)" using assms(2) by (simp add: ns_Find_def map_of_SomeD)
  from ms_core_present [OF ms_okD(2) [OF assms(1)] this assms(3)] show ?thesis by (auto simp: not_pending_def)
qed

text \<open>After a copy the file has the chunk to itself, and no other file has changed.\<close>

lemma CopyOnWrite_result:
  assumes "ms_ok ms" "ms_next_handle ms + 1 \<noteq> 0" "ns_Find (ms_files ms) p = Some m" "i < length (fm_chunks m)"
    and "CopyOnWrite cfg servers rpc t p i (fm_chunks m ! i) ms = (ms', rs, h)" "h \<noteq> 0"
  shows "ns_Find (ms_files ms') q = (if q = p then Some (m\<lparr>fm_chunks := (fm_chunks m)[i := h]\<rparr>) else ns_Find (ms_files ms) q)"
    "refs (ms_files ms') h = 1"
proof -
  have *: "(\<forall>q. ns_Find (ms_files ms') q =
      (if q = p then Some (m\<lparr>fm_chunks := (fm_chunks m)[i := h]\<rparr>) else ns_Find (ms_files ms) q)) \<and> refs (ms_files ms') h = 1"
    using assms(5)
  proof (cases rule: CopyOnWrite_cases)
    case unchanged
    with assms(3,6) obtain c where c: "h = fm_chunks m ! i" "ct_Find (ms_chunks ms) h = Some c" "cm_refcount c \<le> 1"
      by auto
    have "refs (ms_files ms) h = unat (cm_refcount c)"
      using ms_coreD(4) [OF ms_okD(2) [OF assms(1)], of h] c(2) by (simp add: counts_def)
    moreover have "unat (cm_refcount c) \<le> 1" using c(3) by (simp add: word_le_nat_alt)
    moreover have "count_list (fm_chunks m) h \<noteq> 0" using c(1) assms(4) by (simp add: count_list_0_iff)
    then have "0 < refs (ms_files ms) h"
      using refs_ge_count [of "ms_files ms" p m h] assms(3) by (simp add: ns_Find_def)
    ultimately have "refs (ms_files ms) h = 1" by simp
    moreover have "m\<lparr>fm_chunks := (fm_chunks m)[i := h]\<rparr> = m" using c(1) by simp
    ultimately show ?thesis using unchanged(1) assms(3) by simp
  next
    case (copied m' c ms1 rs1 created)
    let ?m = "add_locations h created t ms1"
    note a = AllocHandle_run [OF assms(1,2) copied(1)] and l = located [OF copied(1) assms(1,2), where ids = created and t = t]
    have m: "ns_Find (ms_files ?m) p = Some m" using l(3) assms(3) by simp
    have ok: "om_ok (ms_files ?m)" using l(2) by (intro ms_coreD(1) ms_okD(2))
    note f = ReplaceChunk_files [OF ok m assms(4) replace_fresh(2) [OF assms(1,2) copied(1) assms(3,4)]]
    have "refs (ms_files ms') h = 1"
      using f(2) [of h] replace_fresh(2) [OF assms(1,2) copied(1) assms(3,4)] a(8) unfolding copied(10) l(3) by simp
    then show ?thesis using f(1) unfolding copied(10) l(3) by simp
  qed (use assms(6) in simp)
  show "ns_Find (ms_files ms') q = (if q = p then Some (m\<lparr>fm_chunks := (fm_chunks m)[i := h]\<rparr>) else ns_Find (ms_files ms) q)"
    "refs (ms_files ms') h = 1"
    using * by simp_all
qed

lemma FindLeaseHolderAttempt_cases:
  assumes "FindLeaseHolderAttempt cfg servers rpc t env p i ms = (ms', rs, outcome)"
  obtains (unknown) "ms' = ms" "rs = []" "outcome = LeaseStatus NotFound"
    | (own) m c where "ns_Find (ms_files ms) p = Some m" "i < length (fm_chunks m)"
      "ct_Find (ms_chunks ms) (fm_chunks m ! i) = Some c" "cm_refcount c \<le> 1"
      "lease_on cfg servers t env (fm_chunks m ! i) ms = (ms', rs, outcome)"
    | (no_copy) m where "ns_Find (ms_files ms) p = Some m" "i < length (fm_chunks m)"
      "CopyOnWrite cfg servers rpc t p i (fm_chunks m ! i) ms = (ms', rs, 0)" "outcome = LeaseAnswer (lease_refused NO_REPLICAS)"
    | (copy) m c ms1 rs1 rs2 h where "ns_Find (ms_files ms) p = Some m" "i < length (fm_chunks m)"
      "ct_Find (ms_chunks ms) (fm_chunks m ! i) = Some c" "1 < cm_refcount c"
      "CopyOnWrite cfg servers rpc t p i (fm_chunks m ! i) ms = (ms1, rs1, h)" "h \<noteq> 0"
      "lease_on cfg servers t env h ms1 = (ms', rs2, outcome)" "rs = rs1 @ rs2"
proof (cases "\<exists>m c. ns_Find (ms_files ms) p = Some m \<and> i < length (fm_chunks m) \<and> ct_Find (ms_chunks ms) (fm_chunks m ! i) = Some c")
  case False
  then show thesis
    using assms by (intro unknown) (auto simp: FindLeaseHolderAttempt_def Let_def split: option.splits if_splits)
next
  case True
  then obtain m c where m: "ns_Find (ms_files ms) p = Some m" "i < length (fm_chunks m)"
    "ct_Find (ms_chunks ms) (fm_chunks m ! i) = Some c" by blast
  obtain ms1 rs1 h where cow: "CopyOnWrite cfg servers rpc t p i (fm_chunks m ! i) ms = (ms1, rs1, h)" by (metis prod_cases3)
  obtain ms2 rs2 o2 where on: "lease_on cfg servers t env h ms1 = (ms2, rs2, o2)" by (metis prod_cases3)
  have eq: "FindLeaseHolderAttempt cfg servers rpc t env p i ms =
      (if cm_refcount c > 1
       then if h = 0 then (ms1, rs1, LeaseAnswer (lease_refused NO_REPLICAS)) else (ms2, rs1 @ rs2, o2)
       else lease_on cfg servers t env (fm_chunks m ! i) ms)"
    using m cow on by (simp add: FindLeaseHolderAttempt_def Let_def not_le)
  show thesis
  proof (cases "cm_refcount c > 1")
    case False
    show thesis using assms eq False m by (intro own [of m c]) (simp_all add: not_less)
  next
    case shared: True
    show thesis
    proof (cases "h = 0")
      case True
      then show thesis using assms eq shared m cow by (intro no_copy [of m]) simp_all
    next
      case False
      then show thesis using assms eq shared m cow on by (intro copy [of m c ms1 rs1 h rs2]) simp_all
    qed
  qed
qed

lemma FindLeaseHolderAttempt_run:
  assumes "ms_ok ms" "ms_next_handle ms + 1 \<noteq> 0" "FindLeaseHolderAttempt cfg servers rpc t env p i ms = (ms', rs, outcome)"
  shows "master_run ms rs ms'"
  using assms(3)
proof (cases rule: FindLeaseHolderAttempt_cases)
  case (own m c)
  have "not_pending (fm_chunks m ! i) ms" using own(1,2) by (intro listed_not_pending [OF assms(1)]) auto
  from lease_on_run [OF assms(1) this own(5)] show ?thesis by simp
next
  case (no_copy m)
  from CopyOnWrite_run [OF assms(1,2) no_copy(3)] show ?thesis .
next
  case (copy m c ms1 rs1 rs2 h)
  note run = CopyOnWrite_run [OF assms(1,2) copy(5)]
  have ok1: "ms_ok ms1" by (rule ms_ok_run [OF run assms(1)])
  note r = CopyOnWrite_result [OF assms(1,2) copy(1,2,5,6)]
  have "ns_Find (ms_files ms1) p = Some (m\<lparr>fm_chunks := (fm_chunks m)[i := h]\<rparr>)" using r(1) [of p] by simp
  then have "not_pending h ms1" using copy(2) by (intro listed_not_pending [OF ok1]) (auto simp: set_update_memI)
  from run_trans [OF conjunct1 [OF lease_on_run [OF ok1 this copy(7)]] run] show ?thesis using copy(8) by simp
qed (simp add: run.start)

lemma FindLeaseHolder_run:
  assumes "ms_ok ms" "ms_next_handle ms + 1 \<noteq> 0" "Master_FindLeaseHolder cfg servers rpc t env p i ms = (ms', rs, outcome)"
  shows "master_run ms rs ms'"
  using assms(3) FindLeaseHolderAttempt_run [OF assms(1,2)] run.start
  by (auto simp: Master_FindLeaseHolder_def split: option.splits)

text \<open>The chunk after a successful attempt: it carries a lease of the answered primary.\<close>

lemma lease_on_OK:
  assumes "ms_ok ms" "not_pending h ms" "lease_on cfg servers t env h ms = (ms', rs, LeaseAnswer a)" "la_code a = OK"
  shows "la_handle a = h \<and> (\<exists>c l. ct_Find (ms_chunks ms') h = Some c \<and> cm_version c = la_version a \<and>
     cm_lease c = Some l \<and> \<not> ls_revoked l \<and> ls_primary l \<in> om_keys (cm_locations c))"
  using assms(3)
proof (cases rule: lease_on_cases)
  case (in_force c l primary a')
  then show ?thesis
    by (auto simp: IsValid_def om_count_def om_find_in_keys split: if_splits)
next
  case (granted c ms1 result)
  have a: "a = granted_answer h result" using granted(1) by simp
  have code: "gr_code result = OK" using assms(4) unfolding a by (auto simp: granted_answer_def lease_refused_def split: if_splits)
  have ok1: "ms_ok ms1" using quiet_from_ok [OF assms(1) granted(4)] .
  have np: "not_pending h ms1" using not_pending_core [OF granted(5)] assms(2) by simp
  obtain c1 where c1: "ct_Find (ms_chunks ms1) h = Some c1" using granted(2,5) by auto
  then have "\<not> cm_pending c1" using np by (simp add: not_pending_def)
  from grant_rounds_OK [OF ok1 c1 this granted(6) [unfolded GrantSerialized_def] code]
  show ?thesis using code unfolding a by (auto simp: granted_answer_def simp del: not_None_eq)
qed blast


text \<open>
  C9: while a lease may still be in force nobody else gets one from a lookup: the answer is
  the same primary, unless it cannot be resolved, or the lookup is put off until the lease has
  run out; nothing is changed or logged.
\<close>

theorem FindLeaseHolder_exclusive:
  assumes "ns_Find (ms_files ms) p = Some m" "i < length (fm_chunks m)" "ct_Find (ms_chunks ms) (fm_chunks m ! i) = Some c"
    and "cm_refcount c \<le> 1" "cm_lease c = Some l" "unexpired cfg l t"
    and "Master_FindLeaseHolder cfg servers rpc t env p i ms = (ms', rs, outcome)"
  shows "ms' = ms \<and> rs = [] \<and>
    (case outcome of
       LeaseAnswer a \<Rightarrow> la_code a = OK \<and> la_handle a = fm_chunks m ! i \<and> la_version a = cm_version c \<and>
         la_primary a = Resolve (ls_primary l) servers \<and> (\<forall>r \<in> set (la_secondaries a). rp_chunkserver_id r \<noteq> ls_primary l)
     | LeaseDeferred w \<Rightarrow> \<not> IsValid cfg c t \<and> \<not> unexpired cfg l w
     | LeaseStatus st \<Rightarrow> st \<noteq> StatusOk
     | LeaseCrash \<Rightarrow> IsValid cfg c t \<and> Resolve (ls_primary l) servers = None)"
proof -
  have small: "\<not> 1 < cm_refcount c" using assms(4) by simp
  have not: "CheckPath p False \<noteq> Some StatusOk" by (simp add: CheckPath_def)
  have on: "lease_on cfg servers t env (fm_chunks m ! i) ms = (ms', rs, outcome) \<or>
      (\<exists>st. ms' = ms \<and> rs = [] \<and> outcome = LeaseStatus st \<and> st \<noteq> StatusOk)"
    using assms(1-3,7) not small
    by (auto simp: Master_FindLeaseHolder_def FindLeaseHolderAttempt_def Let_def split: option.splits)
  then show ?thesis
  proof
    assume "lease_on cfg servers t env (fm_chunks m ! i) ms = (ms', rs, outcome)"
    then show ?thesis
      using assms(3,5,6)
      by (auto simp: lease_on_def IsValid_def IsPendingExpiry_def unexpired_def WaitUntil_def after_ms_def algebra_simps
          split: option.splits if_splits)
  qed auto
qed

section \<open>Choosing chunkservers\<close>

lemma fold_choose_racks:
  assumes "fold (choose_racks n) xs (map ci_id ys, racks) = (chosen, racks')" "set racks = ci_rack ` set ys"
    and "inj_on ci_rack (set ys)" "distinct ys" "length ys \<le> n"
  shows "\<exists>zs. chosen = map ci_id zs \<and> set ys \<subseteq> set zs \<and> set zs \<subseteq> set ys \<union> set xs \<and> inj_on ci_rack (set zs) \<and> distinct zs \<and>
    length zs \<le> n \<and> (length zs = n \<or> ci_rack ` set xs \<subseteq> ci_rack ` set zs)"
  using assms
proof (induction xs arbitrary: ys racks)
  case Nil
  then show ?case by auto
next
  case (Cons s xs)
  show ?case
  proof (cases "n \<le> length ys \<or> ci_rack s \<in> set racks")
    case True
    then have "choose_racks n s (map ci_id ys, racks) = (map ci_id ys, racks)" by (auto simp: choose_racks_def)
    then have "fold (choose_racks n) xs (map ci_id ys, racks) = (chosen, racks')" using Cons.prems(1) by simp
    from Cons.IH [OF this Cons.prems(2-5)] obtain zs where zs: "chosen = map ci_id zs" "set ys \<subseteq> set zs" "set zs \<subseteq> set ys \<union> set xs"
      "inj_on ci_rack (set zs)" "distinct zs" "length zs \<le> n" "length zs = n \<or> ci_rack ` set xs \<subseteq> ci_rack ` set zs" by blast
    moreover have "length zs = n \<or> ci_rack s \<in> ci_rack ` set zs"
    proof (cases "n \<le> length ys")
      case True
      moreover have "length ys \<le> length zs" using zs(2,5) Cons.prems(4) by (metis card_mono distinct_card finite_set)
      ultimately show ?thesis using zs(6) by simp
    next
      case False
      then show ?thesis using \<open>n \<le> length ys \<or> ci_rack s \<in> set racks\<close> Cons.prems(2) zs(2) by auto
    qed
    ultimately show ?thesis by (intro exI [of _ zs]) auto
  next
    case False
    then have "choose_racks n s (map ci_id ys, racks) = (map ci_id (ys @ [s]), ci_rack s # racks)"
      by (auto simp: choose_racks_def)
    then have picked: "fold (choose_racks n) xs (map ci_id (ys @ [s]), ci_rack s # racks) = (chosen, racks')"
      using Cons.prems(1) by simp
    have "s \<notin> set ys" using False Cons.prems(2) by auto
    then have "set (ci_rack s # racks) = ci_rack ` set (ys @ [s])" "inj_on ci_rack (set (ys @ [s]))" "distinct (ys @ [s])"
      "length (ys @ [s]) \<le> n"
      using False Cons.prems(2-5) by auto
    from Cons.IH [OF picked this] show ?thesis by auto
  qed
qed

lemma fold_choose_more:
  assumes "fold (choose_more n) xs (map ci_id ys) = chosen" "distinct (map ci_id ys)" "length ys \<le> n"
  shows "\<exists>zs. chosen = map ci_id (ys @ zs) \<and> set zs \<subseteq> set xs \<and> distinct (map ci_id (ys @ zs)) \<and> length (ys @ zs) \<le> n \<and>
    (length (ys @ zs) = n \<or> ci_id ` set xs \<subseteq> ci_id ` set (ys @ zs))"
  using assms
proof (induction xs arbitrary: ys)
  case Nil
  then show ?case by (intro exI [of _ "[]"]) auto
next
  case (Cons s xs)
  show ?case
  proof (cases "n \<le> length ys \<or> ci_id s \<in> ci_id ` set ys")
    case True
    then have "choose_more n s (map ci_id ys) = map ci_id ys" by (auto simp: choose_more_def)
    then have "fold (choose_more n) xs (map ci_id ys) = chosen" using Cons.prems(1) by simp
    from Cons.IH [OF this Cons.prems(2,3)] obtain zs where zs: "chosen = map ci_id (ys @ zs)" "set zs \<subseteq> set xs"
      "distinct (map ci_id (ys @ zs))" "length (ys @ zs) \<le> n"
      "length (ys @ zs) = n \<or> ci_id ` set xs \<subseteq> ci_id ` set (ys @ zs)" by blast
    moreover have "length (ys @ zs) = n \<or> ci_id s \<in> ci_id ` set (ys @ zs)" using True zs(4) by auto
    ultimately show ?thesis by (intro exI [of _ zs]) auto
  next
    case False
    then have "choose_more n s (map ci_id ys) = map ci_id (ys @ [s])" by (auto simp: choose_more_def)
    then have picked: "fold (choose_more n) xs (map ci_id (ys @ [s])) = chosen" using Cons.prems(1) by simp
    have "distinct (map ci_id (ys @ [s]))" "length (ys @ [s]) \<le> n" using False Cons.prems(2,3) by auto
    from Cons.IH [OF picked this] obtain zs where "chosen = map ci_id ((ys @ [s]) @ zs)" "set zs \<subseteq> set xs"
      "distinct (map ci_id ((ys @ [s]) @ zs))" "length ((ys @ [s]) @ zs) \<le> n"
      "length ((ys @ [s]) @ zs) = n \<or> ci_id ` set xs \<subseteq> ci_id ` set ((ys @ [s]) @ zs)" by blast
    then show ?thesis by (intro exI [of _ "s # zs"]) auto
  qed
qed

lemma Alive_ids:
  assumes "registry_ok servers"
  shows "distinct (map ci_id (Alive servers))"
    "s \<in> set (Alive servers) \<longleftrightarrow> (\<exists>sid. Get sid servers = Some s \<and> ci_alive s)"
proof -
  have eq: "map ci_id (map snd servers) = map fst servers"
    using assms om_find_in [of servers] by (auto simp: registry_ok_def)
  then have "distinct (map ci_id (map snd servers))"
    using assms by (simp only: eq) (auto simp: registry_ok_def intro: om_ok_distinct)
  then show "distinct (map ci_id (Alive servers))" unfolding Alive_def by (rule distinct_map_filter)
  show "s \<in> set (Alive servers) \<longleftrightarrow> (\<exists>sid. Get sid servers = Some s \<and> ci_alive s)"
    using assms om_find_in [of servers] by (force simp: Alive_def Get_def registry_ok_def)
qed

lemma ChooseServers_facts:
  assumes "registry_ok servers"
  shows "distinct (ChooseServers n servers ms) \<and>
    length (ChooseServers n servers ms) = min n (length (Alive servers)) \<and>
    (\<forall>sid \<in> set (ChooseServers n servers ms). Resolve sid servers \<noteq> None) \<and>
    card {ci_rack s |s. s \<in> set (Alive servers) \<and> ci_id s \<in> set (ChooseServers n servers ms)} =
      min n (card (ci_rack ` set (Alive servers)))"
proof -
  let ?all = "Alive servers"
  define ranked where "ranked = sort_key (\<lambda>s. ct_HeldCount (ms_chunks ms) (ci_id s)) ?all"
  have ranked: "set ranked = set ?all" "length ranked = length ?all" by (simp_all add: ranked_def)
  have dist: "distinct (map ci_id ranked)"
    using Alive_ids(1) [OF assms] by (simp add: ranked_def distinct_map)
  then have inj: "inj_on ci_id (set ?all)" using ranked(1) by (simp add: distinct_map)
  obtain chosen racks where one: "fold (choose_racks n) ranked (map ci_id ([] :: chunkserver_info list), []) = (chosen, racks)" by fastforce
  from fold_choose_racks [OF one] obtain ys where ys: "chosen = map ci_id ys" "set ys \<subseteq> set ?all" "inj_on ci_rack (set ys)"
    "distinct ys" "length ys \<le> n" "length ys = n \<or> ci_rack ` set ?all \<subseteq> ci_rack ` set ys"
    using ranked(1) by auto
  have "distinct (map ci_id ys)" using ys(2,4) inj by (simp add: distinct_map inj_on_subset)
  from fold_choose_more [OF refl this ys(5), of ranked] obtain zs where zs:
    "fold (choose_more n) ranked (map ci_id ys) = map ci_id (ys @ zs)" "set zs \<subseteq> set ?all" "distinct (map ci_id (ys @ zs))"
    "length (ys @ zs) \<le> n" "length (ys @ zs) = n \<or> ci_id ` set ?all \<subseteq> ci_id ` set (ys @ zs)"
    using ranked(1) by auto
  have eq: "ChooseServers n servers ms = map ci_id (ys @ zs)"
    using one ys(1) zs(1) by (simp add: ChooseServers_def Let_def ranked_def)
  let ?w = "ys @ zs"
  have sub: "set ?w \<subseteq> set ?all" and w: "distinct ?w" using ys(2) zs(2,3) by (auto simp: distinct_map)
  have all: "distinct ?all" using Alive_ids(1) [OF assms] by (simp add: distinct_map)
  have "length ?w \<le> length ?all" using sub w all by (metis List.finite_set card_mono distinct_card)
  moreover have "length ?w = length ?all" if "length ?w \<noteq> n"
  proof -
    have "ci_id ` set ?all \<subseteq> ci_id ` set ?w" using zs(5) that by blast
    then have "set ?all \<subseteq> set ?w" using inj_on_image_mem_iff [OF inj _ sub] by blast
    with sub w all show ?thesis by (metis distinct_card subset_antisym)
  qed
  ultimately have "length ?w = min n (length ?all)" using zs(4) by linarith
  moreover have "Resolve (ci_id s) servers \<noteq> None" if "s \<in> set ?w" for s
  proof -
    have "s \<in> set ?all" using sub that by (rule subsetD)
    then obtain sid where "Get sid servers = Some s" "ci_alive s" unfolding Alive_ids(2) [OF assms] by blast
    moreover from this have "ci_id s = sid" using assms by (auto simp: registry_ok_def Get_def)
    ultimately show ?thesis by (simp add: Resolve_def Get_def)
  qed
  moreover have "card {ci_rack s |s. s \<in> set ?all \<and> ci_id s \<in> set (map ci_id ?w)} = min n (card (ci_rack ` set ?all))"
  proof -
    have set: "{ci_rack s |s. s \<in> set ?all \<and> ci_id s \<in> set (map ci_id ?w)} = ci_rack ` set ?w"
      using sub inj_on_image_mem_iff [OF inj _ sub] by (simp only: set_map) blast
    have ny: "card (ci_rack ` set ys) = length ys" using ys(3,4) by (simp add: card_image distinct_card)
    show ?thesis
    proof (cases "length ys = n")
      case True
      then have "zs = []" using zs(4) by simp
      moreover have "card (ci_rack ` set ys) \<le> card (ci_rack ` set ?all)" using ys(2) by (intro card_mono) auto
      ultimately show ?thesis using set ny True by simp
    next
      case False
      then have a: "ci_rack ` set ?all = ci_rack ` set ys" using ys(2,6) by auto
      moreover have "ci_rack ` set zs \<subseteq> ci_rack ` set ?all" using zs(2) by (rule image_mono)
      ultimately have "ci_rack ` set ?w = ci_rack ` set ys" by (auto simp: image_Un)
      then show ?thesis using set ny ys(5) a by simp
    qed
  qed
  ultimately show ?thesis using zs(3) unfolding eq by auto
qed

text \<open>
  C31: the chunkservers chosen for a new chunk are different and alive, they are as many as were
  wanted or all there are, and they spread over as many racks as possible.
\<close>

theorem ChooseServers_spread:
  assumes "registry_ok servers"
  shows "distinct (ChooseServers n servers ms) \<and>
    length (ChooseServers n servers ms) = min n (length (Alive servers)) \<and>
    (\<forall>sid \<in> set (ChooseServers n servers ms). Resolve sid servers \<noteq> None) \<and>
    card {ci_rack s |s. s \<in> set (Alive servers) \<and> ci_id s \<in> set (ChooseServers n servers ms)} =
      min n (card (ci_rack ` set (Alive servers)))"
  using assms by (rule ChooseServers_facts)

section \<open>Adding chunks\<close>

text \<open>
  C30: adding a chunk extends the file by exactly one chunk, under a handle never used before,
  which at least the required number of chunkservers hold, all of which created it; asking again
  for the same index returns that chunk and changes nothing; and when too few chunkservers
  create it, no file changes.
\<close>

theorem AddChunk_outcome:
  assumes "ms_ok ms" "ms_next_handle ms + 1 \<noteq> 0"
    and "Master_AddChunk cfg servers rpc t p (length (fm_chunks m)) ms = (ms', rs, StatusOk, code, info)"
    and "ns_Find (ms_files ms) p = Some m" "registry_ok servers"
  shows "(code = OK \<and>
      (\<forall>q. ns_Find (ms_files ms') q = (if q = p then Some (m\<lparr>fm_chunks := fm_chunks m @ [ms_next_handle ms]\<rparr>) else ns_Find (ms_files ms) q)) \<and>
      refs (ms_files ms) (ms_next_handle ms) = 0 \<and>
      (\<exists>c. ct_Find (ms_chunks ms') (ms_next_handle ms) = Some c \<and> cm_refcount c = 1 \<and> \<not> cm_pending c \<and> om_keys (cm_locations c) \<noteq> {} \<and>
         cf_min_replicas_for_write cfg \<le> card (om_keys (cm_locations c)) \<and>
         (\<forall>sid \<in> om_keys (cm_locations c). rpc (ms_next_handle ms) 1 0 sid) \<and>
         info = Some (FillChunkInfo servers (length (fm_chunks m)) (ms_next_handle ms) c)) \<and>
      Master_AddChunk cfg servers later_rpc later p (length (fm_chunks m)) ms' = (ms', [], StatusOk, OK, info)) \<or>
    (code = NO_REPLICAS \<and> info = None \<and> ms_files ms' = ms_files ms \<and> ct_Find (ms_chunks ms') = ct_Find (ms_chunks ms))"
  using assms(3)
proof (cases rule: AddChunk_cases)
  case unchanged
  then show ?thesis using assms(4) by auto
next
  case (failed m' ms1 h)
  note a = AllocHandle_run [OF assms(1,2) failed(1)]
  have "ct_Find (ms_chunks ms') = ct_Find (ms_chunks ms)"
    using a(7,9) failed(4) by (auto simp: drop_new_def ct_simps)
  then show ?thesis using failed a(3) by (simp add: drop_new_def)
next
  case (added m' ms1 rs1 h created)
  let ?m = "add_locations h created t ms1" and ?n = "length (fm_chunks m)"
  have m': "m' = m" using added(2) assms(4) by simp
  note a = AllocHandle_run [OF assms(1,2) added(1)] and l = located [OF added(1) assms(1,2), where ids = created and t = t]
  have m: "ns_Find (ms_files ?m) p = Some m" using l(3) assms(4) by simp
  have "om_ok (ms_files ?m)" using l(2) by (intro ms_coreD(1) ms_okD(2))
  note f = AddChunk_files(1) [OF this m, of h]
  have chunks: "ms_chunks ms' = adopt_chunk h (ms_chunks ?m)"
    unfolding added(7) m' using m by (simp add: ApplyAddChunk_def ApplyAllocHandle_def)
  let ?c = "new_chunk\<lparr>cm_refcount := 1, cm_locations := fold (\<lambda>sid l. fst (om_emplace sid t l)) created []\<rparr>"
  have c: "ct_Find (ms_chunks ms') h = Some ?c"
    using l(4) unfolding chunks by (simp add: ct_simps Let_def new_chunk_def)
  have keys: "om_keys (cm_locations ?c) = set created" by (simp add: keys_fold_emplace)
  have info: "info = Some (FillChunkInfo servers ?n h ?c)" using added(11) c by simp
  have files: "\<forall>q. ns_Find (ms_files ms') q = (if q = p then Some (m\<lparr>fm_chunks := fm_chunks m @ [h]\<rparr>) else ns_Find (ms_files ms) q)"
    using f l(3) unfolding added(7) m' by simp
  then have again: "ns_Find (ms_files ms') p = Some (m\<lparr>fm_chunks := fm_chunks m @ [h]\<rparr>)" by simp
  have "CheckPath p False = None" using assms(3) by (auto simp: Master_AddChunk_def CheckPath_def split: if_splits)
  then have "Master_AddChunk cfg servers later_rpc later p ?n ms' = (ms', [], StatusOk, OK, info)"
    using again info c by (simp add: Master_AddChunk_def)
  moreover have "\<forall>sid \<in> set created. rpc h 1 0 sid" using added(4) by (simp add: CreateChunkOn_def)
  moreover have "distinct created"
    using ChooseServers_facts [OF assms(5), of "cf_replication_goal cfg" ms1] added(4) by (simp add: CreateChunkOn_def)
  then have "cf_min_replicas_for_write cfg \<le> card (set created)" using added(6) by (simp add: distinct_card)
  ultimately show ?thesis
    using a(4,8) c keys info files added(5,10) by (auto simp: new_chunk_def)
qed

section \<open>Witnesses\<close>

text \<open>The file of the sample state and a snapshot of it, which share their chunk.\<close>

definition shared_state :: master_state where
  "shared_state = Apply (SnapshotRec ''/a'' ''/b'') sample_state"

lemma shared_state_ok: "ms_ok shared_state"
proof -
  have files: "ms_files shared_state = [(''/a'', \<lparr>fm_chunks = [7]\<rparr>), (''/b'', \<lparr>fm_chunks = [7]\<rparr>)]" by code_simp
  have "rec_ok (SnapshotRec ''/a'' ''/b'') sample_state" by code_simp
  moreover have "refs_fit (ms_files shared_state)" unfolding files by (simp add: refs_fit_def refs_def)
  ultimately show ?thesis unfolding shared_state_def by (intro ms_ok_Apply sample_state_ok)
qed


lemma leased_chunk: "ct_Find (ms_chunks leased_state) 7 =
    Some (new_chunk\<lparr>cm_version := 2, cm_refcount := 1, cm_locations := [(''s'', 0), (''t'', 0)],
      cm_lease := Some \<lparr>ls_primary = ''s'', ls_expiry = 60000000005, ls_revoked = False\<rparr>\<rparr>)"
  by code_simp

theorem FindLeaseHolder_exclusive_witness:
  "fst (Master_FindLeaseHolder small_config two_servers (\<lambda>_ _ _ _. True) 6 (grant_env []) ''/a'' 0 leased_state) = leased_state"
proof -
  let ?f = "Master_FindLeaseHolder small_config two_servers (\<lambda>_ _ _ _. True) 6 (grant_env []) ''/a'' 0 leased_state"
  have a: "ns_Find (ms_files leased_state) ''/a'' = Some \<lparr>fm_chunks = [7]\<rparr>" by code_simp
  let ?l = "\<lparr>ls_primary = ''s'', ls_expiry = 60000000005, ls_revoked = False\<rparr>"
  let ?c = "new_chunk\<lparr>cm_version := 2, cm_refcount := 1, cm_locations := [(''s'', 0), (''t'', 0)], cm_lease := Some ?l\<rparr>"
  have f: "?f = (fst ?f, fst (snd ?f), snd (snd ?f))" by simp
  have i: "0 < length (fm_chunks \<lparr>fm_chunks = [7]\<rparr>)" by simp
  have c: "ct_Find (ms_chunks leased_state) (fm_chunks \<lparr>fm_chunks = [7]\<rparr> ! 0) = Some ?c" using leased_chunk by simp
  have u: "cm_refcount ?c \<le> 1" "cm_lease ?c = Some ?l" by simp_all
  have "unexpired small_config ?l 6" by code_simp
  from FindLeaseHolder_exclusive [OF a i c u this f] show ?thesis by (rule conjunct1)
qed

theorem AddChunk_outcome_witness:
  "\<exists>c. ct_Find (ms_chunks (fst (Master_AddChunk small_config two_servers (\<lambda>_ _ _ _. True) 6 ''/a'' 1 sample_state))) 8 = Some c \<and>
     cm_refcount c = 1"
proof -
  let ?f = "Master_AddChunk small_config two_servers (\<lambda>_ _ _ _. True) 6 ''/a'' (length (fm_chunks \<lparr>fm_chunks = [7]\<rparr>)) sample_state"
  have s: "ms_next_handle sample_state = 8" "ns_Find (ms_files sample_state) ''/a'' = Some \<lparr>fm_chunks = [7]\<rparr>" by code_simp+
  have p: "CheckPath ''/a'' False = None" "cf_replication_goal small_config = 3" "cf_min_replicas_for_write small_config = 1" by code_simp+
  obtain ms1 rs h where a: "AllocHandle sample_state = (ms1, rs, h)" by (metis prod_cases3)
  have reg: "registry_ok two_servers" unfolding two_servers_def by (intro registry_ok_Touch) (simp add: registry_ok_def)
  have "length (Alive two_servers) = 2" by code_simp
  then have "length (ChooseServers 3 two_servers ms1) = 2" using ChooseServers_facts [OF reg, of 3 ms1] by simp
  then have r: "fst (snd (snd ?f)) = StatusOk \<and> fst (snd (snd (snd ?f))) = OK"
    by (auto simp: Master_AddChunk_def p s a CreateChunkOn_def Let_def)
  then have f: "?f = (fst ?f, fst (snd ?f), StatusOk, OK, snd (snd (snd (snd ?f))))" by (simp add: prod_eq_iff)
  have "ms_next_handle sample_state + 1 \<noteq> 0" by (simp add: s)
  from AddChunk_outcome [OF sample_state_ok this f s(2) reg, where later_rpc = "\<lambda>_ _ _ _. False" and later = 0] show ?thesis
    by (elim disjE conjE exE) (auto simp: s(1))
qed

theorem ChooseServers_spread_witness: "length (ChooseServers 1 two_servers sample_state) = 1"
proof -
  have "registry_ok two_servers" unfolding two_servers_def by (intro registry_ok_Touch) (simp add: registry_ok_def)
  from ChooseServers_spread [OF this, of 1 sample_state]
  have "length (ChooseServers 1 two_servers sample_state) = min 1 (length (Alive two_servers))" by blast
  moreover have "length (Alive two_servers) = 2" by code_simp
  ultimately show ?thesis by simp
qed

end
