(* ===== verification/MasterChores.thy ===== *)
theory MasterChores
  imports MasterChunks
begin

text \<open>
  What keeps the master's picture of the cluster up to date, \<open>src/src/master/master.cc\<close>: the
  heartbeats of the chunkservers, the sweep for dead ones, and garbage collection. Each runs
  under the state mutex from its first look at the state to its last change. The handles whose
  lease has to be granted again are returned; \<open>RequestRegrant\<close> hands them to the thread pool,
  where \<open>LeaseManager.Regrant\<close> is run on them.
\<close>

section \<open>Heartbeats\<close>

text \<open>The two table operations on the master's state; \<open>valid_now\<close> is \<open>IsValid(*meta, t)\<close> read after them.\<close>

definition add_location :: "u64 \<Rightarrow> string \<Rightarrow> time_point \<Rightarrow> master_state \<Rightarrow> master_state \<times> bool" where
  "add_location handle sid t ms =
     (case ct_AddLocation handle sid t (ms_chunks ms) of (chunks, added) \<Rightarrow> (ms\<lparr>ms_chunks := chunks\<rparr>, added))"

definition remove_location :: "u64 \<Rightarrow> string \<Rightarrow> master_state \<Rightarrow> master_state \<times> bool" where
  "remove_location handle sid ms =
     (case ct_RemoveLocation handle sid (ms_chunks ms) of (chunks, removed) \<Rightarrow> (ms\<lparr>ms_chunks := chunks\<rparr>, removed))"

definition valid_now :: "config \<Rightarrow> u64 \<Rightarrow> time_point \<Rightarrow> master_state \<Rightarrow> bool" where
  "valid_now cfg handle t ms =
     (case ct_Find (ms_chunks ms) handle of None \<Rightarrow> False | Some meta \<Rightarrow> IsValid cfg meta t)"

text \<open>The variables of the loops over the request.\<close>

record hb_pass =
  hp_ms :: master_state
  hp_reported :: "u64 set"
  hp_deletes :: "u64 list"
  hp_regrants :: "u64 list"
  hp_extended :: "(u64 \<times> millis) list"
  hp_recs :: "log_record list"

definition hb_report :: "config \<Rightarrow> string \<Rightarrow> time_point \<Rightarrow> chunk_report \<Rightarrow> hb_pass \<Rightarrow> hb_pass" where
  "hb_report cfg sid t report hp =
     (let handle = cr_handle report; ms = hp_ms hp
      in case ct_Find (ms_chunks ms) handle of
           None \<Rightarrow> hp\<lparr>hp_deletes := hp_deletes hp @ [handle]\<rparr>
         | Some meta \<Rightarrow>
             if cm_granting meta then
               if cr_version report + 1 < cm_version meta then
                 hp\<lparr>hp_deletes := hp_deletes hp @ [handle], hp_ms := fst (remove_location handle sid ms)\<rparr>
               else hp\<lparr>hp_reported := insert handle (hp_reported hp), hp_ms := fst (add_location handle sid t ms)\<rparr>
             else if cr_version report < cm_version meta then
               (case remove_location handle sid ms of (ms1, removed) \<Rightarrow>
                  hp\<lparr>hp_deletes := hp_deletes hp @ [handle], hp_ms := ms1,
                     hp_regrants := hp_regrants hp @ (if removed \<and> valid_now cfg handle t ms1 then [handle] else [])\<rparr>)
             else
               (let ahead = cr_version report > cm_version meta;
                    ms1 = (if ahead then update_chunk handle (\<lambda>c. c\<lparr>cm_version := cr_version report\<rparr>) ms else ms)
                in case add_location handle sid t ms1 of (ms2, added) \<Rightarrow>
                     hp\<lparr>hp_recs := hp_recs hp @ (if ahead then [BumpVersionRec handle (cr_version report)] else []),
                        hp_reported := insert handle (hp_reported hp), hp_ms := ms2,
                        hp_regrants := hp_regrants hp @ (if added \<and> valid_now cfg handle t ms2 then [handle] else [])\<rparr>))"

text \<open>A chunk that the chunkserver is known for and did not report, unless it got it just now.\<close>

definition hb_missing :: "config \<Rightarrow> string \<Rightarrow> time_point \<Rightarrow> u64 \<Rightarrow> hb_pass \<Rightarrow> hb_pass" where
  "hb_missing cfg sid t handle hp =
     (if handle \<in> hp_reported hp then hp
      else case ct_Find (ms_chunks (hp_ms hp)) handle of
             None \<Rightarrow> hp
           | Some meta \<Rightarrow>
               if (case om_find (cm_locations meta) sid of None \<Rightarrow> False
                   | Some since \<Rightarrow> t - since < cf_heartbeat_interval cfg * 2 * 1000000) then hp
               else let ms1 = fst (remove_location handle sid (hp_ms hp))
                    in hp\<lparr>hp_ms := ms1, hp_regrants := hp_regrants hp @ (if valid_now cfg handle t ms1 then [handle] else [])\<rparr>)"

definition hb_corrupted :: "config \<Rightarrow> string \<Rightarrow> time_point \<Rightarrow> u64 \<Rightarrow> hb_pass \<Rightarrow> hb_pass" where
  "hb_corrupted cfg sid t handle hp =
     (let hp1 = hp\<lparr>hp_deletes := hp_deletes hp @ [handle]\<rparr>
      in case ct_Find (ms_chunks (hp_ms hp1)) handle of
           None \<Rightarrow> hp1
         | Some meta \<Rightarrow>
             (let ms1 = fst (remove_location handle sid (hp_ms hp1))
              in hp1\<lparr>hp_ms := ms1, hp_regrants := hp_regrants hp1 @ (if valid_now cfg handle t ms1 then [handle] else [])\<rparr>))"

definition hb_extend :: "config \<Rightarrow> string \<Rightarrow> time_point \<Rightarrow> u64 \<Rightarrow> hb_pass \<Rightarrow> hb_pass" where
  "hb_extend cfg sid t handle hp =
     (case ct_Find (ms_chunks (hp_ms hp)) handle of
        None \<Rightarrow> hp
      | Some meta \<Rightarrow>
          (case ExtendLocked cfg sid t meta of
             (meta1, extended) \<Rightarrow>
               if \<not> extended then hp
               else hp\<lparr>hp_ms := update_chunk handle (\<lambda>_. meta1) (hp_ms hp),
                       hp_extended := hp_extended hp @ [(handle, cf_lease_duration cfg)]\<rparr>))"

definition Master_HeartBeat ::
    "config \<Rightarrow> time_point \<Rightarrow> heartbeat_request \<Rightarrow> registry \<Rightarrow> master_state \<Rightarrow>
     registry \<times> master_state \<times> log_record list \<times> heartbeat_response \<times> u64 list" where
  "Master_HeartBeat cfg t req servers ms =
     (let sid = hb_chunkserver_id req;
          servers1 = fst (Touch sid (hb_address req) (hb_rack req) t servers);
          known = ct_HeldBy (ms_chunks ms) sid;
          hp0 = \<lparr>hp_ms = ms, hp_reported = {}, hp_deletes = [], hp_regrants = [], hp_extended = [], hp_recs = []\<rparr>;
          hp1 = fold (hb_report cfg sid t) (hb_chunks req) hp0;
          hp2 = fold (hb_missing cfg sid t) known hp1;
          hp3 = fold (hb_corrupted cfg sid t) (hb_corrupt req) hp2;
          hp4 = fold (hb_extend cfg sid t) (hb_lease_extension_requests req) hp3
      in (servers1, hp_ms hp4, hp_recs hp4,
          \<lparr>hr_delete_handles = hp_deletes hp4, hr_extended = hp_extended hp4\<rparr>, hp_regrants hp4))"

section \<open>Dead chunkservers\<close>

definition sweep_handle :: "config \<Rightarrow> time_point \<Rightarrow> string \<Rightarrow> u64 \<Rightarrow> master_state \<times> u64 list \<Rightarrow> master_state \<times> u64 list" where
  "sweep_handle cfg t sid handle acc =
     (case acc of (ms, regrants) \<Rightarrow>
        let ms1 = fst (remove_location handle sid ms)
        in (ms1, regrants @ (if valid_now cfg handle t ms1 then [handle] else [])))"

definition sweep_server :: "config \<Rightarrow> time_point \<Rightarrow> string \<Rightarrow> master_state \<times> u64 list \<Rightarrow> master_state \<times> u64 list" where
  "sweep_server cfg t sid acc = fold (sweep_handle cfg t sid) (ct_HeldBy (ms_chunks (fst acc)) sid) acc"

definition SweepDead :: "config \<Rightarrow> time_point \<Rightarrow> registry \<Rightarrow> master_state \<Rightarrow> registry \<times> master_state \<times> u64 list" where
  "SweepDead cfg t servers ms =
     (case Sweep (cf_chunkserver_dead_timeout cfg) t servers of
        (servers1, dead) \<Rightarrow>
          if dead = [] then (servers1, ms, [])
          else case fold (sweep_server cfg t) dead (ms, []) of (ms1, regrants) \<Rightarrow> (servers1, ms1, regrants))"

section \<open>Garbage collection\<close>

text \<open>
  The sum of the stamp and the retention is of type \<open>int64_t\<close>; it is taken to fit, which it does
  unless somebody creates a file whose name claims a removal in the very far future.
\<close>

definition expired_files :: "config \<Rightarrow> int \<Rightarrow> name_space \<Rightarrow> string list" where
  "expired_files cfg now_seconds files =
     filter (\<lambda>path. case ParseHiddenName path of None \<Rightarrow> False
               | Some (stamp, _) \<Rightarrow> stamp + cf_deleted_file_retention cfg div 1000 \<le> now_seconds) (map fst files)"

definition gc_remove :: "string \<Rightarrow> master_state \<times> log_record list \<Rightarrow> master_state \<times> log_record list" where
  "gc_remove path acc =
     (case acc of (ms, recs) \<Rightarrow>
        if \<not> ns_Exists (ms_files ms) path then acc
        else (ApplyRemove path ms, recs @ [RemoveRec path]))"

definition referenced :: "name_space \<Rightarrow> u64 set" where
  "referenced files = \<Union> ((\<lambda>e. set (fm_chunks (snd e))) ` set files)"

definition orphans :: "master_state \<Rightarrow> u64 list" where
  "orphans ms =
     (let refd = referenced (ms_files ms)
      in map fst (filter (\<lambda>e. \<not> cm_pending (snd e) \<and> fst e \<notin> refd) (ct_chunks (ms_chunks ms))))"

definition gc_drop :: "u64 \<Rightarrow> master_state \<times> log_record list \<Rightarrow> master_state \<times> log_record list" where
  "gc_drop handle acc =
     (case acc of (ms, recs) \<Rightarrow> (ApplyDropChunk handle ms, recs @ [DropChunkRec handle]))"

definition GcPass :: "config \<Rightarrow> int \<Rightarrow> master_state \<Rightarrow> master_state \<times> log_record list" where
  "GcPass cfg now_seconds ms =
     (let (ms1, recs1) = fold gc_remove (expired_files cfg now_seconds (ms_files ms)) (ms, [])
      in fold gc_drop (orphans ms1) (ms1, recs1))"

section \<open>Collected garbage\<close>

lemma gc_remove_files:
  "fold gc_remove ps (ms, rs) = (ms', rs') \<Longrightarrow>
   ns_Find (ms_files ms') q = (if q \<in> set ps then None else ns_Find (ms_files ms) q)"
proof (induction ps arbitrary: ms rs)
  case (Cons p ps)
  obtain m r where one: "gc_remove p (ms, rs) = (m, r)" by fastforce
  then have "ns_Find (ms_files m) q = (if q = p then None else ns_Find (ms_files ms) q)" for q
    by (auto simp: gc_remove_def ns_Exists_iff ns_Find_iff ApplyRemove_def ns_Erase_def split: if_splits option.splits)
      (auto simp: ns_Find_def om_find_in_keys)
  then show ?case using Cons one by auto
qed simp

lemma gc_remove_chunks:
  "fold gc_remove ps (ms, rs) = (ms', rs') \<Longrightarrow> ms_next_handle ms' = ms_next_handle ms \<and>
   map_option (\<lambda>c. c\<lparr>cm_refcount := 0\<rparr>) (ct_Find (ms_chunks ms') h) = map_option (\<lambda>c. c\<lparr>cm_refcount := 0\<rparr>) (ct_Find (ms_chunks ms) h)"
proof (induction ps arbitrary: ms rs)
  case (Cons p ps)
  obtain m r where one: "gc_remove p (ms, rs) = (m, r)" by fastforce
  have unref: "map_option (\<lambda>c. c\<lparr>cm_refcount := 0\<rparr>) (ct_Find (fold unref hs t) h) = map_option (\<lambda>c. c\<lparr>cm_refcount := 0\<rparr>) (ct_Find t h)" for hs t
  proof (induction hs arbitrary: t)
    case (Cons x hs)
    have "map_option (\<lambda>c. c\<lparr>cm_refcount := 0\<rparr>) (ct_Find (unref x t) h) = map_option (\<lambda>c. c\<lparr>cm_refcount := 0\<rparr>) (ct_Find t h)"
      by (cases "ct_Find t x") (simp_all add: unref_def ct_simps)
    then show ?case using Cons [of "unref x t"] by simp
  qed simp
  have "ms_next_handle m = ms_next_handle ms \<and>
      map_option (\<lambda>c. c\<lparr>cm_refcount := 0\<rparr>) (ct_Find (ms_chunks m) h) = map_option (\<lambda>c. c\<lparr>cm_refcount := 0\<rparr>) (ct_Find (ms_chunks ms) h)"
    using one unref by (auto simp: gc_remove_def ApplyRemove_def split: if_splits option.splits)
  then show ?case using Cons one by auto
qed simp

lemma gc_remove_run:
  "fold gc_remove ps (ms, rs) = (ms', rs') \<Longrightarrow> master_run ms0 rs ms \<Longrightarrow> ms_ok ms \<Longrightarrow> master_run ms0 rs' ms' \<and> ms_ok ms'"
proof (induction ps arbitrary: ms rs)
  case (Cons p ps)
  obtain m r where one: "gc_remove p (ms, rs) = (m, r)" by fastforce
  have "master_run ms0 r m \<and> ms_ok m"
  proof (cases "ns_Exists (ms_files ms) p")
    case True
    note step = run_log1 [OF allowed_Remove [OF Cons.prems(3), of p]]
    from run_trans [OF step Cons.prems(2)] ms_ok_run [OF step Cons.prems(3)] show ?thesis
      using one True by (auto simp: gc_remove_def)
  qed (use one Cons.prems in \<open>auto simp: gc_remove_def\<close>)
  then show ?case using Cons one by auto
qed auto

text \<open>Dropping chunks that nothing references.\<close>

lemma gc_drop_run:
  "fold gc_drop hs (ms, rs) = (ms', rs') \<Longrightarrow> master_run ms0 rs ms \<Longrightarrow> ms_ok ms \<Longrightarrow> \<forall>h \<in> set hs. refs (ms_files ms) h = 0 \<Longrightarrow>
   master_run ms0 rs' ms' \<and> ms_ok ms' \<and> ms_files ms' = ms_files ms \<and> ms_next_handle ms' = ms_next_handle ms \<and>
   (\<forall>h. ct_Find (ms_chunks ms') h = (if h \<in> set hs then None else ct_Find (ms_chunks ms) h))"
proof (induction hs arbitrary: ms rs)
  case (Cons h hs)
  let ?m = "Apply (DropChunkRec h) ms"
  have "master_allowed (DropChunkRec h) ms"
    using Cons.prems(4) ms_ok_refs_fit [OF Cons.prems(3)] by (simp add: master_allowed_def ApplyDropChunk_def)
  note step = run_log1 [OF this]
  have m: "ms_files ?m = ms_files ms" "ms_next_handle ?m = ms_next_handle ms"
    "ct_Find (ms_chunks ?m) k = (if k = h then None else ct_Find (ms_chunks ms) k)" for k
    by (simp_all add: ApplyDropChunk_def ct_simps)
  have "gc_drop h (ms, rs) = (?m, rs @ [DropChunkRec h])" by (simp add: gc_drop_def)
  then have "fold gc_drop hs (?m, rs @ [DropChunkRec h]) = (ms', rs')" using Cons.prems(1) by (simp only: fold_simps)
  from Cons.IH [OF this run_trans [OF step Cons.prems(2)] ms_ok_run [OF step Cons.prems(3)]] Cons.prems(4)
  show ?case by (simp only: m) auto
qed auto

lemma referenced_iff: "h \<in> referenced files \<longleftrightarrow> refs files h \<noteq> 0"
  by (auto simp: referenced_def refs_def sum_list_eq_0_iff count_list_0_iff)

lemma GcPass_facts:
  assumes "ms_ok ms" "GcPass cfg now ms = (ms', rs)"
  shows "master_run ms rs ms'" "ms_ok ms'"
    "ns_Find (ms_files ms') q = (if q \<in> set (expired_files cfg now (ms_files ms)) then None else ns_Find (ms_files ms) q)"
    "ct_Find (ms_chunks ms') h \<noteq> None \<longleftrightarrow>
       (\<exists>c. ct_Find (ms_chunks ms) h = Some c \<and> (cm_pending c \<or> refs (ms_files ms') h \<noteq> 0))"
    "ct_Find (ms_chunks ms') h = Some c' \<Longrightarrow> \<exists>c. ct_Find (ms_chunks ms) h = Some c \<and> c' = c\<lparr>cm_refcount := cm_refcount c'\<rparr>"
proof -
  obtain ms1 rs1 where rem: "fold gc_remove (expired_files cfg now (ms_files ms)) (ms, []) = (ms1, rs1)" by fastforce
  have drop: "fold gc_drop (orphans ms1) (ms1, rs1) = (ms', rs)" using assms(2) rem by (simp add: GcPass_def Let_def)
  note r = gc_remove_run [OF rem run.start assms(1)]
  have ok: "om_ok (ct_chunks (ms_chunks ms1))" using r ms_coreD(2) [OF ms_okD(2)] ct_okD(1) by blast
  have orphan: "h \<in> set (orphans ms1) \<longleftrightarrow> (\<exists>c. ct_Find (ms_chunks ms1) h = Some c \<and> \<not> cm_pending c \<and> refs (ms_files ms1) h = 0)" for h
    using om_find_in [OF ok, of h] by (force simp: orphans_def referenced_iff ct_Find_def)
  then have "\<forall>h \<in> set (orphans ms1). refs (ms_files ms1) h = 0" by blast
  note d = gc_drop_run [OF drop conjunct1 [OF r] conjunct2 [OF r] this]
  show "master_run ms rs ms'" "ms_ok ms'" using d by simp_all
  show "ns_Find (ms_files ms') q = (if q \<in> set (expired_files cfg now (ms_files ms)) then None else ns_Find (ms_files ms) q)"
    using d gc_remove_files [OF rem] by simp
  note c = gc_remove_chunks [OF rem, of h, THEN conjunct2]
  have same: "c'\<lparr>cm_refcount := 0\<rparr> = c\<lparr>cm_refcount := 0\<rparr> \<Longrightarrow> c' = c\<lparr>cm_refcount := cm_refcount c'\<rparr>"
    "c'\<lparr>cm_refcount := 0\<rparr> = c\<lparr>cm_refcount := 0\<rparr> \<Longrightarrow> cm_pending c' = cm_pending c" for c c'
    by (cases c; cases c'; simp)+
  have old: "ct_Find (ms_chunks ms1) h = Some c1 \<Longrightarrow> \<exists>c. ct_Find (ms_chunks ms) h = Some c \<and> c1\<lparr>cm_refcount := 0\<rparr> = c\<lparr>cm_refcount := 0\<rparr>" for c1
    using c by (cases "ct_Find (ms_chunks ms) h") auto
  have new: "ct_Find (ms_chunks ms) h = Some c \<Longrightarrow> \<exists>c1. ct_Find (ms_chunks ms1) h = Some c1 \<and> c1\<lparr>cm_refcount := 0\<rparr> = c\<lparr>cm_refcount := 0\<rparr>" for c
    using gc_remove_chunks [OF rem, of h] by (cases "ct_Find (ms_chunks ms1) h") auto
  show "ct_Find (ms_chunks ms') h \<noteq> None \<longleftrightarrow>
       (\<exists>c. ct_Find (ms_chunks ms) h = Some c \<and> (cm_pending c \<or> refs (ms_files ms') h \<noteq> 0))"
  proof -
    have old': "\<exists>c. ct_Find (ms_chunks ms) h = Some c \<and> cm_pending c = cm_pending c1" if "ct_Find (ms_chunks ms1) h = Some c1" for c1
      using old [OF that] same(2) by blast
    have new': "\<exists>c1. ct_Find (ms_chunks ms1) h = Some c1 \<and> cm_pending c = cm_pending c1" if "ct_Find (ms_chunks ms) h = Some c" for c
      using new [OF that] same(2) [symmetric] by blast
    have d': "ct_Find (ms_chunks ms') h = (if h \<in> set (orphans ms1) then None else ct_Find (ms_chunks ms1) h)"
      "ms_files ms' = ms_files ms1" using d by simp_all
    show ?thesis
    proof
      assume "ct_Find (ms_chunks ms') h \<noteq> None"
      then obtain c1 where c1: "ct_Find (ms_chunks ms1) h = Some c1" "h \<notin> set (orphans ms1)" using d' by (auto split: if_splits)
      with old' [OF c1(1)] orphan [of h] d'(2) show "\<exists>c. ct_Find (ms_chunks ms) h = Some c \<and> (cm_pending c \<or> refs (ms_files ms') h \<noteq> 0)"
        by auto
    next
      assume "\<exists>c. ct_Find (ms_chunks ms) h = Some c \<and> (cm_pending c \<or> refs (ms_files ms') h \<noteq> 0)"
      then obtain c where c: "ct_Find (ms_chunks ms) h = Some c" "cm_pending c \<or> refs (ms_files ms') h \<noteq> 0" by blast
      with new' [OF c(1)] orphan [of h] d' show "ct_Find (ms_chunks ms') h \<noteq> None" by auto
    qed
  qed
  show "\<exists>c. ct_Find (ms_chunks ms) h = Some c \<and> c' = c\<lparr>cm_refcount := cm_refcount c'\<rparr>" if "ct_Find (ms_chunks ms') h = Some c'"
    using that d old same(1) by (auto split: if_splits)
qed


section \<open>Heartbeats chunk by chunk\<close>

text \<open>Every loop of a heartbeat acts on each chunk by itself; these are the actions.\<close>

definition locate :: "string \<Rightarrow> time_point \<Rightarrow> chunk_meta \<Rightarrow> chunk_meta" where
  "locate sid t = cm_locations_update (\<lambda>l. fst (om_emplace sid t l))"

definition forget :: "string \<Rightarrow> chunk_meta \<Rightarrow> chunk_meta" where
  "forget sid = cm_locations_update (om_erase sid)"

definition report_meta :: "string \<Rightarrow> time_point \<Rightarrow> chunk_report \<Rightarrow> chunk_meta \<Rightarrow> chunk_meta" where
  "report_meta sid t r c =
     (if cm_granting c then if cr_version r + 1 < cm_version c then forget sid c else locate sid t c
      else if cr_version r < cm_version c then forget sid c
      else locate sid t (c\<lparr>cm_version := cr_version r\<rparr>))"

definition recent :: "config \<Rightarrow> string \<Rightarrow> time_point \<Rightarrow> chunk_meta \<Rightarrow> bool" where
  "recent cfg sid t c =
     (case om_find (cm_locations c) sid of None \<Rightarrow> False | Some since \<Rightarrow> t - since < cf_heartbeat_interval cfg * 2 * 1000000)"

abbreviation hp_chunk :: "hb_pass \<Rightarrow> u64 \<Rightarrow> chunk_meta option" where
  "hp_chunk hp h \<equiv> ct_Find (ms_chunks (hp_ms hp)) h"

lemma Find_add_location [ct_simps]:
  "ct_Find (ms_chunks (fst (add_location h sid t ms))) h' =
     (if h' = h then map_option (locate sid t) (ct_Find (ms_chunks ms) h) else ct_Find (ms_chunks ms) h')"
  using ct_Find_AddLocation [of h sid t "ms_chunks ms" h'] by (simp add: add_location_def locate_def case_prod_unfold)

lemma Find_remove_location [ct_simps]:
  "ct_Find (ms_chunks (fst (remove_location h sid ms))) h' =
     (if h' = h then map_option (forget sid) (ct_Find (ms_chunks ms) h) else ct_Find (ms_chunks ms) h')"
  using ct_Find_RemoveLocation [of h sid "ms_chunks ms" h'] by (simp add: remove_location_def forget_def case_prod_unfold)

lemma hb_report_chunk:
  "hp_chunk (hb_report cfg sid t r hp) h =
     (if h = cr_handle r then map_option (report_meta sid t r) (hp_chunk hp h) else hp_chunk hp h)"
proof (cases "hp_chunk hp (cr_handle r)")
  case (Some c)
  have id: "\<not> cr_version r < cm_version c \<Longrightarrow> \<not> cm_version c < cr_version r \<Longrightarrow> c\<lparr>cm_version := cr_version r\<rparr> = c"
    by (cases c) auto
  show ?thesis
    using Some id by (auto simp: hb_report_def Let_def report_meta_def ct_simps case_prod_unfold)
qed (auto simp: hb_report_def Let_def)

lemma hb_reports_chunk:
  "hp_chunk (fold (hb_report cfg sid t) rs hp) h =
     map_option (fold (report_meta sid t) (filter (\<lambda>r. cr_handle r = h) rs)) (hp_chunk hp h)"
  by (induction rs arbitrary: hp) (auto simp: hb_report_chunk option.map_comp comp_def option.map_ident option.map_id)

lemma hb_missing_chunk:
  "hp_chunk (hb_missing cfg sid t k hp) h =
     (if h = k \<and> h \<notin> hp_reported hp then map_option (\<lambda>c. if recent cfg sid t c then c else forget sid c) (hp_chunk hp h)
      else hp_chunk hp h)"
  "hp_reported (hb_missing cfg sid t k hp) = hp_reported hp"
  by (auto simp: hb_missing_def recent_def Let_def ct_simps split: option.splits)

lemma forget_forget [simp]: "forget sid (forget sid c) = forget sid c"
  by (cases c) (simp add: forget_def om_erase_def filter_filter)

lemma recent_forget [simp]: "\<not> recent cfg sid t (forget sid c)"
  by (simp add: recent_def forget_def)

lemma hb_missings_chunk:
  "hp_chunk (fold (hb_missing cfg sid t) ks hp) h =
     map_option (\<lambda>c. if h \<in> set ks \<and> h \<notin> hp_reported hp \<and> \<not> recent cfg sid t c then forget sid c else c) (hp_chunk hp h)"
proof (induction ks arbitrary: hp)
  case (Cons k ks)
  show ?case
    by (cases "hp_chunk hp h") (auto simp: Cons hb_missing_chunk)
qed (simp add: option.map_ident)

lemma hb_corrupted_chunk:
  "hp_chunk (hb_corrupted cfg sid t k hp) h = (if h = k then map_option (forget sid) (hp_chunk hp h) else hp_chunk hp h)"
  by (auto simp: hb_corrupted_def Let_def ct_simps split: option.splits)

lemma hb_corrupteds_chunk:
  "hp_chunk (fold (hb_corrupted cfg sid t) ks hp) h =
     map_option (\<lambda>c. if h \<in> set ks then forget sid c else c) (hp_chunk hp h)"
proof (induction ks arbitrary: hp)
  case (Cons k ks)
  show ?case by (cases "hp_chunk hp h") (auto simp: Cons hb_corrupted_chunk)
qed (simp add: option.map_ident)

lemma hb_extend_chunk:
  "hp_chunk (hb_extend cfg sid t k hp) h =
     (if h = k then map_option (\<lambda>c. fst (ExtendLocked cfg sid t c)) (hp_chunk hp h) else hp_chunk hp h)"
proof (cases "hp_chunk hp k")
  case (Some c)
  obtain c1 b where e: "ExtendLocked cfg sid t c = (c1, b)" by fastforce
  then have "\<not> b \<Longrightarrow> c1 = c" by (auto simp: ExtendLocked_def split: option.splits if_splits)
  with Some e show ?thesis by (auto simp: hb_extend_def ct_simps)
qed (auto simp: hb_extend_def)

lemma hb_extends_chunk:
  "hp_chunk (fold (hb_extend cfg sid t) ks hp) h =
     map_option (fold (\<lambda>_ c. fst (ExtendLocked cfg sid t c)) (filter (\<lambda>k. k = h) ks)) (hp_chunk hp h)"
  by (induction ks arbitrary: hp) (auto simp: hb_extend_chunk option.map_comp comp_def option.map_ident option.map_id)

text \<open>The whole heartbeat on one chunk, and the handles it reports.\<close>

definition accepted :: "chunk_report \<Rightarrow> chunk_meta \<Rightarrow> bool" where
  "accepted r c \<longleftrightarrow> (if cm_granting c then \<not> cr_version r + 1 < cm_version c else \<not> cr_version r < cm_version c)"

lemma report_meta_simps [simp]:
  "cm_granting (report_meta sid t r c) = cm_granting c" "cm_pending (report_meta sid t r c) = cm_pending c"
  "cm_lease (report_meta sid t r c) = cm_lease c" "cm_refcount (report_meta sid t r c) = cm_refcount c"
  by (simp_all add: report_meta_def locate_def forget_def)

lemma forget_simps [simp]:
  "cm_granting (forget sid c) = cm_granting c" "cm_pending (forget sid c) = cm_pending c"
  "cm_lease (forget sid c) = cm_lease c" "cm_version (forget sid c) = cm_version c" "cm_refcount (forget sid c) = cm_refcount c"
  "om_find (cm_locations (forget sid c)) s = (if s = sid then None else om_find (cm_locations c) s)"
  by (simp_all add: forget_def)

lemma report_version: "cm_version c \<le> cm_version (report_meta sid t r c)"
  by (auto simp: report_meta_def locate_def forget_def not_less)

lemma report_accepted: "accepted r c \<Longrightarrow> accepted r (report_meta sid t r c)"
  by (auto simp: accepted_def report_meta_def locate_def forget_def)

lemma fold_report:
  "cm_version c \<le> cm_version (fold (report_meta sid t) rs c) \<and> cm_granting (fold (report_meta sid t) rs c) = cm_granting c \<and>
   cm_pending (fold (report_meta sid t) rs c) = cm_pending c \<and> cm_lease (fold (report_meta sid t) rs c) = cm_lease c \<and>
   cm_refcount (fold (report_meta sid t) rs c) = cm_refcount c"
  by (induction rs arbitrary: c) (auto intro: order_trans [OF report_version])

text \<open>
  When the chunk ends up with the chunkserver among its holders, one of the reports is good
  enough for the version the chunk ends up with, or nothing has changed there.
\<close>

lemma accepted_later:
  "accepted r c \<Longrightarrow> accepted r (report_meta sid t r' c) \<or> accepted r' (report_meta sid t r' c)"
  by (auto simp: accepted_def report_meta_def locate_def forget_def split: if_splits)

lemma report_locations:
  "om_find (cm_locations (report_meta sid t r c)) s =
     (if s \<noteq> sid then om_find (cm_locations c) s
      else if accepted r c then Some (case om_find (cm_locations c) sid of None \<Rightarrow> t | Some w \<Rightarrow> w) else None)"
  by (auto simp: report_meta_def accepted_def locate_def forget_def om_emplace_def split: option.split)

lemma hb_report_reported:
  "h \<in> hp_reported (hb_report cfg sid t r hp) \<longleftrightarrow>
     h \<in> hp_reported hp \<or> (h = cr_handle r \<and> (\<exists>c. hp_chunk hp h = Some c \<and> accepted r c))"
  by (auto simp: hb_report_def Let_def accepted_def split: option.splits prod.splits)

definition holds_since :: "string \<Rightarrow> chunk_meta \<Rightarrow> time_point option" where
  "holds_since sid c = om_find (cm_locations c) sid"

lemma hb_reports_hold:
  assumes "fold (hb_report cfg sid t) rs hp = hp'" "hp_chunk hp h = Some c" "hp_chunk hp' h = Some c'" "h \<notin> hp_reported hp"
  shows "(h \<in> hp_reported hp' \<longrightarrow> (\<exists>r \<in> set rs. cr_handle r = h \<and> accepted r c')) \<and>
    (h \<notin> hp_reported hp' \<longrightarrow> holds_since sid c' = None \<or> holds_since sid c' = holds_since sid c)"
proof -
  have "(h \<in> hp_reported hp' \<longrightarrow> (\<exists>r \<in> done_rs \<union> set rs. cr_handle r = h \<and> accepted r c')) \<and>
      (h \<notin> hp_reported hp' \<longrightarrow> holds_since sid c' = None \<or> holds_since sid c' = since)"
    if "fold (hb_report cfg sid t) rs hp = hp'" "hp_chunk hp h = Some c" "hp_chunk hp' h = Some c'"
      "h \<in> hp_reported hp \<longrightarrow> (\<exists>r \<in> done_rs. cr_handle r = h \<and> accepted r c)"
      "h \<notin> hp_reported hp \<longrightarrow> holds_since sid c = None \<or> holds_since sid c = since" for rs hp c done_rs since
    using that
  proof (induction rs arbitrary: hp c done_rs)
    case (Cons r rs)
    let ?hp = "hb_report cfg sid t r hp"
    let ?c = "if h = cr_handle r then report_meta sid t r c else c"
    have chunk: "hp_chunk ?hp h = Some ?c" using Cons.prems(2) by (cases "h = cr_handle r") (auto simp: hb_report_chunk)
    have reported: "h \<in> hp_reported ?hp \<longleftrightarrow> h \<in> hp_reported hp \<or> (h = cr_handle r \<and> accepted r c)"
      using Cons.prems(2) by (auto simp: hb_report_reported)
    have 1: "h \<in> hp_reported ?hp \<longrightarrow> (\<exists>r \<in> insert r done_rs. cr_handle r = h \<and> accepted r ?c)"
      using Cons.prems(4) reported report_accepted [of r c sid t] accepted_later [of _ c sid t r] by auto
    have 2: "h \<notin> hp_reported ?hp \<longrightarrow> holds_since sid ?c = None \<or> holds_since sid ?c = since"
      using Cons.prems(5) reported report_locations [of sid t r c sid] by (auto simp: holds_since_def)
    from Cons.IH [of ?hp ?c "insert r done_rs"] Cons.prems(1,3) chunk 1 2 show ?case by auto
  qed auto
  from this [of rs hp c "{}" "holds_since sid c"] assms show ?thesis by simp
qed

lemma ExtendLocked_simps [simp]:
  "cm_locations (fst (ExtendLocked cfg sid t c)) = cm_locations c" "cm_version (fst (ExtendLocked cfg sid t c)) = cm_version c"
  "cm_granting (fst (ExtendLocked cfg sid t c)) = cm_granting c" "cm_pending (fst (ExtendLocked cfg sid t c)) = cm_pending c"
  "cm_refcount (fst (ExtendLocked cfg sid t c)) = cm_refcount c"
  by (auto simp: ExtendLocked_def split: option.split)

lemma fold_extend:
  "cm_locations (fold (\<lambda>_ c. fst (ExtendLocked cfg sid t c)) ks c) = cm_locations c \<and>
   cm_version (fold (\<lambda>_ c. fst (ExtendLocked cfg sid t c)) ks c) = cm_version c \<and>
   cm_granting (fold (\<lambda>_ c. fst (ExtendLocked cfg sid t c)) ks c) = cm_granting c \<and>
   cm_pending (fold (\<lambda>_ c. fst (ExtendLocked cfg sid t c)) ks c) = cm_pending c \<and>
   cm_refcount (fold (\<lambda>_ c. fst (ExtendLocked cfg sid t c)) ks c) = cm_refcount c"
  by (induction ks arbitrary: c) simp_all

text \<open>How the passes of a heartbeat determine a chunk at its end.\<close>

lemma HeartBeat_passes:
  assumes "Master_HeartBeat cfg t req servers ms = (servers', ms', rs, resp, regrants)"
  obtains hp1 where
    "hp1 = fold (hb_report cfg (hb_chunkserver_id req) t) (hb_chunks req)
       \<lparr>hp_ms = ms, hp_reported = {}, hp_deletes = [], hp_regrants = [], hp_extended = [], hp_recs = []\<rparr>"
    "\<And>h. hp_chunk hp1 h = map_option
       (fold (report_meta (hb_chunkserver_id req) t) (filter (\<lambda>r. cr_handle r = h) (hb_chunks req))) (ct_Find (ms_chunks ms) h)"
    "\<And>h. ct_Find (ms_chunks ms') h = map_option (\<lambda>c.
       fold (\<lambda>_ c. fst (ExtendLocked cfg (hb_chunkserver_id req) t c)) (filter (\<lambda>k. k = h) (hb_lease_extension_requests req))
         (if h \<in> set (hb_corrupt req) \<or> (h \<in> set (ct_HeldBy (ms_chunks ms) (hb_chunkserver_id req)) \<and>
              h \<notin> hp_reported hp1 \<and> \<not> recent cfg (hb_chunkserver_id req) t c)
          then forget (hb_chunkserver_id req) c else c)) (hp_chunk hp1 h)"
proof -
  let ?sid = "hb_chunkserver_id req"
  let ?hp0 = "\<lparr>hp_ms = ms, hp_reported = {}, hp_deletes = [], hp_regrants = [], hp_extended = [], hp_recs = []\<rparr>"
  let ?hp1 = "fold (hb_report cfg ?sid t) (hb_chunks req) ?hp0"
  let ?hp2 = "fold (hb_missing cfg ?sid t) (ct_HeldBy (ms_chunks ms) ?sid) ?hp1"
  let ?hp3 = "fold (hb_corrupted cfg ?sid t) (hb_corrupt req) ?hp2"
  let ?hp4 = "fold (hb_extend cfg ?sid t) (hb_lease_extension_requests req) ?hp3"
  have ms': "ms' = hp_ms ?hp4" using assms by (simp add: Master_HeartBeat_def Let_def)
  show thesis
  proof (rule that [OF refl])
    show "hp_chunk ?hp1 h = map_option
       (fold (report_meta ?sid t) (filter (\<lambda>r. cr_handle r = h) (hb_chunks req))) (ct_Find (ms_chunks ms) h)" for h
      by (simp add: hb_reports_chunk)
    show "ct_Find (ms_chunks ms') h = map_option (\<lambda>c.
       fold (\<lambda>_ c. fst (ExtendLocked cfg ?sid t c)) (filter (\<lambda>k. k = h) (hb_lease_extension_requests req))
         (if h \<in> set (hb_corrupt req) \<or> (h \<in> set (ct_HeldBy (ms_chunks ms) ?sid) \<and>
              h \<notin> hp_reported ?hp1 \<and> \<not> recent cfg ?sid t c)
          then forget ?sid c else c)) (hp_chunk ?hp1 h)" for h
      unfolding ms' hb_extends_chunk hb_corrupteds_chunk hb_missings_chunk option.map_comp
      by (intro arg_cong2 [where f = map_option]) (auto simp: fun_eq_iff)
  qed
qed

text \<open>
  C28: after a heartbeat the master has the chunkserver down as a holder of a chunk only when it
  reported a version that is not outdated and not found corrupt, or was entered less than two
  heartbeats ago; the other holders of every chunk stay as they were, and no version goes back.
\<close>

theorem HeartBeat_holders:
  assumes "ms_ok ms" "Master_HeartBeat cfg t req servers ms = (servers', ms', rs, resp, regrants)"
    and "ct_Find (ms_chunks ms') h = Some c'"
  shows "\<exists>c. ct_Find (ms_chunks ms) h = Some c \<and> cm_version c \<le> cm_version c' \<and> cm_granting c' = cm_granting c \<and>
    (\<forall>sid. sid \<noteq> hb_chunkserver_id req \<longrightarrow> holds_since sid c' = holds_since sid c) \<and>
    (holds_since (hb_chunkserver_id req) c' \<noteq> None \<longrightarrow> h \<notin> set (hb_corrupt req) \<and>
       ((\<exists>r \<in> set (hb_chunks req). cr_handle r = h \<and> accepted r c') \<or>
        (\<exists>since. holds_since (hb_chunkserver_id req) c = Some since \<and> t - since < cf_heartbeat_interval cfg * 2 * 1000000)))"
proof -
  let ?sid = "hb_chunkserver_id req" and ?rs = "filter (\<lambda>r. cr_handle r = h) (hb_chunks req)"
  obtain hp1 where hp1: "hp1 = fold (hb_report cfg ?sid t) (hb_chunks req)
      \<lparr>hp_ms = ms, hp_reported = {}, hp_deletes = [], hp_regrants = [], hp_extended = [], hp_recs = []\<rparr>"
    and one: "hp_chunk hp1 h = map_option (fold (report_meta ?sid t) ?rs) (ct_Find (ms_chunks ms) h)"
    and last: "ct_Find (ms_chunks ms') h = map_option (\<lambda>c.
       fold (\<lambda>_ c. fst (ExtendLocked cfg ?sid t c)) (filter (\<lambda>k. k = h) (hb_lease_extension_requests req))
         (if h \<in> set (hb_corrupt req) \<or> (h \<in> set (ct_HeldBy (ms_chunks ms) ?sid) \<and>
              h \<notin> hp_reported hp1 \<and> \<not> recent cfg ?sid t c)
          then forget ?sid c else c)) (hp_chunk hp1 h)"
    by (rule HeartBeat_passes [OF assms(2)]) blast
  obtain c where c: "ct_Find (ms_chunks ms) h = Some c" using assms(3) one last by auto
  let ?c1 = "fold (report_meta ?sid t) ?rs c"
  let ?gone = "h \<in> set (hb_corrupt req) \<or> (h \<in> set (ct_HeldBy (ms_chunks ms) ?sid) \<and> h \<notin> hp_reported hp1 \<and> \<not> recent cfg ?sid t ?c1)"
  let ?c2 = "if ?gone then forget ?sid ?c1 else ?c1"
  have c1: "hp_chunk hp1 h = Some ?c1" using one c by simp
  have c': "c' = fold (\<lambda>_ c. fst (ExtendLocked cfg ?sid t c)) (filter (\<lambda>k. k = h) (hb_lease_extension_requests req)) ?c2"
    using assms(3) last c1 by simp
  have same: "cm_version c' = cm_version ?c1" "cm_granting c' = cm_granting ?c1" "cm_locations c' = cm_locations ?c2"
    unfolding c' by (simp_all add: fold_extend)
  have others: "holds_since s (fold (report_meta ?sid t) rs c) = holds_since s c" if "s \<noteq> ?sid" for s rs
    using that by (induction rs arbitrary: c) (simp_all add: holds_since_def report_locations)
  have acc: "accepted r c' = accepted r ?c1" for r by (simp add: accepted_def same)
  have known: "h \<in> set (ct_HeldBy (ms_chunks ms) ?sid) \<longleftrightarrow> holds_since ?sid c \<noteq> None"
    using ct_okD(5) [OF ms_coreD(2) [OF ms_okD(2) [OF assms(1)]], of h ?sid] c
    by (auto simp: holders_def holds_since_def om_find_in_keys)
  note hold = hb_reports_hold [OF hp1 [symmetric] _ c1, of c] c
  have "h \<notin> set (hb_corrupt req) \<and> ((\<exists>r \<in> set (hb_chunks req). cr_handle r = h \<and> accepted r c') \<or>
        (\<exists>since. holds_since ?sid c = Some since \<and> t - since < cf_heartbeat_interval cfg * 2 * 1000000))"
    if here: "holds_since ?sid c' \<noteq> None"
  proof -
    have not: "\<not> ?gone"
    proof
      assume ?gone
      then have "holds_since ?sid ?c2 = None" by (simp add: holds_since_def)
      with here same(3) show False by (simp add: holds_since_def)
    qed
    have "cm_locations c' = cm_locations ?c1" using same(3) unfolding if_not_P [OF not] .
    then have here1: "holds_since ?sid ?c1 \<noteq> None" using here by (simp add: holds_since_def)
    show ?thesis
    proof (cases "h \<in> hp_reported hp1")
      case True
      with hold not acc show ?thesis by auto
    next
      case False
      then have "holds_since ?sid ?c1 = holds_since ?sid c" using hold here1 by auto
      then show ?thesis using not False known here1 by (auto simp: recent_def holds_since_def)
    qed
  qed
  moreover have "holds_since s c' = holds_since s c" if "s \<noteq> ?sid" for s
    using others [OF that, of ?rs] that same(3) by (auto simp: holds_since_def)
  moreover have "cm_version c \<le> cm_version c'" "cm_granting c' = cm_granting c" using same fold_report by auto
  ultimately show ?thesis using c by blast
qed

text \<open>What a heartbeat orders to be deleted.\<close>

lemma hb_report_deletes:
  "h \<in> set (hp_deletes (hb_report cfg sid t r hp)) \<longleftrightarrow>
     h \<in> set (hp_deletes hp) \<or> (h = cr_handle r \<and> (\<forall>c. hp_chunk hp h = Some c \<longrightarrow> \<not> accepted r c))"
  by (cases "hp_chunk hp (cr_handle r)") (auto simp: hb_report_def Let_def accepted_def case_prod_unfold)

lemma hb_other_deletes:
  "hp_deletes (hb_missing cfg sid t k hp) = hp_deletes hp"
  "hp_deletes (hb_corrupted cfg sid t k hp) = hp_deletes hp @ [k]"
  "hp_deletes (hb_extend cfg sid t k hp) = hp_deletes hp"
  by (auto simp: hb_missing_def hb_corrupted_def hb_extend_def Let_def split: option.split prod.split)

lemma fold_other_deletes:
  "hp_deletes (fold (hb_missing cfg sid t) ks hp) = hp_deletes hp"
  "hp_deletes (fold (hb_corrupted cfg sid t) ks hp) = hp_deletes hp @ ks"
  "hp_deletes (fold (hb_extend cfg sid t) ks hp) = hp_deletes hp"
  by (induction ks arbitrary: hp) (simp_all add: hb_other_deletes)

definition outdated :: "chunk_report \<Rightarrow> chunk_meta \<Rightarrow> bool" where
  "outdated r c \<longleftrightarrow> cr_version r < cm_version c"

lemma not_accepted_outdated: "\<not> accepted r c \<Longrightarrow> cr_version r + 1 \<noteq> 0 \<Longrightarrow> outdated r c"
  using less_max_Suc [of "cr_version r" 0] by (auto simp: accepted_def outdated_def max_def split: if_splits)

lemma hb_reports_deletes:
  assumes "fold (hb_report cfg sid t) rs hp = hp'" "h \<in> set (hp_deletes hp')" "hp_chunk hp' h = Some c'" "h \<notin> set (hp_deletes hp)"
    and "\<forall>r \<in> set rs. cr_version r + 1 \<noteq> 0"
  shows "\<exists>r \<in> set rs. cr_handle r = h \<and> outdated r c'"
  using assms
proof (induction rs arbitrary: hp)
  case (Cons r rs)
  let ?hp = "hb_report cfg sid t r hp"
  have rest: "fold (hb_report cfg sid t) rs ?hp = hp'" using Cons.prems(1) by simp
  show ?case
  proof (cases "h \<in> set (hp_deletes ?hp)")
    case True
    then have h: "h = cr_handle r" "\<forall>c. hp_chunk hp h = Some c \<longrightarrow> \<not> accepted r c"
      using Cons.prems(4) by (auto simp: hb_report_deletes)
    obtain c where c: "hp_chunk hp h = Some c"
      using Cons.prems(3) rest hb_reports_chunk [of cfg sid t "r # rs" hp h] Cons.prems(1) by (cases "hp_chunk hp h") auto
    have "outdated r c" using h(2) c not_accepted_outdated Cons.prems(5) by auto
    moreover have "cm_version c \<le> cm_version c'"
      using hb_reports_chunk [of cfg sid t "r # rs" hp h] Cons.prems(1,3) c fold_report by auto
    ultimately show ?thesis using h(1) by (auto simp: outdated_def)
  next
    case False
    with Cons.IH [OF rest Cons.prems(2,3)] Cons.prems(5) show ?thesis by auto
  qed
qed simp

text \<open>
  A heartbeat tells a chunkserver to delete a replica only when no chunk of that handle
  exists, or the chunkserver itself found it corrupt, or it reported a version older than the
  chunk's; so no current and sound replica is ever lost this way.
\<close>

lemma HeartBeat_deletes:
  assumes "Master_HeartBeat cfg t req servers ms = (servers', ms', rs, resp, regrants)"
    and "\<forall>r \<in> set (hb_chunks req). cr_version r + 1 \<noteq> 0"
    and "h \<in> set (hr_delete_handles resp)"
  shows "case ct_Find (ms_chunks ms') h of
      None \<Rightarrow> True
    | Some c \<Rightarrow> h \<in> set (hb_corrupt req) \<or> (\<exists>r \<in> set (hb_chunks req). cr_handle r = h \<and> cr_version r < cm_version c)"
proof (cases "ct_Find (ms_chunks ms') h")
  case (Some c')
  let ?sid = "hb_chunkserver_id req"
  obtain hp1 where hp1: "hp1 = fold (hb_report cfg ?sid t) (hb_chunks req)
      \<lparr>hp_ms = ms, hp_reported = {}, hp_deletes = [], hp_regrants = [], hp_extended = [], hp_recs = []\<rparr>"
    and last: "ct_Find (ms_chunks ms') h = map_option (\<lambda>c.
       fold (\<lambda>_ c. fst (ExtendLocked cfg ?sid t c)) (filter (\<lambda>k. k = h) (hb_lease_extension_requests req))
         (if h \<in> set (hb_corrupt req) \<or> (h \<in> set (ct_HeldBy (ms_chunks ms) ?sid) \<and>
              h \<notin> hp_reported hp1 \<and> \<not> recent cfg ?sid t c)
          then forget ?sid c else c)) (hp_chunk hp1 h)"
    by (rule HeartBeat_passes [OF assms(1)]) blast
  obtain c1 where c1: "hp_chunk hp1 h = Some c1" using Some last by auto
  then have v: "cm_version c' = cm_version c1" using Some last by (auto simp: fold_extend)
  have "hr_delete_handles resp = hp_deletes hp1 @ hb_corrupt req"
    using assms(1) unfolding hp1 by (auto simp: Master_HeartBeat_def Let_def fold_other_deletes)
  with assms(3) hb_reports_deletes [OF hp1 [symmetric] _ c1] assms(2) v Some show ?thesis
    by (auto simp: outdated_def)
qed simp

section \<open>Heartbeats and leases\<close>

text \<open>
  A heartbeat changes a lease only by prolonging it, and only one that is unrevoked and in
  force, for its own primary, who asked for it.
\<close>

lemma HeartBeat_leases:
  assumes "Master_HeartBeat cfg t req servers ms = (servers', ms', rs, resp, regrants)"
    and "ct_Find (ms_chunks ms) h = Some c"
  shows "\<exists>c'. ct_Find (ms_chunks ms') h = Some c' \<and>
    (cm_lease c' = cm_lease c \<or>
     (\<exists>l. cm_lease c = Some l \<and> h \<in> set (hb_lease_extension_requests req) \<and> ls_primary l = hb_chunkserver_id req \<and>
        \<not> ls_revoked l \<and> unexpired cfg l t \<and> cm_lease c' = Some (l\<lparr>ls_expiry := after_ms t (cf_lease_duration cfg)\<rparr>)))"
proof -
  let ?sid = "hb_chunkserver_id req"
  obtain hp1 where one: "hp_chunk hp1 h = map_option (fold (report_meta ?sid t) (filter (\<lambda>r. cr_handle r = h) (hb_chunks req)))
        (ct_Find (ms_chunks ms) h)"
    and last: "ct_Find (ms_chunks ms') h = map_option (\<lambda>c.
       fold (\<lambda>_ c. fst (ExtendLocked cfg ?sid t c)) (filter (\<lambda>k. k = h) (hb_lease_extension_requests req))
         (if h \<in> set (hb_corrupt req) \<or> (h \<in> set (ct_HeldBy (ms_chunks ms) ?sid) \<and>
              h \<notin> hp_reported hp1 \<and> \<not> recent cfg ?sid t c)
          then forget ?sid c else c)) (hp_chunk hp1 h)"
    by (rule HeartBeat_passes [OF assms(1)]) blast
  let ?longer = "\<lambda>l l'. l' = l \<or> (\<exists>x. l = Some x \<and> ls_primary x = ?sid \<and> \<not> ls_revoked x \<and> unexpired cfg x t \<and>
      l' = Some (x\<lparr>ls_expiry := after_ms t (cf_lease_duration cfg)\<rparr>))"
  have step: "?longer l (cm_lease (fst (ExtendLocked cfg ?sid t c)))" if "?longer l (cm_lease c)" for l c
    using that by (auto simp: ExtendLocked_def IsValid_def split: option.splits if_splits)
  have longer: "?longer l (cm_lease (fold (\<lambda>_ c. fst (ExtendLocked cfg ?sid t c)) ks c))" if "?longer l (cm_lease c)" for l c ks
    using that by (induction ks arbitrary: c) (simp_all only: fold_simps id_apply comp_apply step)
  obtain c1 where c1: "ct_Find (ms_chunks ms') h =
      Some (fold (\<lambda>_ c. fst (ExtendLocked cfg ?sid t c)) (filter (\<lambda>k. k = h) (hb_lease_extension_requests req)) c1)"
    "cm_lease c1 = cm_lease c"
    using one last assms(2) by (auto simp: fold_report)
  show ?thesis
  proof (cases "h \<in> set (hb_lease_extension_requests req)")
    case True
    then show ?thesis using c1 longer [of c1 "cm_lease c"] by fastforce
  next
    case False
    then have "filter (\<lambda>k. k = h) (hb_lease_extension_requests req) = []" by (auto simp: filter_empty_conv)
    then show ?thesis using c1 by simp
  qed
qed

section \<open>Heartbeats and sweeps are runs\<close>

lemma quiet_add_location [quiet_intros]: "quiet_from ms (fst (add_location h sid t ms))"
  by (auto simp: add_location_def case_prod_unfold intro: quiet_intros)

lemma quiet_remove_location [quiet_intros]: "quiet_from ms (fst (remove_location h sid ms))"
  by (auto simp: remove_location_def case_prod_unfold intro: quiet_intros)

text \<open>A report does not jump a version that is still pending; see \<open>MasterInvariant.rec_ok\<close>.\<close>

definition reports_ok :: "chunk_report list \<Rightarrow> master_state \<Rightarrow> bool" where
  "reports_ok rs ms \<longleftrightarrow> (\<forall>r \<in> set rs. \<forall>c. ct_Find (ms_chunks ms) (cr_handle r) = Some c \<longrightarrow> cm_pending c \<longrightarrow> cr_version r \<le> 1)"

lemma hb_report_run:
  assumes "master_run ms0 (hp_recs hp) (hp_ms hp)" "ms_ok (hp_ms hp)"
    and "\<And>c. hp_chunk hp (cr_handle r) = Some c \<Longrightarrow> cm_pending c \<Longrightarrow> cr_version r \<le> 1"
  shows "master_run ms0 (hp_recs (hb_report cfg sid t r hp)) (hp_ms (hb_report cfg sid t r hp))"
proof (cases "hp_chunk hp (cr_handle r)")
  case (Some c)
  show ?thesis
  proof (cases "\<not> cm_granting c \<and> cm_version c < cr_version r")
    case True
    let ?h = "cr_handle r" and ?v = "cr_version r"
    let ?m = "update_chunk ?h (\<lambda>c. c\<lparr>cm_version := ?v\<rparr>) (hp_ms hp)"
    have top: "max (cm_version c) ?v = ?v" using True by simp
    have "\<not> cm_pending c"
      using True assms(3) [OF Some] ms_coreD(6) [OF ms_okD(2) [OF assms(2)] Some] by auto
    then have "master_allowed (BumpVersionRec ?h ?v) (hp_ms hp)"
      using Some ms_ok_refs_fit [OF assms(2)] by (simp add: master_allowed_def ApplyBumpVersion_def)
    moreover have "Apply (BumpVersionRec ?h ?v) (hp_ms hp) = ?m"
      using ct_update_cong [OF ms_coreD(2) [OF ms_okD(2) [OF assms(2)]], of ?h "\<lambda>c. c\<lparr>cm_version := max (cm_version c) ?v\<rparr>"
          "\<lambda>c. c\<lparr>cm_version := ?v\<rparr>"] Some top
      by (simp add: ApplyBumpVersion_def update_chunk_def)
    ultimately have step: "master_run (hp_ms hp) [BumpVersionRec ?h ?v] ?m" using run_log1 by metis
    have "master_run ms0 (hp_recs hp @ [BumpVersionRec ?h ?v]) (fst (add_location ?h sid t ?m))"
      by (rule run_quiet [OF run_trans [OF step assms(1)] ms_ok_run [OF step assms(2)]]) (intro quiet_intros)
    moreover have "\<not> ?v < cm_version c" using True less_asym by blast
    ultimately show ?thesis using Some True by (simp add: hb_report_def Let_def case_prod_unfold)
  next
    case False
    have "quiet_from (hp_ms hp) (hp_ms (hb_report cfg sid t r hp)) \<and> hp_recs (hb_report cfg sid t r hp) = hp_recs hp"
      using Some False by (auto simp: hb_report_def Let_def case_prod_unfold intro: quiet_intros)
    then show ?thesis using run_quiet [OF assms(1,2)] by simp
  qed
qed (use assms(1) in \<open>simp add: hb_report_def Let_def\<close>)

lemma hb_reports_run:
  assumes "master_run ms0 (hp_recs hp) (hp_ms hp)" "ms_ok ms0" "reports_ok rs (hp_ms hp)"
  shows "master_run ms0 (hp_recs (fold (hb_report cfg sid t) rs hp)) (hp_ms (fold (hb_report cfg sid t) rs hp))"
  using assms
proof (induction rs arbitrary: hp)
  case (Cons r rs)
  let ?hp = "hb_report cfg sid t r hp"
  have ok: "ms_ok (hp_ms hp)" by (rule ms_ok_run [OF Cons.prems(1,2)])
  have "master_run ms0 (hp_recs ?hp) (hp_ms ?hp)"
    using Cons.prems(1,3) ok by (intro hb_report_run) (auto simp: reports_ok_def)
  moreover have "reports_ok rs (hp_ms ?hp)"
    using Cons.prems(3) by (auto simp: reports_ok_def hb_report_chunk split: if_splits)
  ultimately show ?case using Cons.IH [of ?hp] Cons.prems(2) by simp
qed simp

lemma hb_quiet:
  "quiet_from (hp_ms hp) (hp_ms (hb_missing cfg sid t k hp)) \<and> hp_recs (hb_missing cfg sid t k hp) = hp_recs hp"
  "quiet_from (hp_ms hp) (hp_ms (hb_corrupted cfg sid t k hp)) \<and> hp_recs (hb_corrupted cfg sid t k hp) = hp_recs hp"
  by (auto simp: hb_missing_def hb_corrupted_def Let_def intro: quiet_intros split: option.split)

lemma hb_quiet_extend:
  assumes "ms_ok (hp_ms hp)"
  shows "quiet_from (hp_ms hp) (hp_ms (hb_extend cfg sid t k hp)) \<and> hp_recs (hb_extend cfg sid t k hp) = hp_recs hp"
proof (cases "hp_chunk hp k")
  case (Some c)
  obtain c1 b where e: "ExtendLocked cfg sid t c = (c1, b)" by fastforce
  show ?thesis
  proof (cases b)
    case True
    then obtain l where "c1 = c\<lparr>cm_lease := Some l\<rparr>" using e by (auto simp: ExtendLocked_def split: option.splits if_splits)
    then have "update_chunk k (\<lambda>_. c1) (hp_ms hp) = update_chunk k (\<lambda>c. c\<lparr>cm_lease := Some l\<rparr>) (hp_ms hp)"
      using ct_update_cong [OF ms_coreD(2) [OF ms_okD(2) [OF assms]], of k "\<lambda>_. c1" "\<lambda>c. c\<lparr>cm_lease := Some l\<rparr>"] Some
      by (simp add: update_chunk_def)
    then have "quiet_from (hp_ms hp) (update_chunk k (\<lambda>_. c1) (hp_ms hp))" by (simp only: quiet_lease)
    then show ?thesis using Some e True by (simp add: hb_extend_def)
  qed (use Some e in \<open>simp add: hb_extend_def quiet_from_refl\<close>)
qed (simp add: hb_extend_def quiet_from_refl)

lemma hb_quiet_folds:
  "quiet_from (hp_ms hp) (hp_ms (fold (hb_missing cfg sid t) ks hp)) \<and> hp_recs (fold (hb_missing cfg sid t) ks hp) = hp_recs hp"
  "quiet_from (hp_ms hp) (hp_ms (fold (hb_corrupted cfg sid t) ks hp)) \<and> hp_recs (fold (hb_corrupted cfg sid t) ks hp) = hp_recs hp"
  "ms_ok (hp_ms hp) \<Longrightarrow> quiet_from (hp_ms hp) (hp_ms (fold (hb_extend cfg sid t) ks hp)) \<and> hp_recs (fold (hb_extend cfg sid t) ks hp) = hp_recs hp"
proof (induction ks arbitrary: hp)
  case (Cons k ks)
  { case 1 show ?case using Cons(1) hb_quiet(1) quiet_from_trans by fastforce }
  { case 2 show ?case using Cons(2) hb_quiet(2) quiet_from_trans by fastforce }
  { case 3
    have "ms_ok (hp_ms (hb_extend cfg sid t k hp))" using quiet_from_ok [OF 3 conjunct1 [OF hb_quiet_extend [OF 3]]] .
    with 3 show ?case using Cons(3) hb_quiet_extend quiet_from_trans by fastforce }
qed (simp_all add: quiet_from_refl)

lemma HeartBeat_run:
  assumes "ms_ok ms" "reports_ok (hb_chunks req) ms" "Master_HeartBeat cfg t req servers ms = (servers', ms', rs, resp, regrants)"
  shows "master_run ms rs ms'"
proof -
  let ?sid = "hb_chunkserver_id req"
  let ?hp0 = "\<lparr>hp_ms = ms, hp_reported = {}, hp_deletes = [], hp_regrants = [], hp_extended = [], hp_recs = []\<rparr>"
  let ?hp1 = "fold (hb_report cfg ?sid t) (hb_chunks req) ?hp0"
  let ?hp2 = "fold (hb_missing cfg ?sid t) (ct_HeldBy (ms_chunks ms) ?sid) ?hp1"
  let ?hp3 = "fold (hb_corrupted cfg ?sid t) (hb_corrupt req) ?hp2"
  let ?hp4 = "fold (hb_extend cfg ?sid t) (hb_lease_extension_requests req) ?hp3"
  have r1: "master_run ms (hp_recs ?hp1) (hp_ms ?hp1)"
    using hb_reports_run [of ms ?hp0 "hb_chunks req"] assms(1,2) by (simp add: run.start)
  have ok1: "ms_ok (hp_ms ?hp1)" by (rule ms_ok_run [OF r1 assms(1)])
  have q3: "quiet_from (hp_ms ?hp1) (hp_ms ?hp3)"
    using hb_quiet_folds(1) [of ?hp1] hb_quiet_folds(2) [of ?hp2] quiet_from_trans by blast
  have ok3: "ms_ok (hp_ms ?hp3)" using quiet_from_ok [OF ok1 q3] .
  have q: "quiet_from (hp_ms ?hp1) (hp_ms ?hp4)" using quiet_from_trans [OF q3] hb_quiet_folds(3) [OF ok3] by blast
  have "hp_recs ?hp4 = hp_recs ?hp1"
    using hb_quiet_folds(1) [of ?hp1] hb_quiet_folds(2) [of ?hp2] hb_quiet_folds(3) [OF ok3] by simp
  with run_quiet [OF r1 ok1 q] assms(3) show ?thesis by (simp add: Master_HeartBeat_def Let_def)
qed

section \<open>Sweeps\<close>

lemma sweep_handles:
  "fst (fold (sweep_handle cfg t sid) hs acc) = fold (\<lambda>h ms. fst (remove_location h sid ms)) hs (fst acc)"
  by (induction hs arbitrary: acc) (auto simp: sweep_handle_def Let_def split: prod.splits)

lemma Find_remove_fold:
  "ct_Find (ms_chunks (fold (\<lambda>h ms. fst (remove_location h sid ms)) hs ms)) k =
     map_option (\<lambda>c. if k \<in> set hs then forget sid c else c) (ct_Find (ms_chunks ms) k)"
proof (induction hs arbitrary: ms)
  case (Cons h hs)
  then show ?case by (cases "ct_Find (ms_chunks ms) k") (auto simp: ct_simps)
qed (simp add: option.map_ident)

lemma quiet_remove_fold: "quiet_from ms (fold (\<lambda>h ms. fst (remove_location h sid ms)) hs ms)"
  by (rule fold_invariant [where P = "quiet_from ms"]) (auto intro: quiet_from_refl quiet_from_trans quiet_remove_location)

text \<open>A sweep of one server forgets it for every chunk.\<close>

lemma forget_none: "om_find (cm_locations c) sid = None \<Longrightarrow> forget sid c = c"
  by (cases c) (simp add: forget_def om_erase_id om_find_in_keys)

lemma sweep_server_chunk:
  assumes "ct_ok (ms_chunks (fst acc))"
  shows "ct_Find (ms_chunks (fst (sweep_server cfg t sid acc))) h = map_option (forget sid) (ct_Find (ms_chunks (fst acc)) h)"
proof (cases "ct_Find (ms_chunks (fst acc)) h")
  case (Some c)
  have "h \<in> set (ct_HeldBy (ms_chunks (fst acc)) sid) \<longleftrightarrow> om_find (cm_locations c) sid \<noteq> None"
    using ct_okD(5) [OF assms, of h sid] Some by (auto simp: holders_def om_find_in_keys)
  then show ?thesis using Some forget_none [of c sid] by (auto simp: sweep_server_def sweep_handles Find_remove_fold)
qed (simp add: sweep_server_def sweep_handles Find_remove_fold)

lemma sweep_server_quiet: "quiet_from (fst acc) (fst (sweep_server cfg t sid acc))"
  by (simp add: sweep_server_def sweep_handles quiet_remove_fold)

lemma sweep_servers:
  assumes "ms_ok (fst acc)"
  shows "quiet_from (fst acc) (fst (fold (sweep_server cfg t) sids acc)) \<and>
    ct_Find (ms_chunks (fst (fold (sweep_server cfg t) sids acc))) h = map_option (fold forget sids) (ct_Find (ms_chunks (fst acc)) h)"
  using assms
proof (induction sids arbitrary: acc)
  case (Cons sid sids)
  let ?acc = "sweep_server cfg t sid acc"
  have q: "quiet_from (fst acc) (fst ?acc)" by (rule sweep_server_quiet)
  have ok: "ms_ok (fst ?acc)" by (rule quiet_from_ok [OF Cons.prems q])
  have ct: "ct_ok (ms_chunks (fst acc))" using Cons.prems by (intro ms_coreD(2) ms_okD(2))
  from Cons.IH [OF ok] quiet_from_trans [OF q] show ?case
    by (simp add: sweep_server_chunk [OF ct] option.map_comp comp_def)
qed (simp add: quiet_from_refl option.map_id)

lemma fold_forget:
  "om_find (cm_locations (fold forget sids c)) s = (if s \<in> set sids then None else om_find (cm_locations c) s)"
  "cm_version (fold forget sids c) = cm_version c" "cm_lease (fold forget sids c) = cm_lease c"
  "cm_granting (fold forget sids c) = cm_granting c" "cm_pending (fold forget sids c) = cm_pending c"
  "cm_refcount (fold forget sids c) = cm_refcount c"
  by (induction sids arbitrary: c) auto

text \<open>
  After a sweep no chunk has a chunkserver among its holders that the sweep found dead,
  all other holders stay, and nothing that a restart sees changes.
\<close>

lemma SweepDead_forgets:
  assumes "ms_ok ms" "om_ok servers" "SweepDead cfg t servers ms = (servers', ms', regrants)"
    and "ct_Find (ms_chunks ms) h = Some c"
  shows "quiet_from ms ms' \<and>
    (\<exists>c'. ct_Find (ms_chunks ms') h = Some c' \<and> cm_version c' = cm_version c \<and> cm_lease c' = cm_lease c \<and>
      (\<forall>sid. holds_since sid c' =
         (if Resolve sid servers \<noteq> None \<and> Resolve sid servers' = None then None else holds_since sid c)))"
proof -
  let ?sw = "Sweep (cf_chunkserver_dead_timeout cfg) t servers"
  let ?dead = "snd ?sw"
  have e: "servers' = fst ?sw" "ms' = fst (fold (sweep_server cfg t) ?dead (ms, []))"
    using assms(3) by (auto simp: SweepDead_def split: prod.splits if_splits)
  have s: "quiet_from ms ms'" "ct_Find (ms_chunks ms') h = map_option (fold forget ?dead) (ct_Find (ms_chunks ms) h)"
    using sweep_servers [of "(ms, [])"] assms(1) e(2) by auto
  have "sid \<in> set ?dead \<longleftrightarrow> Resolve sid servers \<noteq> None \<and> Resolve sid servers' = None" for sid
    using Sweep_exact [OF assms(2)] e(1) by simp
  then have "holds_since sid (fold forget ?dead c) =
      (if Resolve sid servers \<noteq> None \<and> Resolve sid servers' = None then None else holds_since sid c)" for sid
    by (simp add: holds_since_def fold_forget(1))
  then show ?thesis using s assms(4) by (simp add: fold_forget)
qed

lemma SweepDead_run:
  assumes "ms_ok ms" "SweepDead cfg t servers ms = (servers', ms', regrants)"
  shows "master_run ms [] ms'"
proof -
  have "ms' = fst (fold (sweep_server cfg t) (snd (Sweep (cf_chunkserver_dead_timeout cfg) t servers)) (ms, []))"
    using assms(2) by (auto simp: SweepDead_def split: prod.splits if_splits)
  then have "quiet_from ms ms'" using sweep_servers [of "(ms, [])"] assms(1) by auto
  then show ?thesis by (rule run_quiet [OF run.start assms(1)])
qed

section \<open>Witnesses\<close>

text \<open>The heartbeat of a chunkserver with some reports and some leases it wants prolonged.\<close>

definition beat :: "string \<Rightarrow> chunk_report list \<Rightarrow> u64 list \<Rightarrow> heartbeat_request" where
  "beat sid reports wanted = \<lparr>hb_chunkserver_id = sid, hb_address = ''10.0.0.2:1'', hb_rack = ''r'', hb_chunks = reports,
     hb_lease_extension_requests = wanted, hb_corrupt = []\<rparr>"

theorem HeartBeat_holders_witness:
  "\<exists>c'. ct_Find (ms_chunks (fst (snd (Master_HeartBeat small_config 9000000000 (beat ''s'' [] []) two_servers sample_state)))) 7 = Some c' \<and>
     holds_since ''s'' c' = None \<and> holds_since ''t'' c' = Some 0"
proof -
  let ?h = "Master_HeartBeat small_config 9000000000 (beat ''s'' [] []) two_servers sample_state"
  have "map_option cm_version (ct_Find (ms_chunks (fst (snd ?h))) 7) = Some 1" by code_simp
  then obtain c' where c': "ct_Find (ms_chunks (fst (snd ?h))) 7 = Some c'" by auto
  have h: "?h = (fst ?h, fst (snd ?h), fst (snd (snd ?h)), fst (snd (snd (snd ?h))), snd (snd (snd (snd ?h))))" by simp
  have "cf_heartbeat_interval small_config = 3000" by code_simp
  with HeartBeat_holders [OF sample_state_ok h c'] sample_chunk
  have "holds_since ''s'' c' = None \<and> holds_since ''t'' c' = Some 0" by (auto simp: beat_def holds_since_def)
  with c' show ?thesis by blast
qed

theorem HeartBeat_deletes_witness:
  "9 \<in> set (hr_delete_handles (fst (snd (snd (snd (Master_HeartBeat small_config 5
      (beat ''t'' [\<lparr>cr_handle = 9, cr_version = 1, cr_length = 0\<rparr>] []) two_servers sample_state)))))) \<and>
   ct_Find (ms_chunks (fst (snd (Master_HeartBeat small_config 5
      (beat ''t'' [\<lparr>cr_handle = 9, cr_version = 1, cr_length = 0\<rparr>] []) two_servers sample_state)))) 9 = None"
proof -
  let ?h = "Master_HeartBeat small_config 5 (beat ''t'' [\<lparr>cr_handle = 9, cr_version = 1, cr_length = 0\<rparr>] []) two_servers sample_state"
  have h: "?h = (fst ?h, fst (snd ?h), fst (snd (snd ?h)), fst (snd (snd (snd ?h))), snd (snd (snd (snd ?h))))" by simp
  have mem: "9 \<in> set (hr_delete_handles (fst (snd (snd (snd ?h)))))" by code_simp
  show ?thesis
  proof (cases "ct_Find (ms_chunks (fst (snd ?h))) 9")
    case (Some c)
    with HeartBeat_deletes [OF h _ mem] have "1 < cm_version c" by (simp add: beat_def)
    moreover have "map_option cm_version (ct_Find (ms_chunks (fst (snd ?h))) 9) = None" by code_simp
    ultimately show ?thesis using Some by simp
  qed (use mem in simp)
qed

theorem HeartBeat_leases_witness:
  "ct_Find (ms_chunks (fst (snd (Master_HeartBeat small_config 9 (beat ''t'' [\<lparr>cr_handle = 7, cr_version = 2, cr_length = 0\<rparr>] [7])
     two_servers leased_state)))) 7 \<noteq> None \<and>
   lease_of (fst (snd (Master_HeartBeat small_config 9 (beat ''t'' [\<lparr>cr_handle = 7, cr_version = 2, cr_length = 0\<rparr>] [7])
     two_servers leased_state))) 7 = lease_of leased_state 7"
proof -
  let ?h = "Master_HeartBeat small_config 9 (beat ''t'' [\<lparr>cr_handle = 7, cr_version = 2, cr_length = 0\<rparr>] [7]) two_servers leased_state"
  have h: "?h = (fst ?h, fst (snd ?h), fst (snd (snd ?h)), fst (snd (snd (snd ?h))), snd (snd (snd (snd ?h))))" by simp
  from HeartBeat_leases [OF h leased_chunk] show ?thesis
    by (auto simp: lease_of_def leased_chunk beat_def)
qed

theorem SweepDead_forgets_witness:
  "\<exists>c'. ct_Find (ms_chunks (fst (snd (SweepDead small_config 15000000001 two_servers sample_state)))) 7 = Some c' \<and>
     holds_since ''s'' c' = None"
proof -
  let ?s = "SweepDead small_config 15000000001 two_servers sample_state"
  have s: "?s = (fst ?s, fst (snd ?s), snd (snd ?s))" by simp
  have om: "om_ok two_servers" by code_simp
  have dead: "Resolve ''s'' two_servers \<noteq> None" "Resolve ''s'' (fst ?s) = None" by code_simp+
  from SweepDead_forgets [OF sample_state_ok om s sample_chunk] dead show ?thesis by auto
qed


end
