(* ===== verification/MasterService.thy ===== *)
theory MasterService
  imports MasterChores
begin

text \<open>
  The master as a whole, \<open>src/src/master/master.cc\<close>: a step is a request that is served or one of
  the background chores, on the registry and the state machine, with the records it logs. The
  two halves of a snapshot are steps of their own, since the second one may be put off; the path
  locks the request keeps (\<open>LockTable\<close>) see to it that what it checked still holds then, which
  is the premise of \<open>finish\<close>. Other premises exclude what the handlers do not check: a hidden
  name that is a directory (\<open>MasterRequests.Remove_onto_directory\<close>), the last handle, and
  a chunkserver that reports a version for a chunk that is still being created.
\<close>

section \<open>Steps\<close>

inductive serve :: "config \<Rightarrow> registry \<times> master_state \<Rightarrow> log_record list \<Rightarrow> registry \<times> master_state \<Rightarrow> bool" for cfg where
  create: "Master_Create p ms = (ms', rs, st) \<Longrightarrow> serve cfg (sv, ms) rs (sv, ms')"
| remove: "Master_Remove now p ms = (ms', rs, st) \<Longrightarrow> \<not> ns_IsDirectory (ms_files ms) (hidden_name p (ms_files ms) now) \<Longrightarrow>
    serve cfg (sv, ms) rs (sv, ms')"
| rename: "Master_Rename cfg clock rpc s t ms = (ms', rs, st) \<Longrightarrow> serve cfg (sv, ms) rs (sv, ms')"
| snapshot: "Master_Snapshot cfg clock rpc now s t ms = (ms', outcome) \<Longrightarrow> serve cfg (sv, ms) [] (sv, ms')"
| finish: "SnapshotFinish cfg now hs s t ms = (ms', rs, st) \<Longrightarrow> check_paths s t = None \<Longrightarrow>
    check_move (ms_files ms) s t = None \<Longrightarrow> refs_fit (ms_files ms') \<Longrightarrow> serve cfg (sv, ms) rs (sv, ms')"
| add_chunk: "Master_AddChunk cfg sv create_rpc now p i ms = (ms', rs, st, code, info) \<Longrightarrow> ms_next_handle ms + 1 \<noteq> 0 \<Longrightarrow>
    serve cfg (sv, ms) rs (sv, ms')"
| find_lease: "Master_FindLeaseHolder cfg sv create_rpc now env p i ms = (ms', rs, answer) \<Longrightarrow> ms_next_handle ms + 1 \<noteq> 0 \<Longrightarrow>
    serve cfg (sv, ms) rs (sv, ms')"
| regrant: "Regrant cfg now env h ms = (ms', rs) \<Longrightarrow> not_pending h ms \<Longrightarrow> serve cfg (sv, ms) rs (sv, ms')"
| heartbeat: "Master_HeartBeat cfg now req sv ms = (sv', ms', rs, resp, regrants) \<Longrightarrow> reports_ok (hb_chunks req) ms \<Longrightarrow>
    serve cfg (sv, ms) rs (sv', ms')"
| sweep: "SweepDead cfg now sv ms = (sv', ms', regrants) \<Longrightarrow> serve cfg (sv, ms) [] (sv', ms')"
| collect: "GcPass cfg now_seconds ms = (ms', rs) \<Longrightarrow> serve cfg (sv, ms) rs (sv, ms')"

text \<open>The life of a master from its start without any data, with the log it writes.\<close>

inductive served :: "config \<Rightarrow> log_record list \<Rightarrow> registry \<times> master_state \<Rightarrow> bool" for cfg where
  fresh: "served cfg [] ([], init_master_state)"
| step: "served cfg rs x \<Longrightarrow> serve cfg x rs' y \<Longrightarrow> served cfg (rs @ rs') y"

inductive_cases serve_cases: "serve cfg (sv, ms) rs (sv', ms')"

lemma Regrant_run:
  "ms_ok ms \<Longrightarrow> not_pending h ms \<Longrightarrow> Regrant cfg now env h ms = (ms', rs) \<Longrightarrow> master_run ms rs ms'"
  using GrantSerialized_run [of ms h cfg env] run.start
  by (auto simp: Regrant_def split: option.splits if_splits prod.splits)

text \<open>Every step is a run of the logged state machine.\<close>

lemmas handler_runs = Create_run Remove_run Rename_run conjunct1 [OF Snapshot_run] SnapshotFinish_run AddChunk_run
  FindLeaseHolder_run Regrant_run HeartBeat_run SweepDead_run GcPass_facts(1)

lemma serve_run:
  assumes "serve cfg (sv, ms) rs (sv', ms')" "ms_ok ms"
  shows "master_run ms rs ms'"
  using assms by (elim serve_cases) (blast intro: handler_runs)+

lemma HeartBeat_registry:
  "Master_HeartBeat cfg now req sv ms = (sv', ms', rs, resp, regrants) \<Longrightarrow>
   sv' = fst (Touch (hb_chunkserver_id req) (hb_address req) (hb_rack req) now sv)"
  by (auto simp: Master_HeartBeat_def Let_def)

lemma serve_registry:
  assumes "serve cfg (sv, ms) rs (sv', ms')" "registry_ok sv"
  shows "registry_ok sv'"
  using assms
proof (elim serve_cases)
  fix now req resp regrants assume "Master_HeartBeat cfg now req sv ms = (sv', ms', rs, resp, regrants)"
  then show "registry_ok sv'" using HeartBeat_registry registry_ok_Touch [OF assms(2)] by metis
next
  fix now regrants assume "SweepDead cfg now sv ms = (sv', ms', regrants)"
  then have "sv' = fst (Sweep (cf_chunkserver_dead_timeout cfg) now sv)"
    by (auto simp: SweepDead_def split: prod.splits if_splits)
  then show "registry_ok sv'" using registry_ok_Sweep [OF assms(2)] by simp
qed simp_all

lemma served_run:
  "served cfg rs x \<Longrightarrow> master_run init_master_state rs (snd x) \<and> ms_ok (snd x) \<and> registry_ok (fst x)"
proof (induction rule: served.induct)
  case fresh
  then show ?case by (simp add: ms_ok_init registry_ok_def run.start)
next
  case (step rs x rs' y)
  obtain sv ms sv' ms' where xy: "x = (sv, ms)" "y = (sv', ms')" by fastforce
  note r = serve_run [OF step(2) [unfolded xy]]
  with step.IH xy serve_registry [OF step(2) [unfolded xy]] ms_ok_run [OF r] run_trans [OF r] show ?case by auto
qed

section \<open>What holds of a running master\<close>


section \<open>Handles and versions only grow\<close>

text \<open>
  A later state has no chunk that an earlier one has not, except under handles the earlier one
  had not given out, and the versions of the chunks do not go back.
\<close>

definition grows :: "u64 \<Rightarrow> chunk_table \<Rightarrow> chunk_table \<Rightarrow> bool" where
  "grows n t t' \<longleftrightarrow>
     (\<forall>h c'. ct_Find t' h = Some c' \<longrightarrow> (\<exists>c. ct_Find t h = Some c \<and> cm_version c \<le> cm_version c') \<or> n \<le> h)"

definition grown :: "master_state \<Rightarrow> master_state \<Rightarrow> bool" where
  "grown ms ms' \<longleftrightarrow> ms_next_handle ms \<le> ms_next_handle ms' \<and> grows (ms_next_handle ms) (ms_chunks ms) (ms_chunks ms')"

named_theorems grow_intros \<open>steps after which handles and versions have only grown\<close>

lemma grown_refl [grow_intros]: "grown ms ms"
  by (simp add: grown_def grows_def)

lemma grown_trans: "grown a b \<Longrightarrow> grown b c \<Longrightarrow> grown a c"
  unfolding grown_def grows_def by (meson order_trans)

lemma grown_chunks [grow_intros]: "grows (ms_next_handle ms) (ms_chunks ms) t \<Longrightarrow> grown ms (ms\<lparr>ms_chunks := t\<rparr>)"
  by (simp add: grown_def)

lemma grown_files: "ms_chunks ms' = ms_chunks ms \<Longrightarrow> ms_next_handle ms' = ms_next_handle ms \<Longrightarrow> grown ms ms'"
  by (simp add: grown_def grows_def)

lemma grows_update [grow_intros]: "(\<And>c. ct_Find t h = Some c \<Longrightarrow> cm_version c \<le> cm_version (f c)) \<Longrightarrow> grows n t (ct_update h f t)"
  by (auto simp: grows_def ct_simps split: if_splits)

lemma grows_RemoveLocation [grow_intros]: "grows n t (fst (ct_RemoveLocation h s t))"
  and grows_AddLocation [grow_intros]: "grows n t (fst (ct_AddLocation h s w t))"
  and grows_Erase [grow_intros]: "grows n t (ct_Erase h t)"
  by (auto simp: grows_def ct_simps split: if_splits)

lemma grows_trans: "grows n a b \<Longrightarrow> grows n b c \<Longrightarrow> grows n a c"
  unfolding grows_def by (meson order_trans)

lemma grows_refl [grow_intros]: "grows n t t"
  by (simp add: grows_def)

lemma grows_fold: "(\<And>x t. grows n t (f x t)) \<Longrightarrow> grows n t (fold f xs t)"
  by (rule fold_invariant [where P = "grows n t"]) (auto intro: grows_refl grows_trans)

lemma grown_fold: "(\<And>x ms. grown ms (f x ms)) \<Longrightarrow> grown ms (fold f xs ms)"
  by (rule fold_invariant [where P = "grown ms"]) (auto intro: grown_refl grown_trans)

lemma grows_fold_unref [grow_intros]: "grows n t (fold unref hs t)"
  and grows_fold_ref [grow_intros]: "grows n t (fold ref hs t)"
  by (rule grows_fold; auto simp: unref_def ref_def intro: grow_intros)+

lemma grown_update [grow_intros]: "(\<And>c. ct_Find (ms_chunks ms) h = Some c \<Longrightarrow> cm_version c \<le> cm_version (f c)) \<Longrightarrow> grown ms (update_chunk h f ms)"
  unfolding update_chunk_def by (intro grow_intros)

lemma grown_Remove [grow_intros]: "grown ms (ApplyRemove p ms)"
  by (auto simp: ApplyRemove_def grown_def intro: grow_intros split: option.split)

lemma grown_Rename [grow_intros]: "grown ms (ApplyRename s t ms)"
  by (rule grown_files) (simp_all add: ApplyRename_def)

lemma grown_Create [grow_intros]: "grown ms (ApplyCreate p ms)"
  by (rule grown_files) (simp_all add: ApplyCreate_def)

lemma grown_Snapshot [grow_intros]: "grown ms (ApplySnapshot s t ms)"
  unfolding ApplySnapshot_def
  by (rule grown_fold) (auto simp: snapshot_step_def Let_def grown_def intro: grow_intros)

lemma grown_revoke_one: "revoke_one cfg now rpc h (ms, u, w) = (ms', u', w') \<Longrightarrow> grown ms ms'"
  by (auto simp: revoke_one_def LeaseManager.Revoke_def revoke_begin_def revoke_end_def Let_def
      intro!: grow_intros intro: grown_trans [OF grown_update grown_update] split: option.splits prod.splits if_splits)

lemma grown_RevokeLeasesOn:
  assumes "RevokeLeasesOn cfg now rpc hs w ms = (ms', w')"
  shows "grown ms ms'"
proof -
  have "grown (fst acc) (fst (fold (revoke_one cfg now rpc) hs acc))" for acc
  proof (induction hs arbitrary: acc)
    case (Cons h hs)
    have "grown (fst acc) (fst (revoke_one cfg now rpc h acc))"
      using grown_revoke_one by (metis prod.collapse prod_cases3 fst_conv)
    with Cons [of "revoke_one cfg now rpc h acc"] show ?case by (auto intro: grown_trans)
  qed (simp add: grown_refl)
  from this [of "(ms, {}, w)"] assms show ?thesis by (auto simp: RevokeLeasesOn_def split: prod.splits)
qed

lemma grown_remove_locations [grow_intros]: "grown ms (remove_locations h sids ms)"
  unfolding remove_locations_def by (rule grown_fold) (intro grow_intros)

lemma grown_add_locations [grow_intros]: "grown ms (add_locations h sids t ms)"
  unfolding add_locations_def by (rule grown_fold) (intro grow_intros)

lemma grown_PrepareLocked: "PrepareLocked cfg sv h ms = (ms', a) \<Longrightarrow> grown ms ms'"
  by (auto simp: PrepareLocked_def Let_def intro!: grow_intros split: option.splits if_splits)

lemma grown_finish_round:
  "finish_round cfg sv acked now h a ms = Inl ms' \<Longrightarrow> grown ms ms'"
  "finish_round cfg sv acked now h a ms = Inr (ms', rs, r) \<Longrightarrow> grown ms ms'"
proof -
  show "grown ms ms'" if "finish_round cfg sv acked now h a ms = Inl ms'"
    using that by (auto simp: finish_round_def Let_def intro: grow_intros split: option.splits if_splits)
  assume fin: "finish_round cfg sv acked now h a ms = Inr (ms', rs, r)"
  show "grown ms ms'"
  proof (cases "ct_Find (ms_chunks ms) h")
    case (Some c)
    let ?v = "max (cm_version c) (at_version a)"
    have "grown ms (update_chunk h (\<lambda>c. c\<lparr>cm_version := ?v\<rparr>) ms)" using Some by (intro grow_intros) simp
    moreover from fin Some obtain l where
      "ms' = update_chunk h (\<lambda>c. c\<lparr>cm_granting := False, cm_lease := l\<rparr>) (update_chunk h (\<lambda>c. c\<lparr>cm_version := ?v\<rparr>) ms)"
      by (auto simp: finish_round_def Let_def remove_locations_def split: if_splits)
    ultimately show ?thesis by (auto intro!: grown_update elim: grown_trans)
  qed (use fin in \<open>auto simp: finish_round_def intro: grow_intros\<close>)
qed

lemma grown_grant_rounds: "grown ms (fst (grant_rounds cfg envs h ms))"
proof (induction envs arbitrary: ms)
  case (Cons env envs)
  obtain ms1 a where p: "PrepareLocked cfg (re_before env) h ms = (ms1, a)" by fastforce
  note g = grown_PrepareLocked [OF p]
  show ?case
  proof (cases a)
    case None
    have "grown ms1 (clear_granting h ms1)" unfolding clear_granting_def by (intro grow_intros) simp
    then show ?thesis using p None grown_trans [OF g] by simp
  next
    case (Some att)
    show ?thesis
    proof (cases "finish_round cfg (re_after env) (re_acked env) (re_now env) h att ms1")
      case (Inl ms2)
      from grown_trans [OF grown_trans [OF g grown_finish_round(1) [OF Inl]] Cons] show ?thesis using p Some Inl by simp
    next
      case (Inr b)
      obtain m rs r where b: "b = (m, rs, r)" by (cases b)
      from grown_trans [OF g grown_finish_round(2) [OF Inr [unfolded b]]] show ?thesis using p Some Inr b by simp
    qed
  qed
qed (auto simp: clear_granting_def intro!: grow_intros)

lemma grown_Grant: "GrantSerialized cfg env h ms = (ms', rs, r) \<Longrightarrow> grown ms ms'"
  unfolding GrantSerialized_def using grown_grant_rounds by (metis fst_conv)

lemma grown_AllocHandle: "AllocHandle ms = (ms1, rs, h) \<Longrightarrow> grown ms ms1 \<and> ct_Find (ms_chunks ms1) h \<noteq> None"
  by (auto simp: AllocHandle_def ApplyAllocHandle_def Let_def grown_def grows_def ct_simps split: option.splits if_splits)

lemma Find_add_locations_None: "ct_Find (ms_chunks (add_locations h ids t ms)) h' = None \<longleftrightarrow> ct_Find (ms_chunks ms) h' = None"
  by (simp add: Find_add_locations)

lemma grown_put:
  assumes "ct_Find (ms_chunks ms) h \<noteq> None"
  shows "grown ms (ApplyAddChunk p i h ms)" "grown ms (ApplyReplaceChunk p i h ms)"
proof -
  have adopt: "grows n t (adopt_chunk h t)" if "ct_Find t h \<noteq> None" for n t
    using that by (auto simp: grows_def ct_simps Let_def split: if_splits)
  have unref: "grows n t (adopt_chunk h (unref k t))" if "ct_Find t h \<noteq> None" for n t k
    using grows_fold_unref [of n t "[k]"] adopt [of "unref k t" n] that grows_trans unref_Find [of "[k]" t h] by fastforce
  have alloc: "grown ms (ApplyAllocHandle h m)" if "ms_next_handle m = ms_next_handle ms" "grows (ms_next_handle ms) (ms_chunks ms) (ms_chunks m)" for m
    using that by (simp add: ApplyAllocHandle_def grown_def)
  show r: "grown ms (ApplyReplaceChunk p i h ms)"
    using assms unref by (auto simp: ApplyReplaceChunk_def Let_def intro!: alloc grown_refl split: option.split)
  show "grown ms (ApplyAddChunk p i h ms)"
  proof (cases "\<exists>m. ns_Find (ms_files ms) p = Some m \<and> i = length (fm_chunks m)")
    case True
    then obtain m where m: "ns_Find (ms_files ms) p = Some m" "i = length (fm_chunks m)" by blast
    show ?thesis
      unfolding ApplyAddChunk_def m option.case if_not_P [OF less_irrefl] using adopt [OF assms] by (simp add: alloc)
  next
    case False
    then have "ApplyAddChunk p i h ms = ms \<or> ApplyAddChunk p i h ms = ApplyReplaceChunk p i h ms"
      by (auto simp: ApplyAddChunk_def split: option.split)
    then show ?thesis using r grown_refl by auto
  qed
qed

lemma grown_drop_new: "grown ms (drop_new h ms)"
  unfolding drop_new_def by (intro grow_intros)

lemma grown_AddChunk:
  assumes "Master_AddChunk cfg sv rpc t p i ms = (ms', rs, st, code, info)"
  shows "grown ms ms'"
  using assms
proof (cases rule: AddChunk_cases)
  case (failed m ms1 h)
  then show ?thesis using grown_trans [OF conjunct1 [OF grown_AllocHandle [OF failed(1)]] grown_drop_new] by simp
next
  case (added m ms1 rs1 h created)
  note a = grown_AllocHandle [OF added(1)]
  have "ct_Find (ms_chunks (add_locations h created t ms1)) h \<noteq> None" using a by (simp only: Find_add_locations_None not_False_eq_True)
  then show ?thesis
    unfolding added(7) using a by (intro grown_trans [OF _ grown_trans [OF grown_add_locations grown_put(1)]]) auto
qed (simp add: grown_refl)

lemma grown_CopyOnWrite:
  assumes "CopyOnWrite cfg sv rpc t p i old ms = (ms', rs, h)"
  shows "grown ms ms'"
  using assms
proof (cases rule: CopyOnWrite_cases)
  case (failed ms1 new)
  then show ?thesis using grown_trans [OF conjunct1 [OF grown_AllocHandle [OF failed(1)]] grown_drop_new] by simp
next
  case (copied m c ms1 rs1 created)
  note a = grown_AllocHandle [OF copied(1)]
  have "ct_Find (ms_chunks (add_locations h created t ms1)) h \<noteq> None" using a by (simp only: Find_add_locations_None not_False_eq_True)
  then show ?thesis
    unfolding copied(10) using a by (intro grown_trans [OF _ grown_trans [OF grown_add_locations grown_put(2)]]) auto
qed (simp add: grown_refl)

lemma grown_lease_on: "lease_on cfg sv t env h ms = (ms', rs, r) \<Longrightarrow> grown ms ms'"
proof -
  assume on: "lease_on cfg sv t env h ms = (ms', rs, r)"
  have "grown ms ms' \<or> (\<exists>rs g. GrantSerialized cfg env h ms = (ms', rs, g)) \<or>
      (\<exists>rs g. GrantSerialized cfg env h (update_chunk h (\<lambda>c. c\<lparr>cm_lease := None\<rparr>) ms) = (ms', rs, g))"
    using on by (auto simp: lease_on_def Let_def grown_refl split: option.splits if_splits prod.splits)
  moreover have "grown ms (update_chunk h (\<lambda>c. c\<lparr>cm_lease := None\<rparr>) ms)" by (intro grow_intros) simp
  ultimately show ?thesis using grown_Grant grown_trans by blast
qed

lemma grown_FindLeaseHolder:
  assumes "Master_FindLeaseHolder cfg sv rpc t env p i ms = (ms', rs, r)"
  shows "grown ms ms'"
proof (cases "CheckPath p False")
  case None
  then have "FindLeaseHolderAttempt cfg sv rpc t env p i ms = (ms', rs, r)" using assms by (simp add: Master_FindLeaseHolder_def)
  then show ?thesis
    by (cases rule: FindLeaseHolderAttempt_cases)
      (auto intro: grown_refl grown_lease_on grown_CopyOnWrite grown_trans [OF grown_CopyOnWrite grown_lease_on])
qed (use assms in \<open>simp add: Master_FindLeaseHolder_def grown_refl\<close>)

lemma grown_HeartBeat:
  assumes "ms_ok ms" "reports_ok (hb_chunks req) ms" "Master_HeartBeat cfg t req sv ms = (sv', ms', rs, resp, regrants)"
  shows "grown ms ms'"
proof -
  have "ms_next_handle ms' = ms_next_handle ms"
  proof -
    have "ms_next_handle (hp_ms (hb_report cfg sid t r hp)) = ms_next_handle (hp_ms hp)" for sid r hp
      by (auto simp: hb_report_def Let_def case_prod_unfold add_location_def remove_location_def update_chunk_def split: option.split)
    then have "ms_next_handle (hp_ms (fold (hb_report cfg sid t) rs hp)) = ms_next_handle (hp_ms hp)" for sid rs hp
      by (induction rs arbitrary: hp) simp_all
    moreover have "ms_next_handle (hp_ms (hb_missing cfg sid t k hp)) = ms_next_handle (hp_ms hp)"
      "ms_next_handle (hp_ms (hb_corrupted cfg sid t k hp)) = ms_next_handle (hp_ms hp)"
      "ms_next_handle (hp_ms (hb_extend cfg sid t k hp)) = ms_next_handle (hp_ms hp)" for sid k hp
      by (auto simp: hb_missing_def hb_corrupted_def hb_extend_def Let_def case_prod_unfold remove_location_def update_chunk_def
          split: option.split)
    then have "ms_next_handle (hp_ms (fold (hb_missing cfg sid t) ks hp)) = ms_next_handle (hp_ms hp)"
      "ms_next_handle (hp_ms (fold (hb_corrupted cfg sid t) ks hp)) = ms_next_handle (hp_ms hp)"
      "ms_next_handle (hp_ms (fold (hb_extend cfg sid t) ks hp)) = ms_next_handle (hp_ms hp)" for sid ks hp
      by (induction ks arbitrary: hp) simp_all
    ultimately show ?thesis using assms(3) by (auto simp: Master_HeartBeat_def Let_def)
  qed
  moreover have "\<exists>c. ct_Find (ms_chunks ms) h = Some c \<and> cm_version c \<le> cm_version c'" if "ct_Find (ms_chunks ms') h = Some c'" for h c'
  proof -
    obtain hp1 where one: "hp_chunk hp1 h = map_option (fold (report_meta (hb_chunkserver_id req) t)
          (filter (\<lambda>r. cr_handle r = h) (hb_chunks req))) (ct_Find (ms_chunks ms) h)"
      and last: "ct_Find (ms_chunks ms') h = map_option (\<lambda>c.
         fold (\<lambda>_ c. fst (ExtendLocked cfg (hb_chunkserver_id req) t c)) (filter (\<lambda>k. k = h) (hb_lease_extension_requests req))
           (if h \<in> set (hb_corrupt req) \<or> (h \<in> set (ct_HeldBy (ms_chunks ms) (hb_chunkserver_id req)) \<and>
                h \<notin> hp_reported hp1 \<and> \<not> recent cfg (hb_chunkserver_id req) t c)
            then forget (hb_chunkserver_id req) c else c)) (hp_chunk hp1 h)"
      by (rule HeartBeat_passes [OF assms(3)]) blast
    show ?thesis using that one last fold_report by (auto simp: fold_extend)
  qed
  ultimately show ?thesis by (simp add: grown_def grows_def)
qed

lemma grown_sweep:
  assumes "ms_ok ms" "SweepDead cfg t sv ms = (sv', ms', regrants)"
  shows "grown ms ms'"
proof -
  have e: "ms' = fst (fold (sweep_server cfg t) (snd (Sweep (cf_chunkserver_dead_timeout cfg) t sv)) (ms, []))"
    using assms(2) by (auto simp: SweepDead_def split: prod.splits if_splits)
  have s: "quiet_from ms ms'"
    "ct_Find (ms_chunks ms') h = map_option (fold forget (snd (Sweep (cf_chunkserver_dead_timeout cfg) t sv))) (ct_Find (ms_chunks ms) h)" for h
    using sweep_servers [of "(ms, [])"] assms(1) e by auto
  then show ?thesis by (auto simp: grown_def grows_def quiet_from_def fold_forget)
qed

lemma grown_gc:
  assumes "ms_ok ms" "GcPass cfg now ms = (ms', rs)"
  shows "grown ms ms'"
proof -
  have "ms_next_handle ms' = ms_next_handle ms"
  proof -
    obtain ms1 rs1 where rem: "fold gc_remove (expired_files cfg now (ms_files ms)) (ms, []) = (ms1, rs1)" by fastforce
    have "ms_next_handle (fst (fold gc_drop hs acc)) = ms_next_handle (fst acc)" for hs acc
      by (induction hs arbitrary: acc) (auto simp: gc_drop_def ApplyDropChunk_def split: prod.splits)
    from this [of "orphans ms1" "(ms1, rs1)"] gc_remove_chunks [OF rem] show ?thesis
      using assms(2) rem by (simp add: GcPass_def Let_def)
  qed
  moreover have "\<exists>c. ct_Find (ms_chunks ms) h = Some c \<and> cm_version c \<le> cm_version c'" if here: "ct_Find (ms_chunks ms') h = Some c'" for h c'
  proof -
    obtain c where "ct_Find (ms_chunks ms) h = Some c" "c' = c\<lparr>cm_refcount := cm_refcount c'\<rparr>"
      using GcPass_facts(5) [OF assms here] by blast
    moreover from this(2) have "cm_version c' = cm_version c" by (cases c; cases c') simp
    ultimately show ?thesis by auto
  qed
  ultimately show ?thesis by (simp add: grown_def grows_def)
qed

lemma grown_reset: "grown ms (reset_invalid cfg t h ms)"
  by (auto simp: reset_invalid_def intro!: grow_intros split: option.split)

lemma grown_handlers:
  "Master_Create p ms = (ms', rs, st) \<Longrightarrow> grown ms ms'"
  "Master_Remove now p ms = (ms', rs, st) \<Longrightarrow> grown ms ms'"
  "Master_Rename cfg clock rpc s t ms = (ms', rs, st) \<Longrightarrow> grown ms ms'"
  "Master_Snapshot cfg clock rpc tm s t ms = (ms', outcome) \<Longrightarrow> grown ms ms'"
  "SnapshotFinish cfg tm hs s t ms = (ms', rs, st) \<Longrightarrow> grown ms ms'"
  "Regrant cfg tm env h ms = (ms', rs) \<Longrightarrow> grown ms ms'"
proof -
  show "Master_Create p ms = (ms', rs, st) \<Longrightarrow> grown ms ms'"
    by (auto simp: Master_Create_def intro: grow_intros split: option.splits if_splits)
  show "Master_Remove now p ms = (ms', rs, st) \<Longrightarrow> grown ms ms'"
    by (auto simp: Master_Remove_def Let_def intro: grow_intros split: option.splits if_splits)
  show "Master_Rename cfg clock rpc s t ms = (ms', rs, st) \<Longrightarrow> grown ms ms'"
    by (auto simp: Master_Rename_def intro: grow_intros grown_trans [OF grown_RevokeLeasesOn grown_Rename] split: option.splits prod.splits)
  show "Master_Snapshot cfg clock rpc tm s t ms = (ms', outcome) \<Longrightarrow> grown ms ms'"
    by (auto simp: Master_Snapshot_def Let_def intro: grow_intros grown_RevokeLeasesOn split: option.splits prod.splits)
  show "SnapshotFinish cfg tm hs s t ms = (ms', rs, st) \<Longrightarrow> grown ms ms'"
    by (auto simp: SnapshotFinish_def intro: grown_trans [OF grown_fold [OF grown_reset] grown_Snapshot])
  show "Regrant cfg tm env h ms = (ms', rs) \<Longrightarrow> grown ms ms'"
    by (auto simp: Regrant_def intro: grown_refl grown_Grant split: option.splits if_splits prod.splits)
qed

lemma serve_grown:
  assumes "serve cfg (sv, ms) rs (sv', ms')" "ms_ok ms"
  shows "grown ms ms'"
  using assms
  by (elim serve_cases)
    (blast intro: grown_handlers grown_AddChunk grown_FindLeaseHolder grown_HeartBeat grown_sweep grown_gc)+

inductive serves :: "config \<Rightarrow> registry \<times> master_state \<Rightarrow> registry \<times> master_state \<Rightarrow> bool" for cfg x where
  none: "serves cfg x x"
| more: "serves cfg x y \<Longrightarrow> serve cfg y rs z \<Longrightarrow> serves cfg x z"

lemma serves_grown:
  "serves cfg x y \<Longrightarrow> ms_ok (snd x) \<Longrightarrow> ms_ok (snd y) \<and> grown (snd x) (snd y)"
proof (induction rule: serves.induct)
  case (more y rs z)
  obtain sv ms sv' ms' where yz: "y = (sv, ms)" "z = (sv', ms')" by fastforce
  have s: "serve cfg (sv, ms) rs (sv', ms')" using more.hyps(2) yz by simp
  have ok: "ms_ok ms" "grown (snd x) ms" using more.IH more.prems yz by auto
  show ?case
    using ms_ok_run [OF serve_run [OF s ok(1)] ok(1)] grown_trans [OF ok(2) serve_grown [OF s ok(1)]] yz by simp
qed (simp add: grown_refl)

text \<open>
  C19: whatever the master serves, the version of a chunk never goes back, and a handle that
  was given out and whose chunk is gone is never used for a chunk again.
\<close>

theorem handles_not_reused:
  assumes "served cfg rs x" "serves cfg x y" "ct_Find (ms_chunks (snd y)) h = Some c'"
  shows "(\<exists>c. ct_Find (ms_chunks (snd x)) h = Some c \<and> cm_version c \<le> cm_version c') \<or> ms_next_handle (snd x) \<le> h"
  using serves_grown [OF assms(2)] served_run [OF assms(1)] assms(3) by (auto simp: grown_def grows_def)

section \<open>Witnesses\<close>

text \<open>A master that has created a file and heard of a chunkserver.\<close>

lemma served_sample: "served cfg [CreateRec ''/a''] ([], fst (Master_Create ''/a'' init_master_state))"
proof -
  have "snd (Master_Create ''/a'' init_master_state) = ([CreateRec ''/a''], StatusOk)" by code_simp
  then have "Master_Create ''/a'' init_master_state =
      (fst (Master_Create ''/a'' init_master_state), [CreateRec ''/a''], StatusOk)" by (simp add: prod_eq_iff)
  from served.step [OF served.fresh serve.create [OF this]] show ?thesis by simp
qed


text \<open>Then a chunkserver reports in, and a chunk is added to the file.\<close>

theorem handles_not_reused_witness:
  "\<exists>y c'. serves small_config ([], fst (Master_Create ''/a'' init_master_state)) y \<and> ct_Find (ms_chunks (snd y)) 1 = Some c' \<and>
     (ms_next_handle (fst (Master_Create ''/a'' init_master_state)) \<le> 1 \<or>
      ct_Find (ms_chunks (fst (Master_Create ''/a'' init_master_state))) 1 \<noteq> None)"
proof -
  let ?ms = "fst (Master_Create ''/a'' init_master_state)"
  let ?req = "\<lparr>hb_chunkserver_id = ''s'', hb_address = ''10.0.0.1:1'', hb_rack = ''r'', hb_chunks = [],
     hb_lease_extension_requests = [], hb_corrupt = []\<rparr>"
  have beat: "Master_HeartBeat small_config 0 ?req [] ?ms = (one_server, ?ms, [], \<lparr>hr_delete_handles = [], hr_extended = []\<rparr>, [])"
    by (simp add: Master_HeartBeat_def Let_def one_server_def Master_Create_def CheckPath_def ApplyCreate_def ct_HeldBy_def
        init_master_state_def empty_chunk_table_def split: option.split)
  let ?add = "Master_AddChunk small_config one_server (\<lambda>_ _ _ _. True) 0 ''/a'' 0 ?ms"
  obtain ms' rs st code info where add: "?add = (ms', rs, st, code, info)" by (metis prod_cases5)
  have "serves small_config ([], ?ms) (one_server, ?ms)"
    by (rule serves.more [OF serves.none serve.heartbeat [OF beat]]) (simp add: reports_ok_def)
  moreover have "ms_next_handle ?ms + 1 \<noteq> 0" by code_simp
  ultimately have y: "serves small_config ([], ?ms) (one_server, ms')"
    using serves.more [OF _ serve.add_chunk [OF add]] by blast
  have "map_option cm_version (ct_Find (ms_chunks (fst ?add)) 1) = Some 1" by code_simp
  then obtain c' where c': "ct_Find (ms_chunks ms') 1 = Some c'" using add by auto
  from handles_not_reused [OF served_sample y, of 1 c'] c' y show ?thesis
    by (intro exI [of _ "(one_server, ms')"] exI [of _ c']) auto
qed

end
