(* ===== verification/Codec.thy ===== *)
theory Codec
  imports Prelude
begin

text \<open>
  Byte-level encodings: the record framing of \<open>src/src/common/framing.cc\<close> (used by the
  operation log and the checkpoints), the little-endian integers of
  \<open>src/src/chunkserver/chunk_store.cc\<close> and the hexadecimal handles of
  \<open>src/src/common/ids.cc\<close>. The checksum is zlib's \<open>crc32\<close>, which is not part of the
  sources: every definition takes it as the argument \<open>crc\<close>, and no lemma assumes
  anything about it.
\<close>

unbundle bit_operations_syntax

section \<open>Little-endian integers\<close>

definition byte_of :: "'a::len word \<Rightarrow> char" where
  "byte_of v = char_of (unat (v AND 255))"

definition word_of_byte :: "char \<Rightarrow> 'a::len word" where
  "word_of_byte c = of_nat (of_char c)"

text \<open>\<open>for (i = 0; i < n; ++i) buf[i] = (v >> (8 * i)) & 0xff\<close>\<close>

definition put_le :: "nat \<Rightarrow> 'a::len word \<Rightarrow> bytes" where
  "put_le n v = map (\<lambda>i. byte_of (drop_bit (8 * i) v)) [0..<n]"

text \<open>\<open>for (i = 0; i < n; ++i) v |= p[i] << (8 * i)\<close>\<close>

definition get_le :: "nat \<Rightarrow> bytes \<Rightarrow> 'a::len word" where
  "get_le n p = fold (\<lambda>i v. v OR push_bit (8 * i) (word_of_byte (p ! i))) [0..<n] 0"

definition PutU32 :: "u32 \<Rightarrow> bytes" where
  "PutU32 v = put_le 4 v"

definition GetU32 :: "bytes \<Rightarrow> u32" where
  "GetU32 p = get_le 4 p"

definition EncodeU64 :: "u64 \<Rightarrow> bytes" where
  "EncodeU64 v = put_le 8 v"

definition DecodeU64 :: "bytes \<Rightarrow> u64" where
  "DecodeU64 p = get_le 8 p"

lemma length_put_le [simp]: "length (put_le n v) = n"
  by (simp add: put_le_def)

lemma word_of_byte_of: "word_of_byte (byte_of v) = v AND 255"
proof -
  have "unat (v AND 255) \<le> unat (255 :: 'a word)"
    by (rule word_and_le1 [THEN word_le_nat_alt [THEN iffD1]])
  also have "\<dots> \<le> 255"
    using unat_of_nat [of 255, where ?'a = 'a] mod_less_eq_dividend [of 255 "2 ^ LENGTH('a)"]
    by simp
  finally have "unat (v AND 255) < 256" by simp
  then show ?thesis by (simp add: word_of_byte_def byte_of_def)
qed

lemma get_put_le:
  "k \<le> n \<Longrightarrow> get_le k (put_le n v @ r) = take_bit (8 * k) (v :: 'a::len word)"
proof (induction k)
  case 0
  then show ?case by (simp add: get_le_def)
next
  case (Suc k)
  have nth: "(put_le n v @ r) ! k = byte_of (drop_bit (8 * k) v)"
    using Suc.prems by (simp add: put_le_def nth_append)
  have "get_le (Suc k) (put_le n v @ r) =
      take_bit (8 * k) v OR push_bit (8 * k) (drop_bit (8 * k) v AND 255)"
    using Suc nth by (simp add: get_le_def word_of_byte_of)
  also have "\<dots> = take_bit (8 * Suc k) v"
  proof (rule bit_word_eqI)
    fix m
    have "bit (255 :: 'a word) j \<longleftrightarrow> j < 8" if "j < LENGTH('a)" for j
      using that bit_mask_iff [where ?'a = "'a word", of 8 j] by (simp add: mask_eq_exp_minus_1)
    moreover assume "m < LENGTH('a)"
    ultimately show "bit (take_bit (8 * k) v OR push_bit (8 * k) (drop_bit (8 * k) v AND 255)) m \<longleftrightarrow>
        bit (take_bit (8 * Suc k) v) m"
      by (auto simp: bit_or_iff bit_and_iff bit_push_bit_iff bit_drop_bit_eq bit_take_bit_iff)
  qed
  finally show ?case .
qed

lemma GetU32_PutU32 [simp]: "GetU32 (PutU32 v @ r) = v"
  using get_put_le [of 4 4 v r] by (simp add: GetU32_def PutU32_def take_bit_word_eq_self)

lemma DecodeU64_EncodeU64 [simp]: "DecodeU64 (EncodeU64 v @ r) = v"
  using get_put_le [of 8 8 v r] by (simp add: DecodeU64_def EncodeU64_def take_bit_word_eq_self)

lemma length_PutU32 [simp]: "length (PutU32 v) = 4"
  by (simp add: PutU32_def)

lemma length_EncodeU64 [simp]: "length (EncodeU64 v) = 8"
  by (simp add: EncodeU64_def)


text \<open>Every byte string of the right length is the encoding of the word it decodes to.\<close>

lemma bit_word_of_byte:
  "bit (word_of_byte c :: 'a::len word) m \<longleftrightarrow> m < LENGTH('a) \<and> bit (of_char c :: nat) m"
  by (simp add: word_of_byte_def bit_of_nat_iff)

lemma bit_of_char_bound: "bit (of_char c :: nat) m \<Longrightarrow> m < 8"
proof (rule ccontr)
  assume bit: "bit (of_char c :: nat) m" and "\<not> m < 8"
  then have "(2 :: nat) ^ 8 \<le> 2 ^ m" by (intro power_increasing) simp_all
  moreover have "(of_char c :: nat) < 2 ^ 8" by simp
  ultimately have "(of_char c :: nat) < 2 ^ m" by linarith
  with bit show False by (simp add: bit_iff_odd)
qed

lemma bit_get_le:
  "bit (get_le n p :: 'a::len word) m \<longleftrightarrow>
     m < LENGTH('a) \<and> m < 8 * n \<and> bit (of_char (p ! (m div 8)) :: nat) (m mod 8)"
proof (induction n)
  case 0
  then show ?case by (simp add: get_le_def)
next
  case (Suc n)
  have "get_le (Suc n) p = (get_le n p OR push_bit (8 * n) (word_of_byte (p ! n)) :: 'a word)"
    by (simp add: get_le_def)
  then have "bit (get_le (Suc n) p :: 'a word) m \<longleftrightarrow>
      (m < LENGTH('a) \<and> m < 8 * n \<and> bit (of_char (p ! (m div 8)) :: nat) (m mod 8)) \<or>
      (m < LENGTH('a) \<and> 8 * n \<le> m \<and> bit (of_char (p ! n) :: nat) (m - 8 * n))"
    using Suc.IH by (auto simp: bit_or_iff bit_push_bit_iff bit_word_of_byte)
  moreover have "m div 8 = n \<and> m mod 8 = m - 8 * n" if "8 * n \<le> m" "m < 8 * Suc n"
  proof -
    from that obtain r where "m = 8 * n + r" "r < 8"
      by (metis add_less_cancel_left le_Suc_ex mult_Suc_right add.commute)
    then show ?thesis by simp
  qed
  moreover have "m < 8 * Suc n" if "bit (of_char (p ! n) :: nat) (m - 8 * n)"
    using bit_of_char_bound [OF that] by simp
  ultimately show ?case by (cases "8 * n \<le> m") auto
qed

lemma put_get_le:
  assumes "n \<le> length b" "8 * n \<le> LENGTH('a::len)"
  shows "put_le n (get_le n b :: 'a word) = take n b"
proof (rule nth_equalityI)
  show "length (put_le n (get_le n b :: 'a word)) = length (take n b)"
    using assms by simp
  fix i assume "i < length (put_le n (get_le n b :: 'a word))"
  then have i: "i < n" by simp
  let ?w = "drop_bit (8 * i) (get_le n b :: 'a word) AND 255"
  have "unat ?w = (of_char (b ! i) :: nat)"
  proof (rule bit_eqI)
    fix m
    have mask: "bit (255 :: 'a word) j \<longleftrightarrow> j < 8" if "j < LENGTH('a)" for j
      using that bit_mask_iff [where ?'a = "'a word", of 8 j] by (simp add: mask_eq_exp_minus_1)
    have "(8 * i + m) div 8 = i \<and> (8 * i + m) mod 8 = m \<and> 8 * i + m < LENGTH('a) \<and> 8 * i + m < 8 * n"
      if "m < 8" using that i assms(2) by auto
    then show "bit (unat ?w) m \<longleftrightarrow> bit (of_char (b ! i) :: nat) m"
      using mask [of m] bit_of_char_bound [of "b ! i" m]
      by (auto simp: bit_unsigned_iff bit_and_iff bit_drop_bit_eq bit_get_le)
  qed
  then have "byte_of (drop_bit (8 * i) (get_le n b :: 'a word)) = b ! i"
    by (simp add: byte_of_def)
  with i show "put_le n (get_le n b :: 'a word) ! i = take n b ! i"
    by (simp add: put_le_def)
qed

lemma PutU32_GetU32: "4 \<le> length b \<Longrightarrow> PutU32 (GetU32 b) = take 4 b"
  using put_get_le [of 4 b, where ?'a = 32] by (simp add: PutU32_def GetU32_def)

section \<open>Records framed by length and checksum\<close>

definition kFrameHeaderSize :: nat where
  "kFrameHeaderSize = 8"

definition EncodeRecord :: "(bytes \<Rightarrow> u32) \<Rightarrow> bytes \<Rightarrow> bytes" where
  "EncodeRecord crc payload = PutU32 (of_nat (length payload)) @ PutU32 (crc payload) @ payload"

record decoded_records =
  payloads :: "bytes list"
  consumed :: nat
  torn_tail :: bool

function decode_loop ::
    "(bytes \<Rightarrow> u32) \<Rightarrow> bytes \<Rightarrow> nat \<Rightarrow> bytes list \<Rightarrow> bytes list \<times> nat \<times> bool" where
  "decode_loop crc b pos acc =
     (if pos + kFrameHeaderSize \<le> length b then
        (let len = unat (GetU32 (drop pos b)); c = GetU32 (drop (pos + 4) b)
         in if pos + kFrameHeaderSize + len > length b then (acc, pos, True)
            else let payload = take len (drop (pos + kFrameHeaderSize) b)
                 in if crc payload \<noteq> c then (acc, pos, True)
                    else decode_loop crc b (pos + kFrameHeaderSize + len) (acc @ [payload]))
      else (acc, pos, False))"
  by pat_completeness auto
termination
  by (relation "measure (\<lambda>(crc, b, pos, acc). length b - pos)") (auto simp: kFrameHeaderSize_def)

declare decode_loop.simps [simp del]

definition DecodeRecords :: "(bytes \<Rightarrow> u32) \<Rightarrow> bytes \<Rightarrow> decoded_records" where
  "DecodeRecords crc b =
     (let (ps, pos, torn) = decode_loop crc b 0 []
      in \<lparr>payloads = ps, consumed = pos, torn_tail = torn \<or> pos < length b\<rparr>)"

definition frames :: "(bytes \<Rightarrow> u32) \<Rightarrow> bytes list \<Rightarrow> bytes" where
  "frames crc ps = concat (map (EncodeRecord crc) ps)"

lemma frames_simps [simp]:
  "frames crc [] = []" "frames crc (p # ps) = EncodeRecord crc p @ frames crc ps"
  "frames crc (ps @ qs) = frames crc ps @ frames crc qs"
  by (simp_all add: frames_def)

lemma length_EncodeRecord [simp]: "length (EncodeRecord crc p) = kFrameHeaderSize + length p"
  by (simp add: EncodeRecord_def kFrameHeaderSize_def)

text \<open>One whole frame is consumed and its payload is returned.\<close>

lemma decode_frame:
  assumes "length p < 2 ^ 32" "pos = length a" "b = a @ EncodeRecord crc p @ r"
  shows "decode_loop crc b pos acc = decode_loop crc b (pos + length (EncodeRecord crc p)) (acc @ [p])"
proof -
  have drops: "drop pos b = PutU32 (of_nat (length p)) @ PutU32 (crc p) @ p @ r"
    "drop (pos + 4) b = PutU32 (crc p) @ p @ r" "drop (pos + kFrameHeaderSize) b = p @ r"
    using assms by (simp_all add: EncodeRecord_def kFrameHeaderSize_def)
  have len: "unat (of_nat (length p) :: u32) = length p"
    using assms(1) by (simp add: unat_of_nat)
  have fits: "pos + kFrameHeaderSize \<le> length b" "\<not> length b < pos + kFrameHeaderSize + length p"
    using assms by (simp_all add: kFrameHeaderSize_def)
  show ?thesis
    using fits by (subst decode_loop.simps) (simp add: drops len add.assoc)
qed

lemma decode_frames:
  assumes "\<forall>p \<in> set ps. length p < 2 ^ 32" "b = a @ frames crc ps @ r"
  shows "decode_loop crc b (length a) acc =
           decode_loop crc b (length a + length (frames crc ps)) (acc @ ps)"
  using assms
proof (induction ps arbitrary: a acc)
  case Nil
  then show ?case by simp
next
  case (Cons p ps)
  have "decode_loop crc b (length a) acc =
      decode_loop crc b (length (a @ EncodeRecord crc p)) (acc @ [p])"
    using decode_frame [of p "length a" a b crc "frames crc ps @ r" acc] Cons.prems by simp
  also have "\<dots> = decode_loop crc b (length (a @ EncodeRecord crc p) + length (frames crc ps))
      ((acc @ [p]) @ ps)"
    by (rule Cons.IH) (use Cons.prems in simp_all)
  finally show ?case by (simp add: add.assoc)
qed

text \<open>A proper prefix of a frame stops the loop: it is a torn tail.\<close>

lemma decode_torn:
  assumes "length p < 2 ^ 32" "b = a @ take n (EncodeRecord crc p)" "n < length (EncodeRecord crc p)"
  shows "\<exists>t. decode_loop crc b (length a) acc = (acc, length a, t)"
proof (cases "n < kFrameHeaderSize")
  case True
  then have "\<not> length a + kFrameHeaderSize \<le> length b" using assms by simp
  then have "decode_loop crc b (length a) acc = (acc, length a, False)"
    by (subst decode_loop.simps) simp
  then show ?thesis by blast
next
  case False
  then have n: "take n (EncodeRecord crc p) =
      PutU32 (of_nat (length p)) @ PutU32 (crc p) @ take (n - 8) p"
    by (simp add: EncodeRecord_def kFrameHeaderSize_def)
  have len: "unat (of_nat (length p) :: u32) = length p"
    using assms(1) by (simp add: unat_of_nat)
  have "length b < length a + kFrameHeaderSize + length p"
    using assms(2,3) n False by (simp add: kFrameHeaderSize_def)
  moreover have "drop (length a) b = PutU32 (of_nat (length p)) @ PutU32 (crc p) @ take (n - 8) p"
    using assms(2) n by simp
  ultimately show ?thesis by (subst decode_loop.simps) (auto simp: len)
qed

lemma DecodeRecords_torn:
  assumes "\<forall>q \<in> set (ps @ [p]). length q < 2 ^ 32" "n < length (EncodeRecord crc p)"
  shows "DecodeRecords crc (frames crc ps @ take n (EncodeRecord crc p)) =
           \<lparr>payloads = ps, consumed = length (frames crc ps), torn_tail = 0 < n\<rparr>"
proof -
  let ?b = "frames crc ps @ take n (EncodeRecord crc p)"
  have "decode_loop crc ?b 0 [] = decode_loop crc ?b (length (frames crc ps)) ps"
    using decode_frames [of ps ?b "[]" crc "take n (EncodeRecord crc p)" "[]"] assms by simp
  moreover obtain t where "decode_loop crc ?b (length (frames crc ps)) ps =
      (ps, length (frames crc ps), t)"
    using decode_torn [of p ?b "frames crc ps" n crc ps] assms by auto
  moreover have "\<not> t" if "n = 0"
  proof -
    have "decode_loop crc ?b (length (frames crc ps)) ps = (ps, length (frames crc ps), False)"
      using that by (subst decode_loop.simps) (simp add: kFrameHeaderSize_def)
    with calculation show ?thesis by simp
  qed
  ultimately show ?thesis using assms(2) by (auto simp: DecodeRecords_def)
qed

lemma DecodeRecords_frames:
  assumes "\<forall>q \<in> set ps. length q < 2 ^ 32"
  shows "DecodeRecords crc (frames crc ps) =
           \<lparr>payloads = ps, consumed = length (frames crc ps), torn_tail = False\<rparr>"
  using DecodeRecords_torn [of ps "[]" 0 crc] assms by (simp add: kFrameHeaderSize_def)

text \<open>Whatever the bytes are, the consumed part is exactly the frames of the payloads.\<close>

lemma decode_loop_sound:
  assumes "decode_loop crc b pos acc = (ps, e, t)" "take pos b = frames crc acc" "pos \<le> length b"
  shows "take e b = frames crc ps \<and> e \<le> length b"
  using assms
proof (induction crc b pos acc rule: decode_loop.induct)
  case (1 crc b pos acc)
  let ?len = "unat (GetU32 (drop pos b))" and ?c = "GetU32 (drop (pos + 4) b)"
  let ?p = "take ?len (drop (pos + kFrameHeaderSize) b)"
  let ?go = "pos + kFrameHeaderSize \<le> length b \<and> \<not> pos + kFrameHeaderSize + ?len > length b \<and> crc ?p = ?c"
  show ?case
  proof (cases ?go)
    case False
    then have "ps = acc \<and> e = pos"
      using "1.prems"(1) by (subst (asm) decode_loop.simps) (auto simp: Let_def split: if_splits)
    with "1.prems" show ?thesis by simp
  next
    case True
    then have rec: "decode_loop crc b (pos + kFrameHeaderSize + ?len) (acc @ [?p]) = (ps, e, t)"
      using "1.prems"(1) by (subst (asm) decode_loop.simps) (simp add: Let_def)
    have "length ?p = ?len" using True by (simp only: length_take length_drop) linarith
    moreover have "4 \<le> length (drop pos b)" "4 \<le> length (drop (pos + 4) b)"
      using True by (auto simp: kFrameHeaderSize_def)
    ultimately have "EncodeRecord crc ?p = take 4 (drop pos b) @ take 4 (drop (pos + 4) b) @ ?p"
      using True by (simp add: EncodeRecord_def PutU32_GetU32 kFrameHeaderSize_def)
    also have "\<dots> = take (kFrameHeaderSize + ?len) (drop pos b)"
      using take_add [of 4 4 "drop pos b"] take_add [of 8 ?len "drop pos b"]
      by (simp add: kFrameHeaderSize_def add.commute)
    finally have "take (pos + kFrameHeaderSize + ?len) b = frames crc (acc @ [?p])"
      using "1.prems"(2) by (simp add: take_add add.assoc)
    with "1.IH" [OF _ refl refl _ refl _ rec] True show ?thesis by simp
  qed
qed

text \<open>
  Whatever bytes a log or checkpoint file holds, the bytes that
  \<open>DecodeRecords\<close> accepts are exactly the framing of the records it returns, so
  no record is made up.
\<close>

lemma DecodeRecords_sound:
  "take (consumed (DecodeRecords crc b)) b = frames crc (payloads (DecodeRecords crc b)) \<and>
   consumed (DecodeRecords crc b) \<le> length b"
proof -
  obtain ps e t where "decode_loop crc b 0 [] = (ps, e, t)" by (metis prod_cases3)
  with decode_loop_sound [OF this] show ?thesis by (simp add: DecodeRecords_def)
qed


section \<open>Chunk handles in hexadecimal\<close>

definition hex_digits :: string where
  "hex_digits = ''0123456789abcdef''"

text \<open>The loop \<open>for (i = 15; i >= 0; --i) { out[i] = digits[handle & 0xf]; handle >>= 4; }\<close>;
  the first argument is \<open>i + 1\<close>.\<close>

fun hex_loop :: "nat \<Rightarrow> u64 \<Rightarrow> string \<Rightarrow> string" where
  "hex_loop 0 handle out = out"
| "hex_loop (Suc i) handle out =
     hex_loop i (drop_bit 4 handle) (out[i := hex_digits ! unat (handle AND 15)])"

definition HandleToHex :: "u64 \<Rightarrow> string" where
  "HandleToHex handle = hex_loop 16 handle (replicate 16 (CHR ''0''))"

definition hex_val :: "char \<Rightarrow> nat option" where
  "hex_val c =
     (let n = of_char c :: nat
      in if 48 \<le> n \<and> n \<le> 57 then Some (n - 48)
         else if 97 \<le> n \<and> n \<le> 102 then Some (n - 87)
         else if 65 \<le> n \<and> n \<le> 70 then Some (n - 55)
         else None)"

text \<open>
  \<open>std::from_chars\<close> for a \<open>uint64_t\<close> in base 16: the value and the number of characters
  consumed, \<open>None\<close> without digits or out of range.
\<close>

definition from_chars_hex :: "string \<Rightarrow> (u64 \<times> nat) option" where
  "from_chars_hex s =
     (let ds = takeWhile (\<lambda>c. hex_val c \<noteq> None) s;
          v = foldl (\<lambda>a c. 16 * a + the (hex_val c)) 0 ds
      in if ds = [] \<or> v \<ge> 2 ^ 64 then None else Some (of_nat v, length ds))"

definition HexToHandle :: "string \<Rightarrow> u64 option" where
  "HexToHandle t =
     (if length t \<noteq> 16 then None
      else case from_chars_hex t of
             None \<Rightarrow> None
           | Some (v, n) \<Rightarrow> if n \<noteq> length t then None else Some v)"

text \<open>\<open>RandomHexId\<close>; the random device is the list of the words it returns.\<close>

definition RandomHexId :: "u32 list \<Rightarrow> string" where
  "RandomHexId rd =
     concat (map (\<lambda>r. let b = unat (r AND 255)
                      in [hex_digits ! (b div 16), hex_digits ! (b mod 16)]) rd)"

lemma hex_digit_val: "d < 16 \<Longrightarrow> hex_val (hex_digits ! d) = Some d"
proof -
  assume "d < 16"
  then have "d \<in> set [0..<16]" by simp
  moreover have "\<forall>d \<in> set [0..<16]. hex_val (hex_digits ! d) = Some d"
    by (simp add: hex_digits_def hex_val_def upt_rec Let_def nth_Cons')
  ultimately show ?thesis by blast
qed

text \<open>The digits, most significant first, that the loop has written when it stops.\<close>

lemma hex_loop_digits:
  "k \<le> length out \<Longrightarrow> hex_loop k h out =
     map (\<lambda>i. hex_digits ! (unat h div 16 ^ (k - 1 - i) mod 16)) [0..<k] @ drop k out"
proof (induction k arbitrary: h out)
  case 0
  then show ?case by simp
next
  case (Suc k)
  have low: "unat (h AND 15) = unat h mod 16"
    using unat_word_ariths(7) [of h 16] take_bit_eq_mask [of 4 h]
    by (simp add: mask_eq_exp_minus_1 take_bit_eq_mod)
  have high: "unat (drop_bit 4 h) = unat h div 16"
    by (simp add: drop_bit_eq_div unat_div)
  have exp: "unat h div 16 div 16 ^ (k - 1 - i) = unat h div 16 ^ (k - i)" if "i < k" for i
    using that by (simp add: div_mult2_eq [symmetric] power_Suc [symmetric] Suc_diff_Suc del: power_Suc)
  have "drop k (out[k := x]) = x # drop (Suc k) out" for x
    using Suc.prems by (simp add: Cons_nth_drop_Suc [symmetric])
  then show ?case
    using Suc low high exp by (simp add: Suc.IH cong: map_cong)
qed


lemma hex_value:
  "foldl (\<lambda>a c. 16 * a + the (hex_val c)) 0
     (map (\<lambda>i. hex_digits ! (n div 16 ^ (k - 1 - i) mod 16)) [0..<k]) = n mod 16 ^ k"
proof (induction k arbitrary: n)
  case 0
  then show ?case by simp
next
  case (Suc k)
  have exp: "n div 16 ^ (k - i) = n div 16 div 16 ^ (k - 1 - i)" if "i < k" for i
    using that by (simp add: div_mult2_eq [symmetric] power_Suc [symmetric] Suc_diff_Suc del: power_Suc)
  have "map (\<lambda>i. hex_digits ! (n div 16 ^ (Suc k - 1 - i) mod 16)) [0..<Suc k] =
      map (\<lambda>i. hex_digits ! (n div 16 div 16 ^ (k - 1 - i) mod 16)) [0..<k] @ [hex_digits ! (n mod 16)]"
    using exp by simp
  then have "foldl (\<lambda>a c. 16 * a + the (hex_val c)) 0
      (map (\<lambda>i. hex_digits ! (n div 16 ^ (Suc k - 1 - i) mod 16)) [0..<Suc k]) =
      16 * (n div 16 mod 16 ^ k) + n mod 16"
    using Suc.IH [of "n div 16"] by (simp add: hex_digit_val del: upt_Suc)
  also have "\<dots> = n mod 16 ^ Suc k" by (simp add: mod_mult2_eq)
  finally show ?case .
qed

lemma from_chars_hex_all:
  assumes "takeWhile (\<lambda>c. hex_val c \<noteq> None) ds = ds" "ds \<noteq> []"
    "foldl (\<lambda>a c. 16 * a + the (hex_val c)) 0 ds = unat h"
  shows "from_chars_hex ds = Some (h, length ds)"
  using unsigned_less [of h, where ?'a = nat] by (simp only: from_chars_hex_def Let_def assms) simp

text \<open>
  Every chunk handle is read back from the hexadecimal name of its files.
\<close>

lemma HexToHandle_HandleToHex: "HexToHandle (HandleToHex h) = Some h"
proof -
  let ?ds = "map (\<lambda>i. hex_digits ! (unat h div 16 ^ (16 - 1 - i) mod 16)) [0..<16]"
  have out: "HandleToHex h = ?ds"
    using hex_loop_digits [of 16 "replicate 16 (CHR ''0'')" h] by (simp add: HandleToHex_def)
  have "takeWhile (\<lambda>c. hex_val c \<noteq> None) ?ds = ?ds"
    by (subst takeWhile_eq_all_conv) (auto simp: hex_digit_val)
  moreover have "?ds \<noteq> []" by simp
  moreover have "foldl (\<lambda>a c. 16 * a + the (hex_val c)) 0 ?ds = unat h"
    using hex_value [of "unat h" 16] unsigned_less [of h, where ?'a = nat] by simp
  ultimately have "from_chars_hex ?ds = Some (h, length ?ds)" by (rule from_chars_hex_all)
  then show ?thesis by (simp add: out HexToHandle_def)
qed

section \<open>Logs cut short\<close>

lemma whole_records:
  "\<exists>j \<le> length ps. length (frames crc (take j ps)) \<le> n \<and>
     (j < length ps \<longrightarrow> n < length (frames crc (take (Suc j) ps)))"
proof (induction ps arbitrary: n)
  case (Cons p ps)
  show ?case
  proof (cases "n < length (EncodeRecord crc p)")
    case True
    then show ?thesis by (intro exI [of _ 0]) simp
  next
    case False
    obtain j where "j \<le> length ps" "length (frames crc (take j ps)) \<le> n - length (EncodeRecord crc p)"
      "j < length ps \<longrightarrow> n - length (EncodeRecord crc p) < length (frames crc (take (Suc j) ps))"
      using Cons.IH by blast
    with False show ?thesis by (intro exI [of _ "Suc j"]) auto
  qed
qed simp

text \<open>
  C38: a log of framed records that is cut at any byte, as a crash may cut it, decodes to
  exactly the records that are wholly before the cut; what is consumed ends behind the last of
  them, and a torn tail is reported exactly when bytes are left over.
\<close>

theorem DecodeRecords_cut:
  assumes "\<forall>p \<in> set ps. length p < 2 ^ 32" "n \<le> length (frames crc ps)"
  shows "\<exists>j \<le> length ps. length (frames crc (take j ps)) \<le> n \<and>
     (j < length ps \<longrightarrow> n < length (frames crc (take (Suc j) ps))) \<and>
     DecodeRecords crc (take n (frames crc ps)) =
       \<lparr>payloads = take j ps, consumed = length (frames crc (take j ps)),
        torn_tail = length (frames crc (take j ps)) < n\<rparr>"
proof -
  obtain j where j: "j \<le> length ps" "length (frames crc (take j ps)) \<le> n"
    "j < length ps \<longrightarrow> n < length (frames crc (take (Suc j) ps))"
    using whole_records by blast
  let ?done = "frames crc (take j ps)" and ?p = "if j < length ps then ps ! j else []"
  have split: "frames crc ps = ?done @ frames crc (drop j ps)"
    using frames_simps(3) [of crc "take j ps" "drop j ps"] by simp
  have "take n (frames crc ps) = ?done @ take (n - length ?done) (EncodeRecord crc ?p) \<and>
      n - length ?done < length (EncodeRecord crc ?p)"
  proof (cases "j < length ps")
    case True
    have "frames crc (drop j ps) = EncodeRecord crc (ps ! j) @ frames crc (drop (Suc j) ps)"
      using Cons_nth_drop_Suc [OF True] frames_simps(2) by metis
    moreover have "n - length ?done < length (EncodeRecord crc (ps ! j))"
      using j(2,3) True by (simp add: take_Suc_conv_app_nth)
    ultimately show ?thesis using True j(2) by (subst split) simp
  next
    case False
    then have "n = length ?done" using j(1,2) assms(2) by simp
    with False show ?thesis by (subst split) (simp add: kFrameHeaderSize_def)
  qed
  moreover have "\<forall>q \<in> set (take j ps @ [?p]). length q < 2 ^ 32"
    using assms(1) by (auto dest: in_set_takeD)
  ultimately have "DecodeRecords crc (take n (frames crc ps)) =
      \<lparr>payloads = take j ps, consumed = length ?done, torn_tail = 0 < n - length ?done\<rparr>"
    using DecodeRecords_torn [of "take j ps" ?p "n - length ?done" crc] by simp
  with j show ?thesis by auto
qed

theorem DecodeRecords_cut_witness:
  "payloads (DecodeRecords (\<lambda>_. 0) (take 18 (frames (\<lambda>_. 0) [''abc'', ''de'']))) = [''abc'']"
proof -
  let ?crc = "\<lambda>_ :: bytes. 0 :: u32" and ?ps = "[''abc'', ''de'']"
  have "\<forall>p \<in> set ?ps. length p < 2 ^ 32" "18 \<le> length (frames ?crc ?ps)"
    by (simp_all add: kFrameHeaderSize_def)
  from DecodeRecords_cut [OF this] obtain j where j: "j \<le> length ?ps" "length (frames ?crc (take j ?ps)) \<le> 18"
    "j < length ?ps \<longrightarrow> 18 < length (frames ?crc (take (Suc j) ?ps))"
    and d: "DecodeRecords ?crc (take 18 (frames ?crc ?ps)) = \<lparr>payloads = take j ?ps,
      consumed = length (frames ?crc (take j ?ps)), torn_tail = length (frames ?crc (take j ?ps)) < 18\<rparr>"
    by blast
  have "j = 0 \<or> j = 1 \<or> j = 2" using j(1) by auto
  with j(2,3) have "j = 1" by (auto simp: kFrameHeaderSize_def)
  then show ?thesis unfolding d by simp
qed

end
