(* ===== verification/Replicas.thy ===== *)
theory Replicas
  imports Rpc
begin

text \<open>
  What a replica of a chunk promises to the one that orders the mutations: a mutation that is
  acknowledged with \<open>OK\<close> has changed the bytes of its chunk by a function of the old bytes and
  the mutation alone, and has left every other chunk as it was. That is all that is needed
  for replicas that acknowledge the same mutations in the same order to stay equal.
\<close>

text \<open>Apply mutations in order, as long as they are acknowledged.\<close>

fun apply_all :: "('m \<Rightarrow> 's \<Rightarrow> 's \<times> result_code) \<Rightarrow> 'm list \<Rightarrow> 's \<Rightarrow> 's option" where
  "apply_all mutate [] s = Some s"
| "apply_all mutate (m # ms) s =
     (case mutate m s of (s', code) \<Rightarrow> if code = OK then apply_all mutate ms s' else None)"

locale replica_store =
  fixes store_ok :: "'s \<Rightarrow> bool"
    and bytes_of :: "'s \<Rightarrow> u64 \<Rightarrow> (u64 \<times> bytes) option"
    and mutate :: "'m \<Rightarrow> 's \<Rightarrow> 's \<times> result_code"
    and chunk_of :: "'m \<Rightarrow> u64"
    and outcome :: "'m \<Rightarrow> bytes \<Rightarrow> bytes"
  assumes mutate_keeps: "store_ok s \<Longrightarrow> store_ok (fst (mutate m s))"
    and mutate_acknowledged: "store_ok s \<Longrightarrow> mutate m s = (s', OK) \<Longrightarrow>
      \<exists>v f. bytes_of s (chunk_of m) = Some (v, f) \<and> bytes_of s' = (bytes_of s)(chunk_of m \<mapsto> (v, outcome m f))"
begin

text \<open>The bytes of a chunk after a sequence of acknowledged mutations.\<close>

lemma acknowledged_bytes:
  "store_ok s \<Longrightarrow> apply_all mutate ms s = Some s' \<Longrightarrow> bytes_of s h = Some (v, f) \<Longrightarrow>
   store_ok s' \<and> bytes_of s' h = Some (v, fold outcome (filter (\<lambda>m. chunk_of m = h) ms) f)"
proof (induction ms arbitrary: s f)
  case Nil
  then show ?case by simp
next
  case (Cons m ms)
  obtain s1 code where m: "mutate m s = (s1, code)" by fastforce
  with Cons.prems(2) have ok: "mutate m s = (s1, OK)" and rest: "apply_all mutate ms s1 = Some s'"
    by (auto split: if_splits)
  have "store_ok s1" using mutate_keeps [OF Cons.prems(1), of m] ok by simp
  moreover obtain w g where g: "bytes_of s (chunk_of m) = Some (w, g)"
    "bytes_of s1 = (bytes_of s)(chunk_of m \<mapsto> (w, outcome m g))"
    using mutate_acknowledged [OF Cons.prems(1) ok] by blast
  ultimately show ?case
    using Cons.IH [OF _ rest] Cons.prems(3) by (cases "chunk_of m = h") auto
qed

text \<open>Replicas of a chunk that acknowledge the same mutations of it stay equal, whatever else they do.\<close>

lemma replicas_agree:
  assumes "store_ok s" "store_ok t" "apply_all mutate ms s = Some s'" "apply_all mutate ns t = Some t'"
    and "filter (\<lambda>m. chunk_of m = h) ms = filter (\<lambda>m. chunk_of m = h) ns"
    and "bytes_of s h = Some (v, f)" "bytes_of t h = Some (w, f)"
  shows "map_option snd (bytes_of s' h) = map_option snd (bytes_of t' h)"
  using acknowledged_bytes [OF assms(1,3,6)] acknowledged_bytes [OF assms(2,4,7)] assms(5) by simp

end

end
