(* ===== verification/ChunkStore.thy ===== *)
theory ChunkStore
  imports StdMap Codec Replicas
begin

text \<open>
  The chunkserver's store, \<open>src/src/chunkserver/chunk_store.cc\<close>: per chunk a data file, a meta
  file with the version and one checksum per block, and an entry in memory. Files are
  addressed by handle (\<open>Codec\<close> shows that names and handles correspond). The
  system calls succeed where POSIX lets them: a position past \<open>2 ^ 63 - 1\<close> is refused, and
  reading past the end fails; other I/O faults are not modelled. Sums that a request can
  push over \<open>2 ^ 64\<close> wrap as they do in the code.

  The abstraction \<open>content\<close> is the version and the bytes of each chunk. Under \<open>cs_ok\<close> every
  operation refines the obvious operation on it, and a read returns exactly these bytes.
\<close>

section \<open>State\<close>

record chunk_entry =
  ce_version :: u64
  ce_length :: nat
  ce_checksums :: "u32 list"

record chunk_store =
  cs_chunk_size :: nat
  cs_block_size :: nat
  cs_entries :: "(u64, chunk_entry) omap"
  cs_chunk_files :: "(u64, bytes) omap"
  cs_meta_files :: "(u64, bytes) omap"
  cs_corrupt :: "u64 list"

definition kMetaHeaderSize :: nat where
  "kMetaHeaderSize = 8"

definition zero_byte :: char where
  "zero_byte = CHR 0x00"

section \<open>Files\<close>

definition file_of :: "(u64, bytes) omap \<Rightarrow> u64 \<Rightarrow> bytes" where
  "file_of files handle = (case om_find files handle of None \<Rightarrow> [] | Some b \<Rightarrow> b)"

definition PreadAll :: "bytes \<Rightarrow> nat \<Rightarrow> nat \<Rightarrow> bytes option" where
  "PreadAll f len offset =
     (if len = 0 then Some [] else if offset + len \<le> length f then Some (take len (drop offset f)) else None)"

text \<open>\<open>pwrite\<close> fills a gap behind the old end with zeros.\<close>

definition write_at :: "nat \<Rightarrow> bytes \<Rightarrow> bytes \<Rightarrow> bytes" where
  "write_at offset data f =
     take offset (f @ replicate (offset - length f) zero_byte) @ data @ drop (offset + length data) f"

definition PwriteAll :: "bytes \<Rightarrow> bytes \<Rightarrow> nat \<Rightarrow> bytes option" where
  "PwriteAll f data offset =
     (if data = [] then Some f else if offset + length data < 2 ^ 63 then Some (write_at offset data f) else None)"

definition ftruncate :: "nat \<Rightarrow> bytes \<Rightarrow> bytes" where
  "ftruncate n f = take n f @ replicate (n - length f) zero_byte"

section \<open>Operations\<close>

definition cs_Find :: "chunk_store \<Rightarrow> u64 \<Rightarrow> chunk_entry option" where
  "cs_Find cs handle = om_find (cs_entries cs) handle"

definition blocks_of :: "nat \<Rightarrow> nat \<Rightarrow> nat" where
  "blocks_of block_size len = (len + block_size - 1) div block_size"

text \<open>\<open>OpenEntry(handle, true, version)\<close>: both files are new, or nothing is left behind.\<close>

definition OpenEntry_new :: "u64 \<Rightarrow> u64 \<Rightarrow> chunk_store \<Rightarrow> chunk_store \<times> chunk_entry option" where
  "OpenEntry_new handle version cs =
     (if om_count (cs_chunk_files cs) handle > 0 then (cs, None)
      else let cs1 = cs\<lparr>cs_chunk_files := om_assign handle [] (cs_chunk_files cs)\<rparr>
           in if om_count (cs_meta_files cs) handle > 0
              then (cs1\<lparr>cs_chunk_files := om_erase handle (cs_chunk_files cs1)\<rparr>, None)
              else (cs1\<lparr>cs_meta_files := om_assign handle (EncodeU64 version) (cs_meta_files cs1)\<rparr>,
                    Some \<lparr>ce_version = version, ce_length = 0, ce_checksums = []\<rparr>))"

text \<open>\<open>OpenEntry(handle, false, 0)\<close>: read back what the files say.\<close>

definition OpenEntry_existing :: "u64 \<Rightarrow> chunk_store \<Rightarrow> chunk_entry option" where
  "OpenEntry_existing handle cs =
     (case (om_find (cs_chunk_files cs) handle, om_find (cs_meta_files cs) handle) of
        (Some f, Some m) \<Rightarrow>
          if length m < kMetaHeaderSize then None
          else let stored = (length m - kMetaHeaderSize) div 4;
                   needed = blocks_of (cs_block_size cs) (length f);
                   loaded = min stored needed
               in Some \<lparr>ce_version = DecodeU64 m, ce_length = length f,
                        ce_checksums = map (\<lambda>i. GetU32 (drop (kMetaHeaderSize + 4 * i) m)) [0..<loaded]\<rparr>
      | _ \<Rightarrow> None)"

text \<open>\<open>Scan\<close>: orphan meta files go, every chunk with both files that can be opened is entered.\<close>

definition Scan :: "chunk_store \<Rightarrow> chunk_store" where
  "Scan cs =
     (let chunks = map fst (cs_chunk_files cs);
          metas = map fst (cs_meta_files cs);
          cs1 = cs\<lparr>cs_meta_files := filter (\<lambda>e. fst e \<in> set chunks) (cs_meta_files cs)\<rparr>
      in fold (\<lambda>handle cs.
           if handle \<notin> set metas then cs
           else case OpenEntry_existing handle cs of
                  None \<Rightarrow> cs
                | Some e \<Rightarrow> cs\<lparr>cs_entries := om_assign handle e (cs_entries cs)\<rparr>) chunks cs1)"

definition Create :: "u64 \<Rightarrow> u64 \<Rightarrow> chunk_store \<Rightarrow> chunk_store \<times> result_code" where
  "Create handle version cs =
     (if om_count (cs_entries cs) handle > 0 then (cs, FAILED)
      else case OpenEntry_new handle version cs of
             (cs1, None) \<Rightarrow> (cs1, FAILED)
           | (cs1, Some e) \<Rightarrow> (cs1\<lparr>cs_entries := om_assign handle e (cs_entries cs1)\<rparr>, OK))"

text \<open>The copy loop of \<open>CreateCopy\<close>: a megabyte at a time, up to the length of the source.\<close>

function copy_loop :: "nat \<Rightarrow> bytes \<Rightarrow> nat \<Rightarrow> bytes \<Rightarrow> bytes \<times> bool" where
  "copy_loop len source ready dest =
     (if ready < len
      then let step = min (2 ^ 20) (len - ready)
           in case PreadAll source step ready of
                None \<Rightarrow> (dest, False)
              | Some buf \<Rightarrow>
                  (case PwriteAll dest buf ready of
                     None \<Rightarrow> (dest, False)
                   | Some dest1 \<Rightarrow> copy_loop len source (ready + step) dest1)
      else (dest, True))"
  by pat_completeness auto
termination by (relation "measure (\<lambda>(len, source, ready, dest). len - ready)") auto

declare copy_loop.simps [simp del]

definition CreateCopy :: "u64 \<Rightarrow> u64 \<Rightarrow> u64 \<Rightarrow> chunk_store \<Rightarrow> chunk_store \<times> result_code" where
  "CreateCopy handle version copy_from cs =
     (case cs_Find cs copy_from of
        None \<Rightarrow> (cs, NO_SUCH_CHUNK)
      | Some source \<Rightarrow>
          if om_count (cs_entries cs) handle > 0 then (cs, FAILED)
          else case OpenEntry_new handle version cs of
                 (cs1, None) \<Rightarrow> (cs1, FAILED)
               | (cs1, Some e) \<Rightarrow>
                   (case copy_loop (ce_length source) (file_of (cs_chunk_files cs1) copy_from) 0 [] of
                      (dest, copied) \<Rightarrow>
                        let cs2 = cs1\<lparr>cs_chunk_files := om_assign handle dest (cs_chunk_files cs1)\<rparr>;
                            raw = concat (map PutU32 (ce_checksums source))
                        in if \<not> copied then (cs2, FAILED)
                           else case PwriteAll (EncodeU64 version) raw kMetaHeaderSize of
                                  None \<Rightarrow> (cs2, FAILED)
                                | Some m \<Rightarrow>
                                    (cs2\<lparr>cs_meta_files := om_assign handle m (cs_meta_files cs2),
                                         cs_entries := om_assign handle
                                           (e\<lparr>ce_length := ce_length source, ce_checksums := ce_checksums source\<rparr>)
                                           (cs_entries cs2)\<rparr>, OK)))"

text \<open>The checksum of block \<open>b\<close> of the bytes \<open>buf\<close> that start at block \<open>first\<close>.\<close>

definition block_crc :: "(bytes \<Rightarrow> u32) \<Rightarrow> nat \<Rightarrow> nat \<Rightarrow> bytes \<Rightarrow> nat \<Rightarrow> u32" where
  "block_crc crc block_size first buf b =
     (let bs = b * block_size - first * block_size;
          be = min (bs + block_size) (length buf)
      in crc (take (be - bs) (drop bs buf)))"

text \<open>
  \<open>RecomputeBlocks\<close>, on the entry, its data file and its meta file; the last result is false
  where the code returns false.
\<close>

definition RecomputeBlocks ::
    "(bytes \<Rightarrow> u32) \<Rightarrow> nat \<Rightarrow> chunk_entry \<Rightarrow> bytes \<Rightarrow> bytes \<Rightarrow> nat \<Rightarrow> nat \<Rightarrow> chunk_entry \<times> bytes \<times> bool" where
  "RecomputeBlocks crc block_size entry f m first_block last_block =
     (let needed = blocks_of block_size (ce_length entry);
          checksums = ce_checksums entry @ replicate (needed - length (ce_checksums entry)) 0;
          entry1 = entry\<lparr>ce_checksums := checksums\<rparr>
      in if needed = 0 then (entry1, m, True)
         else let last = min last_block (needed - 1)
              in if first_block > last then (entry1, m, True)
                 else let start = first_block * block_size;
                          stop = min ((last + 1) * block_size) (ce_length entry)
                      in case PreadAll f (stop - start) start of
                           None \<Rightarrow> (entry1, m, False)
                         | Some buf \<Rightarrow>
                             let sums = map (block_crc crc block_size first_block buf) [first_block..<last + 1];
                                 checksums1 = take first_block checksums @ sums @ drop (last + 1) checksums
                             in case PwriteAll m (concat (map PutU32 sums)) (kMetaHeaderSize + 4 * first_block) of
                                  None \<Rightarrow> (entry1\<lparr>ce_checksums := checksums1\<rparr>, m, False)
                                | Some m1 \<Rightarrow> (entry1\<lparr>ce_checksums := checksums1\<rparr>, m1, True))"

definition put_chunk :: "u64 \<Rightarrow> chunk_entry \<Rightarrow> bytes \<Rightarrow> bytes \<Rightarrow> chunk_store \<Rightarrow> chunk_store" where
  "put_chunk handle e f m cs =
     cs\<lparr>cs_entries := om_assign handle e (cs_entries cs),
        cs_chunk_files := om_assign handle f (cs_chunk_files cs),
        cs_meta_files := om_assign handle m (cs_meta_files cs)\<rparr>"

definition Write ::
    "(bytes \<Rightarrow> u32) \<Rightarrow> u64 \<Rightarrow> nat \<Rightarrow> bytes \<Rightarrow> chunk_store \<Rightarrow> chunk_store \<times> result_code" where
  "Write crc handle offset data cs =
     (case cs_Find cs handle of
        None \<Rightarrow> (cs, NO_SUCH_CHUNK)
      | Some entry \<Rightarrow>
          if add64 offset (length data) > cs_chunk_size cs then (cs, OUT_OF_RANGE)
          else if data = [] then (cs, OK)
          else let f = file_of (cs_chunk_files cs) handle; m = file_of (cs_meta_files cs) handle
               in case PwriteAll f data offset of
                    None \<Rightarrow> (cs, FAILED)
                  | Some f1 \<Rightarrow>
                      let old_length = ce_length entry;
                          entry1 = entry\<lparr>ce_length := max old_length (add64 offset (length data))\<rparr>;
                          first = min offset old_length div cs_block_size cs;
                          last = sub64 (ce_length entry1) 1 div cs_block_size cs;
                          (entry2, m1, ok) = RecomputeBlocks crc (cs_block_size cs) entry1 f1 m first last
                      in (put_chunk handle entry2 f1 m1 cs, if ok then OK else FAILED))"

definition Pad :: "(bytes \<Rightarrow> u32) \<Rightarrow> u64 \<Rightarrow> nat \<Rightarrow> chunk_store \<Rightarrow> chunk_store \<times> result_code" where
  "Pad crc handle from_offset cs =
     (case cs_Find cs handle of
        None \<Rightarrow> (cs, NO_SUCH_CHUNK)
      | Some entry \<Rightarrow>
          if from_offset > cs_chunk_size cs then (cs, OUT_OF_RANGE)
          else let f = file_of (cs_chunk_files cs) handle; m = file_of (cs_meta_files cs) handle;
                   old_length = ce_length entry;
                   padded = (if from_offset \<ge> old_length then Some (ftruncate (cs_chunk_size cs) f)
                             else PwriteAll f (replicate (cs_chunk_size cs - from_offset) zero_byte) from_offset)
               in case padded of
                    None \<Rightarrow> (cs, FAILED)
                  | Some f1 \<Rightarrow>
                      let entry1 = entry\<lparr>ce_length := cs_chunk_size cs\<rparr>;
                          first = min from_offset old_length div cs_block_size cs;
                          last = sub64 (cs_chunk_size cs) 1 div cs_block_size cs;
                          (entry2, m1, ok) = RecomputeBlocks crc (cs_block_size cs) entry1 f1 m first last
                      in (put_chunk handle entry2 f1 m1 cs, if ok then OK else FAILED))"

definition MarkCorrupt :: "u64 \<Rightarrow> chunk_store \<Rightarrow> chunk_store" where
  "MarkCorrupt handle cs = cs\<lparr>cs_corrupt := os_insert handle (cs_corrupt cs)\<rparr>"

text \<open>\<open>std::string::substr(pos, n)\<close>; \<open>None\<close> is \<open>std::out_of_range\<close>.\<close>

definition substr :: "bytes \<Rightarrow> nat \<Rightarrow> nat \<Rightarrow> bytes option" where
  "substr s pos n = (if pos > length s then None else Some (take n (drop pos s)))"

text \<open>
  \<open>Read\<close>. The result is \<open>None\<close> where the C++ throws: the buffer's size, or the position in it,
  is the wrapped difference of two positions.
\<close>

definition Read ::
    "(bytes \<Rightarrow> u32) \<Rightarrow> u64 \<Rightarrow> nat \<Rightarrow> nat \<Rightarrow> chunk_store \<Rightarrow> chunk_store \<times> (result_code \<times> bytes) option" where
  "Read crc handle offset len cs =
     (case cs_Find cs handle of
        None \<Rightarrow> (cs, Some (NO_SUCH_CHUNK, []))
      | Some entry \<Rightarrow>
          if offset > ce_length entry then (cs, Some (OUT_OF_RANGE, []))
          else let fin = min (add64 offset len) (ce_length entry)
               in if fin = offset then (cs, Some (OK, []))
                  else let first = offset div cs_block_size cs;
                           last = sub64 fin 1 div cs_block_size cs
                       in if last \<ge> length (ce_checksums entry) then (MarkCorrupt handle cs, Some (CHECKSUM_MISMATCH, []))
                          else let start = first * cs_block_size cs;
                                   stop = min ((last + 1) * cs_block_size cs) (ce_length entry)
                               in if stop < start then (cs, None)
                                  else case PreadAll (file_of (cs_chunk_files cs) handle) (stop - start) start of
                                         None \<Rightarrow> (cs, Some (FAILED, []))
                                       | Some buf \<Rightarrow>
                                           if list_ex (\<lambda>b. block_crc crc (cs_block_size cs) first buf b \<noteq> ce_checksums entry ! b)
                                                [first..<last + 1]
                                           then (MarkCorrupt handle cs, Some (CHECKSUM_MISMATCH, []))
                                           else (cs, map_option (Pair OK) (substr buf (offset - start) (sub64 fin offset))))"

definition Length :: "u64 \<Rightarrow> chunk_store \<Rightarrow> result_code \<times> nat" where
  "Length handle cs = (case cs_Find cs handle of None \<Rightarrow> (NO_SUCH_CHUNK, 0) | Some e \<Rightarrow> (OK, ce_length e))"

definition Version :: "u64 \<Rightarrow> chunk_store \<Rightarrow> u64 option" where
  "Version handle cs = map_option ce_version (cs_Find cs handle)"

definition SetVersion :: "u64 \<Rightarrow> u64 \<Rightarrow> chunk_store \<Rightarrow> chunk_store \<times> result_code" where
  "SetVersion handle version cs =
     (case cs_Find cs handle of
        None \<Rightarrow> (cs, NO_SUCH_CHUNK)
      | Some e \<Rightarrow>
          if ce_version e = version then (cs, OK)
          else case PwriteAll (file_of (cs_meta_files cs) handle) (EncodeU64 version) 0 of
                 None \<Rightarrow> (cs, FAILED)
               | Some m \<Rightarrow> (put_chunk handle (e\<lparr>ce_version := version\<rparr>) (file_of (cs_chunk_files cs) handle) m cs, OK))"

definition Contains :: "u64 \<Rightarrow> chunk_store \<Rightarrow> bool" where
  "Contains handle cs \<longleftrightarrow> cs_Find cs handle \<noteq> None"

definition Remove :: "u64 \<Rightarrow> chunk_store \<Rightarrow> chunk_store \<times> bool" where
  "Remove handle cs =
     (case cs_Find cs handle of
        None \<Rightarrow> (cs, False)
      | Some e \<Rightarrow>
          (cs\<lparr>cs_entries := om_erase handle (cs_entries cs),
              cs_chunk_files := om_erase handle (cs_chunk_files cs),
              cs_meta_files := om_erase handle (cs_meta_files cs),
              cs_corrupt := os_erase handle (cs_corrupt cs)\<rparr>, True))"

definition List :: "chunk_store \<Rightarrow> (u64 \<times> u64 \<times> nat) list" where
  "List cs = map (\<lambda>e. (fst e, ce_version (snd e), ce_length (snd e))) (sort_key fst (cs_entries cs))"

definition CorruptHandles :: "chunk_store \<Rightarrow> u64 list" where
  "CorruptHandles cs = cs_corrupt cs"

definition ClearCorrupt :: "u64 list \<Rightarrow> chunk_store \<Rightarrow> chunk_store" where
  "ClearCorrupt handles cs = cs\<lparr>cs_corrupt := fold os_erase handles (cs_corrupt cs)\<rparr>"

section \<open>Blocks and checksums\<close>

definition blk :: "(bytes \<Rightarrow> u32) \<Rightarrow> nat \<Rightarrow> bytes \<Rightarrow> nat \<Rightarrow> u32" where
  "blk crc B f b = crc (take B (drop (b * B) f))"

text \<open>The checksums a healthy chunk has, and its meta file.\<close>

definition checks :: "(bytes \<Rightarrow> u32) \<Rightarrow> nat \<Rightarrow> bytes \<Rightarrow> u32 list" where
  "checks crc B f = map (blk crc B f) [0..<blocks_of B (length f)]"

definition meta :: "u64 \<Rightarrow> u32 list \<Rightarrow> bytes" where
  "meta v sums = EncodeU64 v @ concat (map PutU32 sums)"

lemma length_checks [simp]: "length (checks crc B f) = blocks_of B (length f)"
  by (simp add: checks_def)

lemma length_sums [simp]: "length (concat (map PutU32 sums)) = 4 * length sums"
  by (induction sums) auto

lemma length_sums_map [simp]: "length (concat (map (PutU32 \<circ> g) xs)) = 4 * length xs"
  using length_sums [of "map g xs"] by (simp del: length_sums)

lemma blocks_of_pos: "0 < B \<Longrightarrow> 0 < n \<Longrightarrow> blocks_of B n = (n - 1) div B + 1"
proof -
  assume B: "0 < B" "0 < n"
  have "n + B - 1 = n - 1 + B" using B by simp
  with B show ?thesis unfolding blocks_of_def by (simp only: div_add_self2)
qed

lemma blocks_of_0 [simp]: "0 < B \<Longrightarrow> blocks_of B 0 = 0"
  by (simp add: blocks_of_def)

lemma blocks_of_le: "0 < B \<Longrightarrow> blocks_of B n \<le> n"
proof (cases "n = 0")
  case False
  assume "0 < B"
  then have "(n - 1) div B \<le> n - 1" by simp
  with False show ?thesis unfolding blocks_of_pos [OF \<open>0 < B\<close> False [simplified neq0_conv]] by linarith
qed simp

lemma less_blocks_of: "0 < B \<Longrightarrow> b < blocks_of B n \<longleftrightarrow> b * B < n"
proof (cases "n = 0")
  case False
  assume B: "0 < B"
  have "b \<le> (n - 1) div B \<longleftrightarrow> b * B \<le> n - 1" using B by (rule less_eq_div_iff_mult_less_eq)
  with False B show ?thesis by (simp add: blocks_of_pos less_Suc_eq_le) linarith
qed simp

lemma blocks_of_covers: "0 < B \<Longrightarrow> n \<le> blocks_of B n * B"
  using less_blocks_of [of B "blocks_of B n" n] by simp

lemma blk_prefix:
  assumes "take k f = take k g" "(b + 1) * B \<le> k"
  shows "blk crc B f b = blk crc B g b"
proof -
  have "take B (drop (b * B) h) = drop (b * B) (take ((b + 1) * B) h)" for h :: bytes
    by (simp add: drop_take add.commute)
  moreover have "take ((b + 1) * B) f = take ((b + 1) * B) g"
    using assms by (metis min_absorb1 take_take)
  ultimately show ?thesis by (simp add: blk_def)
qed

lemma length_write_at [simp]: "data \<noteq> [] \<Longrightarrow> length (write_at offset data f) = max (length f) (offset + length data)"
  by (simp add: write_at_def)

lemma write_at_nonempty [simp]: "data \<noteq> [] \<Longrightarrow> write_at offset data f \<noteq> []"
  by (simp add: write_at_def)

lemma PwriteAll_ok:
  "data \<noteq> [] \<Longrightarrow> offset + length data < 2 ^ 63 \<Longrightarrow> PwriteAll f data offset = Some (write_at offset data f)"
  by (simp add: PwriteAll_def)

lemma take_write_at: "k \<le> offset \<Longrightarrow> k \<le> length f \<Longrightarrow> take k (write_at offset data f) = take k f"
  by (simp add: write_at_def)

lemma PreadAll_rest: "start < length f \<Longrightarrow> PreadAll f (length f - start) start = Some (drop start f)"
  by (simp add: PreadAll_def)

text \<open>Recomputing from a block on up to the last block makes the checksums and the meta file right.\<close>

lemma RecomputeBlocks_right:
  assumes "0 < B" "ce_length e = length f" "blocks_of B (length f) - 1 \<le> last_block"
    and c: "first \<le> length (ce_checksums e)" "length (ce_checksums e) \<le> blocks_of B (length f)"
    and right: "\<forall>b < first. ce_checksums e ! b = blk crc B f b"
    and m: "m = meta v (ce_checksums e)" and small: "length f < 2 ^ 60"
  shows "RecomputeBlocks crc B e f m first last_block =
     (e\<lparr>ce_checksums := checks crc B f\<rparr>, meta v (checks crc B f), True)"
proof -
  let ?N = "blocks_of B (length f)" and ?c = "ce_checksums e"
  let ?c1 = "?c @ replicate (?N - length ?c) 0"
  have prefix: "take first ?c = map (blk crc B f) [0..<first]"
    using c(1) right by (intro nth_equalityI) auto
  show ?thesis
  proof (cases "first < ?N")
    case False
    with c have full: "first = ?N" "length ?c = ?N" by auto
    then have "?c = checks crc B f" using prefix by (simp add: checks_def)
    with full False assms(2,3) show ?thesis
      by (cases e) (auto simp: RecomputeBlocks_def Let_def m)
  next
    case True
    have last: "min last_block (?N - 1) = ?N - 1" "\<not> first > ?N - 1" "?N \<noteq> 0" "?N - 1 + 1 = ?N"
      using True assms(3) by auto
    have stop: "min (?N * B) (length f) = length f" using blocks_of_covers [OF assms(1)] by (rule min_absorb2)
    have start: "first * B < length f" using True less_blocks_of [OF assms(1)] by simp
    let ?buf = "drop (first * B) f"
    have sum: "block_crc crc B first ?buf b = blk crc B f b" if "first \<le> b" for b
    proof -
      have pos: "b * B - first * B + first * B = b * B" using that by simp
      have "drop (b * B - first * B) ?buf = drop (b * B) f" by (simp only: drop_drop pos)
      moreover have "take (min (b * B - first * B + B) (length ?buf) - (b * B - first * B)) (drop (b * B) f) =
          take B (drop (b * B) f)"
      proof (cases "b * B - first * B + B \<le> length ?buf")
        case True
        then have "min (b * B - first * B + B) (length ?buf) - (b * B - first * B) = B" by linarith
        then show ?thesis by simp
      next
        case False
        then have "min (b * B - first * B + B) (length ?buf) - (b * B - first * B) = length f - b * B"
          using pos by simp
        moreover have "length f - b * B \<le> B" using False pos by simp
        ultimately show ?thesis by simp
      qed
      ultimately show ?thesis by (simp add: block_crc_def blk_def Let_def)
    qed
    let ?sums = "map (block_crc crc B first ?buf) [first..<?N]"
    have sums: "?sums = map (blk crc B f) [first..<?N]" using sum by simp
    have c1: "take first ?c1 @ ?sums @ drop ?N ?c1 = checks crc B f"
      using c True prefix by (simp add: sums checks_def flip: map_append) (metis le_add_diff_inverse less_imp_le upt_add_eq_append zero_le)
    have "concat (map PutU32 ?sums) \<noteq> []"
      using True length_sums [of ?sums] by (metis diff_is_0_eq length_map length_upt list.size(3) mult_is_0 not_le zero_neq_numeral)
    moreover have "kMetaHeaderSize + 4 * first + length (concat (map PutU32 ?sums)) < 2 ^ 63"
      using True blocks_of_le [OF assms(1), of "length f"] small
      by (simp add: kMetaHeaderSize_def length_sums del: length_concat map_map)
    moreover have "write_at (kMetaHeaderSize + 4 * first) (concat (map PutU32 ?sums)) m = meta v (checks crc B f)"
    proof -
      have len: "length m = 8 + 4 * length ?c" by (simp add: m meta_def)
      have "take (kMetaHeaderSize + 4 * first) m = EncodeU64 v @ take (4 * first) (concat (map PutU32 ?c))"
        by (simp add: m meta_def kMetaHeaderSize_def)
      also have "concat (map PutU32 ?c) = concat (map PutU32 (take first ?c)) @ concat (map PutU32 (drop first ?c))"
        by (metis append_take_drop_id concat_append map_append)
      also have "take (4 * first) \<dots> = concat (map PutU32 (take first ?c))"
        using c(1) by simp
      finally have "take (kMetaHeaderSize + 4 * first) m = EncodeU64 v @ concat (map PutU32 (take first ?c))" .
      moreover have "kMetaHeaderSize + 4 * first \<le> length m" using c(1) by (simp add: len kMetaHeaderSize_def)
      moreover have "drop (kMetaHeaderSize + 4 * first + length (concat (map PutU32 ?sums))) m = []"
        using c(2) True by (simp add: len kMetaHeaderSize_def)
      ultimately have "write_at (kMetaHeaderSize + 4 * first) (concat (map PutU32 ?sums)) m =
          EncodeU64 v @ concat (map PutU32 (take first ?c @ ?sums))"
        by (simp add: write_at_def)
      also have "take first ?c @ ?sums = checks crc B f" using c1 c by simp
      finally show ?thesis by (simp add: meta_def)
    qed
    ultimately have "PwriteAll m (concat (map PutU32 ?sums)) (kMetaHeaderSize + 4 * first) = Some (meta v (checks crc B f))"
      by (metis PwriteAll_ok)
    then show ?thesis
      using last start c1 unfolding RecomputeBlocks_def Let_def assms(2)
      by (simp add: stop PreadAll_rest)
  qed
qed

section \<open>The invariant and the abstraction\<close>

definition entry_ok :: "(bytes \<Rightarrow> u32) \<Rightarrow> chunk_store \<Rightarrow> u64 \<Rightarrow> chunk_entry \<Rightarrow> bytes \<Rightarrow> bool" where
  "entry_ok crc cs h e f \<longleftrightarrow>
     om_find (cs_chunk_files cs) h = Some f \<and> ce_length e = length f \<and> length f \<le> cs_chunk_size cs \<and>
     ce_checksums e = checks crc (cs_block_size cs) f \<and>
     om_find (cs_meta_files cs) h = Some (meta (ce_version e) (ce_checksums e))"

definition cs_ok :: "(bytes \<Rightarrow> u32) \<Rightarrow> chunk_store \<Rightarrow> bool" where
  "cs_ok crc cs \<longleftrightarrow>
     om_ok (cs_entries cs) \<and> om_ok (cs_chunk_files cs) \<and> om_ok (cs_meta_files cs) \<and> os_ok (cs_corrupt cs) \<and>
     0 < cs_block_size cs \<and> 0 < cs_chunk_size cs \<and> cs_chunk_size cs < 2 ^ 60 \<and>
     (\<forall>h e. om_find (cs_entries cs) h = Some e \<longrightarrow> (\<exists>f. entry_ok crc cs h e f))"

text \<open>What the store holds: version and bytes of each chunk.\<close>

definition content :: "chunk_store \<Rightarrow> u64 \<Rightarrow> (u64 \<times> bytes) option" where
  "content cs h = map_option (\<lambda>e. (ce_version e, file_of (cs_chunk_files cs) h)) (om_find (cs_entries cs) h)"

lemma cs_okD:
  assumes "cs_ok crc cs"
  shows "om_ok (cs_entries cs)" "om_ok (cs_chunk_files cs)" "om_ok (cs_meta_files cs)" "os_ok (cs_corrupt cs)"
    "0 < cs_block_size cs" "0 < cs_chunk_size cs" "cs_chunk_size cs < 2 ^ 60"
  using assms by (auto simp: cs_ok_def)

lemma cs_ok_entry:
  assumes "cs_ok crc cs" "content cs h = Some (v, f)"
  obtains e where "om_find (cs_entries cs) h = Some e" "ce_version e = v" "entry_ok crc cs h e f"
    "file_of (cs_chunk_files cs) h = f" "file_of (cs_meta_files cs) h = meta v (checks crc (cs_block_size cs) f)"
proof -
  from assms(2) obtain e where e: "om_find (cs_entries cs) h = Some e" "ce_version e = v"
    "file_of (cs_chunk_files cs) h = f" by (auto simp: content_def)
  with assms(1) obtain f' where "entry_ok crc cs h e f'" by (auto simp: cs_ok_def)
  with e show thesis by (intro that [of e]) (auto simp: entry_ok_def file_of_def)
qed

lemma content_None: "content cs h = None \<longleftrightarrow> cs_Find cs h = None"
  by (simp add: content_def cs_Find_def)

text \<open>Putting a healthy chunk keeps the invariant and changes only this chunk.\<close>

lemma put_chunk_ok:
  assumes "cs_ok crc cs" "ce_length e = length f" "length f \<le> cs_chunk_size cs"
    "ce_checksums e = checks crc (cs_block_size cs) f" "m = meta (ce_version e) (checks crc (cs_block_size cs) f)"
  shows "cs_ok crc (put_chunk h e f m cs)"
    and "content (put_chunk h e f m cs) = (content cs)(h \<mapsto> (ce_version e, f))"
proof -
  show "cs_ok crc (put_chunk h e f m cs)"
    using assms by (auto simp: cs_ok_def put_chunk_def entry_ok_def intro: om_intros)
  show "content (put_chunk h e f m cs) = (content cs)(h \<mapsto> (ce_version e, f))"
    by (auto simp: content_def put_chunk_def file_of_def fun_eq_iff)
qed

section \<open>Reading\<close>

text \<open>The blocks from \<open>first\<close> to \<open>last\<close> that a read checks, against the data file.\<close>

lemma block_crc_blk:
  assumes "first \<le> b" "stop \<le> length f" "(b + 1) * B \<le> stop \<or> stop = length f"
  shows "block_crc crc B first (take (stop - first * B) (drop (first * B) f)) b = blk crc B f b"
proof -
  let ?buf = "take (stop - first * B) (drop (first * B) f)"
  have pos: "b * B - first * B + first * B = b * B" using assms(1) by simp
  have "drop (b * B - first * B) ?buf = take (stop - b * B) (drop (b * B) f)"
    using pos by (simp add: drop_take) (metis add.commute diff_diff_left pos)
  moreover have "take (min (b * B - first * B + B) (length ?buf) - (b * B - first * B)) (take (stop - b * B) (drop (b * B) f)) =
      take B (drop (b * B) f)"
    using assms(2,3)
  proof (elim disjE)
    assume "(b + 1) * B \<le> stop"
    with pos assms(2) have "min (b * B - first * B + B) (length ?buf) - (b * B - first * B) = B" "B \<le> stop - b * B"
      by (auto simp: min_def algebra_simps)
    then show ?thesis by simp
  next
    assume "stop = length f"
    then have "take (stop - b * B) (drop (b * B) f) = drop (b * B) f" by simp
    moreover have "take (min (b * B - first * B + B) (length ?buf) - (b * B - first * B)) (drop (b * B) f) = take B (drop (b * B) f)"
      using \<open>stop = length f\<close> pos by (cases "b * B - first * B + B \<le> length ?buf") (auto simp: min_def)
    ultimately show ?thesis by simp
  qed
  ultimately show ?thesis by (simp add: block_crc_def blk_def Let_def)
qed

lemma Read_eval:
  assumes e: "cs_Find cs h = Some e" "file_of (cs_chunk_files cs) h = g" "ce_length e = length g"
    and f: "length f = length g" "ce_checksums e = checks crc B f" and B: "cs_block_size cs = B" "0 < B"
    and small: "length g < 2 ^ 60" "offset \<le> length g" "offset + len < 2 ^ 64"
    and ne: "offset < min (offset + len) (length g)"
  defines "blocks \<equiv> [offset div B..<(min (offset + len) (length g) - 1) div B + 1]"
  shows "Read crc h offset len cs =
     (if \<forall>b \<in> set blocks. blk crc B g b = blk crc B f b then (cs, Some (OK, take len (drop offset g)))
      else (MarkCorrupt h cs, Some (CHECKSUM_MISMATCH, [])))"
proof -
  define fin first last where "fin = min (offset + len) (length g)" and "first = offset div B" and "last = (fin - 1) div B"
  define start stop where "start = first * B" and "stop = min ((last + 1) * B) (length g)"
  have fin: "offset < fin" "fin \<le> length g" "fin < 2 ^ 64" "fin - offset \<le> len" using ne small by (auto simp: fin_def)
  have "last * B \<le> fin - 1" by (simp add: last_def)
  then have last: "last * B < length g" using fin by simp
  then have lt: "last < blocks_of B (length g)" by (simp add: less_blocks_of B)
  have start: "start \<le> offset" by (simp add: start_def first_def)
  have "fin - 1 < (last + 1) * B" using B by (simp add: last_def dividend_less_div_times add.commute)
  then have stop: "fin \<le> stop" "stop \<le> length g" using fin by (auto simp: stop_def)
  have sum: "block_crc crc B first (take (stop - start) (drop start g)) b = blk crc B g b \<and>
      ce_checksums e ! b = blk crc B f b" if "b \<in> set [first..<last + 1]" for b
  proof -
    from that have b: "first \<le> b" "b \<le> last" by auto
    have "(b + 1) * B \<le> (last + 1) * B" using b by (intro mult_le_mono) auto
    then have "(b + 1) * B \<le> stop \<or> stop = length g" unfolding stop_def min_def by metis
    then have "block_crc crc B first (take (stop - start) (drop start g)) b = blk crc B g b"
      using block_crc_blk [OF b(1) stop(2)] by (simp add: start_def)
    moreover have "ce_checksums e ! b = blk crc B f b" using b lt f by (simp add: checks_def)
    ultimately show ?thesis ..
  qed
  have ex: "list_ex (\<lambda>b. block_crc crc B first (take (stop - start) (drop start g)) b \<noteq> ce_checksums e ! b) [first..<last + 1] \<longleftrightarrow>
      \<not> (\<forall>b \<in> set [first..<last + 1]. blk crc B g b = blk crc B f b)"
  proof -
    have "(\<exists>b \<in> set [first..<last + 1]. block_crc crc B first (take (stop - start) (drop start g)) b \<noteq> ce_checksums e ! b)
        = (\<exists>b \<in> set [first..<last + 1]. blk crc B g b \<noteq> blk crc B f b)"
      by (intro bex_cong refl) (simp only: sum)
    then show ?thesis by (simp only: list_ex_iff) blast
  qed
  have buf: "PreadAll g (stop - start) start = Some (take (stop - start) (drop start g))"
    using start stop fin by (simp add: PreadAll_def)
  have "take (fin - offset) (drop (offset - start) (take (stop - start) (drop start g))) = take (fin - offset) (drop offset g)"
    using start stop fin by (simp add: drop_take min_def)
  also have "\<dots> = take len (drop offset g)"
    using fin by (cases "offset + len \<le> length g") (auto simp: fin_def min_def)
  finally have out: "substr (take (stop - start) (drop start g)) (offset - start) (fin - offset) = Some (take len (drop offset g))"
    using start stop fin by (simp add: substr_def)
  have "Read crc h offset len cs =
     (if list_ex (\<lambda>b. block_crc crc B first (take (stop - start) (drop start g)) b \<noteq> ce_checksums e ! b) [first..<last + 1]
      then (MarkCorrupt h cs, Some (CHECKSUM_MISMATCH, []))
      else (cs, map_option (Pair OK) (substr (take (stop - start) (drop start g)) (offset - start) (fin - offset))))"
  proof -
    have "min (add64 offset len) (ce_length e) = fin" "sub64 fin 1 = fin - 1" "sub64 fin offset = fin - offset"
      using e small fin by (simp_all add: u64_simps fin_def)
    moreover have "(offset > ce_length e) = False" "(fin = offset) = False" "(last \<ge> length (ce_checksums e)) = False"
        "(stop < start) = False"
      using e f B small fin lt stop start by simp_all
    moreover have "offset div B = first" "(fin - 1) div B = last" "first * B = start" "min ((last + 1) * B) (ce_length e) = stop"
      by (simp_all add: first_def last_def start_def stop_def e)
    ultimately show ?thesis
      by (simp only: Read_def Let_def e(1,2) B(1) option.case if_False buf)
  qed
  then show ?thesis unfolding ex out blocks_def
    by (simp only: fin_def [symmetric] first_def [symmetric] last_def [symmetric] option.map split: if_split) blast
qed

text \<open>A healthy chunk reads back its bytes.\<close>

text \<open>
  Reading a healthy chunk returns exactly the requested bytes and changes nothing.
\<close>

lemma Read_content:
  assumes "cs_ok crc cs" "content cs h = Some (v, f)" "offset \<le> length f" "offset + len < 2 ^ 64"
  shows "Read crc h offset len cs = (cs, Some (OK, take len (drop offset f)))"
proof -
  from assms(1,2) obtain e where e: "om_find (cs_entries cs) h = Some e" "ce_version e = v" "entry_ok crc cs h e f"
    "file_of (cs_chunk_files cs) h = f" by (rule cs_ok_entry)
  then have e': "ce_length e = length f" "ce_checksums e = checks crc (cs_block_size cs) f" "length f < 2 ^ 60"
    using cs_okD(7) [OF assms(1)] by (auto simp: entry_ok_def)
  show ?thesis
  proof (cases "offset < min (offset + len) (length f)")
    case True
    show ?thesis
      using Read_eval [OF _ e(4) e'(1) refl e'(2) refl cs_okD(5) [OF assms(1)] e'(3) assms(3,4) True] e(1)
      by (simp add: cs_Find_def)
  next
    case False
    then have "min (offset + len) (length f) = offset" "take len (drop offset f) = []"
      using assms(3) by (auto simp: min_def split: if_splits)
    then show ?thesis using e e' assms(3,4)
      by (simp add: Read_def cs_Find_def u64_simps)
  qed
qed

text \<open>
  When the data file rots in place, a read never returns wrong bytes, as long as no rotten
  block has the checksum of the block that was written.
\<close>

text \<open>
  C32: when bytes of a data file have rotted in place, a read that succeeds still returns the
  bytes that were written, unless a rotten block collides with the checksum of the old one.
\<close>

theorem Read_rotten:
  assumes ok: "cs_ok crc cs" "content cs h = Some (v, f)" "offset \<le> length f" "offset + len < 2 ^ 64"
    and g: "length g = length f"
    and crc: "\<And>b. blk crc (cs_block_size cs) g b = blk crc (cs_block_size cs) f b \<Longrightarrow>
        take (cs_block_size cs) (drop (b * cs_block_size cs) g) = take (cs_block_size cs) (drop (b * cs_block_size cs) f)"
    and read: "Read crc h offset len (cs\<lparr>cs_chunk_files := om_assign h g (cs_chunk_files cs)\<rparr>) = (cs', Some (OK, out))"
  shows "out = take len (drop offset f)"
proof -
  let ?cs = "cs\<lparr>cs_chunk_files := om_assign h g (cs_chunk_files cs)\<rparr>" and ?B = "cs_block_size cs"
  from ok(1,2) obtain e where e: "om_find (cs_entries cs) h = Some e" "ce_version e = v" "entry_ok crc cs h e f"
    "file_of (cs_chunk_files cs) h = f" by (rule cs_ok_entry)
  then have e': "ce_length e = length g" "ce_checksums e = checks crc ?B f" "length g < 2 ^ 60"
    using cs_okD(7) [OF ok(1)] g by (auto simp: entry_ok_def)
  have B: "0 < ?B" using ok(1) by (rule cs_okD)
  show ?thesis
  proof (cases "offset < min (offset + len) (length g)")
    case False
    then have z: "min (offset + len) (length f) = offset" "take len (drop offset f) = []"
      using ok(3) g by (auto simp: min_def split: if_splits)
    then show ?thesis using e e' ok(3,4) read g
      by (simp add: Read_def cs_Find_def u64_simps)
  next
    case True
    define fin where "fin = min (offset + len) (length g)"
    let ?bs = "[offset div ?B..<(fin - 1) div ?B + 1]"
    have ev: "Read crc h offset len ?cs =
       (if \<forall>b \<in> set ?bs. blk crc ?B g b = blk crc ?B f b then (?cs, Some (OK, take len (drop offset g)))
        else (MarkCorrupt h ?cs, Some (CHECKSUM_MISMATCH, [])))"
      unfolding fin_def
      by (rule Read_eval [of ?cs h e]) (use e e' g B ok(3,4) True in \<open>auto simp: cs_Find_def file_of_def\<close>)
    have same: "\<forall>b \<in> set ?bs. blk crc ?B g b = blk crc ?B f b" and out: "out = take len (drop offset g)"
      using read unfolding ev by (auto split: if_splits)
    have "take (fin - offset) (drop offset g) = take (fin - offset) (drop offset f)"
    proof (rule nth_equalityI)
      fix i assume "i < length (take (fin - offset) (drop offset g))"
      then have i: "offset + i < fin" "fin \<le> length g" by (auto simp: fin_def)
      define b j where "b = (offset + i) div ?B" and "j = (offset + i) mod ?B"
      have "offset div ?B \<le> b" "b \<le> (fin - 1) div ?B" using i unfolding b_def by (auto intro!: div_le_mono)
      then have "b \<in> set ?bs" by (simp only: set_upt atLeastLessThan_iff less_Suc_eq_le Suc_eq_plus1 [symmetric])
      then have "take ?B (drop (b * ?B) g) = take ?B (drop (b * ?B) f)" using same crc by blast
      then have "take ?B (drop (b * ?B) g) ! j = take ?B (drop (b * ?B) f) ! j" by simp
      moreover have "j < ?B" "b * ?B + j = offset + i" using B by (auto simp: b_def j_def)
      ultimately have "g ! (offset + i) = f ! (offset + i)" using i g by simp
      then show "take (fin - offset) (drop offset g) ! i = take (fin - offset) (drop offset f) ! i"
        using i g by simp
    qed (use g in simp)
    moreover have "take (fin - offset) (drop offset k) = take len (drop offset k)" if "length k = length g" for k :: bytes
      using that by (cases "offset + len \<le> length g") (auto simp: fin_def min_def)
    ultimately show ?thesis using out g by metis
  qed
qed

section \<open>The other operations\<close>

text \<open>Rewriting a chunk from some position on, and recomputing the checksums from there.\<close>

lemma checks_rewritten:
  assumes B: "0 < B" and same: "take k f = take k g" and k: "k \<le> length f" "length f \<le> length g"
  shows "\<forall>b < k div B. checks crc B f ! b = blk crc B g b"
proof (intro allI impI)
  fix b assume b: "b < k div B"
  then have "b + 1 \<le> k div B" by simp
  then have "(b + 1) * B \<le> k div B * B" by (intro mult_le_mono) auto
  also have "\<dots> \<le> k" by simp
  finally have le: "(b + 1) * B \<le> k" .
  then have "b * B < length f" using k B by simp
  then have "checks crc B f ! b = blk crc B f b" by (simp add: checks_def less_blocks_of B)
  then show "checks crc B f ! b = blk crc B g b" using blk_prefix [OF same le] by simp
qed

lemma RecomputeBlocks_rewrite:
  assumes ok: "cs_ok crc cs" "entry_ok crc cs h e f"
    and g: "take k f = take k g" "k \<le> length f" "length f \<le> length g" "length g \<le> cs_chunk_size cs" "g \<noteq> []"
    and m: "m = meta (ce_version e) (checks crc (cs_block_size cs) f)"
  shows "RecomputeBlocks crc (cs_block_size cs) (e\<lparr>ce_length := length g\<rparr>) g m (k div cs_block_size cs)
           ((length g - 1) div cs_block_size cs) =
     (e\<lparr>ce_length := length g, ce_checksums := checks crc (cs_block_size cs) g\<rparr>,
      meta (ce_version e) (checks crc (cs_block_size cs) g), True)"
proof -
  let ?B = "cs_block_size cs"
  have B: "0 < ?B" using ok(1) by (rule cs_okD)
  have e: "ce_checksums e = checks crc ?B f" using ok(2) by (simp add: entry_ok_def)
  have "blocks_of ?B (length f) \<le> blocks_of ?B (length g)"
    using g(3) unfolding blocks_of_def by (intro div_le_mono) simp
  moreover have "k div ?B \<le> blocks_of ?B (length f)"
    using g(2) blocks_of_covers [OF B, of "length f"] B
    by (metis div_le_mono div_mult_self_is_m order.trans)
  moreover have "blocks_of ?B (length g) - 1 \<le> (length g - 1) div ?B"
    using g(5) B by (simp add: blocks_of_pos)
  moreover have "length g < 2 ^ 60" using g(4) cs_okD(7) [OF ok(1)] by simp
  ultimately show ?thesis
    using RecomputeBlocks_right [OF B, of "e\<lparr>ce_length := length g\<rparr>" g "(length g - 1) div ?B" "k div ?B" crc m "ce_version e"]
      checks_rewritten [OF B g(1,2,3)]
    by (simp add: e m)
qed

lemma content_chunk: "content cs h = Some (v, f) \<Longrightarrow> cs_Find cs h \<noteq> None"
  by (auto simp: content_def cs_Find_def)

lemma take_write_at_gap:
  "k \<le> offset \<Longrightarrow> k \<le> length f \<Longrightarrow> take k f = take k (write_at offset data f)"
  by (simp add: take_write_at)

lemma Write_content:
  assumes ok: "cs_ok crc cs" "content cs h = Some (v, f)" and fits: "offset + length data \<le> cs_chunk_size cs"
  shows "\<exists>cs'. Write crc h offset data cs = (cs', OK) \<and> cs_ok crc cs' \<and> cs_corrupt cs' = cs_corrupt cs \<and>
     content cs' = (content cs)(h \<mapsto> (v, if data = [] then f else write_at offset data f))"
proof -
  obtain e where e: "om_find (cs_entries cs) h = Some e" "ce_version e = v" "entry_ok crc cs h e f"
    "file_of (cs_chunk_files cs) h = f" "file_of (cs_meta_files cs) h = meta v (checks crc (cs_block_size cs) f)"
    using ok by (rule cs_ok_entry)
  have small: "offset + length data < 2 ^ 60" "cs_chunk_size cs < 2 ^ 60" using fits cs_okD(7) [OF ok(1)] by auto
  have len: "ce_length e = length f" "length f \<le> cs_chunk_size cs" using e(3) by (auto simp: entry_ok_def)
  show ?thesis
  proof (cases "data = []")
    case True
    then show ?thesis using ok e fits small
      by (intro exI [of _ cs]) (auto simp: Write_def cs_Find_def u64_simps fun_eq_iff)
  next
    case False
    let ?g = "write_at offset data f" and ?B = "cs_block_size cs" and ?k = "min offset (length f)"
    have g: "length ?g = max (length f) (offset + length data)" using False by simp
    then have g': "length ?g \<le> cs_chunk_size cs" "length f \<le> length ?g" "?g \<noteq> []" "length ?g < 2 ^ 60"
      using fits len small False by (auto simp: max_def split: if_splits)
    have k: "take ?k f = take ?k ?g" by (rule take_write_at_gap) auto
    have re: "RecomputeBlocks crc ?B (e\<lparr>ce_length := length ?g\<rparr>) ?g (meta v (checks crc ?B f)) (?k div ?B) ((length ?g - 1) div ?B) =
        (e\<lparr>ce_length := length ?g, ce_checksums := checks crc ?B ?g\<rparr>, meta v (checks crc ?B ?g), True)"
      using RecomputeBlocks_rewrite [OF ok(1) e(3) k _ g'(2,1,3)] e(2) by simp
    let ?e = "e\<lparr>ce_length := length ?g, ce_checksums := checks crc ?B ?g\<rparr>"
    have add: "add64 offset (length data) = offset + length data" using small by (simp add: u64_simps)
    have sub: "sub64 (length ?g) 1 = length ?g - 1" using g' False
      by (intro sub64_eq) (auto simp: Suc_le_eq simp del: length_write_at)
    have "Write crc h offset data cs = (put_chunk h ?e ?g (meta v (checks crc ?B ?g)) cs, OK)"
    proof -
      have "(add64 offset (length data) > cs_chunk_size cs) = False" "(data = []) = False" using add fits False by auto
      moreover have "PwriteAll f data offset = Some ?g" using False small by (intro PwriteAll_ok) auto
      moreover have "ce_length (e\<lparr>ce_length := length ?g\<rparr>) = length ?g" by simp
      moreover have "cs_Find cs h = Some e" using e(1) by (simp add: cs_Find_def)
      ultimately show ?thesis
        by (simp only: Write_def option.case if_False e(4,5) Let_def len(1) add g [symmetric] sub re prod.case if_True)
    qed
    moreover have "cs_ok crc (put_chunk h ?e ?g (meta v (checks crc ?B ?g)) cs)"
      "content (put_chunk h ?e ?g (meta v (checks crc ?B ?g)) cs) = (content cs)(h \<mapsto> (v, ?g))"
      using put_chunk_ok [OF ok(1), of ?e ?g "meta v (checks crc ?B ?g)" h] g' e(2) by simp_all
    ultimately show ?thesis using False by (simp add: put_chunk_def)
  qed
qed

lemma Pad_content:
  assumes ok: "cs_ok crc cs" "content cs h = Some (v, f)" and fits: "from_offset \<le> cs_chunk_size cs"
  shows "\<exists>cs'. Pad crc h from_offset cs = (cs', OK) \<and> cs_ok crc cs' \<and> cs_corrupt cs' = cs_corrupt cs \<and>
     content cs' = (content cs)(h \<mapsto> (v, ftruncate (cs_chunk_size cs) (take from_offset f)))"
proof -
  obtain e where e: "om_find (cs_entries cs) h = Some e" "ce_version e = v" "entry_ok crc cs h e f"
    "file_of (cs_chunk_files cs) h = f" "file_of (cs_meta_files cs) h = meta v (checks crc (cs_block_size cs) f)"
    using ok by (rule cs_ok_entry)
  have size: "0 < cs_chunk_size cs" "cs_chunk_size cs < 2 ^ 60" using ok(1) by (auto dest: cs_okD)
  have len: "ce_length e = length f" "length f \<le> cs_chunk_size cs" using e(3) by (auto simp: entry_ok_def)
  let ?g = "ftruncate (cs_chunk_size cs) (take from_offset f)" and ?B = "cs_block_size cs" and ?k = "min from_offset (length f)"
  have g: "length ?g = cs_chunk_size cs" using fits len by (auto simp: ftruncate_def)
  have ne: "?g \<noteq> []" using g size by (metis list.size(3) less_irrefl)
  have k: "take ?k f = take ?k ?g" using fits len by (auto simp: ftruncate_def min_def)
  have re: "RecomputeBlocks crc ?B (e\<lparr>ce_length := cs_chunk_size cs\<rparr>) ?g (meta v (checks crc ?B f)) (?k div ?B) ((cs_chunk_size cs - 1) div ?B) =
      (e\<lparr>ce_length := length ?g, ce_checksums := checks crc ?B ?g\<rparr>, meta v (checks crc ?B ?g), True)"
    using RecomputeBlocks_rewrite [OF ok(1) e(3) k _ _ _ ne] e(2) len unfolding g by simp
  have sub: "sub64 (cs_chunk_size cs) 1 = cs_chunk_size cs - 1" using size by (intro sub64_eq) auto
  have padded: "(if from_offset \<ge> length f then Some (ftruncate (cs_chunk_size cs) f)
     else PwriteAll f (replicate (cs_chunk_size cs - from_offset) zero_byte) from_offset) = Some ?g"
  proof (cases "from_offset \<ge> length f")
    case False
    then have "cs_chunk_size cs - from_offset > 0" using len fits by simp
    with False fits len size show ?thesis by (simp add: PwriteAll_ok write_at_def ftruncate_def)
  qed simp
  let ?e = "e\<lparr>ce_length := length ?g, ce_checksums := checks crc ?B ?g\<rparr>"
  have "(from_offset > cs_chunk_size cs) = False" using fits by simp
  moreover have "cs_Find cs h = Some e" using e(1) by (simp add: cs_Find_def)
  ultimately have "Pad crc h from_offset cs = (put_chunk h ?e ?g (meta v (checks crc ?B ?g)) cs, OK)"
    by (simp only: Pad_def option.case if_False e(4,5) Let_def len(1) padded sub re prod.case if_True)
  moreover have "cs_ok crc (put_chunk h ?e ?g (meta v (checks crc ?B ?g)) cs)"
    "content (put_chunk h ?e ?g (meta v (checks crc ?B ?g)) cs) = (content cs)(h \<mapsto> (v, ?g))"
    using put_chunk_ok [OF ok(1), of ?e ?g "meta v (checks crc ?B ?g)" h] g e(2) by simp_all
  ultimately show ?thesis by (simp add: put_chunk_def)
qed

lemma write_version: "write_at 0 (EncodeU64 w) (meta v sums) = meta w sums"
  by (simp add: write_at_def meta_def)

text \<open>
  Setting the version of a chunk changes its version alone.
\<close>

lemma SetVersion_content:
  assumes ok: "cs_ok crc cs" "content cs h = Some (v, f)"
  shows "\<exists>cs'. SetVersion h w cs = (cs', OK) \<and> cs_ok crc cs' \<and> cs_corrupt cs' = cs_corrupt cs \<and>
     content cs' = (content cs)(h \<mapsto> (w, f))"
proof -
  obtain e where e: "om_find (cs_entries cs) h = Some e" "ce_version e = v" "entry_ok crc cs h e f"
    "file_of (cs_chunk_files cs) h = f" "file_of (cs_meta_files cs) h = meta v (checks crc (cs_block_size cs) f)"
    using ok by (rule cs_ok_entry)
  show ?thesis
  proof (cases "v = w")
    case True
    then show ?thesis using ok e by (intro exI [of _ cs]) (auto simp: SetVersion_def cs_Find_def)
  next
    case False
    have "EncodeU64 w \<noteq> []" using length_EncodeU64 [of w] by (metis list.size(3) zero_neq_numeral)
    then have "PwriteAll (meta v (checks crc (cs_block_size cs) f)) (EncodeU64 w) 0 = Some (meta w (checks crc (cs_block_size cs) f))"
      by (simp add: PwriteAll_ok write_version)
    with e False have "SetVersion h w cs = (put_chunk h (e\<lparr>ce_version := w\<rparr>) f (meta w (checks crc (cs_block_size cs) f)) cs, OK)"
      by (simp add: SetVersion_def cs_Find_def)
    moreover have "cs_ok crc (put_chunk h (e\<lparr>ce_version := w\<rparr>) f (meta w (checks crc (cs_block_size cs) f)) cs)"
      "content (put_chunk h (e\<lparr>ce_version := w\<rparr>) f (meta w (checks crc (cs_block_size cs) f)) cs) = (content cs)(h \<mapsto> (w, f))"
      using put_chunk_ok [OF ok(1), of "e\<lparr>ce_version := w\<rparr>" f "meta w (checks crc (cs_block_size cs) f)" h] e(3)
      by (simp_all add: entry_ok_def)
    ultimately show ?thesis by (simp add: put_chunk_def)
  qed
qed

text \<open>No files of a chunk that the store does not know: what \<open>Scan\<close> of a clean directory gives.\<close>

definition no_orphan :: "chunk_store \<Rightarrow> u64 \<Rightarrow> bool" where
  "no_orphan cs h \<longleftrightarrow> (om_find (cs_entries cs) h = None \<longrightarrow>
     om_find (cs_chunk_files cs) h = None \<and> om_find (cs_meta_files cs) h = None)"

lemma add_chunk_ok:
  assumes "cs_ok crc cs" "ce_length e = length f" "length f \<le> cs_chunk_size cs"
    "ce_checksums e = checks crc (cs_block_size cs) f"
    "cs' = put_chunk h e f (meta (ce_version e) (checks crc (cs_block_size cs) f)) cs"
  shows "cs_ok crc cs' \<and> cs_corrupt cs' = cs_corrupt cs \<and> content cs' = (content cs)(h \<mapsto> (ce_version e, f))"
  using put_chunk_ok [OF assms(1-4) refl] assms(5) by (simp add: put_chunk_def)

text \<open>
  Creating a chunk adds an empty chunk with the given version and leaves the others
  alone.
\<close>

lemma Create_content:
  assumes ok: "cs_ok crc cs" "content cs h = None" "no_orphan cs h"
  shows "\<exists>cs'. Create h v cs = (cs', OK) \<and> cs_ok crc cs' \<and> cs_corrupt cs' = cs_corrupt cs \<and>
     content cs' = (content cs)(h \<mapsto> (v, []))"
proof -
  let ?e = "\<lparr>ce_version = v, ce_length = 0, ce_checksums = []\<rparr>"
  have B: "0 < cs_block_size cs" using ok(1) by (rule cs_okD)
  have "Create h v cs = (put_chunk h ?e [] (EncodeU64 v) cs, OK)"
    using ok by (auto simp: Create_def OpenEntry_new_def no_orphan_def om_count_def content_None cs_Find_def put_chunk_def)
  moreover have "EncodeU64 v = meta (ce_version ?e) (checks crc (cs_block_size cs) [])"
    using B by (simp add: meta_def checks_def)
  ultimately show ?thesis
    using add_chunk_ok [OF ok(1), of ?e "[]" "put_chunk h ?e [] (EncodeU64 v) cs" h] B by (simp add: checks_def)
qed

lemma copy_loop_copies:
  "ready \<le> length f \<Longrightarrow> length f < 2 ^ 60 \<Longrightarrow> copy_loop (length f) f ready (take ready f) = (f, True)"
proof (induction "length f" f ready "take ready f" rule: copy_loop.induct)
  case (1 f ready)
  show ?case
  proof (cases "ready < length f")
    case False
    with 1(2) show ?thesis by (simp add: copy_loop.simps)
  next
    case True
    define step where "step = min (2 ^ 20) (length f - ready)"
    have step: "0 < step" "ready + step \<le> length f" using True by (auto simp: step_def min_def)
    let ?buf = "take step (drop ready f)"
    have read: "PreadAll f step ready = Some ?buf" using step by (simp add: PreadAll_def)
    have "?buf \<noteq> []" using step True by simp
    moreover have "ready + length ?buf < 2 ^ 63" using step 1(3) by simp
    moreover have "write_at ready ?buf (take ready f) = take (ready + step) f"
      using True by (simp add: write_at_def take_add)
    ultimately have wr: "PwriteAll (take ready f) ?buf ready = Some (take (ready + step) f)"
      by (metis PwriteAll_ok)
    have "copy_loop (length f) f (ready + step) (take (ready + step) f) = (f, True)"
      using 1(1) [OF True step_def read wr] step 1(3) by simp
    then show ?thesis
      by (subst copy_loop.simps) (simp only: True if_True Let_def step_def [symmetric] read wr option.case)
  qed
qed

text \<open>
  Copying a chunk gives the new chunk the bytes of the source under its own version.
\<close>

lemma CreateCopy_content:
  assumes ok: "cs_ok crc cs" "content cs h = None" "no_orphan cs h" and src: "content cs from = Some (w, f)"
  shows "\<exists>cs'. CreateCopy h v from cs = (cs', OK) \<and> cs_ok crc cs' \<and> cs_corrupt cs' = cs_corrupt cs \<and>
     content cs' = (content cs)(h \<mapsto> (v, f))"
proof -
  obtain e where e: "om_find (cs_entries cs) from = Some e" "entry_ok crc cs from e f" "file_of (cs_chunk_files cs) from = f"
    using ok(1) src by (rule cs_ok_entry)
  let ?B = "cs_block_size cs" and ?sums = "checks crc (cs_block_size cs) f"
  have B: "0 < ?B" using ok(1) by (rule cs_okD)
  have len: "ce_length e = length f" "length f \<le> cs_chunk_size cs" "length f < 2 ^ 60" "ce_checksums e = ?sums"
    using e(2) cs_okD(7) [OF ok(1)] by (auto simp: entry_ok_def)
  let ?new = "\<lparr>ce_version = v, ce_length = length f, ce_checksums = ?sums\<rparr>"
  let ?cs1 = "cs\<lparr>cs_chunk_files := om_assign h [] (cs_chunk_files cs),
      cs_meta_files := om_assign h (EncodeU64 v) (cs_meta_files cs)\<rparr>"
  have ne: "from \<noteq> h" using src ok(2) by auto
  have new: "OpenEntry_new h v cs = (?cs1, Some \<lparr>ce_version = v, ce_length = 0, ce_checksums = []\<rparr>)"
    using ok by (auto simp: OpenEntry_new_def no_orphan_def om_count_def content_None cs_Find_def)
  have "file_of (cs_chunk_files ?cs1) from = f" using e(3) ne by (simp add: file_of_def)
  then have copy: "copy_loop (length f) (file_of (cs_chunk_files ?cs1) from) 0 [] = (f, True)"
    using copy_loop_copies [of 0 f] len by simp
  have raw: "PwriteAll (EncodeU64 v) (concat (map PutU32 ?sums)) kMetaHeaderSize = Some (meta v ?sums)"
  proof (cases "?sums = []")
    case False
    have "length (concat (map PutU32 ?sums)) \<noteq> 0" using False by (subst length_sums) (simp del: length_checks)
    then have "concat (map PutU32 ?sums) \<noteq> []" by (metis list.size(3))
    moreover have "kMetaHeaderSize + length (concat (map PutU32 ?sums)) < 2 ^ 63"
      using blocks_of_le [OF B, of "length f"] len(3) by (simp add: kMetaHeaderSize_def)
    moreover have "write_at kMetaHeaderSize (concat (map PutU32 ?sums)) (EncodeU64 v) = meta v ?sums"
      by (simp add: write_at_def meta_def kMetaHeaderSize_def)
    ultimately show ?thesis by (metis PwriteAll_ok)
  qed (simp add: PwriteAll_def meta_def)
  have "om_assign h f (om_assign h [] m) = om_assign h f m" "om_assign h b (om_assign h a m') = om_assign h b m'"
    if "om_ok m" "om_ok m'" for m m' and a b :: bytes
    using that by (auto intro!: om_ext om_intros)
  then have "CreateCopy h v from cs = (put_chunk h ?new f (meta v ?sums) cs, OK)"
    using ok e(1) len new copy raw cs_okD(2,3) [OF ok(1)]
    by (simp add: CreateCopy_def cs_Find_def content_None om_count_def Let_def put_chunk_def)
  then show ?thesis
    using add_chunk_ok [OF ok(1), of ?new f "put_chunk h ?new f (meta v ?sums) cs" h] len by simp
qed

text \<open>
  Removing a chunk removes it alone, and takes it off the list of corrupt chunks.
\<close>

lemma Remove_content:
  assumes ok: "cs_ok crc cs" "content cs h = Some (v, f)"
  shows "\<exists>cs'. Remove h cs = (cs', True) \<and> cs_ok crc cs' \<and> content cs' = (content cs)(h := None) \<and>
     cs_corrupt cs' = os_erase h (cs_corrupt cs)"
proof -
  obtain e where e: "om_find (cs_entries cs) h = Some e" using ok by (rule cs_ok_entry)
  let ?cs = "fst (Remove h cs)"
  have "Remove h cs = (?cs, True)" using e by (simp add: Remove_def cs_Find_def)
  moreover have "cs_ok crc ?cs"
    using ok(1) e by (auto simp: cs_ok_def Remove_def cs_Find_def entry_ok_def intro: om_intros split: if_splits)
  moreover have "content ?cs = (content cs)(h := None)" "cs_corrupt ?cs = os_erase h (cs_corrupt cs)"
    using e by (auto simp: Remove_def cs_Find_def content_def file_of_def fun_eq_iff)
  ultimately show ?thesis by blast
qed

section \<open>Restart\<close>

lemma GetU32_sums:
  "i < length sums \<Longrightarrow> GetU32 (drop (4 * i) (concat (map PutU32 sums))) = sums ! i"
proof (induction sums arbitrary: i)
  case (Cons s sums)
  show ?case
  proof (cases i)
    case 0
    then show ?thesis by simp
  next
    case (Suc j)
    with Cons show ?thesis by simp
  qed
qed simp

lemma OpenEntry_healthy:
  assumes "cs_ok crc cs" "entry_ok crc cs h e f"
  shows "OpenEntry_existing h cs = Some e"
proof -
  let ?B = "cs_block_size cs" and ?sums = "checks crc (cs_block_size cs) f"
  have m: "om_find (cs_meta_files cs) h = Some (meta (ce_version e) ?sums)" and f: "om_find (cs_chunk_files cs) h = Some f"
    and e: "ce_length e = length f" "ce_checksums e = ?sums"
    using assms(2) by (auto simp: entry_ok_def)
  let ?m = "meta (ce_version e) ?sums"
  have len: "length ?m = 8 + 4 * blocks_of ?B (length f)" by (simp add: meta_def)
  have "map (\<lambda>i. GetU32 (drop (kMetaHeaderSize + 4 * i) ?m)) [0..<blocks_of ?B (length f)] = ?sums"
    by (rule nth_equalityI) (auto simp: GetU32_sums kMetaHeaderSize_def meta_def)
  moreover have "DecodeU64 ?m = ce_version e" by (simp add: meta_def)
  ultimately show ?thesis
    using m f e len by (cases e) (simp add: OpenEntry_existing_def kMetaHeaderSize_def Let_def)
qed

definition scan_step :: "u64 list \<Rightarrow> u64 \<Rightarrow> chunk_store \<Rightarrow> chunk_store" where
  "scan_step metas handle cs =
     (if handle \<notin> set metas then cs
      else case OpenEntry_existing handle cs of
             None \<Rightarrow> cs
           | Some e \<Rightarrow> cs\<lparr>cs_entries := om_assign handle e (cs_entries cs)\<rparr>)"

lemma OpenEntry_existing_files:
  "cs_chunk_files cs = cs_chunk_files cs' \<Longrightarrow> cs_meta_files cs = cs_meta_files cs' \<Longrightarrow> cs_block_size cs = cs_block_size cs' \<Longrightarrow>
   OpenEntry_existing h cs = OpenEntry_existing h cs'"
  unfolding OpenEntry_existing_def by (simp only:)

lemma fold_scan:
  assumes "\<forall>h \<in> set xs. h \<in> set metas \<and> OpenEntry_existing h cs = g h \<and> g h \<noteq> None"
  shows "\<exists>m. fold (scan_step metas) xs cs = cs\<lparr>cs_entries := m\<rparr> \<and> (om_ok (cs_entries cs) \<longrightarrow> om_ok m) \<and>
     (\<forall>h. om_find m h = (if h \<in> set xs then g h else om_find (cs_entries cs) h))"
  using assms
proof (induction xs arbitrary: cs)
  case Nil
  then show ?case by (intro exI [of _ "cs_entries cs"]) simp
next
  case (Cons x xs)
  then obtain e where e: "g x = Some e" by fastforce
  let ?cs = "cs\<lparr>cs_entries := om_assign x e (cs_entries cs)\<rparr>"
  have "OpenEntry_existing h ?cs = OpenEntry_existing h cs" for h by (rule OpenEntry_existing_files) simp_all
  with Cons.prems have "\<forall>h \<in> set xs. h \<in> set metas \<and> OpenEntry_existing h ?cs = g h \<and> g h \<noteq> None" by simp
  from Cons.IH [OF this] obtain m where m: "fold (scan_step metas) xs ?cs = ?cs\<lparr>cs_entries := m\<rparr>"
    "om_ok (cs_entries ?cs) \<longrightarrow> om_ok m" "\<forall>h. om_find m h = (if h \<in> set xs then g h else om_find (cs_entries ?cs) h)"
    by blast
  have "scan_step metas x cs = ?cs" using Cons.prems e by (simp add: scan_step_def)
  with m e show ?case by (intro exI [of _ m]) (auto intro: om_intros)
qed

text \<open>
  A restart finds the chunks again: with no stray files in the directory, \<open>Scan\<close> rebuilds
  the entries from the files exactly as they were.
\<close>

text \<open>
  After a restart, scanning the directory rebuilds the table of chunks exactly.
\<close>

lemma Scan_rebuilds:
  assumes ok: "cs_ok crc cs" and files: "\<And>h. no_orphan cs h"
  shows "Scan (cs\<lparr>cs_entries := [], cs_corrupt := []\<rparr>) = cs\<lparr>cs_corrupt := []\<rparr>"
proof -
  let ?chunks = "map fst (cs_chunk_files cs)" and ?metas = "map fst (cs_meta_files cs)"
  let ?cs = "cs\<lparr>cs_entries := [], cs_corrupt := []\<rparr>"
  have known: "\<exists>f. entry_ok crc cs h e f" if "om_find (cs_entries cs) h = Some e" for h e
    using ok that by (auto simp: cs_ok_def)
  have keys: "h \<in> set ?chunks \<longleftrightarrow> om_find (cs_entries cs) h \<noteq> None" "h \<in> set ?metas \<longleftrightarrow> om_find (cs_entries cs) h \<noteq> None" for h
  proof -
    have "om_find (cs_chunk_files cs) h \<noteq> None \<longleftrightarrow> om_find (cs_entries cs) h \<noteq> None"
      "om_find (cs_meta_files cs) h \<noteq> None \<longleftrightarrow> om_find (cs_entries cs) h \<noteq> None"
      using files [of h] known [of h] by (auto simp: no_orphan_def entry_ok_def)
    then show "h \<in> set ?chunks \<longleftrightarrow> om_find (cs_entries cs) h \<noteq> None" "h \<in> set ?metas \<longleftrightarrow> om_find (cs_entries cs) h \<noteq> None"
      by (simp_all add: map_of_eq_None_iff)
  qed
  have metas: "filter (\<lambda>e. fst e \<in> set ?chunks) (cs_meta_files cs) = cs_meta_files cs"
  proof (rule filter_True, rule ballI)
    fix x assume "x \<in> set (cs_meta_files cs)"
    then have "fst x \<in> set ?metas" by simp
    then show "fst x \<in> set ?chunks" using keys by blast
  qed
  have "\<forall>h \<in> set ?chunks. h \<in> set ?metas \<and> OpenEntry_existing h ?cs = om_find (cs_entries cs) h \<and> om_find (cs_entries cs) h \<noteq> None"
  proof
    fix h assume "h \<in> set ?chunks"
    then obtain e where e: "om_find (cs_entries cs) h = Some e" using keys(1) by blast
    then obtain f where "entry_ok crc cs h e f" using known by blast
    then have "OpenEntry_existing h cs = Some e" by (rule OpenEntry_healthy [OF ok])
    moreover have "OpenEntry_existing h ?cs = OpenEntry_existing h cs" by (rule OpenEntry_existing_files) simp_all
    moreover have "h \<in> set ?metas" using e keys(2) by blast
    ultimately show "h \<in> set ?metas \<and> OpenEntry_existing h ?cs = om_find (cs_entries cs) h \<and> om_find (cs_entries cs) h \<noteq> None"
      using e by simp
  qed
  from fold_scan [OF this] obtain m where m: "fold (scan_step ?metas) ?chunks ?cs = ?cs\<lparr>cs_entries := m\<rparr>" "om_ok m"
    "\<forall>h. om_find m h = (if h \<in> set ?chunks then om_find (cs_entries cs) h else None)"
    by auto
  have "m = cs_entries cs"
  proof (rule om_ext [OF m(2) cs_okD(1) [OF ok]], rule ext)
    fix h show "om_find m h = om_find (cs_entries cs) h" using m(3) keys(1) [of h] by auto
  qed
  moreover have "Scan ?cs = fold (scan_step ?metas) ?chunks ?cs"
    using metas by (simp add: Scan_def scan_step_def [abs_def] Let_def)
  ultimately show ?thesis using m(1) by simp
qed

section \<open>Requests past the 64-bit range\<close>

text \<open>
  A write whose end wraps passes the range check of the code and is only stopped by the
  system call: \<open>FAILED\<close>, where a write past the chunk's end should be \<open>OUT_OF_RANGE\<close>.
\<close>

text \<open>
  A write whose end exceeds the 64-bit range passes the range check and fails only in
  the system call, with the code \<open>FAILED\<close>.
\<close>

lemma Write_wraps:
  assumes "content cs h = Some (v, f)" "offset < 2 ^ 64" "2 ^ 64 \<le> offset + length data"
    "offset + length data \<le> 2 ^ 64 + cs_chunk_size cs" "cs_chunk_size cs < 2 ^ 60"
  shows "Write crc h offset data cs = (cs, FAILED)"
proof -
  obtain e where e: "cs_Find cs h = Some e" using content_chunk [OF assms(1)] by auto
  have "add64 offset (length data) = offset + length data - 2 ^ 64"
  proof -
    have "(offset + length data - 2 ^ 64) + 2 ^ 64 = offset + length data" using assms(3) by simp
    then have "add64 offset (length data) = (offset + length data - 2 ^ 64) mod 2 ^ 64"
      unfolding add64_def by (metis mod_add_self2)
    moreover have "offset + length data - 2 ^ 64 < 2 ^ 64" using assms(4,5) by simp
    ultimately show ?thesis by simp
  qed
  then have "\<not> add64 offset (length data) > cs_chunk_size cs" using assms(4) by simp
  moreover have "data \<noteq> []" using assms(2,3) by auto
  ultimately show ?thesis using e assms(3) by (simp add: Write_def PwriteAll_def)
qed

text \<open>A read whose end wraps to a position before its start marks a healthy chunk as corrupt.\<close>

text \<open>
  A read whose end exceeds the 64-bit range marks a healthy chunk as corrupt.
\<close>

lemma Read_wraps:
  assumes ok: "cs_ok crc cs" "content cs h = Some (v, f)" and offset: "0 < offset" "offset \<le> length f"
    and B: "cs_block_size cs \<le> 2 ^ 60"
  shows "Read crc h offset (2 ^ 64 - offset) cs = (MarkCorrupt h cs, Some (CHECKSUM_MISMATCH, []))"
proof -
  obtain e where e: "om_find (cs_entries cs) h = Some e" "entry_ok crc cs h e f" using ok by (rule cs_ok_entry)
  have len: "ce_length e = length f" "length f < 2 ^ 60" "ce_checksums e = checks crc (cs_block_size cs) f"
    using e(2) cs_okD(7) [OF ok(1)] by (auto simp: entry_ok_def)
  have B0: "0 < cs_block_size cs" using ok(1) by (rule cs_okD)
  have "offset < 2 ^ 64" using offset len by simp
  then have "add64 offset (2 ^ 64 - offset) = 0" by (simp add: add64_def)
  moreover have "sub64 0 1 = 2 ^ 64 - 1" by (simp add: sub64_def)
  moreover have "\<not> (2 ^ 64 - 1) div cs_block_size cs < blocks_of (cs_block_size cs) (length f)"
  proof -
    have "2 ^ 64 - 1 < (2 ^ 64 - 1) div cs_block_size cs * cs_block_size cs + cs_block_size cs"
      using dividend_less_div_times [OF B0, of "2 ^ 64 - 1"] by (simp add: add.commute)
    then have "length f \<le> (2 ^ 64 - 1) div cs_block_size cs * cs_block_size cs" using B len by simp
    then show ?thesis by (simp add: less_blocks_of B0)
  qed
  ultimately show ?thesis using e(1) len offset by (simp add: Read_def cs_Find_def not_less)
qed

section \<open>Chunks as replicas\<close>

text \<open>The two mutations a primary orders, on a store, and what they do to the bytes.\<close>

datatype mutation = MutWrite u64 nat bytes | MutPad u64 nat

fun mutate :: "(bytes \<Rightarrow> u32) \<Rightarrow> mutation \<Rightarrow> chunk_store \<Rightarrow> chunk_store \<times> result_code" where
  "mutate crc (MutWrite h offset data) cs = Write crc h offset data cs"
| "mutate crc (MutPad h from_offset) cs = Pad crc h from_offset cs"

fun chunk_of :: "mutation \<Rightarrow> u64" where
  "chunk_of (MutWrite h offset data) = h"
| "chunk_of (MutPad h from_offset) = h"

fun outcome :: "nat \<Rightarrow> mutation \<Rightarrow> bytes \<Rightarrow> bytes" where
  "outcome chunk_size (MutWrite h offset data) f = (if data = [] then f else write_at offset data f)"
| "outcome chunk_size (MutPad h from_offset) f = ftruncate chunk_size (take from_offset f)"

lemma Write_cases:
  assumes ok: "cs_ok crc cs"
  obtains (refused) code where "Write crc h offset data cs = (cs, code)" "code \<noteq> OK"
  | (acked) v f cs' where "content cs h = Some (v, f)" "Write crc h offset data cs = (cs', OK)" "cs_ok crc cs'"
      "cs_corrupt cs' = cs_corrupt cs" "content cs' = (content cs)(h \<mapsto> (v, if data = [] then f else write_at offset data f))"
      "data = [] \<or> offset + length data \<le> cs_chunk_size cs"
proof (cases "content cs h")
  case None
  then show thesis by (intro refused [of NO_SUCH_CHUNK]) (simp_all add: Write_def content_None)
next
  case (Some a)
  obtain v f where vf: "content cs h = Some (v, f)" using Some by (cases a) auto
  then obtain e where e: "cs_Find cs h = Some e" using content_chunk by blast
  show thesis
  proof (cases "add64 offset (length data) > cs_chunk_size cs")
    case True
    then show thesis using e by (intro refused [of OUT_OF_RANGE]) (simp_all add: Write_def)
  next
    case False
    show thesis
    proof (cases "data = []")
      case True
      with False e vf ok show thesis by (intro acked [of v f cs]) (auto simp: Write_def fun_eq_iff)
    next
      case nonempty: False
      show thesis
      proof (cases "offset + length data < 2 ^ 63")
        case True
        then have "offset + length data \<le> cs_chunk_size cs" using False by (simp add: add64_eq)
        with Write_content [OF ok vf this] show thesis using vf by (auto intro: acked)
      next
        case large: False
        then show thesis using e False nonempty by (intro refused [of FAILED]) (simp_all add: Write_def PwriteAll_def)
      qed
    qed
  qed
qed

lemma Pad_cases:
  assumes ok: "cs_ok crc cs"
  obtains (refused) code where "Pad crc h from_offset cs = (cs, code)" "code \<noteq> OK"
  | (acked) v f cs' where "content cs h = Some (v, f)" "Pad crc h from_offset cs = (cs', OK)" "cs_ok crc cs'"
      "cs_corrupt cs' = cs_corrupt cs" "content cs' = (content cs)(h \<mapsto> (v, ftruncate (cs_chunk_size cs) (take from_offset f)))"
proof (cases "content cs h")
  case None
  then show thesis by (intro refused [of NO_SUCH_CHUNK]) (simp_all add: Pad_def content_None)
next
  case (Some a)
  obtain v f where vf: "content cs h = Some (v, f)" using Some by (cases a) auto
  then obtain e where e: "cs_Find cs h = Some e" using content_chunk by blast
  show thesis
  proof (cases "from_offset > cs_chunk_size cs")
    case True
    then show thesis using e by (intro refused [of OUT_OF_RANGE]) (simp_all add: Pad_def)
  next
    case False
    with Pad_content [OF ok vf, of from_offset] show thesis using vf by (auto intro: acked)
  qed
qed

definition store_ok :: "(bytes \<Rightarrow> u32) \<Rightarrow> nat \<Rightarrow> chunk_store \<Rightarrow> bool" where
  "store_ok crc chunk_size cs \<longleftrightarrow> cs_ok crc cs \<and> cs_chunk_size cs = chunk_size"

lemma sizes_put [simp]: "cs_chunk_size (put_chunk h e f m cs) = cs_chunk_size cs"
  by (simp add: put_chunk_def)

lemma Write_size [simp]: "cs_chunk_size (fst (Write crc h offset data cs)) = cs_chunk_size cs"
  by (simp add: Write_def Let_def split: option.split prod.split)

lemma Pad_size [simp]: "cs_chunk_size (fst (Pad crc h from_offset cs)) = cs_chunk_size cs"
  by (simp add: Pad_def Let_def split: option.split prod.split)

lemma Write_keeps: "cs_ok crc cs \<Longrightarrow> cs_ok crc (fst (Write crc h offset data cs))"
  by (rule Write_cases [where crc = crc and cs = cs and h = h and offset = offset and data = data]) simp_all

lemma Pad_keeps: "cs_ok crc cs \<Longrightarrow> cs_ok crc (fst (Pad crc h from_offset cs))"
  by (rule Pad_cases [where crc = crc and cs = cs and h = h and from_offset = from_offset]) simp_all

interpretation store: replica_store "store_ok crc chunk_size" content "mutate crc" chunk_of "outcome chunk_size"
  for crc chunk_size
proof
  show "store_ok crc chunk_size (fst (mutate crc m s))" if "store_ok crc chunk_size s" for s m
    using that by (cases m) (simp_all add: store_ok_def Write_keeps Pad_keeps)
  show "\<exists>v f. content s (chunk_of m) = Some (v, f) \<and> content s' = (content s)(chunk_of m \<mapsto> (v, outcome chunk_size m f))"
    if "store_ok crc chunk_size s" "mutate crc m s = (s', OK)" for s s' m
  proof (cases m)
    case (MutWrite h offset data)
    from that have "cs_ok crc s" by (simp add: store_ok_def)
    then show ?thesis by (rule Write_cases [of crc s h offset data]) (use that MutWrite in auto)
  next
    case (MutPad h from_offset)
    from that have "cs_ok crc s" by (simp add: store_ok_def)
    then show ?thesis by (rule Pad_cases [of crc s h from_offset]) (use that MutPad in \<open>auto simp: store_ok_def\<close>)
  qed
qed

section \<open>The contract of a write\<close>

text \<open>
  A write either changes nothing and answers with an error, or it is acknowledged and
  then the chunk holds the old bytes overwritten by the data, with its version and every other chunk
  as before, within the chunk size, and with checksums that match.
\<close>

lemma Write_outcome:
  assumes "cs_ok crc cs"
  shows "(\<exists>code. code \<noteq> OK \<and> Write crc h offset data cs = (cs, code)) \<or>
     (\<exists>v f cs'. content cs h = Some (v, f) \<and> Write crc h offset data cs = (cs', OK) \<and> cs_ok crc cs' \<and>
        cs_corrupt cs' = cs_corrupt cs \<and> (data = [] \<or> offset + length data \<le> cs_chunk_size cs) \<and>
        content cs' = (content cs)(h \<mapsto> (v, if data = [] then f else write_at offset data f)))"
  by (rule Write_cases [OF assms, of h offset data]) blast+

text \<open>
  Two replicas of a chunk that start with equal bytes and acknowledge the same writes
  and pads of it in the same order hold equal bytes afterwards, whatever happens to their other
  chunks.
\<close>

lemma replicas_stay_equal:
  assumes "store_ok crc n s" "store_ok crc n t"
    and "apply_all (mutate crc) ms s = Some s'" "apply_all (mutate crc) ns t = Some t'"
    and "filter (\<lambda>m. chunk_of m = h) ms = filter (\<lambda>m. chunk_of m = h) ns"
    and "content s h = Some (v, f)" "content t h = Some (w, f)"
  shows "map_option snd (content s' h) = map_option snd (content t' h)"
  by (rule store.replicas_agree [OF assms])

section \<open>Witnesses\<close>

definition no_crc :: "bytes \<Rightarrow> u32" where
  "no_crc b = 0"

definition one_chunk :: chunk_store where
  "one_chunk = \<lparr>cs_chunk_size = 16, cs_block_size = 4,
     cs_entries = [(7, \<lparr>ce_version = 1, ce_length = 6, ce_checksums = [0, 0]\<rparr>)],
     cs_chunk_files = [(7, ''abcdef'')], cs_meta_files = [(7, EncodeU64 1 @ replicate 8 zero_byte)],
     cs_corrupt = []\<rparr>"

lemma one_chunk_content: "content one_chunk 7 = Some (1, ''abcdef'')" "cs_chunk_size one_chunk = 16" "cs_block_size one_chunk = 4"
  by (simp_all add: one_chunk_def content_def file_of_def)

lemma one_chunk_ok: "cs_ok no_crc one_chunk"
proof -
  have m: "meta 1 [0, 0] = EncodeU64 1 @ replicate 8 zero_byte" "checks no_crc 4 ''abcdef'' = [0, 0]" by code_simp+
  then have "entry_ok no_crc one_chunk 7 \<lparr>ce_version = 1, ce_length = 6, ce_checksums = [0, 0]\<rparr> ''abcdef''"
    by (simp add: entry_ok_def one_chunk_def)
  then show ?thesis
    unfolding cs_ok_def by (auto simp: one_chunk_def om_ok_def)
qed

lemma one_chunk_no_orphan: "no_orphan one_chunk h"
  by (simp add: no_orphan_def one_chunk_def)

lemma write_acked: "snd (Write no_crc 7 4 ''XYZ'' one_chunk) = OK"
  using Write_content [OF one_chunk_ok one_chunk_content(1), of 4 "''XYZ''"] by (auto simp: one_chunk_content)

theorem Write_outcome_witness:
  "snd (Write no_crc 7 4 ''XYZ'' one_chunk) = OK \<and>
   content (fst (Write no_crc 7 4 ''XYZ'' one_chunk)) 7 = Some (1, ''abcdXYZ'')"
proof -
  have w: "snd (Write no_crc 7 4 ''XYZ'' one_chunk) = OK" by (rule write_acked)
  have "write_at 4 ''XYZ'' ''abcdef'' = ''abcdXYZ''" by code_simp
  with Write_outcome [OF one_chunk_ok, of 7 4 "''XYZ''"] w show ?thesis
    by (auto simp: one_chunk_content)
qed

theorem replicas_stay_equal_witness:
  "map_option snd (content (fst (Write no_crc 7 4 ''XYZ'' one_chunk)) 7) =
   map_option snd (content (fst (Write no_crc 7 4 ''XYZ'' one_chunk)) 7)"
proof -
  have a: "apply_all (mutate no_crc) [MutWrite 7 4 ''XYZ''] one_chunk = Some (fst (Write no_crc 7 4 ''XYZ'' one_chunk))"
    using write_acked by (simp add: split_beta)
  show ?thesis
    by (rule replicas_stay_equal [OF _ _ a a refl one_chunk_content(1) one_chunk_content(1)])
      (simp_all add: store_ok_def one_chunk_ok one_chunk_content)
qed

theorem Read_content_witness: "Read no_crc 7 2 3 one_chunk = (one_chunk, Some (OK, ''cde''))"
  using Read_content [OF one_chunk_ok one_chunk_content(1), of 2 3] by simp

theorem CreateCopy_content_witness:
  "\<exists>cs'. CreateCopy 8 2 7 one_chunk = (cs', OK) \<and> content cs' 8 = Some (2, ''abcdef'')"
proof -
  have "content one_chunk 8 = None" by (simp add: one_chunk_def content_def)
  then show ?thesis
    using CreateCopy_content [OF one_chunk_ok _ one_chunk_no_orphan one_chunk_content(1), of 8 2] by auto
qed

theorem Scan_rebuilds_witness: "Scan (one_chunk\<lparr>cs_entries := [], cs_corrupt := []\<rparr>) = one_chunk\<lparr>cs_corrupt := []\<rparr>"
  by (rule Scan_rebuilds [OF one_chunk_ok one_chunk_no_orphan])

theorem Write_wraps_witness: "Write no_crc 7 (2 ^ 64 - 1) ''XY'' one_chunk = (one_chunk, FAILED)"
  by (rule Write_wraps [OF one_chunk_content(1)]) (simp_all add: one_chunk_content)

theorem Read_wraps_witness:
  "Read no_crc 7 2 (2 ^ 64 - 2) one_chunk = (MarkCorrupt 7 one_chunk, Some (CHECKSUM_MISMATCH, []))"
  by (rule Read_wraps [OF one_chunk_ok one_chunk_content(1)]) (simp_all add: one_chunk_content)

text \<open>A checksum that tells the damage of the last block.\<close>

definition sum_crc :: "bytes \<Rightarrow> u32" where
  "sum_crc b = sum_list (map of_char b)"

definition summed_chunk :: chunk_store where
  "summed_chunk = \<lparr>cs_chunk_size = 16, cs_block_size = 4,
     cs_entries = [(7, \<lparr>ce_version = 1, ce_length = 6, ce_checksums = checks sum_crc 4 ''abcdef''\<rparr>)],
     cs_chunk_files = [(7, ''abcdef'')], cs_meta_files = [(7, meta 1 (checks sum_crc 4 ''abcdef''))],
     cs_corrupt = []\<rparr>"

theorem Read_rotten_witness:
  "\<exists>out. snd (Read sum_crc 7 0 3 (summed_chunk\<lparr>cs_chunk_files := [(7, ''abcdeX'')]\<rparr>)) = Some (OK, out) \<and> out = ''abc''"
proof -
  let ?f = "''abcdef''" and ?g = "''abcdeX''"
  let ?r = "Read sum_crc 7 0 3 (summed_chunk\<lparr>cs_chunk_files := om_assign 7 ?g (cs_chunk_files summed_chunk)\<rparr>)"
  have "entry_ok sum_crc summed_chunk 7 \<lparr>ce_version = 1, ce_length = 6, ce_checksums = checks sum_crc 4 ?f\<rparr> ?f"
    by (simp add: entry_ok_def summed_chunk_def)
  then have ok: "cs_ok sum_crc summed_chunk" unfolding cs_ok_def by (auto simp: summed_chunk_def om_ok_def)
  have sizes: "content summed_chunk 7 = Some (1, ?f)" "cs_block_size summed_chunk = 4"
    by (simp_all add: summed_chunk_def content_def file_of_def)
  have same: "take 4 (drop (b * 4) ?g) = take 4 (drop (b * 4) ?f)"
    if "blk sum_crc 4 ?g b = blk sum_crc 4 ?f b" for b
  proof -
    have "blk sum_crc 4 ?g 1 \<noteq> blk sum_crc 4 ?f 1" by code_simp
    with that have "b \<noteq> 1" by blast
    then consider "b = 0" | "2 \<le> b" by linarith
    then show ?thesis by cases simp_all
  qed
  have s: "snd ?r = Some (OK, ''abc'')" by code_simp
  have r: "?r = (fst ?r, Some (OK, ''abc''))" using s by (simp add: prod_eq_iff)
  have "''abc'' = take 3 (drop 0 ?f)"
    by (rule Read_rotten [OF ok sizes(1) _ _ _ _ r]) (simp_all add: sizes same)
  moreover have "om_assign 7 ?g (cs_chunk_files summed_chunk) = [(7, ?g)]" by (simp add: summed_chunk_def)
  ultimately show ?thesis using s by simp
qed

end
