(* ===== verification/DataBuffer.thy ===== *)
theory DataBuffer
  imports StdMap
begin

text \<open>
  The chunkserver's buffer of pushed data, \<open>src/src/chunkserver/data_buffer.cc\<close>: a list in
  order of use with an index into it and a byte budget. List nodes carry an identity, the
  model of \<open>std::list\<close> iterators, so that the agreement of list and index is a theorem and
  not an assumption. A buffer key is any linearly ordered type.
\<close>

section \<open>State and operations\<close>

type_synonym 'k node = "nat \<times> 'k \<times> bytes"

record 'k data_buffer =
  db_capacity :: nat
  db_used :: nat
  db_lru :: "'k node list"
  db_index :: "('k, nat) omap"
  db_next :: nat

definition empty_buffer :: "nat \<Rightarrow> 'k data_buffer" where
  "empty_buffer capacity =
     \<lparr>db_capacity = capacity, db_used = 0, db_lru = [], db_index = [], db_next = 0\<rparr>"

abbreviation node_key :: "'k node \<Rightarrow> 'k" where
  "node_key n \<equiv> fst (snd n)"

abbreviation node_data :: "'k node \<Rightarrow> bytes" where
  "node_data n \<equiv> snd (snd n)"

text \<open>\<open>it->second\<close> and \<open>lru_.erase(it)\<close> for the iterator with identity \<open>i\<close>.\<close>

definition deref :: "nat \<Rightarrow> 'k node list \<Rightarrow> bytes" where
  "deref i lru = (case map_of lru i of None \<Rightarrow> [] | Some e \<Rightarrow> snd e)"

definition list_erase :: "nat \<Rightarrow> 'k node list \<Rightarrow> 'k node list" where
  "list_erase i lru = filter (\<lambda>n. fst n \<noteq> i) lru"

definition drop_existing :: "'k::linorder \<Rightarrow> 'k data_buffer \<Rightarrow> 'k data_buffer" where
  "drop_existing key db =
     (case om_find (db_index db) key of
        None \<Rightarrow> db
      | Some it \<Rightarrow>
          db\<lparr>db_used := sub64 (db_used db) (length (deref it (db_lru db))),
             db_lru := list_erase it (db_lru db),
             db_index := om_erase key (db_index db)\<rparr>)"

definition pop_oldest :: "'k::linorder data_buffer \<Rightarrow> 'k data_buffer" where
  "pop_oldest db =
     (let oldest = last (db_lru db)
      in db\<lparr>db_used := sub64 (db_used db) (length (node_data oldest)),
            db_index := om_erase (node_key oldest) (db_index db),
            db_lru := butlast (db_lru db)\<rparr>)"

function evict :: "nat \<Rightarrow> 'k::linorder data_buffer \<Rightarrow> 'k data_buffer" where
  "evict sz db =
     (if db_lru db \<noteq> [] \<and> add64 (db_used db) sz > db_capacity db then evict sz (pop_oldest db) else db)"
  by pat_completeness auto
termination by (relation "measure (\<lambda>(sz, db). length (db_lru db))") (auto simp: pop_oldest_def Let_def)

declare evict.simps [simp del]

definition push_front :: "'k::linorder \<Rightarrow> bytes \<Rightarrow> 'k data_buffer \<Rightarrow> 'k data_buffer" where
  "push_front key data db =
     db\<lparr>db_used := add64 (db_used db) (length data),
        db_lru := (db_next db, key, data) # db_lru db,
        db_index := om_assign key (db_next db) (db_index db),
        db_next := db_next db + 1\<rparr>"

definition Put :: "'k::linorder \<Rightarrow> bytes \<Rightarrow> 'k data_buffer \<Rightarrow> 'k data_buffer" where
  "Put key data db = push_front key data (evict (length data) (drop_existing key db))"

definition Take :: "'k::linorder \<Rightarrow> 'k data_buffer \<Rightarrow> 'k data_buffer \<times> bytes option" where
  "Take key db =
     (case om_find (db_index db) key of
        None \<Rightarrow> (db, None)
      | Some it \<Rightarrow>
          let data = deref it (db_lru db)
          in (db\<lparr>db_used := sub64 (db_used db) (length data),
                 db_lru := list_erase it (db_lru db),
                 db_index := om_erase key (db_index db)\<rparr>, Some data))"

definition SizeOf :: "'k::linorder \<Rightarrow> 'k data_buffer \<Rightarrow> nat option" where
  "SizeOf key db = map_option (\<lambda>it. length (deref it (db_lru db))) (om_find (db_index db) key)"

definition BytesInUse :: "'k data_buffer \<Rightarrow> nat" where
  "BytesInUse db = db_used db"

definition EntryCount :: "'k data_buffer \<Rightarrow> nat" where
  "EntryCount db = length (db_lru db)"

section \<open>The invariant\<close>

definition total :: "'k node list \<Rightarrow> nat" where
  "total lru = (\<Sum>n\<leftarrow>lru. length (node_data n))"

definition db_ok :: "'k::linorder data_buffer \<Rightarrow> bool" where
  "db_ok db \<longleftrightarrow>
     distinct (map fst (db_lru db)) \<and> distinct (map node_key (db_lru db)) \<and>
     (\<forall>n \<in> set (db_lru db). fst n < db_next db) \<and>
     (\<forall>k i. om_find (db_index db) k = Some i \<longleftrightarrow> (\<exists>d. (i, k, d) \<in> set (db_lru db))) \<and>
     db_used db = total (db_lru db) \<and> total (db_lru db) < 2 ^ 64 \<and>
     (db_used db \<le> db_capacity db \<or> length (db_lru db) = 1)"

text \<open>The abstract buffer: keys with their data, most recent first.\<close>

definition view :: "'k data_buffer \<Rightarrow> ('k \<times> bytes) list" where
  "view db = map snd (db_lru db)"

lemma total_simps [simp]: "total [] = 0" "total (n # ns) = length (node_data n) + total ns"
  "total (ms @ ns) = total ms + total ns"
  by (simp_all add: total_def)

lemma total_filter: "total lru = total (filter P lru) + total (filter (\<lambda>n. \<not> P n) lru)"
  by (induction lru) auto

lemma db_okD:
  assumes "db_ok db"
  shows "distinct (map fst (db_lru db))" "distinct (map node_key (db_lru db))"
    "\<And>k i. om_find (db_index db) k = Some i \<longleftrightarrow> (\<exists>d. (i, k, d) \<in> set (db_lru db))"
    "db_used db = total (db_lru db)" "total (db_lru db) < 2 ^ 64"
  using assms by (auto simp: db_ok_def)

lemma deref_node: "distinct (map fst lru) \<Longrightarrow> (i, k, d) \<in> set lru \<Longrightarrow> deref i lru = d"
  by (simp add: deref_def)

lemma erase_key:
  assumes "distinct (map fst lru)" "distinct (map node_key lru)" "(i, k, d) \<in> set lru"
  shows "list_erase i lru = filter (\<lambda>n. node_key n \<noteq> k) lru"
  unfolding list_erase_def
proof (rule filter_cong)
  fix n assume n: "n \<in> set lru"
  show "(fst n \<noteq> i) = (node_key n \<noteq> k)"
  proof -
    have "inj_on fst (set lru)" "inj_on node_key (set lru)" using assms(1,2) by (simp_all add: distinct_map)
    then have "fst n = fst (i, k, d) \<Longrightarrow> n = (i, k, d)" "node_key n = node_key (i, k, d) \<Longrightarrow> n = (i, k, d)"
      using n assms(3) unfolding inj_on_def by blast+
    then show ?thesis by (metis fst_conv snd_conv)
  qed
qed simp

lemma filter_single:
  "distinct (map f xs) \<Longrightarrow> x \<in> set xs \<Longrightarrow> filter (\<lambda>y. f y = f x) xs = [x]"
proof (induction xs)
  case (Cons a xs)
  show ?case
  proof (cases "x = a")
    case True
    have "f y \<noteq> f a" if "y \<in> set xs" for y using Cons.prems(1) that by (metis distinct.simps(2) image_eqI list.map(2) list.set_map)
    with True show ?thesis by (simp add: filter_empty_conv)
  next
    case False
    with Cons.prems have x: "x \<in> set xs" by simp
    then have "f a \<noteq> f x" using Cons.prems(1) by (metis distinct.simps(2) image_eqI list.map(2) list.set_map)
    with x Cons show ?thesis by simp
  qed
qed simp

lemma filter_last:
  "distinct (map f (xs @ [x])) \<Longrightarrow> filter (\<lambda>y. f y \<noteq> f x) (xs @ [x]) = xs"
  by (induction xs) auto

text \<open>Both \<open>Take\<close> and the first step of \<open>Put\<close> remove the entry of a key.\<close>

definition remove_key :: "'k::linorder \<Rightarrow> 'k data_buffer \<Rightarrow> 'k data_buffer" where
  "remove_key k db = db\<lparr>db_used := total (filter (\<lambda>n. node_key n \<noteq> k) (db_lru db)),
     db_lru := filter (\<lambda>n. node_key n \<noteq> k) (db_lru db), db_index := om_erase k (db_index db)\<rparr>"

lemma removal:
  assumes "db_ok db" "om_find (db_index db) k = Some i"
  shows "db\<lparr>db_used := sub64 (db_used db) (length (deref i (db_lru db))),
     db_lru := list_erase i (db_lru db), db_index := om_erase k (db_index db)\<rparr> = remove_key k db"
    and "map_of (view db) k = Some (deref i (db_lru db))"
proof -
  obtain d where node: "(i, k, d) \<in> set (db_lru db)" using assms db_okD(3) by blast
  note deref = deref_node [OF db_okD(1) [OF assms(1)] node]
  have "filter (\<lambda>n. \<not> node_key n \<noteq> k) (db_lru db) = [(i, k, d)]"
    using filter_single [OF db_okD(2) [OF assms(1)] node] by simp
  then have "total (db_lru db) = total (filter (\<lambda>n. node_key n \<noteq> k) (db_lru db)) + length d"
    using total_filter [of "db_lru db" "\<lambda>n. node_key n \<noteq> k"] by simp
  then have "sub64 (db_used db) (length (deref i (db_lru db))) = total (filter (\<lambda>n. node_key n \<noteq> k) (db_lru db))"
    using db_okD(4,5) [OF assms(1)] by (simp add: deref sub64_eq)
  then show "db\<lparr>db_used := sub64 (db_used db) (length (deref i (db_lru db))),
     db_lru := list_erase i (db_lru db), db_index := om_erase k (db_index db)\<rparr> = remove_key k db"
    by (simp add: remove_key_def erase_key [OF db_okD(1,2) [OF assms(1)] node])
  have "(k, d) \<in> set (view db)" using node by (force simp: view_def)
  moreover have "distinct (map fst (view db))"
    using db_okD(2) [OF assms(1)] by (simp add: view_def comp_def)
  ultimately show "map_of (view db) k = Some (deref i (db_lru db))" by (simp add: deref)
qed

lemma distinct_map_filter': "distinct (map f xs) \<Longrightarrow> distinct (map f (filter P xs))"
  by (rule distinct_map_filter)

lemma remove_key_ok:
  assumes "db_ok db"
  shows "db_ok (remove_key k db)"
proof -
  let ?lru = "filter (\<lambda>n. node_key n \<noteq> k) (db_lru db)"
  have le: "total ?lru \<le> total (db_lru db)" using total_filter [of "db_lru db" "\<lambda>n. node_key n \<noteq> k"] by simp
  have "total ?lru \<le> db_capacity db \<or> length ?lru = 1"
  proof (cases "db_used db \<le> db_capacity db")
    case False
    then obtain n where "db_lru db = [n]" using assms by (auto simp: db_ok_def length_Suc_conv)
    then show ?thesis by simp
  qed (use le db_okD(4) [OF assms] in simp)
  then show ?thesis
    using assms le by (auto simp: db_ok_def remove_key_def distinct_map_filter')
qed

lemma index_view: "db_ok db \<Longrightarrow> om_find (db_index db) k = None \<longleftrightarrow> map_of (view db) k = None"
proof -
  assume ok: "db_ok db"
  have "om_find (db_index db) k = None \<longleftrightarrow> (\<forall>i d. (i, k, d) \<notin> set (db_lru db))"
    using db_okD(3) [OF ok, of k] by (metis option.exhaust option.distinct(1))
  also have "\<dots> \<longleftrightarrow> k \<notin> fst ` set (view db)" by (force simp: view_def)
  finally show ?thesis by (simp add: map_of_eq_None_iff)
qed

lemma Take_view:
  assumes "db_ok db"
  shows "snd (Take k db) = map_of (view db) k"
    and "view (fst (Take k db)) = filter (\<lambda>e. fst e \<noteq> k) (view db)" and "db_ok (fst (Take k db))"
proof -
  have vw: "view (remove_key k db) = filter (\<lambda>e. fst e \<noteq> k) (view db)"
    by (simp add: view_def remove_key_def filter_map comp_def)
  show "snd (Take k db) = map_of (view db) k"
    using index_view [OF assms, of k] removal [OF assms, of k]
    by (cases "om_find (db_index db) k") (auto simp: Take_def Let_def)
  have "filter (\<lambda>e. fst e \<noteq> k) (view db) = view db" if "om_find (db_index db) k = None"
    using that index_view [OF assms, of k] by (auto simp: filter_id_conv map_of_eq_None_iff)
  then show "view (fst (Take k db)) = filter (\<lambda>e. fst e \<noteq> k) (view db)"
    using removal(1) [OF assms, of k] vw by (cases "om_find (db_index db) k") (auto simp: Take_def Let_def)
  show "db_ok (fst (Take k db))"
    using removal(1) [OF assms, of k] remove_key_ok [OF assms, of k] assms
    by (cases "om_find (db_index db) k") (auto simp: Take_def Let_def)
qed

lemma drop_existing_Take: "drop_existing k db = fst (Take k db)"
  by (simp add: drop_existing_def Take_def Let_def split: option.split)

text \<open>
  The size that the buffer reports for a key is the size of the data buffered last under
  this key.
\<close>

lemma SizeOf_view: "db_ok db \<Longrightarrow> SizeOf k db = map_option length (map_of (view db) k)"
  using index_view [of db k] removal(2) [of db k] by (cases "om_find (db_index db) k") (auto simp: SizeOf_def)

section \<open>Insertion and eviction\<close>

lemma pop_oldest_remove:
  assumes "db_ok db" "db_lru db \<noteq> []"
  shows "pop_oldest db = remove_key (node_key (last (db_lru db))) db"
    and "view (pop_oldest db) = butlast (view db)"
proof -
  let ?n = "last (db_lru db)"
  obtain ns where ns: "db_lru db = ns @ [?n]" using assms(2) by (metis append_butlast_last_id)
  have in_lru: "(fst ?n, node_key ?n, node_data ?n) \<in> set (db_lru db)" using ns by (metis in_set_conv_decomp prod.collapse)
  then have idx: "om_find (db_index db) (node_key ?n) = Some (fst ?n)" using db_okD(3) [OF assms(1)] by blast
  have "distinct (map node_key (ns @ [?n]))" using db_okD(2) [OF assms(1)] ns by simp
  then have "filter (\<lambda>m. node_key m \<noteq> node_key ?n) (ns @ [?n]) = ns"
    by (rule filter_last)
  then have "filter (\<lambda>m. node_key m \<noteq> node_key ?n) (db_lru db) = butlast (db_lru db)"
    using ns by (metis butlast_snoc)
  moreover have "sub64 (db_used db) (length (node_data ?n)) = total (butlast (db_lru db))"
  proof -
    have "total (db_lru db) = total (butlast (db_lru db)) + length (node_data ?n)"
      using total_simps(3) [of "butlast (db_lru db)" "[?n]"] append_butlast_last_id [OF assms(2)] by simp
    then show ?thesis using db_okD(4,5) [OF assms(1)] by (simp add: sub64_eq)
  qed
  ultimately show "pop_oldest db = remove_key (node_key ?n) db"
    by (simp add: pop_oldest_def remove_key_def Let_def)
  show "view (pop_oldest db) = butlast (view db)"
    by (simp add: pop_oldest_def view_def Let_def map_butlast)
qed

definition view_total :: "('k \<times> bytes) list \<Rightarrow> nat" where
  "view_total es = (\<Sum>e\<leftarrow>es. length (snd e))"

lemma total_view: "total (db_lru db) = view_total (view db)"
  by (simp add: total_def view_total_def view_def comp_def)

text \<open>Eviction keeps the longest prefix of the buffer that leaves room.\<close>

lemma evict_props:
  assumes "db_ok db" "total (db_lru db) + sz < 2 ^ 64"
  shows "db_ok (evict sz db) \<and> db_capacity (evict sz db) = db_capacity db \<and>
     (\<exists>n \<le> length (view db). view (evict sz db) = take n (view db) \<and>
        (n = 0 \<or> view_total (take n (view db)) + sz \<le> db_capacity db) \<and>
        (\<forall>m. n < m \<longrightarrow> m \<le> length (view db) \<longrightarrow> db_capacity db < view_total (take m (view db)) + sz))"
  using assms
proof (induction sz db rule: evict.induct)
  case (1 sz db)
  have eq: "add64 (db_used db) sz = view_total (view db) + sz"
    using 1(3) db_okD(4) [OF 1(2)] by (simp add: total_view add64_eq)
  show ?case
  proof (cases "db_lru db \<noteq> [] \<and> db_capacity db < view_total (view db) + sz")
    case True
    then have step: "evict sz db = evict sz (pop_oldest db)" by (subst evict.simps) (simp add: eq)
    note pop = pop_oldest_remove [OF 1(2)]
    have ok: "db_ok (pop_oldest db)" using pop(1) True remove_key_ok [OF 1(2)] by simp
    have "view_total (butlast (view db)) \<le> view_total (view db)"
      by (cases "view db" rule: rev_cases) (auto simp: view_total_def)
    then have fit: "total (db_lru (pop_oldest db)) + sz < 2 ^ 64"
      using 1(3) pop(2) True by (simp add: total_view)
    have cap: "db_capacity (pop_oldest db) = db_capacity db" by (simp add: pop_oldest_def Let_def)
    from 1(1) [OF _ ok fit] True eq obtain n where
      IH: "db_ok (evict sz (pop_oldest db))" "db_capacity (evict sz (pop_oldest db)) = db_capacity db"
      and n: "n \<le> length (butlast (view db))" "view (evict sz (pop_oldest db)) = take n (butlast (view db))"
        "n = 0 \<or> view_total (take n (butlast (view db))) + sz \<le> db_capacity db"
        "\<forall>m. n < m \<longrightarrow> m \<le> length (butlast (view db)) \<longrightarrow> db_capacity db < view_total (take m (butlast (view db))) + sz"
      using pop(2) cap by auto
    have tk: "take m (butlast (view db)) = take m (view db)" if "m \<le> length (butlast (view db))" for m
      using that by (simp add: butlast_conv_take)
    have "db_capacity db < view_total (take m (view db)) + sz" if "n < m" "m \<le> length (view db)" for m
    proof (cases "m = length (view db)")
      case True
      then show ?thesis using \<open>db_lru db \<noteq> [] \<and> db_capacity db < view_total (view db) + sz\<close> by simp
    next
      case False
      with that n(4) tk show ?thesis by auto
    qed
    with IH n tk [OF n(1)] step show ?thesis by (intro conjI exI [of _ n]) auto
  next
    case False
    then have "evict sz db = db" by (subst evict.simps) (auto simp: eq)
    moreover have "length (view db) = 0 \<or> view_total (view db) + sz \<le> db_capacity db"
      using False by (auto simp: view_def)
    ultimately show ?thesis using 1(2) by (intro conjI exI [of _ "length (view db)"]) auto
  qed
qed

text \<open>
  \<open>Put\<close>: the new entry is first, what follows is the longest prefix of the other entries, in
  their order, that fits into the rest of the budget. Data larger than the whole budget is
  kept too, alone.
\<close>

lemma Put_props:
  assumes "db_ok db" "total (db_lru db) + length d < 2 ^ 64"
  shows "db_ok (Put k d db)"
    and "\<exists>n. view (Put k d db) = (k, d) # take n (filter (\<lambda>e. fst e \<noteq> k) (view db)) \<and>
      (n = 0 \<or> view_total (view (Put k d db)) \<le> db_capacity db) \<and>
      (\<forall>m. n < m \<longrightarrow> m \<le> length (filter (\<lambda>e. fst e \<noteq> k) (view db)) \<longrightarrow>
         db_capacity db < view_total (take m (filter (\<lambda>e. fst e \<noteq> k) (view db))) + length d)"
proof -
  let ?db0 = "drop_existing k db" and ?rest = "filter (\<lambda>e. fst e \<noteq> k) (view db)"
  have ok0: "db_ok ?db0" and view0: "view ?db0 = ?rest"
    using Take_view [OF assms(1)] by (simp_all add: drop_existing_Take)
  have cap0: "db_capacity ?db0 = db_capacity db" by (simp add: drop_existing_def split: option.split)
  have "view_total ?rest \<le> view_total (view db)" by (induction "view db") (auto simp: view_total_def sum_list_filter_le_nat)
  then have fit: "total (db_lru ?db0) + length d < 2 ^ 64" using assms(2) by (simp add: total_view view0)
  let ?db1 = "evict (length d) ?db0"
  obtain n where ok1: "db_ok ?db1" and cap1: "db_capacity ?db1 = db_capacity db"
    and n: "n \<le> length ?rest" "view ?db1 = take n ?rest"
      "n = 0 \<or> view_total (take n ?rest) + length d \<le> db_capacity db"
      "\<forall>m. n < m \<longrightarrow> m \<le> length ?rest \<longrightarrow> db_capacity db < view_total (take m ?rest) + length d"
    using evict_props [OF ok0 fit] unfolding cap0 view0 by blast
  have put: "Put k d db = push_front k d ?db1" by (simp add: Put_def)
  have vput: "view (Put k d db) = (k, d) # take n ?rest" by (simp add: put push_front_def view_def n(2) [unfolded view_def])
  have "view_total (take n ?rest) \<le> view_total ?rest"
    using append_take_drop_id [of n ?rest] by (metis (no_types, lifting) le_add1 map_append sum_list_append view_total_def)
  then have small: "total (db_lru ?db1) + length d < 2 ^ 64"
    using fit by (simp add: total_view view0 n(2))
  then have used: "db_used (Put k d db) = total (db_lru ?db1) + length d"
    using db_okD(4) [OF ok1] by (simp add: put push_front_def add64_eq)
  have knew: "\<forall>m \<in> set (db_lru ?db1). node_key m \<noteq> k"
  proof
    fix m assume "m \<in> set (db_lru ?db1)"
    then have "snd m \<in> set (view ?db1)" by (simp add: view_def)
    then have "snd m \<in> set ?rest" unfolding n(2) by (rule in_set_takeD)
    then show "node_key m \<noteq> k" by simp
  qed
  then have none: "om_find (db_index ?db1) k = None"
    using db_okD(3) [OF ok1, of k] by (cases "om_find (db_index ?db1) k") fastforce+
  have idx: "om_find (db_index (Put k d db)) k' = Some i \<longleftrightarrow> (\<exists>d'. (i, k', d') \<in> set (db_lru (Put k d db)))" for k' i
    using db_okD(3) [OF ok1, of k' i] knew by (auto simp: put push_front_def)
  have bound: "n = 0 \<or> view_total (view (Put k d db)) \<le> db_capacity db"
    using n(3) by (auto simp: vput view_total_def)
  have "db_used (Put k d db) \<le> db_capacity (Put k d db) \<or> length (db_lru (Put k d db)) = 1"
  proof (cases "n = 0")
    case True
    then have "db_lru ?db1 = []" using n(2) by (simp add: view_def)
    then show ?thesis by (simp add: put push_front_def)
  next
    case False
    with n(3) show ?thesis by (simp add: used total_view n(2)) (simp add: put push_front_def cap1)
  qed
  then show "db_ok (Put k d db)"
    using ok1 small used idx knew
    by (auto simp: db_ok_def put push_front_def image_iff less_Suc_eq)
  show "\<exists>n. view (Put k d db) = (k, d) # take n ?rest \<and> (n = 0 \<or> view_total (view (Put k d db)) \<le> db_capacity db) \<and>
      (\<forall>m. n < m \<longrightarrow> m \<le> length ?rest \<longrightarrow> db_capacity db < view_total (take m ?rest) + length d)"
    using vput bound n(4) by blast
qed

lemma db_ok_empty: "db_ok (empty_buffer capacity)"
  by (simp add: db_ok_def empty_buffer_def)

section \<open>Buffering, as a specification\<close>

text \<open>
  Buffering data puts it first, keeps the longest prefix of the entries buffered before that
  leaves room for it (the most recently buffered ones), and keeps index, list and byte count in
  agreement; afterwards taking the key yields the data.
\<close>

lemma buffering_evicts_oldest:
  assumes "db_ok db" "BytesInUse db + length d < 2 ^ 64"
  shows "db_ok (Put k d db) \<and> snd (Take k (Put k d db)) = Some d \<and>
    (\<exists>n. view (Put k d db) = (k, d) # take n (filter (\<lambda>e. fst e \<noteq> k) (view db)) \<and>
      (n = 0 \<or> view_total (view (Put k d db)) \<le> db_capacity db) \<and>
      (\<forall>m. n < m \<longrightarrow> m \<le> length (filter (\<lambda>e. fst e \<noteq> k) (view db)) \<longrightarrow>
         db_capacity db < view_total (take m (filter (\<lambda>e. fst e \<noteq> k) (view db))) + length d))"
proof -
  have room: "total (db_lru db) + length d < 2 ^ 64" using assms(2) db_okD(4) [OF assms(1)] by (simp add: BytesInUse_def)
  note p = Put_props [OF assms(1) room, of k]
  have "snd (Take k (Put k d db)) = Some d" using p(2) Take_view(1) [OF p(1), of k] by auto
  with p show ?thesis by blast
qed

theorem buffering_evicts_oldest_witness:
  "snd (Take (1::nat) (Put 1 ''abc'' (empty_buffer 2))) = Some ''abc''"
proof -
  have "BytesInUse (empty_buffer 2 :: nat data_buffer) + length ''abc'' < 2 ^ 64"
    by (simp add: BytesInUse_def empty_buffer_def)
  from buffering_evicts_oldest [OF db_ok_empty this] show ?thesis by blast
qed

end
