(* ===== verification/LeaseTable.thy ===== *)
theory LeaseTable
  imports StdMap
begin

text \<open>
  The chunkserver's view of the leases it holds, \<open>src/src/chunkserver/lease_table.cc\<close>. Every
  operation that reads the clock takes the time as its argument \<open>t\<close>.
\<close>

section \<open>State and operations\<close>

record slot =
  sl_held :: bool
  sl_expiry :: time_point
  sl_secondaries :: "replica list"
  sl_next_serial :: u64
  sl_mutated_since_renewal :: bool

record lease_table =
  lt_skew_margin :: millis
  lt_slots :: "(u64, slot) omap"

record lease_info =
  li_expiry :: time_point
  li_secondaries :: "replica list"

datatype lease_check = kPrimary lease_info | kExpired | kNotHeld

definition new_slot :: slot where
  "new_slot = \<lparr>sl_held = False, sl_expiry = 0, sl_secondaries = [], sl_next_serial = 1,
     sl_mutated_since_renewal = False\<rparr>"

text \<open>\<open>slots_[handle]\<close>\<close>

definition slot_of :: "lease_table \<Rightarrow> u64 \<Rightarrow> slot" where
  "slot_of lt handle = (case om_find (lt_slots lt) handle of None \<Rightarrow> new_slot | Some s \<Rightarrow> s)"

definition set_slot :: "u64 \<Rightarrow> slot \<Rightarrow> lease_table \<Rightarrow> lease_table" where
  "set_slot handle s lt = lt\<lparr>lt_slots := om_assign handle s (lt_slots lt)\<rparr>"

definition Grant :: "time_point \<Rightarrow> u64 \<Rightarrow> millis \<Rightarrow> replica list \<Rightarrow> lease_table \<Rightarrow> lease_table" where
  "Grant t handle lease secondaries lt =
     set_slot handle ((slot_of lt handle)
       \<lparr>sl_held := True, sl_expiry := after_ms t (lease - lt_skew_margin lt),
        sl_secondaries := secondaries, sl_mutated_since_renewal := False\<rparr>) lt"

definition Extend :: "time_point \<Rightarrow> u64 \<Rightarrow> millis \<Rightarrow> lease_table \<Rightarrow> lease_table \<times> bool" where
  "Extend t handle lease lt =
     (case om_find (lt_slots lt) handle of
        None \<Rightarrow> (lt, False)
      | Some s \<Rightarrow> if \<not> sl_held s then (lt, False)
                  else (set_slot handle (s\<lparr>sl_expiry := after_ms t (lease - lt_skew_margin lt),
                          sl_mutated_since_renewal := False\<rparr>) lt, True))"

definition Revoke :: "u64 \<Rightarrow> lease_table \<Rightarrow> lease_table" where
  "Revoke handle lt =
     (case om_find (lt_slots lt) handle of
        None \<Rightarrow> lt
      | Some s \<Rightarrow> set_slot handle (s\<lparr>sl_held := False, sl_secondaries := []\<rparr>) lt)"

definition Check :: "time_point \<Rightarrow> u64 \<Rightarrow> lease_table \<Rightarrow> lease_check" where
  "Check t handle lt =
     (case om_find (lt_slots lt) handle of
        None \<Rightarrow> kNotHeld
      | Some s \<Rightarrow> if \<not> sl_held s then kNotHeld
                  else if t > sl_expiry s then kExpired
                  else kPrimary \<lparr>li_expiry = sl_expiry s, li_secondaries = sl_secondaries s\<rparr>)"

definition NextSerial :: "u64 \<Rightarrow> lease_table \<Rightarrow> lease_table \<times> u64" where
  "NextSerial handle lt =
     (let s = slot_of lt handle
      in (set_slot handle (s\<lparr>sl_mutated_since_renewal := True, sl_next_serial := sl_next_serial s + 1\<rparr>) lt,
          sl_next_serial s))"

definition HandlesToExtend :: "time_point \<Rightarrow> lease_table \<Rightarrow> u64 list" where
  "HandlesToExtend t lt =
     map fst (filter (\<lambda>e. sl_held (snd e) \<and> t \<le> sl_expiry (snd e) \<and> sl_mutated_since_renewal (snd e)) (lt_slots lt))"

section \<open>Properties\<close>

lemma slot_of_set [simp]: "slot_of (set_slot h s lt) h' = (if h' = h then s else slot_of lt h')"
  by (simp add: slot_of_def set_slot_def)

lemma skew_set [simp]: "lt_skew_margin (set_slot h s lt) = lt_skew_margin lt"
  by (simp add: set_slot_def)

lemma Check_slot:
  "Check t h lt = (let s = slot_of lt h in
     if \<not> sl_held s then kNotHeld else if t > sl_expiry s then kExpired
     else kPrimary \<lparr>li_expiry = sl_expiry s, li_secondaries = sl_secondaries s\<rparr>)"
  by (simp add: Check_def slot_of_def new_slot_def split: option.split)

lemma slot_Revoke: "slot_of (Revoke h lt) h' =
   (if h' = h then (slot_of lt h)\<lparr>sl_held := False, sl_secondaries := []\<rparr> else slot_of lt h')"
  by (auto simp: Revoke_def slot_of_def set_slot_def new_slot_def split: option.split)

lemma slot_Extend: "slot_of (fst (Extend t h l lt)) h' =
   (if h' = h \<and> sl_held (slot_of lt h)
    then (slot_of lt h)\<lparr>sl_expiry := after_ms t (l - lt_skew_margin lt), sl_mutated_since_renewal := False\<rparr>
    else slot_of lt h')"
  by (auto simp: Extend_def slot_of_def set_slot_def new_slot_def split: option.split)

text \<open>A history of calls, and the serial numbers it issued for a chunk.\<close>

datatype lease_call =
    CallGrant time_point u64 millis "replica list"
  | CallExtend time_point u64 millis
  | CallRevoke u64
  | CallNextSerial u64

fun do_call :: "lease_call \<Rightarrow> lease_table \<Rightarrow> lease_table" where
  "do_call (CallGrant t h l ss) lt = Grant t h l ss lt"
| "do_call (CallExtend t h l) lt = fst (Extend t h l lt)"
| "do_call (CallRevoke h) lt = Revoke h lt"
| "do_call (CallNextSerial h) lt = fst (NextSerial h lt)"

fun serials :: "u64 \<Rightarrow> lease_call list \<Rightarrow> lease_table \<Rightarrow> u64 list" where
  "serials h [] lt = []"
| "serials h (c # cs) lt =
     (if c = CallNextSerial h then snd (NextSerial h lt) # serials h cs (do_call c lt)
      else serials h cs (do_call c lt))"

lemma next_serial_call:
  "sl_next_serial (slot_of (do_call c lt) h) =
     sl_next_serial (slot_of lt h) + (if c = CallNextSerial h then 1 else 0)"
  by (cases c) (auto simp: Grant_def slot_Revoke slot_Extend NextSerial_def Let_def)

text \<open>
  The serial numbers issued for a chunk are consecutive, whatever grants, extensions and
  revocations come in between.
\<close>

lemma serials_from:
  "serials h cs lt = map (\<lambda>i. sl_next_serial (slot_of lt h) + of_nat i) [0..<count_list cs (CallNextSerial h)]"
proof (induction cs arbitrary: lt)
  case Nil
  then show ?case by simp
next
  case (Cons c cs)
  show ?case
  proof (cases "c = CallNextSerial h")
    case True
    have "serials h (c # cs) lt = sl_next_serial (slot_of lt h) #
        map (\<lambda>i. sl_next_serial (slot_of lt h) + 1 + of_nat i) [0..<count_list cs (CallNextSerial h)]"
      using next_serial_call [of c lt h] True by (simp add: Cons NextSerial_def Let_def)
    also have "\<dots> = map (\<lambda>i. sl_next_serial (slot_of lt h) + of_nat i) (0 # map Suc [0..<count_list cs (CallNextSerial h)])"
      by (simp add: add.assoc add.commute)
    also have "0 # map Suc [0..<count_list cs (CallNextSerial h)] = [0..<count_list (c # cs) (CallNextSerial h)]"
      using True by (simp only: count_list.simps if_True map_Suc_upt) (metis One_nat_def add.commute plus_1_eq_Suc upt_conv_Cons zero_less_Suc)
    finally show ?thesis .
  next
    case False
    then show ?thesis using next_serial_call [of c lt h] by (simp add: Cons)
  qed
qed

text \<open>After a revocation the lease is not held until it is granted again.\<close>

definition regrants :: "u64 \<Rightarrow> lease_call \<Rightarrow> bool" where
  "regrants h c \<longleftrightarrow> (case c of CallGrant t h' l ss \<Rightarrow> h' = h | _ \<Rightarrow> False)"

lemma held_call:
  "\<not> sl_held (slot_of lt h) \<Longrightarrow> \<not> regrants h c \<Longrightarrow> \<not> sl_held (slot_of (do_call c lt) h)"
  by (cases c) (auto simp: Grant_def slot_Revoke slot_Extend NextSerial_def Let_def regrants_def)

text \<open>
  Once a lease is revoked, the chunkserver refuses mutations until the lease is granted
  again: extensions do not bring it back.
\<close>

lemma revoked_stays:
  "\<not> sl_held (slot_of lt h) \<Longrightarrow> \<forall>c \<in> set cs. \<not> regrants h c \<Longrightarrow> Check t h (fold do_call cs lt) = kNotHeld"
proof (induction cs arbitrary: lt)
  case Nil
  then show ?case by (simp add: Check_slot Let_def)
next
  case (Cons c cs)
  then show ?case using held_call [of lt h c] by simp
qed

section \<open>Witness\<close>

theorem revoked_stays_witness:
  "Check 5 7 (fold do_call [CallExtend 1 7 100, CallNextSerial 7] (Revoke 7 (Grant 0 7 100 [] \<lparr>lt_skew_margin = 5, lt_slots = []\<rparr>))) = kNotHeld"
proof -
  have "\<not> sl_held (slot_of (Revoke 7 (Grant 0 7 100 [] \<lparr>lt_skew_margin = 5, lt_slots = []\<rparr>)) 7)"
    by (simp add: slot_Revoke)
  moreover have "\<forall>c \<in> set [CallExtend 1 7 100, CallNextSerial 7]. \<not> regrants 7 c" by (simp add: regrants_def)
  ultimately show ?thesis by (rule revoked_stays)
qed

end
