(* ===== verification/Chunkserver.thy ===== *)
theory Chunkserver
  imports ChunkStore DataBuffer LeaseTable "HOL-Library.Product_Lexorder"
begin

text \<open>
  The request handlers of a chunkserver, \<open>src/src/chunkserver/chunkserver.cc\<close>, over its store,
  its buffer of pushed data and its leases. A handler is a function of the server's state;
  the mutation lock of a chunk makes the handlers that change it follow one another. What
  other servers answer is an argument: \<open>None\<close> is a call that failed in transport. Handlers
  that forward a mutation also return what they sent and to whom, so that \<open>deliver\<close> can
  apply it to the other servers of a cluster.
\<close>

section \<open>State\<close>

record chunkserver =
  sv_id :: string
  sv_address :: string
  sv_rack :: string
  sv_chunk_size :: nat
  sv_store :: chunk_store
  sv_buffer :: "(string \<times> u64) data_buffer"
  sv_leases :: lease_table

section \<open>Pushing data\<close>

definition is_data :: "push_message \<Rightarrow> bool" where
  "is_data m = (case m of PushBytes d \<Rightarrow> True | _ \<Rightarrow> False)"

definition received :: "push_message list \<Rightarrow> bytes" where
  "received msgs = concat (map (\<lambda>m. case m of PushBytes d \<Rightarrow> d | _ \<Rightarrow> []) msgs)"

text \<open>
  \<open>PushData\<close> on the messages of the stream. \<open>forward\<close> is the call to the next server of the
  chain: a broken stream or a failed status is \<open>None\<close>, else its code and \<open>failed_at\<close>.
\<close>

definition Chunkserver_PushData ::
    "(replica \<Rightarrow> push_message list \<Rightarrow> (result_code \<times> string) option) \<Rightarrow> push_message list \<Rightarrow>
     chunkserver \<Rightarrow> chunkserver \<times> result_code \<times> string" where
  "Chunkserver_PushData forward msgs sv =
     (case msgs of
        PushHeader header # rest \<Rightarrow>
          (let data = received rest;
               downstream =
                 (case ph_forward_to header of
                    [] \<Rightarrow> (OK, [])
                  | next # others \<Rightarrow>
                      (case forward next (PushHeader (header\<lparr>ph_forward_to := others\<rparr>) # filter is_data rest) of
                         None \<Rightarrow> (FAILED, rp_chunkserver_id next)
                       | Some answer \<Rightarrow> answer))
           in if fst downstream \<noteq> OK then (sv, downstream)
              else if ph_total_length header \<noteq> 0 \<and> length data \<noteq> ph_total_length header then (sv, FAILED, sv_id sv)
              else (sv\<lparr>sv_buffer := Put (ph_client_id header, ph_sequence header) data (sv_buffer sv)\<rparr>, OK, []))
      | _ \<Rightarrow> (sv, FAILED, sv_id sv))"

section \<open>Reading\<close>

definition Chunkserver_Read ::
    "(bytes \<Rightarrow> u32) \<Rightarrow> u64 \<Rightarrow> u64 \<Rightarrow> nat \<Rightarrow> nat \<Rightarrow> chunkserver \<Rightarrow> chunkserver \<times> (result_code \<times> bytes) option" where
  "Chunkserver_Read crc handle version offset len sv =
     (case Version handle (sv_store sv) of
        None \<Rightarrow> (sv, Some (NO_SUCH_CHUNK, []))
      | Some current \<Rightarrow>
          if current < version then (sv, Some (STALE_VERSION, []))
          else case Read crc handle offset len (sv_store sv) of
                 (store, answer) \<Rightarrow> (sv\<lparr>sv_store := store\<rparr>, answer))"

definition Chunkserver_GetChunkLength :: "u64 \<Rightarrow> chunkserver \<Rightarrow> result_code \<times> nat" where
  "Chunkserver_GetChunkLength handle sv = Length handle (sv_store sv)"

section \<open>Mutations\<close>

text \<open>\<open>PrepareMutation\<close>: the lease, or the code that refuses the mutation.\<close>

definition PrepareMutation ::
    "time_point \<Rightarrow> u64 \<Rightarrow> u64 \<Rightarrow> chunkserver \<Rightarrow> result_code + lease_info" where
  "PrepareMutation t handle version sv =
     (if \<not> Contains handle (sv_store sv) then Inl NO_SUCH_CHUNK
      else case Version handle (sv_store sv) of
             None \<Rightarrow> Inl NO_SUCH_CHUNK
           | Some current \<Rightarrow>
               if current \<noteq> version then Inl STALE_VERSION
               else case Check t handle (sv_leases sv) of
                      kNotHeld \<Rightarrow> Inl NOT_PRIMARY
                    | kExpired \<Rightarrow> Inl LEASE_EXPIRED
                    | kPrimary lease \<Rightarrow> Inr lease)"

text \<open>\<open>ForwardMutation\<close>: the first secondary, in order, that did not acknowledge.\<close>

definition ForwardMutation :: "(replica \<Rightarrow> result_code option) \<Rightarrow> replica list \<Rightarrow> string option" where
  "ForwardMutation reply secondaries =
     map_option rp_chunkserver_id (find (\<lambda>r. reply r \<noteq> Some OK) secondaries)"

type_synonym sent = "(apply_mutation_request \<times> replica list) option"

record write_request =
  wr_handle :: u64
  wr_version :: u64
  wr_offset :: nat
  wr_client_id :: string
  wr_sequence :: u64

definition Chunkserver_Write ::
    "(bytes \<Rightarrow> u32) \<Rightarrow> time_point \<Rightarrow> (apply_mutation_request \<Rightarrow> replica \<Rightarrow> result_code option) \<Rightarrow>
     write_request \<Rightarrow> chunkserver \<Rightarrow> chunkserver \<times> (result_code \<times> string) \<times> sent" where
  "Chunkserver_Write crc t reply req sv =
     (case PrepareMutation t (wr_handle req) (wr_version req) sv of
        Inl code \<Rightarrow> (sv, (code, []), None)
      | Inr lease \<Rightarrow>
          (let key = (wr_client_id req, wr_sequence req)
           in case SizeOf key (sv_buffer sv) of
                None \<Rightarrow> (sv, (DATA_MISSING, []), None)
              | Some sz \<Rightarrow>
                  if add64 (wr_offset req) sz > sv_chunk_size sv then (sv, (OUT_OF_RANGE, []), None)
                  else case Take key (sv_buffer sv) of
                         (buffer, None) \<Rightarrow> (sv\<lparr>sv_buffer := buffer\<rparr>, (DATA_MISSING, []), None)
                       | (buffer, Some data) \<Rightarrow>
                           (case NextSerial (wr_handle req) (sv_leases sv) of
                              (leases, serial) \<Rightarrow>
                                (case Write crc (wr_handle req) (wr_offset req) data (sv_store sv) of
                                   (store, code) \<Rightarrow>
                                     let sv1 = sv\<lparr>sv_buffer := buffer, sv_leases := leases, sv_store := store\<rparr>
                                     in if code \<noteq> OK then (sv1, (FAILED, sv_id sv), None)
                                        else let apply = \<lparr>am_handle = wr_handle req, am_version = wr_version req,
                                                   am_serial = serial, am_kind = WRITE, am_offset = wr_offset req,
                                                   am_client_id = wr_client_id req, am_sequence = wr_sequence req\<rparr>;
                                                 sent = Some (apply, li_secondaries lease)
                                             in case ForwardMutation (reply apply) (li_secondaries lease) of
                                                  Some failed \<Rightarrow> (sv1, (FAILED, failed), sent)
                                                | None \<Rightarrow> (sv1, (OK, []), sent)))))"

record record_append_request =
  ra_handle :: u64
  ra_version :: u64
  ra_client_id :: string
  ra_sequence :: u64

record record_append_response =
  rr_code :: result_code
  rr_offset :: nat
  rr_failed_at :: string

definition append_answer :: "result_code \<Rightarrow> nat \<Rightarrow> string \<Rightarrow> record_append_response" where
  "append_answer code offset failed_at = \<lparr>rr_code = code, rr_offset = offset, rr_failed_at = failed_at\<rparr>"

definition Chunkserver_RecordAppend ::
    "(bytes \<Rightarrow> u32) \<Rightarrow> time_point \<Rightarrow> (apply_mutation_request \<Rightarrow> replica \<Rightarrow> result_code option) \<Rightarrow>
     record_append_request \<Rightarrow> chunkserver \<Rightarrow> chunkserver \<times> record_append_response \<times> sent" where
  "Chunkserver_RecordAppend crc t reply req sv =
     (case PrepareMutation t (ra_handle req) (ra_version req) sv of
        Inl code \<Rightarrow> (sv, append_answer code 0 [], None)
      | Inr lease \<Rightarrow>
          (case Take (ra_client_id req, ra_sequence req) (sv_buffer sv) of
             (buffer, None) \<Rightarrow> (sv\<lparr>sv_buffer := buffer\<rparr>, append_answer DATA_MISSING 0 [], None)
           | (buffer, Some data) \<Rightarrow>
               (case Length (ra_handle req) (sv_store sv) of
                  (code, current) \<Rightarrow>
                    if code \<noteq> OK then (sv\<lparr>sv_buffer := buffer\<rparr>, append_answer NO_SUCH_CHUNK 0 [], None)
                    else case NextSerial (ra_handle req) (sv_leases sv) of
                           (leases, serial) \<Rightarrow>
                             (let apply = \<lparr>am_handle = ra_handle req, am_version = ra_version req,
                                    am_serial = serial, am_kind = WRITE, am_offset = current,
                                    am_client_id = ra_client_id req, am_sequence = ra_sequence req\<rparr>;
                                  sv1 = sv\<lparr>sv_buffer := buffer, sv_leases := leases\<rparr>
                              in if add64 current (length data) > sv_chunk_size sv
                                 then case Pad crc (ra_handle req) current (sv_store sv) of
                                        (store, code) \<Rightarrow>
                                          (let sv2 = sv1\<lparr>sv_store := store\<rparr>; pad = apply\<lparr>am_kind := PAD\<rparr>
                                           in if code \<noteq> OK then (sv2, append_answer FAILED 0 (sv_id sv), None)
                                              else case ForwardMutation (reply pad) (li_secondaries lease) of
                                                     Some failed \<Rightarrow> (sv2, append_answer FAILED 0 failed, Some (pad, li_secondaries lease))
                                                   | None \<Rightarrow> (sv2, append_answer RETRY_NEXT_CHUNK 0 [], Some (pad, li_secondaries lease)))
                                 else case Write crc (ra_handle req) current data (sv_store sv) of
                                        (store, code) \<Rightarrow>
                                          (let sv2 = sv1\<lparr>sv_store := store\<rparr>
                                           in if code \<noteq> OK then (sv2, append_answer FAILED 0 (sv_id sv), None)
                                              else case ForwardMutation (reply apply) (li_secondaries lease) of
                                                     Some failed \<Rightarrow> (sv2, append_answer FAILED 0 failed, Some (apply, li_secondaries lease))
                                                   | None \<Rightarrow> (sv2, append_answer OK current [], Some (apply, li_secondaries lease)))))))"

definition Chunkserver_ApplyMutation ::
    "(bytes \<Rightarrow> u32) \<Rightarrow> apply_mutation_request \<Rightarrow> chunkserver \<Rightarrow> chunkserver \<times> result_code" where
  "Chunkserver_ApplyMutation crc req sv =
     (if \<not> Contains (am_handle req) (sv_store sv) then (sv, NO_SUCH_CHUNK)
      else case Version (am_handle req) (sv_store sv) of
             None \<Rightarrow> (sv, NO_SUCH_CHUNK)
           | Some current \<Rightarrow>
               if current \<noteq> am_version req then (sv, STALE_VERSION)
               else if am_kind req = PAD
               then case Pad crc (am_handle req) (am_offset req) (sv_store sv) of
                      (store, code) \<Rightarrow> (sv\<lparr>sv_store := store\<rparr>, code)
               else case Take (am_client_id req, am_sequence req) (sv_buffer sv) of
                      (buffer, None) \<Rightarrow> (sv\<lparr>sv_buffer := buffer\<rparr>, DATA_MISSING)
                    | (buffer, Some data) \<Rightarrow>
                        if add64 (am_offset req) (length data) > sv_chunk_size sv
                        then (sv\<lparr>sv_buffer := buffer\<rparr>, OUT_OF_RANGE)
                        else case Write crc (am_handle req) (am_offset req) data (sv_store sv) of
                               (store, code) \<Rightarrow> (sv\<lparr>sv_buffer := buffer, sv_store := store\<rparr>, code))"

section \<open>Requests of the master\<close>

definition Chunkserver_CreateChunk :: "u64 \<Rightarrow> u64 \<Rightarrow> u64 \<Rightarrow> chunkserver \<Rightarrow> chunkserver \<times> result_code" where
  "Chunkserver_CreateChunk handle version copy_from sv =
     (case Version handle (sv_store sv) of
        Some existing \<Rightarrow> (sv, if existing = version then OK else FAILED)
      | None \<Rightarrow>
          (case (if copy_from \<noteq> 0 then CreateCopy handle version copy_from (sv_store sv)
                 else Create handle version (sv_store sv)) of
             (store, code) \<Rightarrow>
               (sv\<lparr>sv_store := store\<rparr>,
                if code = FAILED \<and> Version handle store = Some version then OK else code)))"

definition Chunkserver_GrantLease ::
    "time_point \<Rightarrow> u64 \<Rightarrow> u64 \<Rightarrow> millis \<Rightarrow> replica list \<Rightarrow> chunkserver \<Rightarrow> chunkserver \<times> result_code" where
  "Chunkserver_GrantLease t handle version lease_ms secondaries sv =
     (case SetVersion handle version (sv_store sv) of
        (store, code) \<Rightarrow>
          if code \<noteq> OK then (sv\<lparr>sv_store := store\<rparr>, code)
          else (sv\<lparr>sv_store := store, sv_leases := Grant t handle lease_ms secondaries (sv_leases sv)\<rparr>, OK))"

definition Chunkserver_RevokeLease :: "u64 \<Rightarrow> chunkserver \<Rightarrow> chunkserver \<times> result_code" where
  "Chunkserver_RevokeLease handle sv = (sv\<lparr>sv_leases := Revoke handle (sv_leases sv)\<rparr>, OK)"

definition Chunkserver_UpdateVersion :: "u64 \<Rightarrow> u64 \<Rightarrow> chunkserver \<Rightarrow> chunkserver \<times> result_code" where
  "Chunkserver_UpdateVersion handle version sv =
     (case SetVersion handle version (sv_store sv) of
        (store, code) \<Rightarrow>
          (sv\<lparr>sv_store := store,
              sv_leases := if code = OK then Revoke handle (sv_leases sv) else sv_leases sv\<rparr>, code))"

section \<open>Heartbeat\<close>

definition HeartbeatRequest :: "time_point \<Rightarrow> chunkserver \<Rightarrow> heartbeat_request" where
  "HeartbeatRequest t sv =
     \<lparr>hb_chunkserver_id = sv_id sv, hb_address = sv_address sv, hb_rack = sv_rack sv,
      hb_chunks = map (\<lambda>(h, v, l). \<lparr>cr_handle = h, cr_version = v, cr_length = l\<rparr>) (List (sv_store sv)),
      hb_lease_extension_requests = HandlesToExtend t (sv_leases sv),
      hb_corrupt = CorruptHandles (sv_store sv)\<rparr>"

definition delete_chunk :: "u64 \<Rightarrow> chunkserver \<Rightarrow> chunkserver" where
  "delete_chunk h sv = sv\<lparr>sv_leases := Revoke h (sv_leases sv), sv_store := fst (Remove h (sv_store sv))\<rparr>"

definition extend_lease :: "time_point \<Rightarrow> u64 \<times> millis \<Rightarrow> chunkserver \<Rightarrow> chunkserver" where
  "extend_lease t ext sv = sv\<lparr>sv_leases := fst (Extend t (fst ext) (snd ext) (sv_leases sv))\<rparr>"

text \<open>\<open>SendHeartbeat\<close> once the master has answered the request (\<open>None\<close>: it has not).\<close>

definition SendHeartbeat ::
    "time_point \<Rightarrow> heartbeat_request \<Rightarrow> heartbeat_response option \<Rightarrow> chunkserver \<Rightarrow> chunkserver \<times> bool" where
  "SendHeartbeat t req answer sv =
     (case answer of
        None \<Rightarrow> (sv, False)
      | Some resp \<Rightarrow>
          let sv1 = sv\<lparr>sv_store := ClearCorrupt (hb_corrupt req) (sv_store sv)\<rparr>;
              sv2 = fold delete_chunk (hr_delete_handles resp) sv1
          in (fold (extend_lease t) (hr_extended resp) sv2, True))"

section \<open>The invariant\<close>

definition sv_ok :: "(bytes \<Rightarrow> u32) \<Rightarrow> chunkserver \<Rightarrow> bool" where
  "sv_ok crc sv \<longleftrightarrow> store_ok crc (sv_chunk_size sv) (sv_store sv) \<and> db_ok (sv_buffer sv)"

definition written :: "nat \<Rightarrow> bytes \<Rightarrow> bytes \<Rightarrow> bytes" where
  "written offset data f = (if data = [] then f else write_at offset data f)"

lemma written_reads: "take (length data) (drop offset (written offset data f)) = data"
  by (simp add: written_def write_at_def)

lemma Version_content: "Version h cs = map_option fst (content cs h)"
  by (simp add: Version_def content_def cs_Find_def option.map_comp comp_def)

lemma Contains_content: "Contains h cs \<longleftrightarrow> content cs h \<noteq> None"
  by (simp add: Contains_def content_None)

lemma Length_content: "cs_ok crc cs \<Longrightarrow> content cs h = Some (v, f) \<Longrightarrow> Length h cs = (OK, length f)"
  by (erule (1) cs_ok_entry) (simp add: Length_def cs_Find_def entry_ok_def)

lemma content_length: "cs_ok crc cs \<Longrightarrow> content cs h = Some (v, f) \<Longrightarrow> length f \<le> cs_chunk_size cs"
  by (erule (1) cs_ok_entry) (simp add: entry_ok_def)

lemma sv_okD:
  assumes "sv_ok crc sv"
  shows "cs_ok crc (sv_store sv)" "store_ok crc (sv_chunk_size sv) (sv_store sv)" "cs_chunk_size (sv_store sv) = sv_chunk_size sv"
    "db_ok (sv_buffer sv)"
  using assms by (auto simp: sv_ok_def store_ok_def)

lemma PrepareMutation_Inr:
  "PrepareMutation t h v sv = Inr lease \<longleftrightarrow>
     (\<exists>f. content (sv_store sv) h = Some (v, f)) \<and> Check t h (sv_leases sv) = kPrimary lease"
  by (auto simp: PrepareMutation_def Contains_content Version_content split: option.splits lease_check.splits)

lemma PrepareMutation_refuses [simp]: "PrepareMutation t h v sv \<noteq> Inl OK" "PrepareMutation t h v sv \<noteq> Inl RETRY_NEXT_CHUNK"
  by (auto simp: PrepareMutation_def split: option.splits lease_check.splits)

text \<open>An acknowledged write or pad of the store, in terms of its bytes.\<close>

lemma Write_OK:
  assumes "cs_ok crc cs" "Write crc h offset data cs = (cs', OK)"
  shows "\<exists>v f. content cs h = Some (v, f) \<and> content cs' = (content cs)(h \<mapsto> (v, written offset data f))"
  using assms(2) by (rule_tac Write_cases [OF assms(1), of h offset data]) (auto simp: written_def)

lemma Pad_OK:
  assumes "cs_ok crc cs" "Pad crc h from_offset cs = (cs', OK)"
  shows "\<exists>v f. content cs h = Some (v, f) \<and>
     content cs' = (content cs)(h \<mapsto> (v, ftruncate (cs_chunk_size cs) (take from_offset f)))"
  using assms(2) by (rule_tac Pad_cases [OF assms(1), of h from_offset]) auto

lemma Take_cases:
  assumes "db_ok db"
  obtains db' where "Take k db = (db', map_of (view db) k)" "db_ok db'" "view db' = filter (\<lambda>e. fst e \<noteq> k) (view db)"
  using Take_view [OF assms, of k] by (metis prod.collapse)

section \<open>Every request keeps the invariant\<close>

lemma store_ok_Write: "store_ok crc n cs \<Longrightarrow> Write crc h offset data cs = (cs', code) \<Longrightarrow> store_ok crc n cs'"
  using Write_keeps [of crc cs h offset data] Write_size [of crc h offset data cs] by (auto simp: store_ok_def)

lemma store_ok_Pad: "store_ok crc n cs \<Longrightarrow> Pad crc h from_offset cs = (cs', code) \<Longrightarrow> store_ok crc n cs'"
  using Pad_keeps [of crc cs h from_offset] Pad_size [of crc h from_offset cs] by (auto simp: store_ok_def)

lemma db_ok_Take: "db_ok db \<Longrightarrow> Take k db = (db', data) \<Longrightarrow> db_ok db'"
  using Take_view(3) [of db k] by simp

lemma sv_ok_Write:
  "sv_ok crc sv \<Longrightarrow> sv_ok crc (fst (Chunkserver_Write crc t reply req sv))"
  by (auto simp: Chunkserver_Write_def Let_def sv_ok_def
      split: sum.splits option.splits prod.splits dest: store_ok_Write db_ok_Take)

lemma sv_ok_RecordAppend:
  "sv_ok crc sv \<Longrightarrow> sv_ok crc (fst (Chunkserver_RecordAppend crc t reply req sv))"
  by (auto simp: Chunkserver_RecordAppend_def Let_def sv_ok_def
      split: sum.splits option.splits prod.splits dest: store_ok_Write store_ok_Pad db_ok_Take)

lemma sv_ok_ApplyMutation:
  "sv_ok crc sv \<Longrightarrow> sv_ok crc (fst (Chunkserver_ApplyMutation crc req sv))"
  by (auto simp: Chunkserver_ApplyMutation_def Let_def sv_ok_def
      split: option.splits prod.splits dest: store_ok_Write store_ok_Pad db_ok_Take)

section \<open>Acknowledged mutations\<close>

text \<open>
  A write that is acknowledged found a held lease and the data in the buffer, changed exactly the
  requested bytes, and was acknowledged by every secondary of the lease.
\<close>

lemma Write_acknowledged:
  assumes ok: "sv_ok crc sv" and w: "Chunkserver_Write crc t reply req sv = (sv', (OK, who), sent)"
  obtains lease f data am where
    "content (sv_store sv) (wr_handle req) = Some (wr_version req, f)"
    "Check t (wr_handle req) (sv_leases sv) = kPrimary lease"
    "map_of (view (sv_buffer sv)) (wr_client_id req, wr_sequence req) = Some data"
    "content (sv_store sv') = (content (sv_store sv))(wr_handle req \<mapsto> (wr_version req, written (wr_offset req) data f))"
    "sent = Some (am, li_secondaries lease)" "\<forall>r \<in> set (li_secondaries lease). reply am r = Some OK"
    "am_handle am = wr_handle req" "am_version am = wr_version req" "am_kind am = WRITE" "am_offset am = wr_offset req"
    "am_client_id am = wr_client_id req" "am_sequence am = wr_sequence req"
proof -
  obtain db' where tk: "Take (wr_client_id req, wr_sequence req) (sv_buffer sv) =
      (db', map_of (view (sv_buffer sv)) (wr_client_id req, wr_sequence req))"
    using sv_okD(4) [OF ok] by (rule Take_cases)
  from w obtain lease data leases serial store where
    p: "PrepareMutation t (wr_handle req) (wr_version req) sv = Inr lease"
    and data: "map_of (view (sv_buffer sv)) (wr_client_id req, wr_sequence req) = Some data"
    and store: "Write crc (wr_handle req) (wr_offset req) data (sv_store sv) = (store, OK)" "sv_store sv' = store"
    and fwd: "sent = Some (\<lparr>am_handle = wr_handle req, am_version = wr_version req, am_serial = serial, am_kind = WRITE,
        am_offset = wr_offset req, am_client_id = wr_client_id req, am_sequence = wr_sequence req\<rparr>, li_secondaries lease)"
      "ForwardMutation (reply \<lparr>am_handle = wr_handle req, am_version = wr_version req, am_serial = serial, am_kind = WRITE,
        am_offset = wr_offset req, am_client_id = wr_client_id req, am_sequence = wr_sequence req\<rparr>) (li_secondaries lease) = None"
    by (auto simp: Chunkserver_Write_def Let_def tk split: sum.splits option.splits prod.splits if_splits)
  have "\<forall>r \<in> set (li_secondaries lease). reply \<lparr>am_handle = wr_handle req, am_version = wr_version req, am_serial = serial,
      am_kind = WRITE, am_offset = wr_offset req, am_client_id = wr_client_id req, am_sequence = wr_sequence req\<rparr> r = Some OK"
    using fwd(2) by (auto simp: ForwardMutation_def find_None_iff)
  moreover obtain f where "content (sv_store sv) (wr_handle req) = Some (wr_version req, f)"
    "Check t (wr_handle req) (sv_leases sv) = kPrimary lease" using p by (auto simp: PrepareMutation_Inr)
  moreover from this(1) have "content (sv_store sv') = (content (sv_store sv))(wr_handle req \<mapsto> (wr_version req, written (wr_offset req) data f))"
    using Write_OK [OF sv_okD(1) [OF ok] store(1)] store(2) by auto
  ultimately show thesis using data fwd(1) by (intro that) auto
qed

text \<open>
  A record append that is acknowledged wrote the record at the end of the primary's chunk, at
  the offset it answers, and every secondary acknowledged the write at this offset. One
  that is told to retry in the next chunk has filled the chunk up.
\<close>

lemma RecordAppend_acknowledged:
  assumes ok: "sv_ok crc sv" and w: "Chunkserver_RecordAppend crc t reply req sv = (sv', answer, sent)"
    and code: "rr_code answer = OK \<or> rr_code answer = RETRY_NEXT_CHUNK"
  obtains lease f data am where
    "content (sv_store sv) (ra_handle req) = Some (ra_version req, f)"
    "Check t (ra_handle req) (sv_leases sv) = kPrimary lease"
    "map_of (view (sv_buffer sv)) (ra_client_id req, ra_sequence req) = Some data"
    "content (sv_store sv') = (content (sv_store sv))(ra_handle req \<mapsto> (ra_version req,
       if rr_code answer = OK then written (length f) data f else ftruncate (sv_chunk_size sv) f))"
    "rr_code answer = OK \<longrightarrow> rr_offset answer = length f \<and> am_kind am = WRITE"
    "rr_code answer = RETRY_NEXT_CHUNK \<longrightarrow> am_kind am = PAD \<and> sv_chunk_size sv < length f + length data"
    "sent = Some (am, li_secondaries lease)" "\<forall>r \<in> set (li_secondaries lease). reply am r = Some OK"
    "am_handle am = ra_handle req" "am_version am = ra_version req" "am_offset am = length f"
    "am_client_id am = ra_client_id req" "am_sequence am = ra_sequence req"
proof -
  let ?h = "ra_handle req" and ?key = "(ra_client_id req, ra_sequence req)"
  obtain db' where tk: "Take ?key (sv_buffer sv) = (db', map_of (view (sv_buffer sv)) ?key)"
    using sv_okD(4) [OF ok] by (rule Take_cases)
  obtain lease where p: "PrepareMutation t ?h (ra_version req) sv = Inr lease"
    using w code by (auto simp: Chunkserver_RecordAppend_def append_answer_def split: sum.splits)
  then obtain f where f: "content (sv_store sv) ?h = Some (ra_version req, f)" "Check t ?h (sv_leases sv) = kPrimary lease"
    by (auto simp: PrepareMutation_Inr)
  have len: "Length ?h (sv_store sv) = (OK, length f)" using Length_content [OF sv_okD(1) [OF ok] f(1)] .
  obtain data where data: "map_of (view (sv_buffer sv)) ?key = Some data"
    using w code by (auto simp: Chunkserver_RecordAppend_def append_answer_def p tk split: option.splits)
  obtain leases serial where serial: "NextSerial ?h (sv_leases sv) = (leases, serial)" by fastforce
  define am0 where "am0 = \<lparr>am_handle = ?h, am_version = ra_version req, am_serial = serial, am_kind = WRITE,
     am_offset = length f, am_client_id = ra_client_id req, am_sequence = ra_sequence req\<rparr>"
  note unfolded = w [unfolded Chunkserver_RecordAppend_def p tk len data serial sum.case prod.case option.case Let_def
      if_not_P [of "OK \<noteq> OK", simplified] simp_thms if_False, folded am0_def]
  show thesis
  proof (cases "add64 (length f) (length data) > sv_chunk_size sv")
    case True
    obtain store pcode where pad: "Pad crc ?h (length f) (sv_store sv) = (store, pcode)" by fastforce
    from unfolded True pad code have pcode: "pcode = OK" and r: "rr_code answer = RETRY_NEXT_CHUNK"
      and fwd: "ForwardMutation (reply (am0\<lparr>am_kind := PAD\<rparr>)) (li_secondaries lease) = None"
      and out: "sent = Some (am0\<lparr>am_kind := PAD\<rparr>, li_secondaries lease)" "sv_store sv' = store"
      by (auto simp: append_answer_def split: if_splits option.splits)
    have "content (sv_store sv') = (content (sv_store sv))(?h \<mapsto> (ra_version req, ftruncate (sv_chunk_size sv) f))"
      using Pad_OK [OF sv_okD(1) [OF ok], of ?h "length f"] pad pcode f(1) out(2) sv_okD(3) [OF ok] by auto
    moreover have "sv_chunk_size sv < length f + length data"
      using True mod_less_eq_dividend [of "length f + length data" "2 ^ 64"] unfolding add64_def by linarith
    ultimately show thesis using r fwd out f data
      by (intro that [of f lease data "am0\<lparr>am_kind := PAD\<rparr>"]) (auto simp: am0_def ForwardMutation_def find_None_iff)
  next
    case False
    obtain store wcode where wr: "Write crc ?h (length f) data (sv_store sv) = (store, wcode)" by fastforce
    from unfolded False wr code have wcode: "wcode = OK" and r: "rr_code answer = OK" "rr_offset answer = length f"
      and fwd: "ForwardMutation (reply am0) (li_secondaries lease) = None"
      and out: "sent = Some (am0, li_secondaries lease)" "sv_store sv' = store"
      by (auto simp: append_answer_def split: if_splits option.splits)
    have "content (sv_store sv') = (content (sv_store sv))(?h \<mapsto> (ra_version req, written (length f) data f))"
      using Write_OK [OF sv_okD(1) [OF ok], of ?h "length f" data] wr wcode f(1) out(2) by auto
    then show thesis using r fwd out f data
      by (intro that [of f lease data am0]) (auto simp: am0_def ForwardMutation_def find_None_iff)
  qed
qed

lemma ApplyMutation_acknowledged:
  assumes ok: "sv_ok crc sv" and w: "Chunkserver_ApplyMutation crc am sv = (sv', OK)"
  obtains f where "content (sv_store sv) (am_handle am) = Some (am_version am, f)"
    "content (sv_store sv') = (content (sv_store sv))(am_handle am \<mapsto> (am_version am,
       if am_kind am = PAD then ftruncate (sv_chunk_size sv) (take (am_offset am) f)
       else written (am_offset am) (the (map_of (view (sv_buffer sv)) (am_client_id am, am_sequence am))) f))"
    "am_kind am = WRITE \<longrightarrow> map_of (view (sv_buffer sv)) (am_client_id am, am_sequence am) \<noteq> None"
proof -
  let ?h = "am_handle am" and ?key = "(am_client_id am, am_sequence am)"
  obtain db' where tk: "Take ?key (sv_buffer sv) = (db', map_of (view (sv_buffer sv)) ?key)"
    using sv_okD(4) [OF ok] by (rule Take_cases)
  obtain f where f: "content (sv_store sv) ?h = Some (am_version am, f)"
    using w by (auto simp: Chunkserver_ApplyMutation_def Contains_content Version_content split: option.splits if_splits)
  show thesis
  proof (cases "am_kind am")
    case PAD
    then have "Pad crc ?h (am_offset am) (sv_store sv) = (sv_store sv', OK)"
      using w f by (auto simp: Chunkserver_ApplyMutation_def Contains_content Version_content split: prod.splits)
    from Pad_OK [OF sv_okD(1) [OF ok] this] show thesis using f PAD sv_okD(3) [OF ok] by (intro that [of f]) auto
  next
    case WRITE
    then obtain data where d: "map_of (view (sv_buffer sv)) ?key = Some data"
      "Write crc ?h (am_offset am) data (sv_store sv) = (sv_store sv', OK)"
      using w f by (auto simp: Chunkserver_ApplyMutation_def Contains_content Version_content tk split: prod.splits option.splits if_splits)
    from Write_OK [OF sv_okD(1) [OF ok] d(2)] show thesis using f d(1) WRITE by (intro that [of f]) auto
  qed
qed

end
