(* ===== verification/Cluster.thy ===== *)
theory Cluster
  imports Chunkserver
begin

text \<open>
  The chunkservers of a cluster, by address; \<open>None\<close> is a server that does not answer. A mutation
  on the primary reaches the secondaries of the lease by the \<open>ApplyMutation\<close> calls of
  \<open>ForwardMutation\<close>, and pushed data travels down the chain of \<open>PushData\<close> calls.
\<close>

type_synonym cluster = "string \<Rightarrow> chunkserver option"

definition cluster_reply :: "(bytes \<Rightarrow> u32) \<Rightarrow> cluster \<Rightarrow> apply_mutation_request \<Rightarrow> replica \<Rightarrow> result_code option" where
  "cluster_reply crc cl am r = map_option (\<lambda>sv. snd (Chunkserver_ApplyMutation crc am sv)) (cl (rp_address r))"

definition deliver :: "(bytes \<Rightarrow> u32) \<Rightarrow> sent \<Rightarrow> cluster \<Rightarrow> cluster" where
  "deliver crc sent cl =
     (case sent of
        None \<Rightarrow> cl
      | Some (am, secondaries) \<Rightarrow>
          (\<lambda>a. if a \<in> rp_address ` set secondaries
               then map_option (\<lambda>sv. fst (Chunkserver_ApplyMutation crc am sv)) (cl a) else cl a))"

text \<open>
  A write and a record append at the server with address \<open>primary\<close>. While it forwards a
  mutation the primary holds the mutation lock of the chunk, so it would not answer itself.
\<close>

definition cluster_Write ::
    "(bytes \<Rightarrow> u32) \<Rightarrow> time_point \<Rightarrow> string \<Rightarrow> write_request \<Rightarrow> cluster \<Rightarrow> cluster \<times> (result_code \<times> string) option" where
  "cluster_Write crc t primary req cl =
     (case cl primary of
        None \<Rightarrow> (cl, None)
      | Some sv \<Rightarrow>
          (case Chunkserver_Write crc t (cluster_reply crc (cl(primary := None))) req sv of
             (sv', answer, sent) \<Rightarrow> ((deliver crc sent cl)(primary \<mapsto> sv'), Some answer)))"

definition cluster_RecordAppend ::
    "(bytes \<Rightarrow> u32) \<Rightarrow> time_point \<Rightarrow> string \<Rightarrow> record_append_request \<Rightarrow> cluster \<Rightarrow> cluster \<times> record_append_response option" where
  "cluster_RecordAppend crc t primary req cl =
     (case cl primary of
        None \<Rightarrow> (cl, None)
      | Some sv \<Rightarrow>
          (case Chunkserver_RecordAppend crc t (cluster_reply crc (cl(primary := None))) req sv of
             (sv', answer, sent) \<Rightarrow> ((deliver crc sent cl)(primary \<mapsto> sv'), Some answer)))"

definition cluster_ok :: "(bytes \<Rightarrow> u32) \<Rightarrow> nat \<Rightarrow> cluster \<Rightarrow> bool" where
  "cluster_ok crc chunk_size cl \<longleftrightarrow> (\<forall>a sv. cl a = Some sv \<longrightarrow> sv_ok crc sv \<and> sv_chunk_size sv = chunk_size)"

text \<open>Version and bytes of a chunk at a server, and the data it has buffered under a key.\<close>

definition chunk_at :: "cluster \<Rightarrow> string \<Rightarrow> u64 \<Rightarrow> (u64 \<times> bytes) option" where
  "chunk_at cl a h = (case cl a of None \<Rightarrow> None | Some sv \<Rightarrow> content (sv_store sv) h)"

definition data_at :: "cluster \<Rightarrow> string \<Rightarrow> string \<times> u64 \<Rightarrow> bytes option" where
  "data_at cl a key = (case cl a of None \<Rightarrow> None | Some sv \<Rightarrow> map_of (view (sv_buffer sv)) key)"

text \<open>The addresses of the primary and of the secondaries of its lease.\<close>

definition replicas_at :: "time_point \<Rightarrow> string \<Rightarrow> u64 \<Rightarrow> cluster \<Rightarrow> string set" where
  "replicas_at t primary h cl =
     (case cl primary of
        None \<Rightarrow> {}
      | Some sv \<Rightarrow> (case Check t h (sv_leases sv) of
                     kPrimary lease \<Rightarrow> insert primary (rp_address ` set (li_secondaries lease)) | _ \<Rightarrow> {}))"

text \<open>What an acknowledged mutation did at a secondary.\<close>

lemma delivered:
  assumes ok: "cluster_ok crc n cl" and r: "r \<in> set secondaries" "cluster_reply crc cl am r = Some OK"
  obtains sv f where "cl (rp_address r) = Some sv" "chunk_at cl (rp_address r) (am_handle am) = Some (am_version am, f)"
    "chunk_at (deliver crc (Some (am, secondaries)) cl) (rp_address r) (am_handle am) = Some (am_version am,
       if am_kind am = PAD then ftruncate n (take (am_offset am) f)
       else written (am_offset am) (the (data_at cl (rp_address r) (am_client_id am, am_sequence am))) f)"
proof -
  from r(2) obtain sv where sv: "cl (rp_address r) = Some sv" "snd (Chunkserver_ApplyMutation crc am sv) = OK"
    by (auto simp: cluster_reply_def)
  define sv' where "sv' = fst (Chunkserver_ApplyMutation crc am sv)"
  have "Chunkserver_ApplyMutation crc am sv = (sv', OK)" using sv(2) by (simp add: sv'_def prod_eq_iff)
  moreover have "sv_ok crc sv" "sv_chunk_size sv = n" using ok sv(1) by (auto simp: cluster_ok_def)
  ultimately obtain f where "content (sv_store sv) (am_handle am) = Some (am_version am, f)"
    "content (sv_store sv') = (content (sv_store sv))(am_handle am \<mapsto> (am_version am,
       if am_kind am = PAD then ftruncate n (take (am_offset am) f)
       else written (am_offset am) (the (map_of (view (sv_buffer sv)) (am_client_id am, am_sequence am))) f))"
    using ApplyMutation_acknowledged by metis
  moreover have "deliver crc (Some (am, secondaries)) cl (rp_address r) = Some sv'"
    using r(1) sv(1) by (simp add: deliver_def sv'_def)
  ultimately show thesis using sv(1) by (intro that [of sv f]) (auto simp: chunk_at_def data_at_def)
qed

lemma sv_chunk_size_ApplyMutation [simp]: "sv_chunk_size (fst (Chunkserver_ApplyMutation crc am sv)) = sv_chunk_size sv"
  by (simp add: Chunkserver_ApplyMutation_def split: option.split prod.split)

lemma sv_chunk_size_Write [simp]: "sv_chunk_size (fst (Chunkserver_Write crc t reply req sv)) = sv_chunk_size sv"
  by (simp add: Chunkserver_Write_def Let_def split: option.split prod.split sum.split)

lemma sv_chunk_size_RecordAppend [simp]: "sv_chunk_size (fst (Chunkserver_RecordAppend crc t reply req sv)) = sv_chunk_size sv"
  by (simp add: Chunkserver_RecordAppend_def Let_def split: option.split prod.split sum.split)

lemma cluster_ok_deliver: "cluster_ok crc n cl \<Longrightarrow> cluster_ok crc n (deliver crc sent cl)"
  by (auto simp: cluster_ok_def deliver_def sv_ok_ApplyMutation split: option.splits if_splits)

lemma cluster_ok_upd:
  "cluster_ok crc n cl \<Longrightarrow> sv_ok crc sv \<Longrightarrow> sv_chunk_size sv = n \<Longrightarrow> cluster_ok crc n (cl(a \<mapsto> sv))"
  by (auto simp: cluster_ok_def)

lemma cluster_ok_Write: "cluster_ok crc n cl \<Longrightarrow> cluster_ok crc n (fst (cluster_Write crc t primary req cl))"
proof (cases "cl primary")
  case None
  then show "cluster_ok crc n cl \<Longrightarrow> cluster_ok crc n (fst (cluster_Write crc t primary req cl))" by (simp add: cluster_Write_def)
next
  case (Some sv)
  assume ok: "cluster_ok crc n cl"
  let ?reply = "cluster_reply crc (cl(primary := None))"
  obtain sv' answer sent where e: "Chunkserver_Write crc t ?reply req sv = (sv', answer, sent)" by (metis prod_cases3)
  have "sv_ok crc sv" "sv_chunk_size sv = n" using ok Some by (auto simp: cluster_ok_def)
  then have "sv_ok crc sv'" "sv_chunk_size sv' = n"
    using sv_ok_Write [of crc sv t ?reply req] sv_chunk_size_Write [of crc t ?reply req sv] e by simp_all
  then show "cluster_ok crc n (fst (cluster_Write crc t primary req cl))"
    using ok Some e by (simp add: cluster_Write_def cluster_ok_upd cluster_ok_deliver)
qed

lemma cluster_ok_RecordAppend: "cluster_ok crc n cl \<Longrightarrow> cluster_ok crc n (fst (cluster_RecordAppend crc t primary req cl))"
proof (cases "cl primary")
  case None
  then show "cluster_ok crc n cl \<Longrightarrow> cluster_ok crc n (fst (cluster_RecordAppend crc t primary req cl))" by (simp add: cluster_RecordAppend_def)
next
  case (Some sv)
  assume ok: "cluster_ok crc n cl"
  let ?reply = "cluster_reply crc (cl(primary := None))"
  obtain sv' answer sent where e: "Chunkserver_RecordAppend crc t ?reply req sv = (sv', answer, sent)" by (metis prod_cases3)
  have "sv_ok crc sv" "sv_chunk_size sv = n" using ok Some by (auto simp: cluster_ok_def)
  then have "sv_ok crc sv'" "sv_chunk_size sv' = n"
    using sv_ok_RecordAppend [of crc sv t ?reply req] sv_chunk_size_RecordAppend [of crc t ?reply req sv] e by simp_all
  then show "cluster_ok crc n (fst (cluster_RecordAppend crc t primary req cl))"
    using ok Some e by (simp add: cluster_RecordAppend_def cluster_ok_upd cluster_ok_deliver)
qed

text \<open>A secondary that acknowledged is not the primary.\<close>

lemma reply_other: "cluster_reply crc (cl(primary := None)) am r = Some code \<Longrightarrow> rp_address r \<noteq> primary"
  by (auto simp: cluster_reply_def)

lemma reply_same: "rp_address r \<noteq> primary \<Longrightarrow> cluster_reply crc (cl(primary := None)) am r = cluster_reply crc cl am r"
  by (simp add: cluster_reply_def)

section \<open>Record append\<close>

lemma append_everywhere:
  assumes ok: "cluster_ok crc n cl" and ap: "cluster_RecordAppend crc t primary req cl = (cl', Some answer)"
    and code: "rr_code answer = OK \<or> rr_code answer = RETRY_NEXT_CHUNK"
    and data: "\<forall>a \<in> replicas_at t primary (ra_handle req) cl. data_at cl a (ra_client_id req, ra_sequence req) = Some d"
  obtains fp where "chunk_at cl primary (ra_handle req) = Some (ra_version req, fp)"
    "rr_code answer = OK \<longrightarrow> rr_offset answer = length fp"
    "\<forall>a \<in> replicas_at t primary (ra_handle req) cl. \<exists>f. chunk_at cl a (ra_handle req) = Some (ra_version req, f) \<and>
       chunk_at cl' a (ra_handle req) = Some (ra_version req,
         if rr_code answer = OK then written (length fp) d f else ftruncate n (take (length fp) f))"
proof -
  let ?h = "ra_handle req" and ?reply = "cluster_reply crc (cl(primary := None))" and ?key = "(ra_client_id req, ra_sequence req)"
  from ap obtain sv where sv: "cl primary = Some sv" by (auto simp: cluster_RecordAppend_def split: option.splits prod.splits)
  obtain sv' sent where ra: "Chunkserver_RecordAppend crc t ?reply req sv = (sv', answer, sent)" "cl' = (deliver crc sent cl)(primary \<mapsto> sv')"
    using ap sv by (auto simp: cluster_RecordAppend_def split: prod.splits)
  have svok: "sv_ok crc sv" "sv_chunk_size sv = n" using ok sv by (auto simp: cluster_ok_def)
  obtain lease fp d' am where a: "content (sv_store sv) ?h = Some (ra_version req, fp)"
    "Check t ?h (sv_leases sv) = kPrimary lease" "map_of (view (sv_buffer sv)) ?key = Some d'"
    "content (sv_store sv') = (content (sv_store sv))(?h \<mapsto> (ra_version req,
       if rr_code answer = OK then written (length fp) d' fp else ftruncate (sv_chunk_size sv) fp))"
    "rr_code answer = OK \<longrightarrow> rr_offset answer = length fp \<and> am_kind am = WRITE"
    "rr_code answer = RETRY_NEXT_CHUNK \<longrightarrow> am_kind am = PAD \<and> sv_chunk_size sv < length fp + length d'"
    "sent = Some (am, li_secondaries lease)" "\<forall>r \<in> set (li_secondaries lease). ?reply am r = Some OK"
    "am_handle am = ?h" "am_version am = ra_version req" "am_offset am = length fp"
    "am_client_id am = ra_client_id req" "am_sequence am = ra_sequence req"
    by (rule RecordAppend_acknowledged [OF svok(1) ra(1) code])
  have reps: "replicas_at t primary ?h cl = insert primary (rp_address ` set (li_secondaries lease))"
    using sv a(2) by (simp add: replicas_at_def)
  then have d': "d' = d" using data a(3) sv by (simp add: data_at_def)
  have kind: "(am_kind am = PAD) = (rr_code answer \<noteq> OK)" using a(5,6) code by auto
  have "\<exists>f. chunk_at cl b ?h = Some (ra_version req, f) \<and> chunk_at cl' b ?h = Some (ra_version req,
         if rr_code answer = OK then written (length fp) d f else ftruncate n (take (length fp) f))"
    if b: "b \<in> replicas_at t primary ?h cl" for b
  proof (cases "b = primary")
    case True
    then show ?thesis using sv a(1,4) d' svok(2) ra(2) by (auto simp: chunk_at_def)
  next
    case False
    with b reps obtain r where r: "r \<in> set (li_secondaries lease)" "b = rp_address r" by auto
    with a(8) have rep: "cluster_reply crc cl am r = Some OK" using False reply_same by metis
    have db: "data_at cl b ?key = Some d" using data b by blast
    from delivered [OF ok r(1) rep] obtain f where
      "chunk_at cl (rp_address r) (am_handle am) = Some (am_version am, f)"
      "chunk_at (deliver crc (Some (am, li_secondaries lease)) cl) (rp_address r) (am_handle am) = Some (am_version am,
         if am_kind am = PAD then ftruncate n (take (am_offset am) f)
         else written (am_offset am) (the (data_at cl (rp_address r) (am_client_id am, am_sequence am))) f)"
      by metis
    then show ?thesis using a(7,9-13) r(2) False ra(2) db kind by (auto simp: chunk_at_def)
  qed
  then show thesis using sv a(1,5) by (intro that [of fp]) (auto simp: chunk_at_def)
qed

section \<open>Writes\<close>

lemma written_everywhere:
  assumes ok: "cluster_ok crc n cl" and w: "cluster_Write crc t primary req cl = (cl', Some (OK, who))"
    and data: "\<forall>a \<in> replicas_at t primary (wr_handle req) cl. data_at cl a (wr_client_id req, wr_sequence req) = Some d"
  shows "primary \<in> replicas_at t primary (wr_handle req) cl \<and>
     (\<forall>a \<in> replicas_at t primary (wr_handle req) cl. \<exists>f. chunk_at cl a (wr_handle req) = Some (wr_version req, f) \<and>
       chunk_at cl' a (wr_handle req) = Some (wr_version req, written (wr_offset req) d f))"
proof -
  let ?h = "wr_handle req" and ?reply = "cluster_reply crc (cl(primary := None))" and ?key = "(wr_client_id req, wr_sequence req)"
  from w obtain sv where sv: "cl primary = Some sv" by (auto simp: cluster_Write_def split: option.splits prod.splits)
  obtain sv' sent where wr: "Chunkserver_Write crc t ?reply req sv = (sv', (OK, who), sent)" "cl' = (deliver crc sent cl)(primary \<mapsto> sv')"
    using w sv by (auto simp: cluster_Write_def split: prod.splits)
  have svok: "sv_ok crc sv" "sv_chunk_size sv = n" using ok sv by (auto simp: cluster_ok_def)
  obtain lease fp d' am where a: "content (sv_store sv) ?h = Some (wr_version req, fp)"
    "Check t ?h (sv_leases sv) = kPrimary lease" "map_of (view (sv_buffer sv)) ?key = Some d'"
    "content (sv_store sv') = (content (sv_store sv))(?h \<mapsto> (wr_version req, written (wr_offset req) d' fp))"
    "sent = Some (am, li_secondaries lease)" "\<forall>r \<in> set (li_secondaries lease). ?reply am r = Some OK"
    "am_handle am = ?h" "am_version am = wr_version req" "am_kind am = WRITE" "am_offset am = wr_offset req"
    "am_client_id am = wr_client_id req" "am_sequence am = wr_sequence req"
    by (rule Write_acknowledged [OF svok(1) wr(1)])
  have reps: "replicas_at t primary ?h cl = insert primary (rp_address ` set (li_secondaries lease))"
    using sv a(2) by (simp add: replicas_at_def)
  then have self: "primary \<in> replicas_at t primary ?h cl" by simp
  from reps have d': "d' = d" using data a(3) sv by (simp add: data_at_def)
  have "\<forall>b \<in> replicas_at t primary ?h cl. \<exists>f. chunk_at cl b ?h = Some (wr_version req, f) \<and>
      chunk_at cl' b ?h = Some (wr_version req, written (wr_offset req) d f)"
  proof
    fix b assume b: "b \<in> replicas_at t primary ?h cl"
    show "\<exists>f. chunk_at cl b ?h = Some (wr_version req, f) \<and> chunk_at cl' b ?h = Some (wr_version req, written (wr_offset req) d f)"
    proof (cases "b = primary")
      case True
      then show ?thesis using sv a(1,4) d' wr(2) by (auto simp: chunk_at_def)
    next
      case False
      with b reps obtain r where r: "r \<in> set (li_secondaries lease)" "b = rp_address r" by auto
      with a(6) have rep: "cluster_reply crc cl am r = Some OK" using False reply_same by metis
      have db: "data_at cl b ?key = Some d" using data b by blast
      from delivered [OF ok r(1) rep] obtain f where
        "chunk_at cl (rp_address r) (am_handle am) = Some (am_version am, f)"
        "chunk_at (deliver crc (Some (am, li_secondaries lease)) cl) (rp_address r) (am_handle am) = Some (am_version am,
           if am_kind am = PAD then ftruncate n (take (am_offset am) f)
           else written (am_offset am) (the (data_at cl (rp_address r) (am_client_id am, am_sequence am))) f)"
        by metis
      then show ?thesis using a(5,7-12) r(2) False wr(2) db by (auto simp: chunk_at_def)
    qed
  qed
  with self show ?thesis by blast
qed

text \<open>
  When a primary acknowledges a write, it and every secondary of its lease had the chunk
  at the version of the request and have the same data written at the same offset.
\<close>

lemma write_everywhere:
  assumes ok: "cluster_ok crc n cl" and w: "cluster_Write crc t primary req cl = (cl', Some (OK, who))"
    and data: "\<forall>a \<in> replicas_at t primary (wr_handle req) cl. data_at cl a (wr_client_id req, wr_sequence req) = Some d"
  shows "primary \<in> replicas_at t primary (wr_handle req) cl \<and>
     (\<forall>a \<in> replicas_at t primary (wr_handle req) cl. \<exists>f. chunk_at cl a (wr_handle req) = Some (wr_version req, f) \<and>
       chunk_at cl' a (wr_handle req) = Some (wr_version req, written (wr_offset req) d f))"
  using assms by (rule written_everywhere)

section \<open>Pushing data down a chain\<close>

text \<open>The header that travels is \<open>header\<close> with the rest of the chain in \<open>forward_to\<close>.\<close>

fun cluster_PushData ::
    "string \<Rightarrow> replica list \<Rightarrow> push_header \<Rightarrow> push_message list \<Rightarrow> cluster \<Rightarrow> cluster \<times> (result_code \<times> string) option" where
  "cluster_PushData a [] header rest cl =
     (case cl a of
        None \<Rightarrow> (cl, None)
      | Some sv \<Rightarrow>
          (case Chunkserver_PushData (\<lambda>r m. None) (PushHeader (header\<lparr>ph_forward_to := []\<rparr>) # rest) sv of
             (sv', answer) \<Rightarrow> (cl(a \<mapsto> sv'), Some answer)))"
| "cluster_PushData a (next # others) header rest cl =
     (case cl a of
        None \<Rightarrow> (cl, None)
      | Some sv \<Rightarrow>
          (case cluster_PushData (rp_address next) others header (filter is_data rest) cl of
             (cl1, downstream) \<Rightarrow>
               (case cl1 a of
                  None \<Rightarrow> (cl1, None)
                | Some sv1 \<Rightarrow>
                    (case Chunkserver_PushData (\<lambda>r m. downstream) (PushHeader (header\<lparr>ph_forward_to := next # others\<rparr>) # rest) sv1 of
                       (sv', answer) \<Rightarrow> (cl1(a \<mapsto> sv'), Some answer)))))"

text \<open>The sizes in a buffer stay within 64 bits.\<close>

definition room :: "nat \<Rightarrow> cluster \<Rightarrow> bool" where
  "room n cl \<longleftrightarrow> (\<forall>a sv. cl a = Some sv \<longrightarrow> BytesInUse (sv_buffer sv) + n < 2 ^ 64)"

lemma received_filter [simp]: "received (filter is_data msgs) = received msgs"
  by (induction msgs) (auto simp: received_def is_data_def split: push_message.splits)

text \<open>An acknowledged push leaves everything but the buffer alone, and the data in the buffer.\<close>

lemma PushData_OK:
  assumes ok: "sv_ok crc sv" "BytesInUse (sv_buffer sv) + length (received rest) < 2 ^ 64"
    and push: "Chunkserver_PushData forward (PushHeader header # rest) sv = (sv', (OK, who))"
  shows "sv_ok crc sv'" "sv_store sv' = sv_store sv" "sv_leases sv' = sv_leases sv" "sv_chunk_size sv' = sv_chunk_size sv"
    "map_of (view (sv_buffer sv')) (ph_client_id header, ph_sequence header) = Some (received rest)"
    "ph_forward_to header = next # others \<Longrightarrow>
       \<exists>who. forward next (PushHeader (header\<lparr>ph_forward_to := others\<rparr>) # filter is_data rest) = Some (OK, who)"
proof -
  have sv': "sv' = sv\<lparr>sv_buffer := Put (ph_client_id header, ph_sequence header) (received rest) (sv_buffer sv)\<rparr>"
    using push by (auto simp: Chunkserver_PushData_def Let_def split: if_splits)
  have db: "db_ok (sv_buffer sv)" "total (db_lru (sv_buffer sv)) + length (received rest) < 2 ^ 64"
    using ok db_okD(4) [of "sv_buffer sv"] by (auto simp: sv_ok_def BytesInUse_def)
  note p = Put_props [OF db, of "(ph_client_id header, ph_sequence header)"]
  show "sv_ok crc sv'" using ok(1) p(1) by (simp add: sv' sv_ok_def)
  show "sv_store sv' = sv_store sv" "sv_leases sv' = sv_leases sv" "sv_chunk_size sv' = sv_chunk_size sv"
    by (simp_all add: sv')
  show "map_of (view (sv_buffer sv')) (ph_client_id header, ph_sequence header) = Some (received rest)"
    using p(2) by (auto simp: sv')
  show "\<exists>who. forward next (PushHeader (header\<lparr>ph_forward_to := others\<rparr>) # filter is_data rest) = Some (OK, who)"
    if "ph_forward_to header = next # others"
    using push that by (auto simp: Chunkserver_PushData_def Let_def split: if_splits option.splits)
qed

lemma push_frame:
  "b \<notin> insert a (rp_address ` set fwd) \<Longrightarrow> fst (cluster_PushData a fwd header rest cl) b = cl b"
proof (induction a fwd header rest cl arbitrary: b rule: cluster_PushData.induct)
  case (1 a header rest cl)
  then show ?case by (auto split: option.split prod.split)
next
  case (2 a nxt others header rest cl)
  show ?case
  proof (cases "cl a")
    case (Some sv)
    have "fst (cluster_PushData (rp_address nxt) others header (filter is_data rest) cl) b = cl b"
      using 2(1) [OF Some] 2(2) by simp
    then show ?thesis using Some 2(2) by (auto split: option.split prod.split)
  qed simp
qed

text \<open>Servers with the same chunks and leases.\<close>

definition same_chunks :: "cluster \<Rightarrow> cluster \<Rightarrow> bool" where
  "same_chunks cl cl' \<longleftrightarrow>
     (\<forall>b. map_option sv_store (cl' b) = map_option sv_store (cl b) \<and> map_option sv_leases (cl' b) = map_option sv_leases (cl b))"

lemma same_chunks_views:
  assumes "same_chunks cl cl'"
  shows "chunk_at cl' b h = chunk_at cl b h" "replicas_at t b h cl' = replicas_at t b h cl"
proof -
  from assms have "map_option sv_store (cl' b) = map_option sv_store (cl b)" "map_option sv_leases (cl' b) = map_option sv_leases (cl b)"
    by (auto simp: same_chunks_def)
  then show "chunk_at cl' b h = chunk_at cl b h" "replicas_at t b h cl' = replicas_at t b h cl"
    by (cases "cl b"; cases "cl' b"; simp add: chunk_at_def replicas_at_def)+
qed

lemma same_chunks_upd:
  "same_chunks cl cl' \<Longrightarrow> cl' a = Some sv \<Longrightarrow> sv_store sv' = sv_store sv \<Longrightarrow> sv_leases sv' = sv_leases sv \<Longrightarrow>
   same_chunks cl (cl'(a \<mapsto> sv'))"
  unfolding same_chunks_def by (metis fun_upd_apply option.map(2))

lemma data_at_upd [simp]:
  "data_at (cl(a \<mapsto> sv)) b key = (if b = a then map_of (view (sv_buffer sv)) key else data_at cl b key)"
  by (simp add: data_at_def)

lemma pushed_chain:
  "cluster_ok crc n cl \<Longrightarrow> room (length (received rest)) cl \<Longrightarrow> distinct (a # map rp_address fwd) \<Longrightarrow>
   cluster_PushData a fwd header rest cl = (cl', Some (OK, who)) \<Longrightarrow>
   cluster_ok crc n cl' \<and> same_chunks cl cl' \<and>
   (\<forall>b \<in> insert a (rp_address ` set fwd). data_at cl' b (ph_client_id header, ph_sequence header) = Some (received rest))"
proof (induction a fwd header rest cl arbitrary: cl' who rule: cluster_PushData.induct)
  case (1 a header rest cl)
  then obtain sv sv' where sv: "cl a = Some sv" "cl' = cl(a \<mapsto> sv')"
    "Chunkserver_PushData (\<lambda>r m. None) (PushHeader (header\<lparr>ph_forward_to := []\<rparr>) # rest) sv = (sv', (OK, who))"
    by (auto split: option.splits prod.splits)
  have pre: "sv_ok crc sv" "BytesInUse (sv_buffer sv) + length (received rest) < 2 ^ 64" "sv_chunk_size sv = n"
    using 1 sv(1) by (auto simp: cluster_ok_def room_def)
  note p = PushData_OK [OF pre(1,2) sv(3)]
  have "same_chunks cl cl'" using same_chunks_upd [of cl cl a sv sv'] sv p(2,3) by (simp add: same_chunks_def)
  moreover have "cluster_ok crc n cl'" unfolding sv(2) using 1(1) p(1,4) pre(3) by (simp add: cluster_ok_upd)
  ultimately show ?case using p(5) by (simp add: sv(2) del: fun_upd_apply)
next
  case (2 a nxt others header rest cl)
  from 2(5) obtain sv where sv: "cl a = Some sv" by (auto split: option.splits)
  obtain cl1 down where down: "cluster_PushData (rp_address nxt) others header (filter is_data rest) cl = (cl1, down)" by fastforce
  from 2(5) sv down obtain sv1 sv' where sv1: "cl1 a = Some sv1" "cl' = cl1(a \<mapsto> sv')"
    "Chunkserver_PushData (\<lambda>r m. down) (PushHeader (header\<lparr>ph_forward_to := nxt # others\<rparr>) # rest) sv1 = (sv', (OK, who))"
    by (auto split: option.splits prod.splits)
  have "cl1 a = cl a" using push_frame [of a "rp_address nxt" others header "filter is_data rest" cl] 2(4) down by simp
  then have "sv1 = sv" using sv sv1(1) by simp
  then have pre: "sv_ok crc sv1" "BytesInUse (sv_buffer sv1) + length (received rest) < 2 ^ 64" "sv_chunk_size sv1 = n"
    using 2(2,3) sv by (auto simp: cluster_ok_def room_def)
  note p = PushData_OK [OF pre(1,2) sv1(3)]
  from p(6) [of nxt others] obtain who' where "down = Some (OK, who')" by auto
  then have IH: "cluster_ok crc n cl1 \<and> same_chunks cl cl1 \<and>
     (\<forall>b \<in> insert (rp_address nxt) (rp_address ` set others). data_at cl1 b (ph_client_id header, ph_sequence header) = Some (received rest))"
    using 2(1) [OF sv _ _ _, of cl1 who'] 2(2,3,4) down by simp
  have "same_chunks cl cl'" using same_chunks_upd [of cl cl1 a sv1 sv'] IH sv1(1,2) p(2,3) by simp
  moreover have "cluster_ok crc n cl'" using IH p(1,4) pre(3) by (simp add: sv1(2) cluster_ok_upd)
  ultimately show ?case using IH p(5) by (auto simp: sv1(2) simp del: fun_upd_apply)
qed

text \<open>
  The record append of the paper, from end to end: when a client has pushed a record down a
  chain through all the replicas of a chunk, and the primary has then acknowledged the append
  at some offset, every replica holds the record at this offset, within the chunk.
\<close>

text \<open>
  C10: record append, end to end: once the client has pushed a record down a chain through
  all replicas and the primary has acknowledged the append, every replica holds the record
  at the offset that was answered.
\<close>

theorem appended_everywhere:
  assumes ok: "cluster_ok crc n cl" "room (length (received rest)) cl" "distinct (a # map rp_address fwd)"
    and push: "cluster_PushData a fwd header rest cl = (cl1, Some (OK, who))"
    and key: "ra_client_id req = ph_client_id header" "ra_sequence req = ph_sequence header"
    and all: "replicas_at t primary (ra_handle req) cl \<subseteq> insert a (rp_address ` set fwd)"
    and ap: "cluster_RecordAppend crc t primary req cl1 = (cl', Some answer)" "rr_code answer = OK"
  shows "\<forall>b \<in> replicas_at t primary (ra_handle req) cl. \<exists>f.
     chunk_at cl' b (ra_handle req) = Some (ra_version req, f) \<and>
     take (length (received rest)) (drop (rr_offset answer) f) = received rest"
proof -
  note c = pushed_chain [OF ok push]
  then have c1: "cluster_ok crc n cl1" and views: "\<And>b h. chunk_at cl1 b h = chunk_at cl b h" "\<And>t b h. replicas_at t b h cl1 = replicas_at t b h cl"
    and data: "\<forall>b \<in> insert a (rp_address ` set fwd). data_at cl1 b (ra_client_id req, ra_sequence req) = Some (received rest)"
    using same_chunks_views key by auto
  have here: "\<forall>b \<in> replicas_at t primary (ra_handle req) cl1. data_at cl1 b (ra_client_id req, ra_sequence req) = Some (received rest)"
    using data all views(2) by blast
  obtain fp where "chunk_at cl1 primary (ra_handle req) = Some (ra_version req, fp)"
    and fp: "rr_code answer = OK \<longrightarrow> rr_offset answer = length fp"
    "\<forall>b \<in> replicas_at t primary (ra_handle req) cl1. \<exists>f. chunk_at cl1 b (ra_handle req) = Some (ra_version req, f) \<and>
       chunk_at cl' b (ra_handle req) = Some (ra_version req,
         if rr_code answer = OK then written (length fp) (received rest) f else ftruncate n (take (length fp) f))"
    by (rule append_everywhere [OF c1 ap(1) disjI1 [OF ap(2)] here])
  show ?thesis
  proof
    fix b assume "b \<in> replicas_at t primary (ra_handle req) cl"
    with fp(2) views(2) obtain f where "chunk_at cl' b (ra_handle req) = Some (ra_version req, written (length fp) (received rest) f)"
      using ap(2) by auto
    then show "\<exists>f. chunk_at cl' b (ra_handle req) = Some (ra_version req, f) \<and>
        take (length (received rest)) (drop (rr_offset answer) f) = received rest"
      using fp(1) ap(2) by (simp add: written_reads)
  qed
qed

section \<open>Witnesses\<close>

text \<open>Two servers with a chunk each; \<open>''p''\<close> has the lease on it, with \<open>''q''\<close> as its secondary.\<close>

definition sample_server :: "lease_table \<Rightarrow> chunkserver" where
  "sample_server leases = \<lparr>sv_id = ''id'', sv_address = ''a'', sv_rack = [], sv_chunk_size = 16, sv_store = one_chunk,
     sv_buffer = empty_buffer 64, sv_leases = leases\<rparr>"

definition at_q :: replica where
  "at_q = \<lparr>rp_chunkserver_id = ''Q'', rp_address = ''q'', rp_rack = []\<rparr>"

definition sample_cluster :: cluster where
  "sample_cluster a =
     (if a = ''p'' then Some (sample_server (Grant 0 7 60000 [at_q] \<lparr>lt_skew_margin = 5000, lt_slots = []\<rparr>))
      else if a = ''q'' then Some (sample_server \<lparr>lt_skew_margin = 5000, lt_slots = []\<rparr>)
      else None)"

definition sample_header :: push_header where
  "sample_header = \<lparr>ph_client_id = ''c'', ph_sequence = 1, ph_total_length = 3, ph_forward_to = []\<rparr>"

definition pushed_cluster :: cluster where
  "pushed_cluster = fst (cluster_PushData ''p'' [at_q] sample_header [PushBytes ''xyz''] sample_cluster)"

definition sample_write :: write_request where
  "sample_write = \<lparr>wr_handle = 7, wr_version = 1, wr_offset = 4, wr_client_id = ''c'', wr_sequence = 1\<rparr>"

definition sample_append :: record_append_request where
  "sample_append = \<lparr>ra_handle = 7, ra_version = 1, ra_client_id = ''c'', ra_sequence = 1\<rparr>"

lemma sample_cluster_ok: "cluster_ok no_crc 16 sample_cluster" "room 3 sample_cluster"
proof -
  have "BytesInUse (empty_buffer 64 :: (string \<times> u64) data_buffer) = 0" by (simp add: BytesInUse_def empty_buffer_def)
  then show "cluster_ok no_crc 16 sample_cluster" "room 3 sample_cluster"
    by (auto simp: cluster_ok_def room_def sample_cluster_def sample_server_def sv_ok_def store_ok_def one_chunk_ok
        one_chunk_content db_ok_empty split: if_splits)
qed

lemma sample_push: "cluster_PushData ''p'' [at_q] sample_header [PushBytes ''xyz''] sample_cluster = (pushed_cluster, Some (OK, []))"
proof -
  have "snd (cluster_PushData ''p'' [at_q] sample_header [PushBytes ''xyz''] sample_cluster) = Some (OK, [])" by code_simp
  then show ?thesis by (simp add: pushed_cluster_def prod_eq_iff)
qed

lemma sample_received: "received [PushBytes ''xyz''] = ''xyz''" "length (received [PushBytes ''xyz'']) = 3"
  by code_simp+

lemma sample_room: "room (length (received [PushBytes ''xyz''])) sample_cluster"
  unfolding sample_received(2) by (rule sample_cluster_ok)

lemma pushed_cluster_ok: "cluster_ok no_crc 16 pushed_cluster"
  using pushed_chain [OF sample_cluster_ok(1) sample_room _ sample_push] by (simp add: at_q_def)

lemma sample_replicas:
  "replicas_at 1 ''p'' 7 sample_cluster = {''p'', ''q''}" "replicas_at 1 ''p'' 7 pushed_cluster = {''p'', ''q''}"
  by code_simp+

theorem write_everywhere_witness:
  "chunk_at (fst (cluster_Write no_crc 1 ''p'' sample_write pushed_cluster)) ''q'' 7 = Some (1, ''abcdxyz'')"
proof -
  have ok: "snd (cluster_Write no_crc 1 ''p'' sample_write pushed_cluster) = Some (OK, [])" by code_simp
  have w: "cluster_Write no_crc 1 ''p'' sample_write pushed_cluster =
      (fst (cluster_Write no_crc 1 ''p'' sample_write pushed_cluster), Some (OK, []))"
    using ok by (simp add: prod_eq_iff)
  have reps: "replicas_at 1 ''p'' (wr_handle sample_write) pushed_cluster = {''p'', ''q''}"
    using sample_replicas by (simp add: sample_write_def)
  have data: "data_at pushed_cluster ''p'' (''c'', 1) = Some ''xyz''" "data_at pushed_cluster ''q'' (''c'', 1) = Some ''xyz''"
    by code_simp+
  have before: "chunk_at pushed_cluster ''q'' 7 = Some (1, ''abcdef'')" by code_simp
  have new: "written 4 ''xyz'' ''abcdef'' = ''abcdxyz''" by code_simp
  have "\<forall>a \<in> replicas_at 1 ''p'' (wr_handle sample_write) pushed_cluster.
      data_at pushed_cluster a (wr_client_id sample_write, wr_sequence sample_write) = Some ''xyz''"
    using data unfolding reps by (simp add: sample_write_def)
  from write_everywhere [OF pushed_cluster_ok w this] before new show ?thesis
    unfolding reps by (auto simp: sample_write_def)
qed

theorem appended_everywhere_witness:
  "\<exists>f. chunk_at (fst (cluster_RecordAppend no_crc 1 ''p'' sample_append pushed_cluster)) ''q'' 7 = Some (1, f) \<and>
     take 3 (drop 6 f) = ''xyz''"
proof -
  let ?a = "cluster_RecordAppend no_crc 1 ''p'' sample_append pushed_cluster"
  have ok: "snd ?a = Some (append_answer OK 6 [])" by code_simp
  have a: "?a = (fst ?a, Some (append_answer OK 6 []))" using ok by (simp add: prod_eq_iff)
  have reps: "replicas_at 1 ''p'' (ra_handle sample_append) sample_cluster = {''p'', ''q''}"
    using sample_replicas by (simp add: sample_append_def)
  have "\<forall>b \<in> replicas_at 1 ''p'' (ra_handle sample_append) sample_cluster. \<exists>f.
     chunk_at (fst ?a) b (ra_handle sample_append) = Some (ra_version sample_append, f) \<and>
     take (length (received [PushBytes ''xyz''])) (drop (rr_offset (append_answer OK 6 [])) f) = received [PushBytes ''xyz'']"
    by (rule appended_everywhere [OF sample_cluster_ok(1) sample_room _ sample_push _ _ _ a])
      (simp_all add: reps, simp_all add: at_q_def sample_append_def sample_header_def append_answer_def)
  then have "\<exists>f. chunk_at (fst ?a) ''q'' (ra_handle sample_append) = Some (ra_version sample_append, f) \<and>
     take (length (received [PushBytes ''xyz''])) (drop (rr_offset (append_answer OK 6 [])) f) = received [PushBytes ''xyz'']"
    unfolding reps by blast
  moreover have "ra_handle sample_append = 7" "ra_version sample_append = 1" "rr_offset (append_answer OK 6 []) = 6"
    by (simp_all add: sample_append_def append_answer_def)
  ultimately show ?thesis by (simp only: sample_received(2)) (simp only: sample_received(1))
qed

end
