(* ===== verification/LeaseSafety.thy ===== *)
theory LeaseSafety
  imports LeaseManager Cluster
begin

text \<open>
  The two ends of a lease: the chunkserver measures it with its own clock and ends it a margin
  early (\<open>chunkserver/lease_table.cc\<close>), the master lets a margin pass after its end
  (\<open>master/lease_manager.cc\<close>). As long as the two clocks and the way of an answer differ by no
  more than the margins together, a chunkserver that still takes itself for the primary is
  one to the master, who then gives the lease to nobody else
  (\<open>MasterChunks.FindLeaseHolder_exclusive\<close>).

  A clock of a chunkserver that reads \<open>uc\<close> when the master's reads \<open>u\<close> is at most \<open>skew\<close> off.
\<close>

definition clocks_within :: "int \<Rightarrow> time_point \<Rightarrow> time_point \<Rightarrow> bool" where
  "clocks_within skew u uc \<longleftrightarrow> \<bar>u - uc\<bar> \<le> skew"

lemma Check_kPrimary: "Check t h lt = kPrimary info \<Longrightarrow> sl_held (slot_of lt h) \<and> t \<le> sl_expiry (slot_of lt h)"
  by (auto simp: Check_slot Let_def split: if_splits)

text \<open>
  C20: a lease that was granted: the chunkserver carried out the call at some time before the
  master set the lease; whenever the chunkserver's own check passes, the lease is unexpired for
  the master.
\<close>

theorem granted_lease_unexpired:
  assumes "Chunkserver_GrantLease tc handle version (cf_lease_duration cfg) secondaries sv = (sv', OK)"
    and "finish_round cfg servers acked now handle attempt ms = Inr (ms', rs, result)"
    and "ct_Find (ms_chunks ms) handle \<noteq> None" "ct_Find (ms_chunks ms') handle = Some c" "cm_lease c = Some l"
    and "Check uc handle (sv_leases sv') = kPrimary info"
    and "clocks_within skew called tc" "called \<le> now" "clocks_within skew u uc"
    and "2 * skew \<le> (lt_skew_margin (sv_leases sv) + cf_lease_clock_skew_margin cfg) * 1000000"
  shows "unexpired cfg l u"
proof -
  have leases: "sv_leases sv' = Grant tc handle (cf_lease_duration cfg) secondaries (sv_leases sv)"
    using assms(1) by (auto simp: Chunkserver_GrantLease_def split: prod.splits if_splits)
  then have "uc \<le> after_ms tc (cf_lease_duration cfg - lt_skew_margin (sv_leases sv))"
    using Check_kPrimary [OF assms(6)] by (simp add: Grant_def)
  moreover have "ls_expiry l = after_ms now (cf_lease_duration cfg)"
    using assms(2-5) by (auto simp: finish_round_def Let_def ct_simps remove_locations_def split: option.splits if_splits)
  ultimately show ?thesis
    using assms(7-10) by (simp add: unexpired_def after_ms_def clocks_within_def abs_le_iff algebra_simps)
qed

text \<open>
  A lease that was prolonged in the answer to a heartbeat: the chunkserver counts from the
  time it reads the answer, so the way of the answer counts as well; when it takes no longer
  than the margins allow, a chunkserver whose own check passes has an unexpired lease for the master.
\<close>

lemma extended_lease_unexpired:
  assumes "ExtendLocked cfg primary now c = (c', True)" "cm_lease c' = Some l"
    and "Extend tc handle (cf_lease_duration cfg) lt = (lt', True)"
    and "Check uc handle lt' = kPrimary info"
    and "clocks_within skew answered tc" "answered \<le> now + delay" "clocks_within skew u uc"
    and "delay + 2 * skew \<le> (lt_skew_margin lt + cf_lease_clock_skew_margin cfg) * 1000000"
  shows "unexpired cfg l u"
proof -
  have "sl_held (slot_of lt handle)" and lt': "lt' = fst (Extend tc handle (cf_lease_duration cfg) lt)"
    using assms(3) by (auto simp: Extend_def slot_of_def split: option.splits if_splits)
  then have "uc \<le> after_ms tc (cf_lease_duration cfg - lt_skew_margin lt)"
    using Check_kPrimary [OF assms(4)] by (simp add: lt' slot_Extend)
  moreover have "ls_expiry l = after_ms now (cf_lease_duration cfg)"
    using assms(1,2) by (auto simp: ExtendLocked_def split: option.splits if_splits)
  ultimately show ?thesis
    using assms(5-8) by (simp add: unexpired_def after_ms_def clocks_within_def abs_le_iff algebra_simps)
qed

section \<open>Witnesses\<close>

text \<open>With margins of five seconds, clocks four seconds apart and an answer that takes two seconds.\<close>

theorem extended_lease_unexpired_witness:
  "unexpired small_config \<lparr>ls_primary = ''s'', ls_expiry = 60000000010, ls_revoked = False\<rparr> 62000000000"
proof -
  let ?l = "\<lparr>ls_primary = ''s'', ls_expiry = 50, ls_revoked = False\<rparr>"
  let ?c = "new_chunk\<lparr>cm_locations := [(''s'', 0)], cm_lease := Some ?l\<rparr>"
  let ?lt = "Grant 0 7 60000 [] \<lparr>lt_skew_margin = 5000, lt_slots = []\<rparr>"
  let ?lt' = "fst (Extend 6000000010 7 60000 ?lt)"
  have cfg: "cf_lease_duration small_config = 60000" "cf_lease_clock_skew_margin small_config = 5000" by code_simp+
  have e: "ExtendLocked small_config ''s'' 10 ?c = (?c\<lparr>cm_lease := Some (?l\<lparr>ls_expiry := 60000000010\<rparr>)\<rparr>, True)"
    by (simp add: ExtendLocked_def IsValid_def unexpired_def after_ms_def cfg om_count_def)
  have x: "Extend 6000000010 7 (cf_lease_duration small_config) ?lt = (?lt', True)"
    unfolding cfg by code_simp
  have chk: "Check 59000000000 7 ?lt' = kPrimary \<lparr>li_expiry = 61000000010, li_secondaries = []\<rparr>" by code_simp
  have w: "clocks_within 4000000000 2000000010 6000000010" "clocks_within 4000000000 62000000000 59000000000"
    by (simp_all add: clocks_within_def)
  have l: "cm_lease (?c\<lparr>cm_lease := Some (?l\<lparr>ls_expiry := 60000000010\<rparr>)\<rparr>) = Some (?l\<lparr>ls_expiry := 60000000010\<rparr>)" by simp
  have "lt_skew_margin ?lt = 5000" by code_simp
  with extended_lease_unexpired [OF e l x chk w(1) _ w(2), of 2000000000] show ?thesis by (simp add: cfg)
qed

theorem granted_lease_unexpired_witness:
  "unexpired small_config \<lparr>ls_primary = ''s'', ls_expiry = 60000000005, ls_revoked = False\<rparr> 57000000000"
proof -
  let ?a = "\<lparr>at_primary = ''s'', at_secondaries = [], at_version = 2\<rparr>"
  let ?l = "\<lparr>ls_primary = ''s'', ls_expiry = 60000000005, ls_revoked = False\<rparr>"
  let ?sv = "sample_server \<lparr>lt_skew_margin = 5000, lt_slots = []\<rparr>"
  let ?g = "Chunkserver_GrantLease 4000000000 7 2 (cf_lease_duration small_config) [] ?sv"
  have cfg: "cf_lease_duration small_config = 60000" "cf_lease_clock_skew_margin small_config = 5000" by code_simp+
  have "snd ?g = OK" unfolding cfg by code_simp
  then have g: "?g = (fst ?g, OK)" by (simp add: prod_eq_iff)
  have chk: "Check 58000000000 7 (sv_leases (fst ?g)) = kPrimary \<lparr>li_expiry = 59000000000, li_secondaries = []\<rparr>"
    unfolding cfg by code_simp
  have "case finish_round small_config two_servers (\<lambda>_. True) 5 7 ?a sample_state of
      Inl _ \<Rightarrow> False | Inr (m, rs, r) \<Rightarrow> map_option cm_lease (ct_Find (ms_chunks m) 7) = Some (Some ?l)" by code_simp
  then obtain m rs r c where fin: "finish_round small_config two_servers (\<lambda>_. True) 5 7 ?a sample_state = Inr (m, rs, r)"
    "ct_Find (ms_chunks m) 7 = Some c" "cm_lease c = Some ?l"
    by (auto split: sum.splits)
  have here: "ct_Find (ms_chunks sample_state) 7 \<noteq> None" by (simp add: sample_chunk)
  have w: "clocks_within 4000000000 5 4000000000" "clocks_within 4000000000 57000000000 58000000000"
    by (simp_all add: clocks_within_def)
  have "lt_skew_margin (sv_leases ?sv) = 5000" by (simp add: sample_server_def)
  with granted_lease_unexpired [OF g fin(1) here fin(2,3) chk w(1) _ w(2)] show ?thesis by (simp add: cfg)
qed

end
