(* ===== verification/LockTable.thy ===== *)
theory LockTable
  imports StdMap Paths "HOL-Library.Product_Lexorder"
begin

text \<open>
  The master's path locks, \<open>src/src/master/lock_table.cc\<close>: readers-writer locks on paths that
  prefer writers, acquired in one global order. The model has every access to an entry as an
  atomic step (the table's mutex) and waiting on the condition variable as a state of the
  thread, so that threads interleave as they do. The theorems: a write lock excludes every
  other holder, and in no reachable state are all threads stuck.
\<close>

section \<open>Requests and their normal form\<close>

datatype lock_mode = kRead | kWrite

record lock_request =
  lr_path :: string
  lr_mode :: lock_mode

definition DepthOf :: "string \<Rightarrow> nat" where
  "DepthOf path = (if path = ''/'' then 0 else count_list path slash)"

definition Before :: "string \<Rightarrow> string \<Rightarrow> bool" where
  "Before a b \<longleftrightarrow> (if DepthOf a \<noteq> DepthOf b then DepthOf a < DepthOf b else a < b)"

text \<open>The body of the loop of \<open>Normalize\<close>: merge a request for the path that was added last.\<close>

definition push_request :: "lock_request list \<Rightarrow> lock_request \<Rightarrow> lock_request list" where
  "push_request out r =
     (if out \<noteq> [] \<and> lr_path (last out) = lr_path r then
        if lr_mode r = kWrite then butlast out @ [(last out)\<lparr>lr_mode := kWrite\<rparr>] else out
      else out @ [r])"

text \<open>\<open>std::sort\<close> with \<open>Before\<close>; requests for the same path are merged, so their order does not matter.\<close>

definition Normalize :: "lock_request list \<Rightarrow> lock_request list" where
  "Normalize requests = foldl push_request [] (sort_key (\<lambda>r. (DepthOf (lr_path r), lr_path r)) requests)"

definition ForPath :: "string \<Rightarrow> lock_mode \<Rightarrow> lock_request list" where
  "ForPath path leaf =
     map (\<lambda>a. \<lparr>lr_path = a, lr_mode = kRead\<rparr>) (AncestorsOf path) @ [\<lparr>lr_path = path, lr_mode = leaf\<rparr>]"

definition ForPaths :: "string \<Rightarrow> lock_mode \<Rightarrow> string \<Rightarrow> lock_mode \<Rightarrow> lock_request list" where
  "ForPaths first first_mode second second_mode = ForPath first first_mode @ ForPath second second_mode"

section \<open>Entries\<close>

record entry =
  en_readers :: int
  en_writer :: bool
  en_waiting_writers :: int
  en_refs :: int

type_synonym entries = "(string, entry) omap"

definition new_entry :: entry where
  "new_entry = \<lparr>en_readers = 0, en_writer = False, en_waiting_writers = 0, en_refs = 0\<rparr>"

text \<open>\<open>EntryLocked\<close>: the entry of a path, made when there is none.\<close>

definition EntryLocked :: "entries \<Rightarrow> string \<Rightarrow> entry" where
  "EntryLocked es path = (case om_find es path of None \<Rightarrow> new_entry | Some e \<Rightarrow> e)"

text \<open>The conditions of the two wait loops, and what a thread does once it is through.\<close>

definition must_wait :: "lock_mode \<Rightarrow> entry \<Rightarrow> bool" where
  "must_wait m e = (case m of
      kWrite \<Rightarrow> en_readers e > 0 \<or> en_writer e
    | kRead \<Rightarrow> en_writer e \<or> en_waiting_writers e > 0)"

definition grant :: "lock_mode \<Rightarrow> entry \<Rightarrow> entry" where
  "grant m e = (case m of kWrite \<Rightarrow> e\<lparr>en_writer := True\<rparr> | kRead \<Rightarrow> e\<lparr>en_readers := en_readers e + 1\<rparr>)"

definition waiting_by :: "int \<Rightarrow> lock_mode \<Rightarrow> entry \<Rightarrow> entry" where
  "waiting_by d m e = (case m of
      kWrite \<Rightarrow> e\<lparr>en_waiting_writers := en_waiting_writers e + d\<rparr>
    | kRead \<Rightarrow> e)"

text \<open>
  \<open>LockOne\<close> up to its first wait or its end, and one wake-up (notified or spurious) with the
  test of the loop after it. The flag says whether the lock was taken.
\<close>

definition LockOne_start :: "lock_request \<Rightarrow> entries \<Rightarrow> entries \<times> bool" where
  "LockOne_start r es =
     (let e = EntryLocked es (lr_path r);
          e1 = e\<lparr>en_refs := en_refs e + 1\<rparr>
      in if must_wait (lr_mode r) e1 then (om_assign (lr_path r) (waiting_by 1 (lr_mode r) e1) es, False)
         else (om_assign (lr_path r) (grant (lr_mode r) e1) es, True))"

definition LockOne_wake :: "lock_request \<Rightarrow> entries \<Rightarrow> entries \<times> bool" where
  "LockOne_wake r es =
     (let e1 = waiting_by (-1) (lr_mode r) (EntryLocked es (lr_path r))
      in if must_wait (lr_mode r) e1 then (om_assign (lr_path r) (waiting_by 1 (lr_mode r) e1) es, False)
         else (om_assign (lr_path r) (grant (lr_mode r) e1) es, True))"

definition UnlockOne :: "lock_request \<Rightarrow> entries \<Rightarrow> entries" where
  "UnlockOne r es =
     (case om_find es (lr_path r) of
        None \<Rightarrow> es
      | Some e \<Rightarrow>
          let e1 = (case lr_mode r of kWrite \<Rightarrow> e\<lparr>en_writer := False\<rparr>
                    | kRead \<Rightarrow> e\<lparr>en_readers := en_readers e - 1\<rparr>);
              e2 = e1\<lparr>en_refs := en_refs e1 - 1\<rparr>
          in if en_refs e2 = 0 then om_erase (lr_path r) es else om_assign (lr_path r) e2 es)"

section \<open>Threads\<close>

text \<open>What a caller still has to lock, whether it is in \<open>cv.wait\<close> for the head, and what it holds.\<close>

record thread =
  th_todo :: "lock_request list"
  th_waiting :: bool
  th_held :: "lock_request list"

definition idle :: thread where
  "idle = \<lparr>th_todo = [], th_waiting = False, th_held = []\<rparr>"

definition got_lock :: "lock_request \<Rightarrow> thread \<Rightarrow> thread" where
  "got_lock r t = \<lparr>th_todo = tl (th_todo t), th_waiting = False, th_held = th_held t @ [r]\<rparr>"

text \<open>\<open>Acquire\<close> locks in order, \<open>Release\<close> unlocks in reverse order; every step is one critical section.\<close>

inductive lock_step :: "entries \<times> thread list \<Rightarrow> entries \<times> thread list \<Rightarrow> bool" where
  acquire: "i < length ts \<Longrightarrow> ts ! i = idle \<Longrightarrow>
     lock_step (es, ts) (es, ts[i := idle\<lparr>th_todo := Normalize requests\<rparr>])"
| lock: "i < length ts \<Longrightarrow> th_todo (ts ! i) = r # rs \<Longrightarrow> \<not> th_waiting (ts ! i) \<Longrightarrow>
     LockOne_start r es = (es', taken) \<Longrightarrow>
     lock_step (es, ts) (es', ts[i := if taken then got_lock r (ts ! i) else (ts ! i)\<lparr>th_waiting := True\<rparr>])"
| wake: "i < length ts \<Longrightarrow> th_todo (ts ! i) = r # rs \<Longrightarrow> th_waiting (ts ! i) \<Longrightarrow>
     LockOne_wake r es = (es', taken) \<Longrightarrow>
     lock_step (es, ts) (es', ts[i := if taken then got_lock r (ts ! i) else ts ! i])"
| unlock: "i < length ts \<Longrightarrow> th_todo (ts ! i) = [] \<Longrightarrow> th_held (ts ! i) = hs @ [r] \<Longrightarrow>
     lock_step (es, ts) (UnlockOne r es, ts[i := (ts ! i)\<lparr>th_held := hs\<rparr>])"

definition lock_reachable :: "entries \<Rightarrow> thread list \<Rightarrow> bool" where
  "lock_reachable es ts \<longleftrightarrow> lock_step\<^sup>*\<^sup>* ([], replicate (length ts) idle) (es, ts)"

section \<open>The normal form\<close>

lemma Before_irrefl [simp]: "\<not> Before a a"
  by (simp add: Before_def)

lemma Before_trans: "Before a b \<Longrightarrow> Before b c \<Longrightarrow> Before a c"
  by (auto simp: Before_def split: if_splits)

lemma Before_total: "a \<noteq> b \<Longrightarrow> Before a b \<or> Before b a"
  by (auto simp: Before_def)

definition ordered :: "lock_request list \<Rightarrow> bool" where
  "ordered rs \<longleftrightarrow> sorted_wrt Before (map lr_path rs)"

lemma ordered_snoc: "ordered (rs @ [r]) \<longleftrightarrow> ordered rs \<and> (\<forall>q \<in> set rs. Before (lr_path q) (lr_path r))"
  by (auto simp: ordered_def sorted_wrt_append)

lemma Before_key: "(DepthOf a, a) \<le> (DepthOf b, b) \<longleftrightarrow> a = b \<or> Before a b"
  by (auto simp: Before_def)

lemma request_eq: "\<lparr>lr_path = p, lr_mode = m\<rparr> = r \<longleftrightarrow> lr_path r = p \<and> lr_mode r = m"
  by (cases r) auto

lemma push_merge:
  "out \<noteq> [] \<and> lr_path (last out) = lr_path r \<Longrightarrow> push_request out r =
     (if lr_mode r = kWrite then butlast out @ [(last out)\<lparr>lr_mode := kWrite\<rparr>] else out)"
  and push_new: "\<not> (out \<noteq> [] \<and> lr_path (last out) = lr_path r) \<Longrightarrow> push_request out r = out @ [r]"
  by (auto simp: push_request_def)

lemma push_requests:
  assumes "sorted (map (\<lambda>r. (DepthOf (lr_path r), lr_path r)) rs)"
  shows "ordered (foldl push_request [] rs)"
    and "lr_path ` set (foldl push_request [] rs) = lr_path ` set rs"
    and "rs \<noteq> [] \<Longrightarrow> lr_path (last (foldl push_request [] rs)) = lr_path (last rs)"
    and "\<lparr>lr_path = p, lr_mode = kWrite\<rparr> \<in> set (foldl push_request [] rs) \<longleftrightarrow>
      \<lparr>lr_path = p, lr_mode = kWrite\<rparr> \<in> set rs"
  using assms
proof (induction rs rule: rev_induct)
  case Nil
  { case 1 then show ?case by (simp add: ordered_def)
  next case 2 then show ?case by simp
  next case 3 then show ?case by simp
  next case 4 then show ?case by simp }
next
  case (snoc r rs)
  let ?out = "foldl push_request [] rs"
  have srt: "sorted (map (\<lambda>r. (DepthOf (lr_path r), lr_path r)) rs)" if "sorted (map (\<lambda>r. (DepthOf (lr_path r), lr_path r)) (rs @ [r]))"
    using that by (simp add: sorted_append)
  have below: "lr_path q = lr_path r \<or> Before (lr_path q) (lr_path r)"
    if "sorted (map (\<lambda>r. (DepthOf (lr_path r), lr_path r)) (rs @ [r]))" "q \<in> set rs" for q
    using that by (auto simp: sorted_append Before_def)
  {
    case 1
    note IH = snoc.IH(1,2,4) [OF srt [OF 1]] and IH3 = snoc.IH(3) [OF _ srt [OF 1]]
    show ?case
    proof (cases "?out \<noteq> [] \<and> lr_path (last ?out) = lr_path r")
      case True
      then obtain us l where "?out = us @ [l]" by (metis append_butlast_last_id)
      then have "map lr_path (push_request ?out r) = map lr_path ?out"
        using True by (subst push_merge [OF True]) simp
      with IH(1) show ?thesis by (simp add: ordered_def)
    next
      case False
      have "Before (lr_path q) (lr_path r)" if q: "q \<in> set ?out" for q
      proof -
        have "lr_path q \<in> lr_path ` set rs" using q unfolding IH(2) [symmetric] by (rule imageI)
        then have "rs \<noteq> []" by auto
        moreover obtain us l where us: "?out = us @ [l]" using q
          by (cases ?out rule: rev_cases) simp_all
        ultimately have "rs \<noteq> []" "?out \<noteq> []" by simp_all
        then have l: "lr_path (last ?out) = lr_path (last rs)" using IH3 by simp
        have "lr_path (last rs) \<noteq> lr_path r" using False \<open>?out \<noteq> []\<close> l by simp
        then have lastr: "Before (lr_path (last rs)) (lr_path r)" using below [OF 1 last_in_set [OF \<open>rs \<noteq> []\<close>]] by blast
        have "lr_path q = lr_path (last ?out) \<or> Before (lr_path q) (lr_path (last ?out))"
          using IH(1) q us by (auto simp: ordered_snoc)
        with lastr l show ?thesis by (metis Before_trans)
      qed
      with IH(1) show ?thesis by (simp add: push_new [OF False] ordered_snoc)
    qed
  next
    case 2
    note IH = snoc.IH(1,2,4) [OF srt [OF 2]] and IH3 = snoc.IH(3) [OF _ srt [OF 2]]
    show ?case
    proof (cases "?out \<noteq> [] \<and> lr_path (last ?out) = lr_path r")
      case True
      then have out: "set ?out = insert (last ?out) (set (butlast ?out))"
        by (metis append_butlast_last_id list.set(1,2) set_append sup_commute insert_is_Un)
      with IH(2) True show ?thesis by (auto simp: push_merge [OF True])
    next
      case False
      with IH(2) show ?thesis by (simp add: push_new [OF False])
    qed
  next
    case 3
    show ?case
    proof (cases "?out \<noteq> [] \<and> lr_path (last ?out) = lr_path r")
      case True
      then show ?thesis by (simp add: push_merge [OF True])
    qed (simp add: push_new)
  next
    case 4
    note IH = snoc.IH(1,2,4) [OF srt [OF 4]] and IH3 = snoc.IH(3) [OF _ srt [OF 4]]
    show ?case
    proof (cases "?out \<noteq> [] \<and> lr_path (last ?out) = lr_path r")
      case True
      then have out: "set ?out = insert (last ?out) (set (butlast ?out))"
        by (metis append_butlast_last_id list.set(1,2) set_append sup_commute insert_is_Un)
      show ?thesis
        using IH(3) True out by (auto simp: push_merge [OF True] request_eq)
    next
      case False
      with IH(3) show ?thesis by (auto simp: push_new [OF False])
    qed
  }
qed

lemma Normalize_props:
  "ordered (Normalize rs)" "lr_path ` set (Normalize rs) = lr_path ` set rs"
  "\<lparr>lr_path = p, lr_mode = kWrite\<rparr> \<in> set (Normalize rs) \<longleftrightarrow> \<lparr>lr_path = p, lr_mode = kWrite\<rparr> \<in> set rs"
  using push_requests [of "sort_key (\<lambda>r. (DepthOf (lr_path r), lr_path r)) rs"]
  by (simp_all add: Normalize_def)

lemma ordered_distinct: "ordered rs \<Longrightarrow> distinct (map lr_path rs)"
  by (induction rs rule: rev_induct) (fastforce simp: ordered_snoc)+

section \<open>The invariant\<close>

definition holds :: "string \<Rightarrow> lock_mode \<Rightarrow> thread \<Rightarrow> bool" where
  "holds p m t \<longleftrightarrow> (\<exists>r \<in> set (th_held t). lr_path r = p \<and> lr_mode r = m)"

definition waits :: "string \<Rightarrow> lock_mode \<Rightarrow> thread \<Rightarrow> bool" where
  "waits p m t \<longleftrightarrow> th_waiting t \<and> (\<exists>r rs. th_todo t = r # rs \<and> lr_path r = p \<and> lr_mode r = m)"

definition uses :: "string \<Rightarrow> thread \<Rightarrow> bool" where
  "uses p t \<longleftrightarrow> (\<exists>m. holds p m t \<or> waits p m t)"

definition cnt :: "(thread \<Rightarrow> bool) \<Rightarrow> thread list \<Rightarrow> int" where
  "cnt P ts = (\<Sum>t\<leftarrow>ts. of_bool (P t))"

lemma cnt_update: "i < length ts \<Longrightarrow> cnt P (ts[i := t]) = cnt P ts - of_bool (P (ts ! i)) + of_bool (P t)"
proof (induction ts arbitrary: i)
  case Nil
  then show ?case by simp
next
  case (Cons a ts)
  then show ?case by (cases i) (auto simp: cnt_def)
qed

lemma cnt_nonneg: "0 \<le> cnt P ts"
  by (induction ts) (auto simp: cnt_def)

lemma cnt_zero: "cnt P ts = 0 \<longleftrightarrow> (\<forall>t \<in> set ts. \<not> P t)"
proof (induction ts)
  case (Cons a ts)
  then show ?case using cnt_nonneg [of P ts] by (auto simp: cnt_def)
qed (simp add: cnt_def)

lemma cnt_pos: "i < length ts \<Longrightarrow> P (ts ! i) \<Longrightarrow> 0 < cnt P ts"
  using cnt_zero [of P ts] cnt_nonneg [of P ts] by (metis nth_mem order_le_less)

text \<open>An entry counts its users exactly, and exists while it has any.\<close>

definition entry_inv :: "entries \<Rightarrow> thread list \<Rightarrow> string \<Rightarrow> bool" where
  "entry_inv es ts p \<longleftrightarrow>
     (let e = EntryLocked es p
      in en_readers e = cnt (holds p kRead) ts \<and> of_bool (en_writer e) = cnt (holds p kWrite) ts \<and>
         (en_writer e \<longrightarrow> en_readers e = 0) \<and> en_waiting_writers e = cnt (waits p kWrite) ts \<and>
         en_refs e = cnt (uses p) ts)"

definition thread_ok :: "thread \<Rightarrow> bool" where
  "thread_ok t \<longleftrightarrow> ordered (th_held t @ th_todo t) \<and> (th_waiting t \<longrightarrow> th_todo t \<noteq> [])"

definition lock_inv :: "entries \<times> thread list \<Rightarrow> bool" where
  "lock_inv c \<longleftrightarrow> (\<forall>p. entry_inv (fst c) (snd c) p) \<and> (\<forall>t \<in> set (snd c). thread_ok t)"

lemma EntryLocked_assign [simp]:
  "EntryLocked (om_assign p e es) q = (if q = p then e else EntryLocked es q)"
  by (simp add: EntryLocked_def)

lemma EntryLocked_erase [simp]:
  "EntryLocked (om_erase p es) q = (if q = p then new_entry else EntryLocked es q)"
  by (simp add: EntryLocked_def)

text \<open>A step changes one thread and the entry of one path.\<close>

lemma entry_inv_other:
  assumes "entry_inv es ts q" "i < length ts" "EntryLocked es' q = EntryLocked es q"
    and "\<And>m. holds q m t = holds q m (ts ! i)" "\<And>m. waits q m t = waits q m (ts ! i)"
  shows "entry_inv es' (ts[i := t]) q"
  using assms by (simp add: entry_inv_def cnt_update uses_def)

lemma holds_got [simp]:
  "holds p m (got_lock r t) \<longleftrightarrow> holds p m t \<or> lr_path r = p \<and> lr_mode r = m"
  by (auto simp: holds_def got_lock_def)

lemma waits_got [simp]: "\<not> waits p m (got_lock r t)"
  by (simp add: waits_def got_lock_def)

lemma holds_waiting [simp]: "holds p m (t\<lparr>th_waiting := b\<rparr>) = holds p m t"
  by (simp add: holds_def)

lemma thread_ok_head:
  assumes "thread_ok t" "th_todo t = r # rs"
  shows "\<not> holds (lr_path r) m t"
proof
  assume "holds (lr_path r) m t"
  then obtain q where "q \<in> set (th_held t)" "lr_path q = lr_path r" by (auto simp: holds_def)
  moreover have "Before (lr_path q) (lr_path r)"
    using assms \<open>q \<in> set (th_held t)\<close> by (auto simp: thread_ok_def ordered_def sorted_wrt_append)
  ultimately show False by simp
qed

lemma thread_ok_got: "thread_ok t \<Longrightarrow> th_todo t = r # rs \<Longrightarrow> thread_ok (got_lock r t)"
  by (simp add: thread_ok_def got_lock_def)

lemma writer_excludes:
  assumes "entry_inv es ts p"
  shows "must_wait kWrite (EntryLocked es p) \<longleftrightarrow> (\<exists>t \<in> set ts. \<exists>m. holds p m t)"
proof -
  let ?e = "EntryLocked es p"
  have "en_readers ?e > 0 \<longleftrightarrow> (\<exists>t \<in> set ts. holds p kRead t)"
    using assms cnt_zero [of "holds p kRead" ts] cnt_nonneg [of "holds p kRead" ts]
    by (auto simp: entry_inv_def Let_def)
  moreover have "en_writer ?e \<longleftrightarrow> (\<exists>t \<in> set ts. holds p kWrite t)"
    using assms cnt_zero [of "holds p kWrite" ts]
    by (cases "en_writer ?e") (simp_all add: entry_inv_def Let_def)
  ultimately show ?thesis by (auto simp: must_wait_def) (metis lock_mode.exhaust)+
qed

lemma lock_inv_init: "lock_inv ([], replicate n idle)"
  by (auto simp: lock_inv_def entry_inv_def EntryLocked_def new_entry_def cnt_def idle_def holds_def waits_def
      uses_def thread_ok_def ordered_def sum_list_replicate)

lemma lock_inv_update:
  assumes "lock_inv (es, ts)" "i < length ts" "thread_ok t"
    and "\<And>q. q \<noteq> p \<Longrightarrow> EntryLocked es' q = EntryLocked es q"
    and "\<And>q m. q \<noteq> p \<Longrightarrow> holds q m t = holds q m (ts ! i)" "\<And>q m. q \<noteq> p \<Longrightarrow> waits q m t = waits q m (ts ! i)"
    and "entry_inv es' (ts[i := t]) p"
  shows "lock_inv (es', ts[i := t])"
proof -
  have "entry_inv es' (ts[i := t]) q" for q
  proof (cases "q = p")
    case False
    with assms show ?thesis by (intro entry_inv_other) (auto simp: lock_inv_def)
  qed (use assms(7) in simp)
  moreover have "\<forall>u \<in> set (ts[i := t]). thread_ok u"
    using assms(1,3) set_update_subset_insert [of ts i t] by (auto simp: lock_inv_def)
  ultimately show ?thesis by (simp add: lock_inv_def)
qed

lemma cnt_uses_zero:
  assumes "cnt (uses p) ts = 0"
  shows "cnt (holds p m) ts = 0" "cnt (waits p m) ts = 0"
  using assms by (auto simp: cnt_zero uses_def)

lemma lock_inv_lock:
  assumes "lock_inv (es, ts)" "i < length ts" "th_todo (ts ! i) = r # rs" "\<not> th_waiting (ts ! i)"
    and "LockOne_start r es = (es', taken)"
  shows "lock_inv (es', ts[i := if taken then got_lock r (ts ! i) else (ts ! i)\<lparr>th_waiting := True\<rparr>])"
proof (rule lock_inv_update [OF assms(1,2), where p = "lr_path r"])
  let ?t = "ts ! i" and ?p = "lr_path r" and ?m = "lr_mode r"
  have ok: "thread_ok ?t" and inv: "entry_inv es ts ?p" using assms(1,2) by (auto simp: lock_inv_def)
  have out: "\<not> holds ?p m ?t" "\<not> waits ?p m ?t" for m
    using thread_ok_head [OF ok assms(3)] assms(4) by (auto simp: waits_def)
  show "thread_ok (if taken then got_lock r ?t else ?t\<lparr>th_waiting := True\<rparr>)"
    using ok thread_ok_got [OF ok assms(3)] assms(3) by (auto simp: thread_ok_def)
  show "EntryLocked es' q = EntryLocked es q" if "q \<noteq> ?p" for q
    using assms(5) that by (auto simp: LockOne_start_def Let_def split: if_splits)
  show "holds q m (if taken then got_lock r ?t else ?t\<lparr>th_waiting := True\<rparr>) = holds q m ?t" if "q \<noteq> ?p" for q m
    using that by auto
  show "waits q m (if taken then got_lock r ?t else ?t\<lparr>th_waiting := True\<rparr>) = waits q m ?t" if "q \<noteq> ?p" for q m
    using that assms(3,4) by (auto simp: waits_def got_lock_def)
  have wait: "waits ?p m (?t\<lparr>th_waiting := True\<rparr>) \<longleftrightarrow> m = ?m" for m
    using assms(3) by (auto simp: waits_def)
  show "entry_inv es' (ts[i := if taken then got_lock r ?t else ?t\<lparr>th_waiting := True\<rparr>]) ?p"
  proof (cases "must_wait ?m (EntryLocked es ?p)")
    case True
    then have "\<not> taken" "es' = om_assign ?p (waiting_by 1 ?m ((EntryLocked es ?p)\<lparr>en_refs := en_refs (EntryLocked es ?p) + 1\<rparr>)) es"
      using assms(5) by (auto simp: LockOne_start_def Let_def must_wait_def split: lock_mode.splits if_splits)
    with inv assms(2) show ?thesis
      by (cases ?m) (auto simp: entry_inv_def Let_def cnt_update out wait uses_def waiting_by_def)
  next
    case False
    then have "taken" "es' = om_assign ?p (grant ?m ((EntryLocked es ?p)\<lparr>en_refs := en_refs (EntryLocked es ?p) + 1\<rparr>)) es"
      using assms(5) by (auto simp: LockOne_start_def Let_def must_wait_def split: lock_mode.splits if_splits)
    moreover have "en_readers (EntryLocked es ?p) \<ge> 0"
      using inv cnt_nonneg by (simp add: entry_inv_def Let_def)
    ultimately show ?thesis
      using inv assms(2) False
      by (cases ?m) (auto simp: entry_inv_def Let_def cnt_update out uses_def grant_def must_wait_def)
  qed
qed

lemma lock_inv_wake:
  assumes "lock_inv (es, ts)" "i < length ts" "th_todo (ts ! i) = r # rs" "th_waiting (ts ! i)"
    and "LockOne_wake r es = (es', taken)"
  shows "lock_inv (es', ts[i := if taken then got_lock r (ts ! i) else ts ! i])"
proof (rule lock_inv_update [OF assms(1,2), where p = "lr_path r"])
  let ?t = "ts ! i" and ?p = "lr_path r" and ?m = "lr_mode r"
  have ok: "thread_ok ?t" and inv: "entry_inv es ts ?p" using assms(1,2) by (auto simp: lock_inv_def)
  have out: "\<not> holds ?p m ?t" for m using thread_ok_head [OF ok assms(3)] .
  have wait: "waits ?p m ?t \<longleftrightarrow> m = ?m" for m
    using assms(3,4) by (auto simp: waits_def)
  show "thread_ok (if taken then got_lock r ?t else ?t)"
    using ok thread_ok_got [OF ok assms(3)] by auto
  show "EntryLocked es' q = EntryLocked es q" if "q \<noteq> ?p" for q
    using assms(5) that by (auto simp: LockOne_wake_def Let_def split: if_splits)
  show "holds q m (if taken then got_lock r ?t else ?t) = holds q m ?t" if "q \<noteq> ?p" for q m
    using that by auto
  show "waits q m (if taken then got_lock r ?t else ?t) = waits q m ?t" if "q \<noteq> ?p" for q m
    using that assms(3) by (auto simp: waits_def got_lock_def)
  show "entry_inv es' (ts[i := if taken then got_lock r ?t else ?t]) ?p"
  proof (cases "must_wait ?m (waiting_by (-1) ?m (EntryLocked es ?p))")
    case True
    then have "\<not> taken" "EntryLocked es' ?p = EntryLocked es ?p"
      using assms(5) by (auto simp: LockOne_wake_def Let_def waiting_by_def split: lock_mode.splits if_splits)
    with inv show ?thesis by (simp add: entry_inv_def)
  next
    case False
    then have "taken" "es' = om_assign ?p (grant ?m (waiting_by (-1) ?m (EntryLocked es ?p))) es"
      using assms(5) by (auto simp: LockOne_wake_def Let_def split: if_splits)
    moreover have "en_readers (EntryLocked es ?p) \<ge> 0"
      using inv cnt_nonneg by (simp add: entry_inv_def Let_def)
    ultimately show ?thesis
      using inv assms(2) False
      by (cases ?m) (auto simp: entry_inv_def Let_def cnt_update out wait uses_def grant_def waiting_by_def must_wait_def)
  qed
qed

lemma lock_inv_unlock:
  assumes "lock_inv (es, ts)" "i < length ts" "th_todo (ts ! i) = []" "th_held (ts ! i) = hs @ [r]"
  shows "lock_inv (UnlockOne r es, ts[i := (ts ! i)\<lparr>th_held := hs\<rparr>])"
proof (rule lock_inv_update [OF assms(1,2), where p = "lr_path r"])
  let ?t = "ts ! i" and ?p = "lr_path r" and ?m = "lr_mode r" and ?e = "EntryLocked es (lr_path r)"
  let ?t' = "?t\<lparr>th_held := hs\<rparr>"
  have ok: "thread_ok ?t" and inv: "entry_inv es ts ?p" using assms(1,2) by (auto simp: lock_inv_def)
  have idle: "\<not> waits q m ?t" "\<not> waits q m ?t'" for q m using assms(3) by (simp_all add: waits_def)
  have "ordered (hs @ [r])" using ok assms(3,4) by (simp add: thread_ok_def)
  then have "\<forall>q \<in> set hs. lr_path q \<noteq> ?p" by (auto simp: ordered_snoc)
  then have hold: "holds ?p m ?t \<longleftrightarrow> m = ?m" "\<not> holds ?p m ?t'" for m
    using assms(4) by (auto simp: holds_def)
  show "thread_ok ?t'"
    using ok assms(3,4) by (simp add: thread_ok_def ordered_snoc)
  have "uses ?p ?t" using hold by (auto simp: uses_def)
  then have refs: "0 < en_refs ?e" using inv cnt_pos [OF assms(2), of "uses ?p"] by (simp add: entry_inv_def Let_def)
  then obtain e where e: "om_find es ?p = Some e" by (auto simp: EntryLocked_def new_entry_def split: option.splits)
  then have e': "?e = e" by (simp add: EntryLocked_def)
  show "EntryLocked (UnlockOne r es) q = EntryLocked es q" if "q \<noteq> ?p" for q
    using that by (simp add: UnlockOne_def Let_def split: option.split)
  show "holds q m ?t' = holds q m ?t" if "q \<noteq> ?p" for q m
    using that assms(4) by (auto simp: holds_def)
  show "waits q m ?t' = waits q m ?t" for q m using idle by simp
  let ?ts = "ts[i := ?t']"
  have c: "cnt (holds ?p m) ?ts = cnt (holds ?p m) ts - of_bool (m = ?m)" "cnt (waits ?p m) ?ts = cnt (waits ?p m) ts"
    "cnt (uses ?p) ?ts = cnt (uses ?p) ts - 1" for m
    using assms(2) by (simp_all add: cnt_update hold idle uses_def)
  have left: "EntryLocked (UnlockOne r es) ?p =
      (if en_refs e = 1 then new_entry else (case ?m of kWrite \<Rightarrow> e\<lparr>en_writer := False, en_refs := en_refs e - 1\<rparr>
        | kRead \<Rightarrow> e\<lparr>en_readers := en_readers e - 1, en_refs := en_refs e - 1\<rparr>))"
    by (simp add: UnlockOne_def e Let_def split: lock_mode.split)
  show "entry_inv (UnlockOne r es) ?ts ?p"
  proof (cases "en_refs e = 1")
    case True
    then have "cnt (uses ?p) ?ts = 0" using inv by (simp add: c entry_inv_def Let_def e')
    with cnt_uses_zero [OF this] True show ?thesis
      by (simp add: entry_inv_def left new_entry_def)
  next
    case False
    have one: "en_writer e \<longrightarrow> cnt (holds ?p kWrite) ts = 1"
      using inv by (auto simp: entry_inv_def Let_def e')
    have "0 < cnt (holds ?p ?m) ts" using cnt_pos [OF assms(2), of "holds ?p ?m"] hold by simp
    with inv False one show ?thesis
      by (cases ?m) (auto simp: entry_inv_def Let_def left c e' of_bool_def split: if_splits)
  qed
qed

lemma lock_inv_step:
  assumes "lock_step c c'" "lock_inv c"
  shows "lock_inv c'"
  using assms
proof cases
  case (acquire i ts es requests)
  then have "lock_inv (es, ts[i := idle\<lparr>th_todo := Normalize requests\<rparr>])"
    using assms(2) Normalize_props(1) [of requests]
    by (intro lock_inv_update [where p = "''/''"])
      (auto simp: lock_inv_def thread_ok_def idle_def holds_def waits_def entry_inv_def cnt_update uses_def)
  then show ?thesis by (simp add: acquire)
next
  case (lock i ts r rs es es' taken)
  then show ?thesis using lock_inv_lock assms(2) by blast
next
  case (wake i ts r rs es es' taken)
  then show ?thesis using lock_inv_wake assms(2) by blast
next
  case (unlock i ts hs r es)
  then show ?thesis using lock_inv_unlock assms(2) by blast
qed

lemma lock_reachable_inv: "lock_reachable es ts \<Longrightarrow> lock_inv (es, ts)"
  unfolding lock_reachable_def
  by (induction rule: rtranclp_induct) (auto intro: lock_inv_init lock_inv_step)

section \<open>Mutual exclusion\<close>

lemma cnt_two:
  assumes "i < length ts" "j < length ts" "i \<noteq> j" "P (ts ! i)" "P (ts ! j)"
  shows "2 \<le> cnt P ts"
proof -
  have "0 < cnt P (ts[i := ts ! j])" using assms by (intro cnt_pos [of i]) simp_all
  have "cnt P ts = cnt P (take i ts) + (1 + cnt P (drop (Suc i) ts))"
    using assms(4) id_take_nth_drop [OF assms(1)] by (metis (mono_tags, lifting) cnt_def list.map(2) map_append
        of_bool_eq(2) sum_list.Cons sum_list_append)
  moreover have "0 < cnt P (take i ts) + cnt P (drop (Suc i) ts)"
  proof (cases "j < i")
    case True
    then have "0 < cnt P (take i ts)" using assms by (intro cnt_pos [of j]) simp_all
    then show ?thesis using cnt_nonneg [of P "drop (Suc i) ts"] by linarith
  next
    case False
    then have "0 < cnt P (drop (Suc i) ts)" using assms by (intro cnt_pos [of "j - Suc i"]) auto
    then show ?thesis using cnt_nonneg [of P "take i ts"] by linarith
  qed
  ultimately show ?thesis by linarith
qed

lemma lock_excludes:
  assumes "lock_reachable es ts" "i < length ts" "j < length ts" "i \<noteq> j" "holds p kWrite (ts ! i)"
  shows "\<not> holds p m (ts ! j)"
proof
  assume j: "holds p m (ts ! j)"
  have inv: "entry_inv es ts p" using lock_reachable_inv [OF assms(1)] by (simp add: lock_inv_def)
  have w: "0 < cnt (holds p kWrite) ts" using cnt_pos [OF assms(2), of "holds p kWrite"] assms(5) by blast
  with inv have writer: "en_writer (EntryLocked es p)" by (cases "en_writer (EntryLocked es p)") (auto simp: entry_inv_def Let_def)
  show False
  proof (cases m)
    case kRead
    with j have "0 < cnt (holds p kRead) ts" using cnt_pos [OF assms(3), of "holds p kRead"] by simp
    with inv writer show False by (simp add: entry_inv_def Let_def)
  next
    case kWrite
    with j have "2 \<le> cnt (holds p kWrite) ts" using cnt_two [OF assms(2-4), of "holds p kWrite"] assms(5) by simp
    with inv writer show False by (simp add: entry_inv_def Let_def)
  qed
qed

text \<open>
  An operation on a path excludes all others on the path and below it while it holds the
  write lock: they hold a read lock, or more, on the path.
\<close>

lemma ForPath_paths: "lr_path ` set (ForPath p m) = insert p (set (AncestorsOf p))"
  by (auto simp: ForPath_def image_iff)

text \<open>
  C34: while a handler holds the write lock on a path with its ancestors, no other handler
  holds the locks for that path or for any path below it, so a subtree has a single writer.
\<close>

theorem subtree_excluded:
  assumes "lock_reachable es ts" "i < length ts" "j < length ts" "i \<noteq> j"
    and "th_held (ts ! i) = Normalize (ForPath p kWrite)"
    and "q = p \<or> p \<in> set (AncestorsOf q)"
  shows "th_held (ts ! j) \<noteq> Normalize (ForPath q m)"
proof
  assume held: "th_held (ts ! j) = Normalize (ForPath q m)"
  have "\<lparr>lr_path = p, lr_mode = kWrite\<rparr> \<in> set (ForPath p kWrite)" by (simp add: ForPath_def)
  then have "holds p kWrite (ts ! i)" using assms(5) Normalize_props(3) by (force simp: holds_def)
  moreover have "p \<in> lr_path ` set (Normalize (ForPath q m))"
    using assms(6) by (auto simp: Normalize_props(2) ForPath_paths)
  then have "\<exists>m. holds p m (ts ! j)" using held by (auto simp: holds_def)
  ultimately show False using lock_excludes [OF assms(1-4)] by blast
qed

section \<open>No deadlock\<close>

text \<open>A thread that is not stuck: it is not waiting, or the test of its wait loop would pass.\<close>

definition can_move :: "entries \<Rightarrow> thread \<Rightarrow> bool" where
  "can_move es t \<longleftrightarrow>
     (if th_waiting t then snd (LockOne_wake (hd (th_todo t)) es) else th_todo t \<noteq> [] \<or> th_held t \<noteq> [])"

lemma can_move_step:
  assumes "i < length ts" "thread_ok (ts ! i)" "can_move es (ts ! i)"
  shows "\<exists>es' t. lock_step (es, ts) (es', ts[i := t]) \<and> t \<noteq> ts ! i"
proof (cases "th_todo (ts ! i)")
  case Nil
  with assms(2,3) have "th_held (ts ! i) \<noteq> []" by (auto simp: can_move_def thread_ok_def split: if_splits)
  then obtain hs r where h: "th_held (ts ! i) = hs @ [r]" by (metis append_butlast_last_id)
  have "(ts ! i)\<lparr>th_held := hs\<rparr> \<noteq> ts ! i" using h by (metis append_self_conv not_Cons_self2 thread.select_convs(3) thread.surjective thread.update_convs(3))
  then show ?thesis using unlock [OF assms(1) Nil h] by blast
next
  case (Cons r rs)
  have got: "got_lock r (ts ! i) \<noteq> ts ! i"
    using Cons by (metis got_lock_def list.sel(3) not_Cons_self2 thread.select_convs(1))
  show ?thesis
  proof (cases "th_waiting (ts ! i)")
    case True
    with assms(3) Cons obtain es' where "LockOne_wake r es = (es', True)"
      by (metis can_move_def list.sel(1) prod.collapse)
    with wake [OF assms(1) Cons True] got show ?thesis by fastforce
  next
    case False
    obtain es' taken where "LockOne_start r es = (es', taken)" by (cases "LockOne_start r es")
    moreover have "(ts ! i)\<lparr>th_waiting := True\<rparr> \<noteq> ts ! i"
      using False by (metis thread.select_convs(2) thread.surjective thread.update_convs(2))
    ultimately show ?thesis using lock [OF assms(1) Cons False] got by (cases taken) fastforce+
  qed
qed

lemma no_deadlock:
  assumes "lock_inv (es, ts)" "t0 \<in> set ts" "t0 \<noteq> idle"
  shows "\<exists>t \<in> set ts. can_move es t"
proof (rule ccontr)
  assume stuck: "\<not> (\<exists>t \<in> set ts. can_move es t)"
  let ?key = "\<lambda>t. (DepthOf (lr_path (hd (th_todo t))), lr_path (hd (th_todo t)))"
  have waiting: "th_waiting t \<and> th_todo t \<noteq> []" if "t \<in> set ts" "t \<noteq> idle" for t
  proof -
    have "thread_ok t" using assms(1) that(1) by (simp add: lock_inv_def)
    moreover have "\<not> can_move es t" using stuck that(1) by blast
    ultimately show ?thesis using that(2) by (cases t) (auto simp: can_move_def thread_ok_def idle_def split: if_splits)
  qed
  let ?W = "{t \<in> set ts. t \<noteq> idle}"
  have fin: "finite (?key ` ?W)" "?key ` ?W \<noteq> {}" using assms(2,3) by auto
  obtain t where t: "t \<in> set ts" "t \<noteq> idle" "?key t = Max (?key ` ?W)"
    using Max_in [OF fin] by auto
  let ?r = "hd (th_todo t)" and ?p = "lr_path (hd (th_todo t))"
  have inv: "entry_inv es ts ?p" using assms(1) by (simp add: lock_inv_def)
  have free: "\<not> holds ?p m u" if u: "u \<in> set ts" for u m
  proof
    assume h: "holds ?p m u"
    then have "u \<noteq> idle" by (auto simp: holds_def idle_def)
    with waiting u have w: "th_waiting u" "th_todo u \<noteq> []" by auto
    then obtain q qs where q: "th_todo u = q # qs" by (cases "th_todo u") auto
    have "thread_ok u" using assms(1) u by (simp add: lock_inv_def)
    with h q have "Before ?p (lr_path q)"
      by (auto simp: thread_ok_def ordered_def sorted_wrt_append holds_def)
    moreover have "?key u \<le> ?key t" using u \<open>u \<noteq> idle\<close> fin(1) unfolding t(3) by (intro Max_ge) auto
    then have "lr_path q = ?p \<or> Before (lr_path q) ?p" using q by (auto simp: Before_def)
    ultimately show False using Before_trans Before_irrefl by metis
  qed
  then have nowrite: "\<not> must_wait kWrite (EntryLocked es ?p)" using writer_excludes [OF inv] by blast
  have blocked: "must_wait (lr_mode (hd (th_todo u))) (waiting_by (-1) (lr_mode (hd (th_todo u))) (EntryLocked es (lr_path (hd (th_todo u)))))"
    if "u \<in> set ts" "u \<noteq> idle" for u
    using stuck that waiting [OF that] by (auto simp: can_move_def LockOne_wake_def Let_def split: if_splits)
  have norefuse: "lr_mode (hd (th_todo u)) \<noteq> kWrite" if "u \<in> set ts" "u \<noteq> idle" "lr_path (hd (th_todo u)) = ?p" for u
    using blocked [OF that(1,2)] nowrite that(3) by (auto simp: must_wait_def waiting_by_def)
  have "cnt (waits ?p kWrite) ts = 0"
    unfolding cnt_zero
  proof
    fix u assume u: "u \<in> set ts"
    show "\<not> waits ?p kWrite u"
    proof
      assume w: "waits ?p kWrite u"
      then have "u \<noteq> idle" by (auto simp: waits_def idle_def)
      with norefuse [OF u] w show False by (auto simp: waits_def)
    qed
  qed
  then have "\<not> must_wait kRead (EntryLocked es ?p)"
    using nowrite inv by (auto simp: must_wait_def entry_inv_def Let_def)
  moreover have "lr_mode ?r = kRead" using norefuse [OF t(1,2)] by (cases "lr_mode ?r") simp_all
  ultimately show False using blocked [OF t(1,2)] by (simp add: waiting_by_def)
qed

text \<open>Some thread can always take a step of its own as long as any is not done.\<close>

text \<open>
  C35: the lock table never deadlocks: while any handler holds or waits for locks, some
  handler can take a step.
\<close>

theorem lock_progress:
  assumes "lock_reachable es ts" "t0 \<in> set ts" "t0 \<noteq> idle"
  shows "\<exists>i < length ts. ts ! i \<noteq> idle \<and> (\<exists>es' t. lock_step (es, ts) (es', ts[i := t]) \<and> t \<noteq> ts ! i)"
proof -
  note inv = lock_reachable_inv [OF assms(1)]
  obtain t where t: "t \<in> set ts" "can_move es t" using no_deadlock [OF inv assms(2,3)] by blast
  then obtain i where i: "i < length ts" "ts ! i = t" by (auto simp: in_set_conv_nth)
  have "thread_ok (ts ! i)" using inv t(1) i(2) by (simp add: lock_inv_def)
  moreover have "ts ! i \<noteq> idle" using t(2) i(2) by (auto simp: can_move_def idle_def)
  ultimately show ?thesis using can_move_step [OF i(1)] t(2) i by blast
qed

section \<open>Exclusion between operations\<close>

text \<open>
  A thread that holds the write lock of a path excludes every other thread from holding this
  path in any mode.
\<close>

lemma write_lock_exclusive:
  assumes "lock_reachable es ts" "i < length ts" "j < length ts" "i \<noteq> j" "holds p kWrite (ts ! i)"
  shows "\<not> holds p m (ts ! j)"
  using assms by (rule lock_excludes)

text \<open>One thread has the write lock on \<open>/\<close>, the other one waits for it.\<close>

definition one_writer :: "thread list" where
  "one_writer =
     [\<lparr>th_todo = [], th_waiting = False, th_held = [\<lparr>lr_path = ''/'', lr_mode = kWrite\<rparr>]\<rparr>,
      \<lparr>th_todo = [\<lparr>lr_path = ''/'', lr_mode = kRead\<rparr>], th_waiting = True, th_held = []\<rparr>]"

definition one_writer_entries :: entries where
  "one_writer_entries = [(''/'', \<lparr>en_readers = 0, en_writer = True, en_waiting_writers = 0, en_refs = 2\<rparr>)]"

lemma one_writer_reachable: "lock_reachable one_writer_entries one_writer"
proof -
  let ?w = "\<lparr>lr_path = ''/'', lr_mode = kWrite\<rparr>" and ?r = "\<lparr>lr_path = ''/'', lr_mode = kRead\<rparr>"
  let ?t0 = "[idle, idle]"
  let ?t1 = "[idle\<lparr>th_todo := [?w]\<rparr>, idle]"
  let ?t2 = "[idle\<lparr>th_todo := [?w]\<rparr>, idle\<lparr>th_todo := [?r]\<rparr>]"
  let ?e3 = "[(''/'', \<lparr>en_readers = 0, en_writer = True, en_waiting_writers = 0, en_refs = 1\<rparr>)]"
  let ?t3 = "[one_writer ! 0, idle\<lparr>th_todo := [?r]\<rparr>]"
  have n: "Normalize [?w] = [?w]" "Normalize [?r] = [?r]" by code_simp+
  have s1: "lock_step ([], ?t0) ([], ?t1)" using lock_step.acquire [of 0 ?t0 "[]" "[?w]"] by (simp add: n)
  have s2: "lock_step ([], ?t1) ([], ?t2)" using lock_step.acquire [of 1 ?t1 "[]" "[?r]"] by (simp add: n)
  have l3: "LockOne_start ?w [] = (?e3, True)" by code_simp
  have s3: "lock_step ([], ?t2) (?e3, ?t3)"
    using lock_step.lock [of 0 ?t2 ?w "[]" "[]" ?e3 True] l3 by (simp add: idle_def got_lock_def one_writer_def)
  have l4: "LockOne_start ?r ?e3 = (one_writer_entries, False)" by code_simp
  have s4: "lock_step (?e3, ?t3) (one_writer_entries, one_writer)"
    using lock_step.lock [of 1 ?t3 ?r "[]" ?e3 one_writer_entries False] l4 by (simp add: idle_def one_writer_def)
  have "lock_step\<^sup>*\<^sup>* ([], ?t0) (one_writer_entries, one_writer)"
    by (meson s1 s2 s3 s4 rtranclp.rtrancl_into_rtrancl rtranclp.rtrancl_refl)
  moreover have "replicate (length one_writer) idle = ?t0" by (simp add: one_writer_def eval_nat_numeral)
  ultimately show ?thesis by (simp add: lock_reachable_def)
qed

theorem write_lock_exclusive_witness:
  "holds ''/'' kWrite (one_writer ! 0) \<and> \<not> holds ''/'' kRead (one_writer ! 1)"
proof -
  have w: "holds ''/'' kWrite (one_writer ! 0)" by (simp add: holds_def one_writer_def)
  show ?thesis
    using w write_lock_exclusive [OF one_writer_reachable, of 0 1 "''/''" kRead] by (simp add: one_writer_def)
qed

theorem subtree_excluded_witness:
  "th_held (one_writer ! 0) = Normalize (ForPath ''/'' kWrite) \<and>
   th_held (one_writer ! 1) \<noteq> Normalize (ForPath ''/a'' kRead)"
proof -
  have h: "th_held (one_writer ! 0) = Normalize (ForPath ''/'' kWrite)" "''/'' \<in> set (AncestorsOf ''/a'')" by code_simp+
  show ?thesis
    using h subtree_excluded [OF one_writer_reachable, of 0 1 "''/''" "''/a''" kRead] by (simp add: one_writer_def)
qed

theorem lock_progress_witness:
  "\<exists>i < 2. one_writer ! i \<noteq> idle \<and>
     (\<exists>es' t. lock_step (one_writer_entries, one_writer) (es', one_writer[i := t]) \<and> t \<noteq> one_writer ! i)"
proof -
  have th: "one_writer ! 0 \<in> set one_writer" "one_writer ! 0 \<noteq> idle" by (simp_all add: one_writer_def idle_def)
  have len: "2 = length one_writer" by (simp add: one_writer_def)
  show ?thesis unfolding len by (rule lock_progress [OF one_writer_reachable th])
qed

end
