(* ===== verification/LockSets.thy ===== *)
theory LockSets
  imports LockTable "HOL-Library.Multiset"
begin

text \<open>
  Holding locks, \<open>src/src/master/lock_table.cc\<close>: a \<open>LockSet\<close> owns the locks that \<open>Acquire\<close> took until it is
  released or destroyed, and can be moved, as the master does when a request waits for a timer. Every
  lock that is taken is released exactly once, and when nobody uses a path the table has no
  entry for it.
\<close>

section \<open>The entries of the table\<close>

definition ActiveEntries :: "entries \<Rightarrow> nat" where
  "ActiveEntries es = length es"

definition kept_entries :: "entries \<Rightarrow> bool" where
  "kept_entries es \<longleftrightarrow> om_ok es \<and> (\<forall>p e. om_find es p = Some e \<longrightarrow> en_refs e \<noteq> 0)"

lemma refs_nonneg: "lock_inv (es, ts) \<Longrightarrow> 0 \<le> en_refs (EntryLocked es p)"
  using cnt_nonneg [of "uses p" ts] by (simp add: lock_inv_def entry_inv_def Let_def)

lemma grant_refs [simp]: "en_refs (grant m e) = en_refs e"
  by (simp add: grant_def split: lock_mode.split)

lemma waiting_refs [simp]: "en_refs (waiting_by d m e) = en_refs e"
  by (simp add: waiting_by_def split: lock_mode.split)

lemma kept_LockOne_start:
  assumes "lock_inv (es, ts)" "kept_entries es" "LockOne_start r es = (es', taken)"
  shows "kept_entries es'"
proof -
  have "0 \<le> en_refs (EntryLocked es (lr_path r))" by (rule refs_nonneg [OF assms(1)])
  then show ?thesis
    using assms(2,3) by (auto simp: kept_entries_def LockOne_start_def Let_def om_intros split: if_splits)
qed

lemma kept_LockOne_wake:
  assumes "kept_entries es" "om_find es (lr_path r) \<noteq> None" "LockOne_wake r es = (es', taken)"
  shows "kept_entries es'"
  using assms by (auto simp: kept_entries_def LockOne_wake_def EntryLocked_def Let_def om_intros split: if_splits)

lemma kept_UnlockOne: "kept_entries es \<Longrightarrow> kept_entries (UnlockOne r es)"
  by (auto simp: kept_entries_def UnlockOne_def Let_def om_intros split: option.split lock_mode.split if_splits)

lemma used_entry:
  assumes "lock_inv (es, ts)" "i < length ts" "uses p (ts ! i)"
  shows "om_find es p \<noteq> None"
proof
  assume "om_find es p = None"
  then have "en_refs (EntryLocked es p) = 0" by (simp add: EntryLocked_def new_entry_def)
  then have "cnt (uses p) ts = 0" using assms(1) by (simp add: lock_inv_def entry_inv_def Let_def)
  then show False using cnt_pos [of i ts "uses p"] assms(2,3) by simp
qed

lemma kept_step:
  assumes "lock_step (es, ts) (es', ts')" "lock_inv (es, ts)" "kept_entries es"
  shows "kept_entries es'"
  using assms(1)
proof cases
  case (wake i r rs taken)
  then have "uses (lr_path r) (ts ! i)" by (auto simp: uses_def waits_def)
  from used_entry [OF assms(2) wake(2) this] kept_LockOne_wake [OF assms(3) _ wake(5)] show ?thesis by blast
qed (use assms in \<open>auto intro: kept_LockOne_start kept_UnlockOne\<close>)

lemma reachable_kept: "lock_reachable es ts \<Longrightarrow> kept_entries es"
proof -
  have "kept_entries es' \<and> lock_inv (es', ts')" if "lock_step\<^sup>*\<^sup>* ([], replicate n idle) (es', ts')" for n es' ts'
    using that
  proof (induction "(es', ts')" arbitrary: es' ts' rule: rtranclp_induct)
    case base
    then show ?case by (simp add: kept_entries_def om_ok_def lock_inv_init)
  next
    case (step y es' ts')
    obtain es1 ts1 where y: "y = (es1, ts1)" by (cases y)
    with step.hyps(3) have "kept_entries es1 \<and> lock_inv (es1, ts1)" by simp
    then show ?case using step.hyps(2) kept_step [of es1 ts1] lock_inv_step [of "(es1, ts1)"] unfolding y by blast
  qed
  then show "lock_reachable es ts \<Longrightarrow> kept_entries es" unfolding lock_reachable_def by blast
qed

text \<open>
  C36: the lock table has an entry for exactly the paths that some thread holds or waits for, so that it
  does not grow with the paths that have ever been locked, and is empty when nobody uses it.
\<close>

theorem active_entries:
  assumes "lock_reachable es ts"
  shows "om_keys es = {p. \<exists>t \<in> set ts. uses p t} \<and> ActiveEntries es = card {p. \<exists>t \<in> set ts. uses p t}"
proof -
  have inv: "lock_inv (es, ts)" by (rule lock_reachable_inv [OF assms])
  have kept: "kept_entries es" by (rule reachable_kept [OF assms])
  have "om_find es p \<noteq> None \<longleftrightarrow> (\<exists>t \<in> set ts. uses p t)" for p
  proof
    assume "om_find es p \<noteq> None"
    then have "en_refs (EntryLocked es p) \<noteq> 0" using kept by (auto simp: kept_entries_def EntryLocked_def)
    then have "cnt (uses p) ts \<noteq> 0" using inv by (simp add: lock_inv_def entry_inv_def Let_def)
    then show "\<exists>t \<in> set ts. uses p t" by (simp add: cnt_zero)
  next
    assume "\<exists>t \<in> set ts. uses p t"
    then show "om_find es p \<noteq> None" using used_entry [OF inv] by (auto simp: in_set_conv_nth)
  qed
  then have keys: "om_keys es = {p. \<exists>t \<in> set ts. uses p t}" by (auto simp: om_find_in_keys)
  have "distinct (map fst es)" using kept strict_sorted_iff [of "map fst es"] by (simp add: kept_entries_def om_ok_def)
  then have "length es = card (om_keys es)" by (metis om_keys_def distinct_card length_map set_map)
  with keys show ?thesis by (simp add: ActiveEntries_def)
qed

section \<open>Lock sets\<close>

text \<open>\<open>ls_table\<close> is whether the pointer to the table is set.\<close>

record lock_set =
  ls_table :: bool
  ls_held :: "lock_request list"

definition no_locks :: lock_set where
  "no_locks = \<lparr>ls_table = False, ls_held = []\<rparr>"

text \<open>\<open>LockTable::Release\<close>, and the requests that \<open>LockSet::Release\<close> hands to \<open>UnlockOne\<close>, in order.\<close>

definition ReleaseAll :: "lock_request list \<Rightarrow> entries \<Rightarrow> entries" where
  "ReleaseAll held es = fold UnlockOne (rev held) es"

definition Release :: "lock_set \<Rightarrow> lock_set \<times> lock_request list" where
  "Release s = (no_locks, if ls_table s \<and> ls_held s \<noteq> [] then rev (ls_held s) else [])"

lemma Release_entries: "ls_table s \<Longrightarrow> fold UnlockOne (snd (Release s)) es = ReleaseAll (ls_held s) es"
  by (simp add: Release_def ReleaseAll_def)

text \<open>
  The objects of a program: the result of \<open>Acquire\<close>, the move constructor, the move assignment, and
  \<open>Release\<close>, which the destructor calls. An object that is moved from or destroyed stays in the list.
\<close>

datatype set_op = Acquired "lock_request list" | MovedTo nat | Assigned nat nat | Freed nat

fun set_step :: "set_op \<Rightarrow> lock_set list \<Rightarrow> lock_set list \<times> lock_request list" where
  "set_step (Acquired requests) ss = (ss @ [\<lparr>ls_table = True, ls_held = Normalize requests\<rparr>], [])"
| "set_step (MovedTo i) ss = (if i < length ss then (ss[i := no_locks] @ [ss ! i], []) else (ss, []))"
| "set_step (Assigned i j) ss =
     (if i < length ss \<and> j < length ss \<and> i \<noteq> j then (ss[i := ss ! j, j := no_locks], snd (Release (ss ! i))) else (ss, []))"
| "set_step (Freed i) ss = (if i < length ss then (ss[i := no_locks], snd (Release (ss ! i))) else (ss, []))"

fun set_run :: "set_op list \<Rightarrow> lock_set list \<Rightarrow> lock_set list \<times> lock_request list" where
  "set_run [] ss = (ss, [])"
| "set_run (e # es) ss =
     (case set_step e ss of (ss1, unlocked) \<Rightarrow> (case set_run es ss1 of (ss2, later) \<Rightarrow> (ss2, unlocked @ later)))"

definition acquired :: "set_op list \<Rightarrow> lock_request list" where
  "acquired es = concat (map (\<lambda>e. case e of Acquired requests \<Rightarrow> Normalize requests | _ \<Rightarrow> []) es)"

definition owned :: "lock_set list \<Rightarrow> lock_request multiset" where
  "owned ss = (\<Sum>s\<leftarrow>ss. mset (ls_held s))"

definition sets_ok :: "lock_set list \<Rightarrow> bool" where
  "sets_ok ss \<longleftrightarrow> (\<forall>s \<in> set ss. ls_held s \<noteq> [] \<longrightarrow> ls_table s)"

lemma owned_simps [simp]: "owned [] = {#}" "owned (s # ss) = mset (ls_held s) + owned ss" "owned (ss @ ss') = owned ss + owned ss'"
  by (simp_all add: owned_def)

lemma no_locks_held [simp]: "ls_held no_locks = []"
  by (simp add: no_locks_def)

lemma owned_update: "i < length ss \<Longrightarrow> owned (ss[i := s]) + mset (ls_held (ss ! i)) = owned ss + mset (ls_held s)"
proof (induction ss arbitrary: i)
  case (Cons a ss)
  then show ?case by (cases i) (auto simp: ac_simps)
qed simp

lemma sets_okD: "sets_ok ss \<Longrightarrow> i < length ss \<Longrightarrow> ls_held (ss ! i) \<noteq> [] \<Longrightarrow> ls_table (ss ! i)"
  unfolding sets_ok_def by (metis nth_mem)

lemma sets_ok_update:
  assumes "sets_ok ss" "sets_ok [s]"
  shows "sets_ok (ss[i := s])"
  unfolding sets_ok_def
proof
  fix x assume "x \<in> set (ss[i := s])"
  then have "x \<in> insert s (set ss)" using set_update_subset_insert [of ss i s] by (rule subsetD [rotated])
  then show "ls_held x \<noteq> [] \<longrightarrow> ls_table x" using assms by (simp add: sets_ok_def) metis
qed

lemma Release_mset:
  assumes "sets_ok ss" "i < length ss"
  shows "mset (snd (Release (ss ! i))) = mset (ls_held (ss ! i))"
  using sets_okD [OF assms] by (cases "ls_held (ss ! i) = []") (simp_all add: Release_def)

lemma set_step_owned:
  assumes "set_step e ss = (ss', unlocked)" "sets_ok ss"
  shows "sets_ok ss' \<and> mset (acquired [e]) + owned ss = mset unlocked + owned ss'"
proof (cases e)
  case (MovedTo i)
  have "sets_ok [ss ! i]" "sets_ok [no_locks]" if "i < length ss" using assms(2) that by (auto simp: sets_ok_def)
  then show ?thesis
    using assms MovedTo owned_update [of i ss no_locks] sets_ok_update [of ss no_locks i]
    by (auto simp: acquired_def sets_ok_def split: if_splits)
next
  case (Assigned i j)
  show ?thesis
  proof (cases "i < length ss \<and> j < length ss \<and> i \<noteq> j")
    case True
    have ok: "sets_ok [ss ! j]" "sets_ok [no_locks]" using assms(2) True by (auto simp: sets_ok_def)
    have "owned (ss[i := ss ! j]) + mset (ls_held (ss ! i)) = owned ss + mset (ls_held (ss ! j))"
      "owned (ss[i := ss ! j, j := no_locks]) + mset (ls_held (ss ! j)) = owned (ss[i := ss ! j])"
      using owned_update [of i ss "ss ! j"] owned_update [of j "ss[i := ss ! j]" no_locks] True by simp_all
    then have "owned (ss[i := ss ! j, j := no_locks]) + mset (ls_held (ss ! i)) + mset (ls_held (ss ! j)) = owned ss + mset (ls_held (ss ! j))"
      by (simp only: ac_simps)
    then have "owned (ss[i := ss ! j, j := no_locks]) + mset (ls_held (ss ! i)) = owned ss" by simp
    then show ?thesis
      using assms Assigned True Release_mset [OF assms(2)] sets_ok_update [OF sets_ok_update [OF assms(2) ok(1)] ok(2)]
      by (auto simp: acquired_def add.commute)
  qed (use assms Assigned in \<open>auto simp: acquired_def\<close>)
next
  case (Freed i)
  have "sets_ok [no_locks]" by (simp add: sets_ok_def)
  then show ?thesis
    using assms Freed owned_update [of i ss no_locks] sets_ok_update [of ss no_locks i] Release_mset [of ss i]
    by (auto simp: acquired_def add.commute split: if_splits)
qed (use assms in \<open>auto simp: acquired_def sets_ok_def\<close>)

text \<open>
  Every lock is released exactly once: whatever is acquired, moved, assigned and freed, what has been
  unlocked and what the sets still own is together what was acquired; when no set owns anything, it has
  all been unlocked.
\<close>

lemma set_run_owned:
  "set_run es ss = (ss', unlocked) \<Longrightarrow> sets_ok ss \<Longrightarrow>
   sets_ok ss' \<and> mset (acquired es) + owned ss = mset unlocked + owned ss'"
proof (induction es arbitrary: ss unlocked)
  case (Cons e es)
  obtain ss1 u where e: "set_step e ss = (ss1, u)" by fastforce
  obtain later where es: "set_run es ss1 = (ss', later)" "unlocked = u @ later" using Cons.prems(1) e by (auto split: prod.splits)
  have "acquired (e # es) = acquired [e] @ acquired es" by (simp add: acquired_def)
  then show ?case
    using set_step_owned [OF e Cons.prems(2)] Cons.IH [OF es(1)] es(2) by (metis (no_types, lifting) add.assoc add.commute mset_append)
qed (auto simp: acquired_def)

lemma locks_released_once:
  assumes "set_run es [] = (ss, unlocked)"
  shows "mset (acquired es) = mset unlocked + owned ss"
  using set_run_owned [OF assms] by (simp add: sets_ok_def)

theorem active_entries_witness:
  "{p. \<exists>t \<in> set one_writer. uses p t} = {''/''} \<and> ActiveEntries one_writer_entries = 1"
  using active_entries [OF one_writer_reachable] by (simp add: one_writer_entries_def ActiveEntries_def om_keys_def)

end
