(* ===== verification/Scheduling.thy ===== *)
theory Scheduling
  imports LeaseManager "HOL-Library.Multiset"
begin

text \<open>
  The threads of the master: the worker pool (\<open>src/src/master/worker_pool.cc\<close>), the timer queue and
  the periodic tasks (\<open>src/src/master/timer_queue.cc\<close>), and the queue of lease renewals on top of the
  pool (\<open>LeaseManager::RequestRegrant\<close> and \<open>Regrant\<close>). The operations are the critical sections of the
  code under the mutex of the object; the step relations interleave them, one thread at a time, with
  every other thread that posts, stops or lets time pass. What a task does is left open: it is an
  element of a type \<open>'a\<close>. The traces of the relations hold what happened, in order, and the theorems
  are about them: the pool starts the tasks it has accepted in their order and has run each of them
  once when \<open>Stop\<close> returns; the timer queue hands every timer to the pool at most once and not before
  its time; the renewal that is owed to a handle is not lost although a second request for it is not
  queued.
\<close>

section \<open>The worker pool\<close>

text \<open>A thread in \<open>Run\<close>: at the wait, in a task, or returned.\<close>

datatype 'a thread_state = Waiting | Busy 'a | Returned

record 'a worker_pool =
  wp_tasks :: "'a list"
  wp_threads :: "'a thread_state list"
  wp_stopping :: bool

definition new_pool :: "nat \<Rightarrow> 'a worker_pool" where
  "new_pool n = \<lparr>wp_tasks = [], wp_threads = replicate n Waiting, wp_stopping = False\<rparr>"

definition Post :: "'a \<Rightarrow> 'a worker_pool \<Rightarrow> 'a worker_pool" where
  "Post task p = (if wp_stopping p then p else p\<lparr>wp_tasks := wp_tasks p @ [task]\<rparr>)"

text \<open>
  \<open>Stop\<close> sets the flag and then joins the threads, so that the caller goes on when they have returned.
\<close>

definition set_stopping :: "'a worker_pool \<Rightarrow> 'a worker_pool" where
  "set_stopping p = (if wp_stopping p then p else p\<lparr>wp_stopping := True\<rparr>)"

definition joined :: "'a worker_pool \<Rightarrow> bool" where
  "joined p \<longleftrightarrow> (\<forall>t \<in> set (wp_threads p). case t of Returned \<Rightarrow> True | _ \<Rightarrow> False)"

text \<open>
  The critical section of \<open>Run\<close>, when the wait is over: the thread returns or has a task; \<open>None\<close> when
  it goes on waiting.
\<close>

definition wake :: "'a worker_pool \<Rightarrow> ('a thread_state \<times> 'a list) option" where
  "wake p =
     (if \<not> (wp_stopping p \<or> wp_tasks p \<noteq> []) then None
      else if wp_stopping p \<and> wp_tasks p = [] then Some (Returned, [])
      else Some (Busy (hd (wp_tasks p)), tl (wp_tasks p)))"

definition set_thread :: "nat \<Rightarrow> 'a thread_state \<Rightarrow> 'a worker_pool \<Rightarrow> 'a worker_pool" where
  "set_thread i t p = p\<lparr>wp_threads := (wp_threads p)[i := t]\<rparr>"

datatype 'a pool_event = Posted 'a | Stopped | Started nat 'a | Finished nat 'a | Exited nat

inductive pool_step :: "'a worker_pool \<Rightarrow> 'a pool_event \<Rightarrow> 'a worker_pool \<Rightarrow> bool" where
  post: "pool_step p (Posted task) (Post task p)"
| stop: "pool_step p Stopped (set_stopping p)"
| start: "i < length (wp_threads p) \<Longrightarrow> wp_threads p ! i = Waiting \<Longrightarrow> wake p = Some (Busy task, rest) \<Longrightarrow>
    pool_step p (Started i task) (set_thread i (Busy task) (p\<lparr>wp_tasks := rest\<rparr>))"
| finish: "i < length (wp_threads p) \<Longrightarrow> wp_threads p ! i = Busy task \<Longrightarrow>
    pool_step p (Finished i task) (set_thread i Waiting p)"
| exit: "i < length (wp_threads p) \<Longrightarrow> wp_threads p ! i = Waiting \<Longrightarrow> wake p = Some (Returned, rest) \<Longrightarrow>
    pool_step p (Exited i) (set_thread i Returned p)"

inductive_cases pool_step_cases: "pool_step p e p'"

text \<open>The runs of a pool of \<open>n\<close> threads, with what has happened.\<close>

inductive pool_run :: "nat \<Rightarrow> 'a pool_event list \<Rightarrow> 'a worker_pool \<Rightarrow> bool" for n where
  fresh: "pool_run n [] (new_pool n)"
| step: "pool_run n es p \<Longrightarrow> pool_step p e p' \<Longrightarrow> pool_run n (es @ [e]) p'"

subsection \<open>What a trace says\<close>

definition is_stop :: "'a pool_event \<Rightarrow> bool" where
  "is_stop e \<longleftrightarrow> (case e of Stopped \<Rightarrow> True | _ \<Rightarrow> False)"

definition accepted :: "'a pool_event list \<Rightarrow> 'a list" where
  "accepted es = [t. Posted t \<leftarrow> takeWhile (\<lambda>e. \<not> is_stop e) es]"

definition started :: "'a pool_event list \<Rightarrow> 'a list" where
  "started es = [t. Started i t \<leftarrow> es]"

definition finished :: "'a pool_event list \<Rightarrow> 'a list" where
  "finished es = [t. Finished i t \<leftarrow> es]"

definition running :: "'a worker_pool \<Rightarrow> 'a list" where
  "running p = [t. Busy t \<leftarrow> wp_threads p]"

lemma is_stop_simps [simp]:
  "is_stop Stopped" "\<not> is_stop (Posted t)" "\<not> is_stop (Started i t)" "\<not> is_stop (Finished i t)" "\<not> is_stop (Exited i)"
  by (simp_all add: is_stop_def)

lemma trace_Nil [simp]: "accepted [] = []" "started [] = []" "finished [] = []"
  by (simp_all add: accepted_def started_def finished_def)

lemma started_snoc [simp]:
  "started (es @ [e]) = started es @ (case e of Started i t \<Rightarrow> [t] | _ \<Rightarrow> [])"
  by (cases e) (simp_all add: started_def)

lemma finished_snoc [simp]:
  "finished (es @ [e]) = finished es @ (case e of Finished i t \<Rightarrow> [t] | _ \<Rightarrow> [])"
  by (cases e) (simp_all add: finished_def)

lemma accepted_snoc [simp]:
  "accepted (es @ [e]) =
     accepted es @ (if list_ex is_stop es then [] else case e of Posted t \<Rightarrow> [t] | _ \<Rightarrow> [])"
proof (cases "list_ex is_stop es")
  case True
  then obtain x where "x \<in> set es" "is_stop x" by (auto simp: list_ex_iff)
  then have "takeWhile (\<lambda>e. \<not> is_stop e) (es @ [e]) = takeWhile (\<lambda>e. \<not> is_stop e) es"
    by (intro takeWhile_append1) auto
  then show ?thesis using True by (simp add: accepted_def)
next
  case False
  then have none: "\<And>x. x \<in> set es \<Longrightarrow> \<not> is_stop x" by (auto simp: list_ex_iff)
  then have "takeWhile (\<lambda>e. \<not> is_stop e) (es @ [e]) = es @ takeWhile (\<lambda>e. \<not> is_stop e) [e]"
    by (intro takeWhile_append2) auto
  moreover have "takeWhile (\<lambda>e. \<not> is_stop e) es = es" using none by (simp add: takeWhile_eq_all_conv)
  ultimately show ?thesis unfolding accepted_def using False by (simp only:) (cases e; simp)
qed

subsection \<open>Tasks are neither lost nor repeated\<close>

lemma running_set_thread:
  assumes "i < length (wp_threads p)"
  shows "mset (running (set_thread i t p)) + mset (case wp_threads p ! i of Busy u \<Rightarrow> [u] | _ \<Rightarrow> []) =
     mset (running p) + mset (case t of Busy u \<Rightarrow> [u] | _ \<Rightarrow> [])"
proof -
  let ?f = "\<lambda>t. case t of Busy u \<Rightarrow> [u] | _ \<Rightarrow> []" and ?ts = "wp_threads p"
  have split: "?ts = take i ?ts @ ?ts ! i # drop (Suc i) ?ts" using assms by (rule id_take_nth_drop)
  have "running p = concat (map ?f (take i ?ts @ ?ts ! i # drop (Suc i) ?ts))"
    using split by (metis running_def)
  then show ?thesis
    using assms by (simp add: running_def set_thread_def upd_conv_take_nth_drop ac_simps)
qed

definition pool_inv :: "nat \<Rightarrow> 'a pool_event list \<Rightarrow> 'a worker_pool \<Rightarrow> bool" where
  "pool_inv n es p \<longleftrightarrow>
     accepted es = started es @ wp_tasks p \<and>
     mset (started es) = mset (finished es) + mset (running p) \<and>
     (wp_stopping p \<longleftrightarrow> list_ex is_stop es) \<and> length (wp_threads p) = n \<and>
     (Returned \<in> set (wp_threads p) \<longrightarrow> wp_stopping p \<and> wp_tasks p = [])"

lemma pool_inv_new: "pool_inv n [] (new_pool n)"
  by (simp add: pool_inv_def new_pool_def running_def)

lemma set_thread_simps [simp]:
  "wp_tasks (set_thread i t p) = wp_tasks p" "wp_stopping (set_thread i t p) = wp_stopping p"
  "length (wp_threads (set_thread i t p)) = length (wp_threads p)"
  by (simp_all add: set_thread_def)

lemma Returned_set_thread: "Returned \<in> set (wp_threads (set_thread i t p)) \<Longrightarrow> t = Returned \<or> Returned \<in> set (wp_threads p)"
  using set_update_subset_insert [of "wp_threads p" i t] by (auto simp: set_thread_def)

lemma wake_Busy: "wake p = Some (Busy task, rest) \<longleftrightarrow> wp_tasks p = task # rest"
  by (cases "wp_tasks p") (auto simp: wake_def)

lemma wake_Returned: "wake p = Some (Returned, rest) \<longleftrightarrow> wp_stopping p \<and> wp_tasks p = [] \<and> rest = []"
  by (auto simp: wake_def)

lemma running_tasks [simp]: "running (p\<lparr>wp_tasks := ts\<rparr>) = running p" "running (p\<lparr>wp_stopping := b\<rparr>) = running p"
  by (simp_all add: running_def)

lemma pool_inv_step:
  assumes inv: "pool_inv n es p" and "pool_step p e p'"
  shows "pool_inv n (es @ [e]) p'"
  using assms(2)
proof (cases rule: pool_step.cases)
  case (post task)
  then show ?thesis using inv by (auto simp: pool_inv_def Post_def)
next
  case stop
  then show ?thesis using inv by (auto simp: pool_inv_def set_stopping_def)
next
  case (start i task rest)
  let ?p = "p\<lparr>wp_tasks := rest\<rparr>"
  have tasks: "wp_tasks p = task # rest" using start by (simp add: wake_Busy)
  have "mset (running (set_thread i (Busy task) ?p)) = mset (running p) + {#task#}"
    using running_set_thread [of i ?p "Busy task"] start by simp
  moreover have "Returned \<notin> set (wp_threads p)" using inv tasks by (auto simp: pool_inv_def)
  ultimately show ?thesis using inv tasks start Returned_set_thread [of i "Busy task" ?p] by (auto simp: pool_inv_def)
next
  case (finish i task)
  have "mset (running (set_thread i Waiting p)) + {#task#} = mset (running p)"
    using running_set_thread [of i p Waiting] finish by simp
  then show ?thesis using inv finish Returned_set_thread [of i Waiting p] by (auto simp: pool_inv_def)
next
  case (exit i rest)
  have "mset (running (set_thread i Returned p)) = mset (running p)"
    using running_set_thread [of i p Returned] exit by simp
  then show ?thesis using inv exit by (auto simp: pool_inv_def wake_Returned)
qed

lemma pool_run_inv: "pool_run n es p \<Longrightarrow> pool_inv n es p"
  by (induction rule: pool_run.induct) (auto intro: pool_inv_new pool_inv_step)

lemma joined_running: "joined p \<Longrightarrow> running p = []"
  by (auto simp: joined_def running_def split: thread_state.splits)

lemma pool_joined:
  assumes "pool_run n es p" "0 < n" "joined p"
  shows "wp_tasks p = [] \<and> wp_stopping p \<and> started es = accepted es \<and> mset (finished es) = mset (accepted es)"
proof -
  have inv: "pool_inv n es p" using assms(1) by (rule pool_run_inv)
  then obtain t ts where "wp_threads p = t # ts" using assms(2) by (cases "wp_threads p") (auto simp: pool_inv_def)
  then have "Returned \<in> set (wp_threads p)" using assms(3) by (auto simp: joined_def split: thread_state.splits)
  then show ?thesis using inv joined_running [OF assms(3)] by (auto simp: pool_inv_def)
qed

text \<open>
  C22: The tasks that the pool has accepted - those posted before \<open>Stop\<close> - are started in the order of
  their posting, the queue holding the rest, and each that was started is running or has finished,
  once; when \<open>Stop\<close> has joined the threads, every accepted task has finished.
\<close>

theorem pool_runs_accepted:
  assumes "pool_run n es p"
  shows "accepted es = started es @ wp_tasks p \<and> mset (started es) = mset (finished es) + mset (running p) \<and>
     (0 < n \<and> joined p \<longrightarrow> mset (finished es) = mset (accepted es))"
  using pool_run_inv [OF assms] pool_joined [OF assms] by (auto simp: pool_inv_def)

subsection \<open>\<open>Stop\<close> returns\<close>

text \<open>The steps of the pool's own threads, and what is left of them once no task is accepted.\<close>

definition own_step :: "'a worker_pool \<Rightarrow> 'a worker_pool \<Rightarrow> bool" where
  "own_step p p' \<longleftrightarrow> (\<exists>i t. pool_step p (Started i t) p' \<or> pool_step p (Finished i t) p' \<or> pool_step p (Exited i) p')"

definition thread_weight :: "'a thread_state \<Rightarrow> nat" where
  "thread_weight t = (case t of Waiting \<Rightarrow> 1 | Busy _ \<Rightarrow> 2 | Returned \<Rightarrow> 0)"

lemma thread_weight_simps [simp]: "thread_weight Waiting = 1" "thread_weight (Busy t) = 2" "thread_weight Returned = 0"
  by (simp_all add: thread_weight_def)

definition weight :: "'a worker_pool \<Rightarrow> nat" where
  "weight p = 2 * length (wp_tasks p) + sum_list (map thread_weight (wp_threads p))"

lemma weight_set_thread:
  assumes "i < length (wp_threads p)"
  shows "weight (set_thread i t p) + thread_weight (wp_threads p ! i) = weight p + thread_weight t"
proof -
  let ?ts = "wp_threads p"
  have "sum_list (map thread_weight ?ts) = sum_list (map thread_weight (take i ?ts @ ?ts ! i # drop (Suc i) ?ts))"
    using id_take_nth_drop [OF assms] by metis
  then show ?thesis using assms by (simp add: weight_def set_thread_def upd_conv_take_nth_drop)
qed

lemma own_step_weight:
  assumes "own_step p p'"
  shows "weight p' < weight p"
proof -
  from assms obtain i t where "pool_step p (Started i t) p' \<or> pool_step p (Finished i t) p' \<or> pool_step p (Exited i) p'"
    by (auto simp: own_step_def)
  then consider rest where "i < length (wp_threads p)" "wp_threads p ! i = Waiting" "wp_tasks p = t # rest"
      "p' = set_thread i (Busy t) (p\<lparr>wp_tasks := rest\<rparr>)"
    | "i < length (wp_threads p)" "wp_threads p ! i = Busy t" "p' = set_thread i Waiting p"
    | "i < length (wp_threads p)" "wp_threads p ! i = Waiting" "p' = set_thread i Returned p"
    by (auto elim!: pool_step_cases simp: wake_Busy)
  then show ?thesis
  proof cases
    case 1
    then show ?thesis using weight_set_thread [of i "p\<lparr>wp_tasks := rest\<rparr>" "Busy t"] by (simp add: weight_def)
  next
    case 2
    then show ?thesis using weight_set_thread [of i p Waiting] by simp
  next
    case 3
    then show ?thesis using weight_set_thread [of i p Returned] by simp
  qed
qed

lemma pool_can_step:
  assumes "wp_stopping p" "\<not> joined p"
  shows "\<exists>p'. own_step p p'"
proof -
  from assms(2) obtain i where i: "i < length (wp_threads p)" "wp_threads p ! i \<noteq> Returned"
    by (auto simp: joined_def in_set_conv_nth split: thread_state.splits)
  show ?thesis
  proof (cases "wp_threads p ! i")
    case Waiting
    then show ?thesis
    proof (cases "wp_tasks p")
      case Nil
      then show ?thesis using exit [of i p "[]"] i(1) Waiting assms(1) by (auto simp: own_step_def wake_Returned)
    next
      case (Cons t rest)
      then show ?thesis using start [of i p t rest] i(1) Waiting by (auto simp: own_step_def wake_Busy)
    qed
  next
    case (Busy t)
    then show ?thesis using finish [OF i(1) Busy] by (auto simp: own_step_def)
  qed (use i in simp)
qed

text \<open>
  C24: \<open>Stop\<close> returns when the tasks do. The threads of a stopping pool come to an end - no infinite run
  of its threads is possible, whatever is posted to it being dropped - and a stopping pool that can
  make no step has all its threads joined.
\<close>

theorem pool_stops:
  assumes "wp_stopping p"
  shows "wfP (\<lambda>p' p :: 'a worker_pool. own_step p p') \<and> Post task p = p \<and> (joined p \<or> (\<exists>p'. own_step p p')) \<and>
     (\<forall>p'. own_step p p' \<longrightarrow> wp_stopping p')"
proof (intro conjI allI impI)
  show "wfP (\<lambda>p' p :: 'a worker_pool. own_step p p')"
    using own_step_weight by (intro wfp_if_convertible_to_nat [of _ weight]) blast
  show "wp_stopping p'" if "own_step p p'" for p'
    using that assms by (auto simp: own_step_def elim!: pool_step_cases)
qed (use assms pool_can_step in \<open>auto simp: Post_def\<close>)

section \<open>The timer queue\<close>

record 'a timer_queue =
  tq_timers :: "(time_point \<times> 'a) list"
  tq_stopping :: bool
  tq_thread :: "'a thread_state"

text \<open>The multimap, in the order of its iteration: \<open>emplace\<close> puts a timer after those of the same time.\<close>

definition At :: "time_point \<Rightarrow> 'a \<Rightarrow> 'a timer_queue \<Rightarrow> 'a timer_queue" where
  "At when fn tq =
     tq\<lparr>tq_timers := takeWhile (\<lambda>e. fst e \<le> when) (tq_timers tq) @ (when, fn) # dropWhile (\<lambda>e. fst e \<le> when) (tq_timers tq)\<rparr>"

definition After :: "time_point \<Rightarrow> millis \<Rightarrow> 'a \<Rightarrow> 'a timer_queue \<Rightarrow> 'a timer_queue" where
  "After now delay fn tq = At (after_ms now delay) fn tq"

definition stop_timers :: "'a timer_queue \<Rightarrow> 'a timer_queue" where
  "stop_timers tq = (if tq_stopping tq then tq else tq\<lparr>tq_stopping := True\<rparr>)"

text \<open>One pass of the loop of \<open>Run\<close> under the mutex, at the time \<open>now\<close>.\<close>

datatype 'a pass = Return | Wait | WaitUntil time_point | Fire time_point 'a

definition Run_pass :: "time_point \<Rightarrow> 'a timer_queue \<Rightarrow> 'a pass" where
  "Run_pass now tq =
     (if tq_stopping tq then Return
      else case tq_timers tq of
             [] \<Rightarrow> Wait
           | (when, fn) # _ \<Rightarrow> if when > now then WaitUntil when else Fire when fn)"

text \<open>
  The timer queue with its pool, and the clock. A thread whose timer has fired is \<open>Busy\<close> with it until
  it has posted it. \<open>Master::Stop\<close> stops the timer queue, joining its thread, before it stops the pool.
\<close>

record 'a scheduler =
  sc_now :: time_point
  sc_timers :: "'a timer_queue"
  sc_pool :: "'a worker_pool"

definition new_scheduler :: "nat \<Rightarrow> time_point \<Rightarrow> 'a scheduler" where
  "new_scheduler n now =
     \<lparr>sc_now = now, sc_timers = \<lparr>tq_timers = [], tq_stopping = False, tq_thread = Waiting\<rparr>, sc_pool = new_pool n\<rparr>"

datatype 'a sched_event =
  Ticked | Added time_point 'a | TimersStopped | Expired time_point 'a time_point | Handed 'a | TimersReturned
  | Pooled "'a pool_event"

inductive sched_step :: "'a scheduler \<Rightarrow> 'a sched_event \<Rightarrow> 'a scheduler \<Rightarrow> bool" where
  tick: "sc_now s \<le> now \<Longrightarrow> sched_step s Ticked (s\<lparr>sc_now := now\<rparr>)"
| add: "sched_step s (Added when fn) (s\<lparr>sc_timers := At when fn (sc_timers s)\<rparr>)"
| stop_timers: "sched_step s TimersStopped (s\<lparr>sc_timers := stop_timers (sc_timers s)\<rparr>)"
| expire: "tq_thread (sc_timers s) = Waiting \<Longrightarrow> Run_pass (sc_now s) (sc_timers s) = Fire when fn \<Longrightarrow>
    sched_step s (Expired when fn (sc_now s))
      (s\<lparr>sc_timers := (sc_timers s)\<lparr>tq_timers := tl (tq_timers (sc_timers s)), tq_thread := Busy fn\<rparr>\<rparr>)"
| hand: "tq_thread (sc_timers s) = Busy fn \<Longrightarrow>
    sched_step s (Handed fn) (s\<lparr>sc_timers := (sc_timers s)\<lparr>tq_thread := Waiting\<rparr>, sc_pool := Post fn (sc_pool s)\<rparr>)"
| return: "tq_thread (sc_timers s) = Waiting \<Longrightarrow> Run_pass (sc_now s) (sc_timers s) = Return \<Longrightarrow>
    sched_step s TimersReturned (s\<lparr>sc_timers := (sc_timers s)\<lparr>tq_thread := Returned\<rparr>\<rparr>)"
| pool: "pool_step (sc_pool s) e p \<Longrightarrow> (is_stop e \<Longrightarrow> tq_thread (sc_timers s) = Returned) \<Longrightarrow>
    sched_step s (Pooled e) (s\<lparr>sc_pool := p\<rparr>)"

inductive sched_run :: "nat \<Rightarrow> 'a sched_event list \<Rightarrow> 'a scheduler \<Rightarrow> bool" for n where
  fresh: "sched_run n [] (new_scheduler n now)"
| step: "sched_run n es s \<Longrightarrow> sched_step s e s' \<Longrightarrow> sched_run n (es @ [e]) s'"

definition pool_trace :: "'a sched_event list \<Rightarrow> 'a pool_event list" where
  "pool_trace es = concat (map (\<lambda>e. case e of Handed fn \<Rightarrow> [Posted fn] | Pooled e \<Rightarrow> [e] | _ \<Rightarrow> []) es)"

definition added :: "'a sched_event list \<Rightarrow> (time_point \<times> 'a) list" where
  "added es = [(when, fn). Added when fn \<leftarrow> es]"

definition expired :: "'a sched_event list \<Rightarrow> (time_point \<times> 'a) list" where
  "expired es = [(when, fn). Expired when fn t \<leftarrow> es]"

definition handed :: "'a sched_event list \<Rightarrow> 'a list" where
  "handed es = [fn. Handed fn \<leftarrow> es]"

lemma sched_trace_snoc [simp]:
  "pool_trace (es @ [e]) = pool_trace es @ (case e of Handed fn \<Rightarrow> [Posted fn] | Pooled e \<Rightarrow> [e] | _ \<Rightarrow> [])"
  "added (es @ [e]) = added es @ (case e of Added when fn \<Rightarrow> [(when, fn)] | _ \<Rightarrow> [])"
  "expired (es @ [e]) = expired es @ (case e of Expired when fn t \<Rightarrow> [(when, fn)] | _ \<Rightarrow> [])"
  "handed (es @ [e]) = handed es @ (case e of Handed fn \<Rightarrow> [fn] | _ \<Rightarrow> [])"
  by (cases e; simp add: pool_trace_def added_def expired_def handed_def)+

lemma sched_trace_Nil [simp]: "pool_trace [] = []" "added [] = []" "expired [] = []" "handed [] = []"
  by (simp_all add: pool_trace_def added_def expired_def handed_def)

lemma sched_pool_run: "sched_run n es s \<Longrightarrow> pool_run n (pool_trace es) (sc_pool s)"
proof (induction rule: sched_run.induct)
  case (fresh now)
  then show ?case by (simp add: new_scheduler_def pool_run.fresh)
next
  case (step es s e s')
  from step.hyps(2) show ?case
    by (cases rule: sched_step.cases) (use step.IH in \<open>auto intro: pool_run.step pool_step.post\<close>)
qed

text \<open>The multimap stays sorted, and firing takes its first entry.\<close>

lemma mset_At: "mset (tq_timers (At when fn tq)) = add_mset (when, fn) (mset (tq_timers tq))"
proof -
  have "mset (tq_timers tq) = mset (takeWhile (\<lambda>e. fst e \<le> when) (tq_timers tq)) + mset (dropWhile (\<lambda>e. fst e \<le> when) (tq_timers tq))"
    by (metis mset_append takeWhile_dropWhile_id)
  then show ?thesis by (simp add: At_def)
qed

lemma sorted_between:
  "sorted (xs @ ys) \<Longrightarrow> \<forall>x \<in> set xs. x \<le> w \<Longrightarrow> \<forall>y \<in> set ys. w \<le> y \<Longrightarrow> sorted (xs @ w # ys)"
  by (auto simp: sorted_append intro: order_trans)

lemma dropWhile_high:
  fixes ts :: "(time_point \<times> 'a) list"
  assumes "sorted (map fst ts)" "y \<in> set (map fst (dropWhile (\<lambda>e. fst e \<le> w) ts))"
  shows "w \<le> y"
  using assms by (induction ts) (auto split: if_splits)

lemma sorted_At:
  assumes "sorted (map fst (tq_timers tq))"
  shows "sorted (map fst (tq_timers (At when fn tq)))"
proof -
  let ?low = "takeWhile (\<lambda>e. fst e \<le> when) (tq_timers tq)" and ?high = "dropWhile (\<lambda>e. fst e \<le> when) (tq_timers tq)"
  have "map fst (tq_timers tq) = map fst ?low @ map fst ?high" by (simp flip: map_append)
  then have "sorted (map fst ?low @ map fst ?high)" using assms by simp
  moreover have "\<forall>x \<in> set (map fst ?low). x \<le> when" by (auto dest: set_takeWhileD)
  moreover have "\<forall>y \<in> set (map fst ?high). when \<le> y" using dropWhile_high [OF assms] by blast
  ultimately have "sorted (map fst ?low @ when # map fst ?high)" by (rule sorted_between)
  then show ?thesis by (simp add: At_def)
qed

lemma Run_pass_Fire: "Run_pass now tq = Fire when fn \<longleftrightarrow>
   \<not> tq_stopping tq \<and> when \<le> now \<and> (\<exists>rest. tq_timers tq = (when, fn) # rest)"
  by (auto simp: Run_pass_def split: list.split)

lemma Run_pass_Return: "Run_pass now tq = Return \<longleftrightarrow> tq_stopping tq"
  by (auto simp: Run_pass_def split: list.split)

definition in_flight :: "'a timer_queue \<Rightarrow> 'a list" where
  "in_flight tq = (case tq_thread tq of Busy fn \<Rightarrow> [fn] | _ \<Rightarrow> [])"

definition timers_inv :: "'a sched_event list \<Rightarrow> 'a scheduler \<Rightarrow> bool" where
  "timers_inv es s \<longleftrightarrow>
     sorted (map fst (tq_timers (sc_timers s))) \<and>
     mset (added es) = mset (expired es) + mset (tq_timers (sc_timers s)) \<and>
     map snd (expired es) = handed es @ in_flight (sc_timers s) \<and>
     (\<forall>when fn t. Expired when fn t \<in> set es \<longrightarrow> when \<le> t) \<and>
     (wp_stopping (sc_pool s) \<longrightarrow> tq_thread (sc_timers s) = Returned) \<and>
     mset (handed es) \<subseteq># mset (accepted (pool_trace es))"

lemma pool_stop_event: "pool_step p e p' \<Longrightarrow> wp_stopping p' \<Longrightarrow> wp_stopping p \<or> is_stop e"
  by (auto elim!: pool_step_cases simp: Post_def split: if_splits)

lemma timers_inv_step:
  assumes run: "sched_run n es s" and inv: "timers_inv es s" and "sched_step s e s'"
  shows "timers_inv (es @ [e]) s'"
  using assms(3)
proof (cases rule: sched_step.cases)
  case (add w fn)
  then show ?thesis using inv mset_At [of w fn "sc_timers s"] sorted_At [of "sc_timers s" w fn]
    by (auto simp: timers_inv_def in_flight_def At_def)
next
  case (expire w fn)
  then show ?thesis using inv by (auto simp: timers_inv_def in_flight_def Run_pass_Fire)
next
  case (hand fn)
  have "wp_stopping (sc_pool s) \<longleftrightarrow> list_ex is_stop (pool_trace es)"
    using pool_run_inv [OF sched_pool_run [OF run]] by (simp add: pool_inv_def)
  then have "\<not> list_ex is_stop (pool_trace es)" "\<not> wp_stopping (sc_pool s)" using inv hand by (auto simp: timers_inv_def)
  then show ?thesis using inv hand by (auto simp: timers_inv_def in_flight_def Post_def)
next
  case (pool e p)
  then show ?thesis using inv pool_stop_event [OF pool(3)]
    by (auto simp: timers_inv_def intro: subset_mset.order_trans)
qed (use inv in \<open>auto simp: timers_inv_def in_flight_def stop_timers_def\<close>)

lemma sched_run_inv: "sched_run n es s \<Longrightarrow> timers_inv es s"
proof (induction rule: sched_run.induct)
  case (fresh now)
  then show ?case by (simp add: timers_inv_def new_scheduler_def new_pool_def in_flight_def)
next
  case (step es s e s')
  then show ?case using timers_inv_step by blast
qed


section \<open>Periodic tasks\<close>

text \<open>
  The thread of a \<open>PeriodicTask\<close>: it waits until the interval has passed or the task is stopped, in
  \<open>pt_deadline\<close> the end of the \<open>wait_for\<close> it is in, and runs the function unlocked.
\<close>

record periodic =
  pt_now :: time_point
  pt_deadline :: time_point
  pt_stopping :: bool
  pt_thread :: "unit thread_state"

definition new_periodic :: "millis \<Rightarrow> time_point \<Rightarrow> periodic" where
  "new_periodic interval now =
     \<lparr>pt_now = now, pt_deadline = after_ms now interval, pt_stopping = False, pt_thread = Waiting\<rparr>"

definition stop_periodic :: "periodic \<Rightarrow> periodic" where
  "stop_periodic p = (if pt_stopping p then p else p\<lparr>pt_stopping := True\<rparr>)"

text \<open>
  One pass of the loop under the mutex: the wait ends when the predicate holds or the deadline has
  passed, and what it returns is the predicate.
\<close>

definition periodic_pass :: "periodic \<Rightarrow> unit thread_state option" where
  "periodic_pass p =
     (if pt_stopping p then Some Returned
      else if pt_deadline p \<le> pt_now p then Some (Busy ()) else None)"

datatype periodic_event = Passed | PeriodicStopped | Began time_point | Ended | PeriodicReturned

inductive periodic_step :: "millis \<Rightarrow> periodic \<Rightarrow> periodic_event \<Rightarrow> periodic \<Rightarrow> bool" for interval where
  tick: "pt_now p \<le> now \<Longrightarrow> periodic_step interval p Passed (p\<lparr>pt_now := now\<rparr>)"
| stop: "periodic_step interval p PeriodicStopped (stop_periodic p)"
| run: "pt_thread p = Waiting \<Longrightarrow> periodic_pass p = Some (Busy ()) \<Longrightarrow>
    periodic_step interval p (Began (pt_now p)) (p\<lparr>pt_thread := Busy ()\<rparr>)"
| ran: "pt_thread p = Busy () \<Longrightarrow>
    periodic_step interval p Ended (p\<lparr>pt_thread := Waiting, pt_deadline := after_ms (pt_now p) interval\<rparr>)"
| return: "pt_thread p = Waiting \<Longrightarrow> periodic_pass p = Some Returned \<Longrightarrow>
    periodic_step interval p PeriodicReturned (p\<lparr>pt_thread := Returned\<rparr>)"

inductive periodic_run :: "millis \<Rightarrow> periodic_event list \<Rightarrow> periodic \<Rightarrow> bool" for interval where
  fresh: "periodic_run interval [] (new_periodic interval now)"
| step: "periodic_run interval es p \<Longrightarrow> periodic_step interval p e p' \<Longrightarrow> periodic_run interval (es @ [e]) p'"

definition begun :: "periodic_event list \<Rightarrow> time_point list" where
  "begun es = [t. Began t \<leftarrow> es]"

lemma begun_simps [simp]: "begun [] = []" "begun (es @ [e]) = begun es @ (case e of Began t \<Rightarrow> [t] | _ \<Rightarrow> [])"
  by (simp add: begun_def, cases e) (simp_all add: begun_def)

text \<open>
  Two runs of a periodic task begin at least an interval apart, however long the runs take, and
  none begins after \<open>Stop\<close>.
\<close>

lemma periodic_apart:
  "periodic_run interval es p \<Longrightarrow>
     sorted_wrt (\<lambda>a b. after_ms a interval \<le> b) (begun es) \<and>
     (pt_stopping p \<longrightarrow> (\<forall>p' t. \<not> periodic_step interval p (Began t) p'))"
proof -
  assume "periodic_run interval es p"
  then have "sorted_wrt (\<lambda>a b. after_ms a interval \<le> b) (begun es) \<and> (\<forall>a \<in> set (begun es). a \<le> pt_now p) \<and>
      (pt_thread p = Waiting \<longrightarrow> (\<forall>a \<in> set (begun es). after_ms a interval \<le> pt_deadline p))"
  proof (induction rule: periodic_run.induct)
    case (step es p e p')
    from step.hyps(2) show ?case
    proof (cases rule: periodic_step.cases)
      case run
      then have "pt_deadline p \<le> pt_now p" by (simp add: periodic_pass_def split: if_splits)
      then show ?thesis using run step.IH by (auto simp: sorted_wrt_append)
    next
      case ran
      then show ?thesis using step.IH by (auto simp: after_ms_def)
    qed (use step.IH in \<open>auto simp: stop_periodic_def\<close>)
  qed simp
  moreover have "\<not> periodic_step interval p (Began t) p'" if "pt_stopping p" for t p'
    using that by (auto elim: periodic_step.cases simp: periodic_pass_def)
  ultimately show ?thesis by blast
qed

section \<open>Renewals of leases\<close>

text \<open>
  The renewals that a heartbeat or the sweep of dead servers requests: \<open>regrant_pending_\<close> keeps a
  second request of a handle from being queued, and a renewal drops the handle from it after
  \<open>BeginHandle\<close> and before it looks at the chunk (\<open>LeaseManager.Regrant\<close> is what it does then).
  The request posts the task outside the critical section: \<open>rg_posting\<close> holds the requests in between.
  \<open>rg_begun\<close> holds the threads that have passed the look in their task; the busy handles are shared
  with the grants of requests, which come and go with the first two steps.
\<close>

record renewals =
  rg_pending :: "u64 set"
  rg_busy :: "u64 set"
  rg_begun :: "nat set"
  rg_posting :: "u64 list"
  rg_pool :: "u64 worker_pool"

definition new_renewals :: "nat \<Rightarrow> renewals" where
  "new_renewals n = \<lparr>rg_pending = {}, rg_busy = {}, rg_begun = {}, rg_posting = [], rg_pool = new_pool n\<rparr>"

definition RequestRegrant :: "u64 \<Rightarrow> renewals \<Rightarrow> renewals" where
  "RequestRegrant h r =
     (if h \<in> rg_pending r then r
      else r\<lparr>rg_pending := insert h (rg_pending r), rg_posting := h # rg_posting r\<rparr>)"

definition post_request :: "u64 \<Rightarrow> renewals \<Rightarrow> renewals" where
  "post_request h r = r\<lparr>rg_posting := remove1 h (rg_posting r), rg_pool := Scheduling.Post h (rg_pool r)\<rparr>"

datatype renewal_event = GrantBegan u64 | GrantEnded u64 | Requested u64 | RequestPosted u64 | PoolStopped
  | Taken nat u64 | Checked nat u64 | Renewed nat u64 | ThreadReturned nat

inductive renewal_step :: "renewals \<Rightarrow> renewal_event \<Rightarrow> renewals \<Rightarrow> bool" where
  grant: "h \<notin> rg_busy r \<Longrightarrow> renewal_step r (GrantBegan h) (r\<lparr>rg_busy := insert h (rg_busy r)\<rparr>)"
| granted: "renewal_step r (GrantEnded h) (r\<lparr>rg_busy := rg_busy r - {h}\<rparr>)"
| request: "renewal_step r (Requested h) (RequestRegrant h r)"
| posted: "h \<in> set (rg_posting r) \<Longrightarrow> renewal_step r (RequestPosted h) (post_request h r)"
| stop: "renewal_step r PoolStopped (r\<lparr>rg_pool := set_stopping (rg_pool r)\<rparr>)"
| take: "pool_step (rg_pool r) (Started i h) p \<Longrightarrow>
    renewal_step r (Taken i h) (r\<lparr>rg_pool := p, rg_begun := rg_begun r - {i}\<rparr>)"
| check: "i < length (wp_threads (rg_pool r)) \<Longrightarrow> wp_threads (rg_pool r) ! i = Busy h \<Longrightarrow> i \<notin> rg_begun r \<Longrightarrow> h \<notin> rg_busy r \<Longrightarrow>
    renewal_step r (Checked i h)
      (r\<lparr>rg_busy := insert h (rg_busy r), rg_pending := rg_pending r - {h}, rg_begun := insert i (rg_begun r)\<rparr>)"
| renewed: "pool_step (rg_pool r) (Finished i h) p \<Longrightarrow> i \<in> rg_begun r \<Longrightarrow>
    renewal_step r (Renewed i h) (r\<lparr>rg_pool := p, rg_busy := rg_busy r - {h}\<rparr>)"
| returned: "pool_step (rg_pool r) (Exited i) p \<Longrightarrow> renewal_step r (ThreadReturned i) (r\<lparr>rg_pool := p\<rparr>)"

inductive renewal_run :: "nat \<Rightarrow> renewal_event list \<Rightarrow> renewals \<Rightarrow> bool" for n where
  fresh: "renewal_run n [] (new_renewals n)"
| step: "renewal_run n es r \<Longrightarrow> renewal_step r e r' \<Longrightarrow> renewal_run n (es @ [e]) r'"

text \<open>
  The handles whose last request came before the pool was stopped and that no renewal has looked at
  since, less those whose task was posted to a stopped pool; and the handles that are about to be
  posted, in the queue, or with a thread that has not looked yet.
\<close>

definition owed_step :: "renewal_event \<Rightarrow> bool \<times> u64 set \<Rightarrow> bool \<times> u64 set" where
  "owed_step e = (\<lambda>(open, hs). case e of
       Requested h \<Rightarrow> (open, if open then insert h hs else hs)
     | RequestPosted h \<Rightarrow> (open, if open then hs else hs - {h})
     | PoolStopped \<Rightarrow> (False, hs)
     | Checked i h \<Rightarrow> (open, hs - {h})
     | _ \<Rightarrow> (open, hs))"

definition owed :: "renewal_event list \<Rightarrow> u64 set" where
  "owed es = snd (fold owed_step es (True, {}))"

definition is_open :: "renewal_event list \<Rightarrow> bool" where
  "is_open es = fst (fold owed_step es (True, {}))"

definition unlooked :: "renewals \<Rightarrow> nat \<Rightarrow> u64 \<Rightarrow> bool" where
  "unlooked r i h \<longleftrightarrow> i < length (wp_threads (rg_pool r)) \<and> wp_threads (rg_pool r) ! i = Busy h \<and> i \<notin> rg_begun r"

definition awaited :: "renewals \<Rightarrow> u64 set" where
  "awaited r = set (rg_posting r) \<union> set (wp_tasks (rg_pool r)) \<union> {h. \<exists>i. unlooked r i h}"

definition renewals_inv :: "renewal_event list \<Rightarrow> renewals \<Rightarrow> bool" where
  "renewals_inv es r \<longleftrightarrow>
     is_open es = (\<not> wp_stopping (rg_pool r)) \<and> owed es \<subseteq> awaited r \<and>
     (wp_stopping (rg_pool r) \<or> rg_pending r \<subseteq> awaited r)"

lemma owed_Nil [simp]: "is_open []" "owed [] = {}"
  by (simp_all add: is_open_def owed_def)

lemma owed_snoc [simp]:
  "is_open (es @ [e]) = (is_open es \<and> (case e of PoolStopped \<Rightarrow> False | _ \<Rightarrow> True))"
  "owed (es @ [e]) =
     (case e of Requested h \<Rightarrow> if is_open es then insert h (owed es) else owed es
      | RequestPosted h \<Rightarrow> if is_open es then owed es else owed es - {h}
      | Checked i h \<Rightarrow> owed es - {h} | _ \<Rightarrow> owed es)"
  by (simp_all add: is_open_def owed_def owed_step_def case_prod_unfold split: renewal_event.split)

lemma unlooked_set_thread:
  assumes "rg_pool r' = set_thread i t q" "wp_threads q = wp_threads (rg_pool r)" "i < length (wp_threads q)"
    "j = i \<or> (j \<in> rg_begun r' \<longleftrightarrow> j \<in> rg_begun r)"
  shows "unlooked r' j g \<longleftrightarrow> (if j = i then t = Busy g \<and> i \<notin> rg_begun r' else unlooked r j g)"
  using assms by (auto simp: unlooked_def set_thread_def)

lemma awaited_Started:
  assumes "pool_step (rg_pool r) (Started i h) p"
  shows "awaited (r\<lparr>rg_pool := p, rg_begun := rg_begun r - {i}\<rparr>) = awaited r"
  using assms
proof (cases rule: pool_step.cases)
  case (start rest)
  let ?q = "rg_pool r\<lparr>wp_tasks := rest\<rparr>" and ?r = "r\<lparr>rg_pool := p, rg_begun := rg_begun r - {i}\<rparr>"
  have tasks: "wp_tasks (rg_pool r) = h # rest" "wp_tasks p = rest" using start by (simp_all add: wake_Busy)
  have un: "unlooked ?r j g \<longleftrightarrow> (if j = i then g = h else unlooked r j g)" for j g
    using unlooked_set_thread [of ?r i "Busy h" ?q r j g] start by auto
  have "\<not> unlooked r i g" for g using start by (simp add: unlooked_def)
  then have "(\<exists>j. unlooked ?r j g) \<longleftrightarrow> g = h \<or> (\<exists>j. unlooked r j g)" for g unfolding un by metis
  then have "{g. \<exists>j. unlooked ?r j g} = insert h {g. \<exists>j. unlooked r j g}" by auto
  then show ?thesis using tasks by (auto simp: awaited_def)
qed

lemma awaited_Finished:
  assumes "pool_step (rg_pool r) (Finished i h) p" "i \<in> rg_begun r"
  shows "awaited (r\<lparr>rg_pool := p, rg_busy := bs\<rparr>) = awaited r"
  using assms(1)
proof (cases rule: pool_step.cases)
  case finish
  let ?r = "r\<lparr>rg_pool := p, rg_busy := bs\<rparr>"
  have "unlooked ?r j g \<longleftrightarrow> unlooked r j g" for j g
    using unlooked_set_thread [of ?r i Waiting "rg_pool r" r j g] finish assms(2) by (auto simp: unlooked_def)
  then show ?thesis using finish by (simp add: awaited_def)
qed

lemma awaited_Exited:
  assumes "pool_step (rg_pool r) (Exited i) p"
  shows "awaited (r\<lparr>rg_pool := p\<rparr>) = awaited r"
  using assms
proof (cases rule: pool_step.cases)
  case (exit rest)
  let ?r = "r\<lparr>rg_pool := p\<rparr>"
  have "unlooked ?r j g \<longleftrightarrow> unlooked r j g" for j g
    using unlooked_set_thread [of ?r i Returned "rg_pool r" r j g] exit by (auto simp: unlooked_def)
  then show ?thesis using exit by (simp add: awaited_def)
qed

lemma renewals_inv_step:
  assumes inv: "renewals_inv es r" and "renewal_step r e r'"
  shows "renewals_inv (es @ [e]) r'"
  using assms(2)
proof (cases rule: renewal_step.cases)
  case (request h)
  have "awaited (RequestRegrant h r) = (if h \<in> rg_pending r then awaited r else insert h (awaited r))"
    by (auto simp: RequestRegrant_def awaited_def unlooked_def)
  then show ?thesis using request inv
    by (auto simp: renewals_inv_def RequestRegrant_def split: if_splits)
next
  case (posted h)
  have "awaited (post_request h r) \<supseteq> awaited r - (if wp_stopping (rg_pool r) then {h} else {})"
    by (auto simp: post_request_def awaited_def unlooked_def Post_def in_set_remove1)
  then show ?thesis using posted inv
    by (auto simp: renewals_inv_def post_request_def Post_def split: if_splits)
next
  case (take i h p)
  have "wp_stopping p = wp_stopping (rg_pool r)" using take(3) by (auto elim!: pool_step_cases)
  then show ?thesis using take inv awaited_Started [OF take(3)] by (simp add: renewals_inv_def)
next
  case (check i h)
  have "awaited r - {h} \<subseteq> awaited r'" using check by (auto simp: awaited_def unlooked_def)
  then show ?thesis using check inv by (auto simp: renewals_inv_def)
next
  case (renewed i h p)
  have "wp_stopping p = wp_stopping (rg_pool r)" using renewed(3) by (auto elim!: pool_step_cases)
  then show ?thesis using renewed inv awaited_Finished [OF renewed(3,4)] by (simp add: renewals_inv_def)
next
  case (returned i p)
  have "wp_stopping p = wp_stopping (rg_pool r)" using returned(3) by (auto elim!: pool_step_cases)
  then show ?thesis using returned inv awaited_Exited [OF returned(3)] by (simp add: renewals_inv_def)
qed (use inv in \<open>auto simp: renewals_inv_def awaited_def unlooked_def set_stopping_def\<close>)

lemma renewal_run_inv: "renewal_run n es r \<Longrightarrow> renewals_inv es r"
proof (induction rule: renewal_run.induct)
  case fresh
  then show ?case by (simp add: renewals_inv_def new_renewals_def new_pool_def)
next
  case (step es r e r')
  then show ?case using renewals_inv_step by blast
qed

lemma renewal_pool_run: "renewal_run n es r \<Longrightarrow> \<exists>ps. pool_run n ps (rg_pool r)"
proof (induction rule: renewal_run.induct)
  case fresh
  then show ?case by (auto simp: new_renewals_def intro: pool_run.fresh)
next
  case (step es r e r')
  have "rg_pool r' = rg_pool r \<or> (\<exists>f. pool_step (rg_pool r) f (rg_pool r'))"
    using step.hyps(2)
    by (cases rule: renewal_step.cases)
      (auto simp: RequestRegrant_def post_request_def intro: pool_step.post pool_step.stop)
  then show ?case using step.IH by (auto intro: pool_run.step)
qed

text \<open>
  C21: No requested renewal is lost. In every run, a handle that was requested before the pool was
  stopped and that no renewal has looked at since the last request is still about to be posted, in
  the queue or with a thread that has yet to look, although a request is not queued when one is
  pending; when all requests are posted and the threads have been joined, nothing is owed.
\<close>

theorem renewals_not_lost:
  assumes "renewal_run n es r"
  shows "owed es \<subseteq> awaited r \<and> (0 < n \<and> rg_posting r = [] \<and> joined (rg_pool r) \<longrightarrow> owed es = {})"
proof -
  have owed: "owed es \<subseteq> awaited r" using renewal_run_inv [OF assms] by (simp add: renewals_inv_def)
  obtain ps where run: "pool_run n ps (rg_pool r)" using renewal_pool_run [OF assms] by blast
  have "awaited r = {}" if "0 < n" "rg_posting r = []" "joined (rg_pool r)"
  proof -
    have "\<not> unlooked r i h" for i h using that(3) by (force simp: joined_def unlooked_def dest: nth_mem)
    then show ?thesis using pool_joined [OF run that(1,3)] that(2) by (simp add: awaited_def)
  qed
  with owed show ?thesis by blast
qed

section \<open>Witnesses\<close>

definition sample_pool :: "nat list \<Rightarrow> nat thread_state \<Rightarrow> bool \<Rightarrow> nat worker_pool" where
  "sample_pool tasks t stopping = \<lparr>wp_tasks = tasks, wp_threads = [t], wp_stopping = stopping\<rparr>"

lemma sample_pool_steps:
  "pool_step (sample_pool [] Waiting False) (Posted 7) (sample_pool [7] Waiting False)"
  "pool_step (sample_pool [7] Waiting False) (Started 0 7) (sample_pool [] (Busy 7) False)"
  "pool_step (sample_pool [] (Busy 7) False) Stopped (sample_pool [] (Busy 7) True)"
  "pool_step (sample_pool [] (Busy 7) True) (Finished 0 7) (sample_pool [] Waiting True)"
  "pool_step (sample_pool [] Waiting True) (Exited 0) (sample_pool [] Returned True)"
  using pool_step.post [of "sample_pool [] Waiting False" 7] pool_step.start [of 0 "sample_pool [7] Waiting False" 7 "[]"]
    pool_step.stop [of "sample_pool [] (Busy 7) False"] pool_step.finish [of 0 "sample_pool [] (Busy 7) True" 7]
    pool_step.exit [of 0 "sample_pool [] Waiting True" "[]"]
  by (simp_all add: sample_pool_def Post_def set_thread_def set_stopping_def wake_def)

lemma sample_pool_run:
  "pool_run 1 [Posted 7, Started 0 7, Stopped, Finished 0 7, Exited 0] (sample_pool [] Returned True)"
proof -
  have "pool_run 1 [] (sample_pool [] Waiting False)" using pool_run.fresh [of 1] by (simp add: new_pool_def sample_pool_def)
  from pool_run.step [OF pool_run.step [OF pool_run.step [OF pool_run.step [OF pool_run.step [OF this sample_pool_steps(1)]
    sample_pool_steps(2)] sample_pool_steps(3)] sample_pool_steps(4)] sample_pool_steps(5)]
  show ?thesis by simp
qed

theorem pool_runs_accepted_witness:
  "mset (finished [Posted 7, Started 0 (7::nat), Stopped, Finished 0 7, Exited 0]) =
     mset (accepted [Posted 7, Started 0 7, Stopped, Finished 0 7, Exited 0])"
proof -
  have "joined (sample_pool [] Returned True)" by (simp add: sample_pool_def joined_def)
  moreover have "0 < (1 :: nat)" by simp
  ultimately show ?thesis using pool_runs_accepted [OF sample_pool_run] by blast
qed

theorem pool_stops_witness: "\<exists>p'. own_step (sample_pool [7] Waiting True) p'"
proof -
  have "wp_stopping (sample_pool [7] Waiting True)" "\<not> joined (sample_pool [7] Waiting True)"
    by (simp_all add: sample_pool_def joined_def)
  then show ?thesis using pool_stops [of "sample_pool [7] Waiting True" 0] by blast
qed

lemma sample_sched_run:
  "sched_run 1 [Added 5 7, Ticked, Expired 5 7 6]
     \<lparr>sc_now = 6, sc_timers = \<lparr>tq_timers = [], tq_stopping = False, tq_thread = Busy (7::nat)\<rparr>, sc_pool = new_pool 1\<rparr>"
proof -
  have "sched_run 1 [] (new_scheduler 1 0 :: nat scheduler)" by (rule sched_run.fresh)
  from sched_run.step [OF this sched_step.add [of _ 5 7]]
  have "sched_run 1 [Added 5 (7::nat)] \<lparr>sc_now = 0, sc_timers = \<lparr>tq_timers = [(5, 7)], tq_stopping = False, tq_thread = Waiting\<rparr>, sc_pool = new_pool 1\<rparr>"
    (is "sched_run 1 _ ?a") by (simp add: new_scheduler_def At_def)
  from sched_run.step [OF this sched_step.tick [of ?a 6]]
  have "sched_run 1 [Added 5 (7::nat), Ticked] \<lparr>sc_now = 6, sc_timers = \<lparr>tq_timers = [(5, 7)], tq_stopping = False, tq_thread = Waiting\<rparr>, sc_pool = new_pool 1\<rparr>"
    (is "sched_run 1 _ ?b") by simp
  from sched_run.step [OF this sched_step.expire [of ?b 5 7]] show ?thesis by (simp add: Run_pass_def)
qed


theorem periodic_apart_witness:
  "sorted_wrt (\<lambda>a b. after_ms a 1 \<le> b) (begun [Passed, Began 1000001, Ended, Passed, Began 3000000])"
proof -
  let ?p = "\<lambda>now deadline t. \<lparr>pt_now = now, pt_deadline = deadline, pt_stopping = False, pt_thread = t\<rparr>"
  have "periodic_run 1 [] (?p 0 1000000 Waiting)" using periodic_run.fresh [of 1 0] by (simp add: new_periodic_def after_ms_def)
  from periodic_run.step [OF this periodic_step.tick [of _ 1000001]]
  have "periodic_run 1 [Passed] (?p 1000001 1000000 Waiting)" by simp
  from periodic_run.step [OF this periodic_step.run]
  have "periodic_run 1 [Passed, Began 1000001] (?p 1000001 1000000 (Busy ()))" by (simp add: periodic_pass_def)
  from periodic_run.step [OF this periodic_step.ran]
  have "periodic_run 1 [Passed, Began 1000001, Ended] (?p 1000001 2000001 Waiting)" by (simp add: after_ms_def)
  from periodic_run.step [OF this periodic_step.tick [of _ 3000000]]
  have "periodic_run 1 [Passed, Began 1000001, Ended, Passed] (?p 3000000 2000001 Waiting)" by simp
  from periodic_run.step [OF this periodic_step.run]
  have "periodic_run 1 [Passed, Began 1000001, Ended, Passed, Began 3000000] (?p 3000000 2000001 (Busy ()))" by (simp add: periodic_pass_def)
  from periodic_apart [OF this] show ?thesis by simp
qed

lemma sample_renewal_run:
  "renewal_run 1 [Requested 7, RequestPosted 7]
     \<lparr>rg_pending = {7}, rg_busy = {}, rg_begun = {}, rg_posting = [],
      rg_pool = \<lparr>wp_tasks = [7], wp_threads = [Waiting], wp_stopping = False\<rparr>\<rparr>"
proof -
  have "renewal_run 1 [] (new_renewals 1)" by (rule renewal_run.fresh)
  from renewal_run.step [OF this renewal_step.request [of _ 7]]
  have "renewal_run 1 [Requested 7] \<lparr>rg_pending = {7}, rg_busy = {}, rg_begun = {}, rg_posting = [7], rg_pool = new_pool 1\<rparr>"
    (is "renewal_run 1 _ ?a") by (simp add: new_renewals_def RequestRegrant_def)
  from renewal_run.step [OF this renewal_step.posted [of 7 ?a]] show ?thesis
    by (simp add: post_request_def new_pool_def Post_def)
qed

theorem renewals_not_lost_witness:
  "owed [Requested 7, RequestPosted 7] \<subseteq> {7}"
  using renewals_not_lost [OF sample_renewal_run] by (simp add: awaited_def unlooked_def)

end
