(* ===== verification/LogFiles.thy ===== *)
theory LogFiles
  imports StdMap Codec Paths
begin

text \<open>
  The files of the master's data directory: log segments (\<open>src/src/master/oplog.cc\<close>) and
  checkpoints (\<open>src/src/master/checkpoint.cc\<close>), their names, their reading, and pruning. A
  directory maps file names to contents. The serialization of records and checkpoints is
  protobuf's and crc32 is zlib's: both come in as the record \<open>codec\<close>.
\<close>

section \<open>The directory\<close>

type_synonym directory = "(string, bytes) omap"

record ('r, 'c) codec =
  cd_crc :: "bytes \<Rightarrow> u32"
  cd_ser :: "'r \<Rightarrow> bytes"
  cd_parse :: "bytes \<Rightarrow> 'r option"
  cd_ser_ck :: "'c \<Rightarrow> bytes"
  cd_parse_ck :: "bytes \<Rightarrow> 'c option"

text \<open>\<open>snprintf("%s%06llu")\<close>\<close>

definition Numbered :: "string \<Rightarrow> nat \<Rightarrow> string" where
  "Numbered pre number = pre @ replicate (6 - length (show_nat number)) (CHR ''0'') @ show_nat number"

definition ParseNumbered :: "string \<Rightarrow> string \<Rightarrow> nat option" where
  "ParseNumbered name pre =
     (if length name \<noteq> length pre + 6 \<or> \<not> starts_with pre name then None
      else let ds = drop (length pre) name
           in if list_all is_digit ds then Some (digits_val ds) else None)"

definition SegmentPath :: "nat \<Rightarrow> string" where
  "SegmentPath number = Numbered ''oplog.'' number"

definition CheckpointPath :: "nat \<Rightarrow> string" where
  "CheckpointPath number = Numbered ''checkpoint.'' number"

definition ListSegments :: "directory \<Rightarrow> nat list" where
  "ListSegments dir = sort (List.map_filter (\<lambda>e. ParseNumbered (fst e) ''oplog.'') dir)"

definition ListCheckpoints :: "directory \<Rightarrow> nat list" where
  "ListCheckpoints dir = sort (List.map_filter (\<lambda>e. ParseNumbered (fst e) ''checkpoint.'') dir)"

definition file_bytes :: "directory \<Rightarrow> string \<Rightarrow> bytes" where
  "file_bytes dir name = (case om_find dir name of None \<Rightarrow> [] | Some b \<Rightarrow> b)"

section \<open>Reading and truncating a segment\<close>

record 'r replayed_segment =
  rs_records :: "'r list"
  rs_torn_tail :: bool
  rs_valid_bytes :: nat

definition ReadSegment :: "('r, 'c) codec \<Rightarrow> directory \<Rightarrow> nat \<Rightarrow> 'r replayed_segment" where
  "ReadSegment cd dir number =
     (let decoded = DecodeRecords (cd_crc cd) (file_bytes dir (SegmentPath number))
      in \<lparr>rs_records = List.map_filter (cd_parse cd) (payloads decoded),
          rs_torn_tail = torn_tail decoded,
          rs_valid_bytes = consumed decoded\<rparr>)"

text \<open>\<open>truncate(2)\<close>; a file that cannot be truncated is only reported.\<close>

definition TruncateSegment :: "nat \<Rightarrow> nat \<Rightarrow> directory \<Rightarrow> directory" where
  "TruncateSegment number bytes dir = om_modify (SegmentPath number) (take bytes) dir"

section \<open>Checkpoints\<close>

text \<open>
  The outcome of writing the temporary file: complete, or only the first bytes (or none) when
  a system call fails. A complete file is renamed over the final name.
\<close>

datatype io_result = IoOk | IoFails nat

definition CheckpointerWrite ::
    "('r, 'c) codec \<Rightarrow> io_result \<Rightarrow> nat \<Rightarrow> 'c \<Rightarrow> directory \<Rightarrow> directory \<times> bool" where
  "CheckpointerWrite cd io number ck dir =
     (let bytes = EncodeRecord (cd_crc cd) (cd_ser_ck cd ck);
          final_path = CheckpointPath number;
          tmp_path = final_path @ ''.tmp''
      in case io of
           IoFails n \<Rightarrow> (om_assign tmp_path (take n bytes) dir, False)
         | IoOk \<Rightarrow> (om_assign final_path bytes (om_erase tmp_path dir), True))"

definition read_checkpoint :: "('r, 'c) codec \<Rightarrow> directory \<Rightarrow> nat \<Rightarrow> 'c option" where
  "read_checkpoint cd dir number =
     (let decoded = DecodeRecords (cd_crc cd) (file_bytes dir (CheckpointPath number))
      in if length (payloads decoded) \<noteq> 1 \<or> torn_tail decoded then None
         else cd_parse_ck cd (payloads decoded ! 0))"

text \<open>The loop over the numbers from the newest on: the first one that can be read.\<close>

fun first_readable :: "('r, 'c) codec \<Rightarrow> directory \<Rightarrow> nat list \<Rightarrow> (nat \<times> 'c) option" where
  "first_readable cd dir [] = None"
| "first_readable cd dir (n # ns) =
     (case read_checkpoint cd dir n of
        None \<Rightarrow> first_readable cd dir ns
      | Some ck \<Rightarrow> Some (n, ck))"

definition LoadLatest :: "('r, 'c) codec \<Rightarrow> directory \<Rightarrow> (nat \<times> 'c) option" where
  "LoadLatest cd dir = first_readable cd dir (rev (ListCheckpoints dir))"

text \<open>The files \<open>Prune\<close> removes, in order, and the removal.\<close>

definition prune_list :: "nat \<Rightarrow> nat \<Rightarrow> directory \<Rightarrow> string list" where
  "prune_list newest keep dir =
     map SegmentPath (filter (\<lambda>segment. segment < newest) (ListSegments dir)) @
     map CheckpointPath (take (length (ListCheckpoints dir) - keep) (ListCheckpoints dir))"

definition Prune :: "nat \<Rightarrow> nat \<Rightarrow> directory \<Rightarrow> directory" where
  "Prune newest keep dir = fold om_erase (prune_list newest keep dir) dir"

section \<open>Recovery\<close>

text \<open>
  \<open>Master::Recover\<close>, for any replicated state: load the newest readable checkpoint, replay
  the segments from its number on, cut torn tails, and restore what is derived. The result is
  the state, the active segment and the directory.
\<close>

definition replay_segment ::
    "('r, 'c) codec \<Rightarrow> ('r \<Rightarrow> 's \<Rightarrow> 's) \<Rightarrow> nat \<Rightarrow> nat \<Rightarrow> 's \<times> directory \<Rightarrow> 's \<times> directory" where
  "replay_segment cd exec first segment sd =
     (if segment < first then sd
      else let replay = ReadSegment cd (snd sd) segment
           in (fold exec (rs_records replay) (fst sd),
               if rs_torn_tail replay then TruncateSegment segment (rs_valid_bytes replay) (snd sd)
               else snd sd))"

definition Recover ::
    "('r, 'c) codec \<Rightarrow> ('r \<Rightarrow> 's \<Rightarrow> 's) \<Rightarrow> ('c \<Rightarrow> 's) \<Rightarrow> ('s \<Rightarrow> 's) \<Rightarrow> 's \<Rightarrow> directory \<Rightarrow> 's \<times> nat \<times> directory" where
  "Recover cd exec load restore blank dir =
     (let latest = LoadLatest cd dir;
          state0 = (case latest of None \<Rightarrow> blank | Some (n, ck) \<Rightarrow> if n > 0 then load ck else blank);
          number = (case latest of None \<Rightarrow> 0 | Some (n, ck) \<Rightarrow> n);
          segments = ListSegments dir;
          first = (if number > 0 then number else 1);
          (state1, dir1) = fold (replay_segment cd exec first) segments (state0, dir);
          active = (if segments = [] then 1 else last segments)
      in (restore state1, max active first, dir1))"

section \<open>File names\<close>

lemma length_show_nat: "n < 10 ^ k \<Longrightarrow> 0 < k \<Longrightarrow> length (show_nat n) \<le> k"
proof (induction k arbitrary: n)
  case 0
  then show ?case by simp
next
  case (Suc k)
  show ?case
  proof (cases "n < 10")
    case True
    then show ?thesis by (simp add: show_nat.simps [of n])
  next
    case False
    with Suc.prems have "n div 10 < 10 ^ k" "0 < k"
      by (auto simp: div_less_iff_less_mult mult.commute intro: ccontr)
    with Suc.IH [of "n div 10"] False show ?thesis by (simp add: show_nat.simps [of n])
  qed
qed

lemma digits_val_zeros: "digits_val (replicate k (CHR ''0'') @ ds) = digits_val ds"
proof -
  have "foldl (\<lambda>a c. 10 * a + digit_val c) 0 (replicate k (CHR ''0'')) = 0"
    by (induction k) (simp_all add: digit_val_def)
  then show ?thesis by (simp add: digits_val_def)
qed

lemma padded:
  assumes "n < 1000000"
  obtains z where "\<And>pre. Numbered pre n = pre @ z" "length z = 6" "list_all is_digit z" "digits_val z = n"
proof
  let ?z = "replicate (6 - length (show_nat n)) (CHR ''0'') @ show_nat n"
  show "Numbered pre n = pre @ ?z" for pre by (simp add: Numbered_def)
  show "length ?z = 6" using length_show_nat [of n 6] assms by simp
  have "is_digit (CHR ''0'')" by (simp add: is_digit_def)
  then show "list_all is_digit ?z" using show_nat_props [of n] by (auto simp: list_all_iff)
  show "digits_val ?z = n" using show_nat_props [of n] by (simp only: digits_val_zeros)
qed

lemma ParseNumbered_Numbered [simp]:
  assumes "n < 1000000"
  shows "ParseNumbered (Numbered pre n) pre = Some n"
proof -
  obtain z where "\<And>pre. Numbered pre n = pre @ z" "length z = 6" "list_all is_digit z" "digits_val z = n"
    using padded [OF assms] by blast
  then show ?thesis by (simp add: ParseNumbered_def)
qed

lemma Numbered_inj:
  assumes "Numbered pre a = Numbered pre b" "a < 1000000" "b < 1000000"
  shows "a = b"
proof -
  have "Some a = ParseNumbered (Numbered pre a) pre" by (rule ParseNumbered_Numbered [OF assms(2), symmetric])
  also have "\<dots> = Some b" unfolding assms(1) by (rule ParseNumbered_Numbered [OF assms(3)])
  finally show ?thesis by (rule option.inject [THEN iffD1])
qed

text \<open>A decimal number of a given width is determined by its value.\<close>

lemma digit_char_val: "is_digit c \<Longrightarrow> digit_char (digit_val c) = c \<and> digit_val c < 10"
  by (auto simp: is_digit_def digit_val_def digit_char_def)

lemma show_nat_digits:
  "list_all is_digit ds \<Longrightarrow> ds \<noteq> [] \<Longrightarrow>
     replicate (length ds - length (show_nat (digits_val ds))) (CHR ''0'') @ show_nat (digits_val ds) = ds \<and>
     length (show_nat (digits_val ds)) \<le> length ds"
proof (induction ds rule: rev_induct)
  case Nil
  then show ?case by simp
next
  case (snoc c ds)
  then have c: "digit_char (digit_val c) = c" "digit_val c < 10" and ds: "list_all is_digit ds"
    using digit_char_val by auto
  have val: "digits_val (ds @ [c]) = 10 * digits_val ds + digit_val c"
    by (simp add: digits_val_def)
  show ?case
  proof (cases "digits_val ds = 0")
    case True
    then have "show_nat (digits_val (ds @ [c])) = [c]"
      using c val by (simp add: show_nat.simps)
    moreover have "ds = replicate (length ds) (CHR ''0'')"
    proof (cases "ds = []")
      case False
      with snoc.IH [OF ds] True have "replicate (length ds - 1) (CHR ''0'') @ [digit_char 0] = ds"
        by (simp add: show_nat.simps)
      moreover have "digit_char 0 = CHR ''0''" by (simp add: digit_char_def char_of_def odd_iff_mod_2_eq_one bit_iff_odd)
      ultimately show ?thesis
        by (metis False One_nat_def Suc_pred length_greater_0_conv replicate_Suc replicate_append_same)
    qed simp
    ultimately show ?thesis by simp
  next
    case False
    then have "ds \<noteq> []" by (auto simp: digits_val_def)
    moreover have "show_nat (digits_val (ds @ [c])) = show_nat (digits_val ds) @ [c]"
      using False c val by (simp add: show_nat.simps [of "10 * digits_val ds + digit_val c"])
    ultimately show ?thesis using snoc.IH [OF ds] by simp
  qed
qed

lemma Numbered_ParseNumbered:
  assumes "ParseNumbered name pre = Some n"
  shows "name = Numbered pre n"
proof -
  obtain ds where ds: "name = pre @ ds" "length ds = 6" "list_all is_digit ds" "n = digits_val ds"
    using assms by (auto simp: ParseNumbered_def Let_def split: if_splits elim!: starts_withE)
  then have "ds \<noteq> []" by auto
  with show_nat_digits [OF ds(3)] have "replicate (6 - length (show_nat n)) (CHR ''0'') @ show_nat n = ds"
    unfolding ds(2,4) by blast
  with ds(1) show ?thesis unfolding Numbered_def by metis
qed

lemma digits_val_bound: "list_all is_digit ds \<Longrightarrow> digits_val ds < 10 ^ length ds"
proof (induction ds rule: rev_induct)
  case Nil
  then show ?case by (simp add: digits_val_def)
next
  case (snoc c ds)
  then have "digits_val ds < 10 ^ length ds" "digit_val c < 10" using digit_char_val by auto
  moreover have "digits_val (ds @ [c]) = 10 * digits_val ds + digit_val c" by (simp add: digits_val_def)
  ultimately show ?case by simp
qed

lemma ParseNumbered_iff: "ParseNumbered name pre = Some n \<longleftrightarrow> name = Numbered pre n \<and> n < 1000000"
proof
  assume p: "ParseNumbered name pre = Some n"
  then have "list_all is_digit (drop (length pre) name)" "n = digits_val (drop (length pre) name)"
    "length (drop (length pre) name) = 6"
    by (auto simp: ParseNumbered_def Let_def split: if_splits)
  with digits_val_bound [of "drop (length pre) name"] have "n < 10 ^ 6" by simp
  then show "name = Numbered pre n \<and> n < 1000000" using Numbered_ParseNumbered [OF p] by simp
qed (auto simp: ParseNumbered_Numbered)

lemma Numbered_eq: "a < 1000000 \<Longrightarrow> b < 1000000 \<Longrightarrow> Numbered pre a = Numbered pre b \<longleftrightarrow> a = b"
  using Numbered_inj by blast

lemma SegmentPath_eq [simp]: "a < 1000000 \<Longrightarrow> b < 1000000 \<Longrightarrow> SegmentPath a = SegmentPath b \<longleftrightarrow> a = b"
  by (auto simp: SegmentPath_def dest: Numbered_inj)

lemma CheckpointPath_eq [simp]: "a < 1000000 \<Longrightarrow> b < 1000000 \<Longrightarrow> CheckpointPath a = CheckpointPath b \<longleftrightarrow> a = b"
  by (auto simp: CheckpointPath_def dest: Numbered_inj)

lemma names_apart [simp]:
  "SegmentPath a \<noteq> CheckpointPath b" "CheckpointPath b \<noteq> SegmentPath a"
  "SegmentPath a \<noteq> CheckpointPath b @ r" "CheckpointPath b @ r \<noteq> SegmentPath a"
  by (simp_all add: SegmentPath_def CheckpointPath_def Numbered_def)

lemma length_CheckpointPath: "n < 1000000 \<Longrightarrow> length (CheckpointPath n) = 17"
proof -
  assume "n < 1000000"
  then obtain z where "CheckpointPath n = ''checkpoint.'' @ z" "length z = 6"
    unfolding CheckpointPath_def using padded [of n] by metis
  then show ?thesis by simp
qed

lemma tmp_apart [simp]:
  "a < 1000000 \<Longrightarrow> b < 1000000 \<Longrightarrow> CheckpointPath a \<noteq> CheckpointPath b @ ''.tmp''"
  "a < 1000000 \<Longrightarrow> b < 1000000 \<Longrightarrow> CheckpointPath b @ ''.tmp'' \<noteq> CheckpointPath a"
  using length_CheckpointPath [of a] length_CheckpointPath [of b] by (auto dest: arg_cong [where f = length])

section \<open>Listing the directory\<close>

lemma numbered_members:
  "n \<in> set (List.map_filter (\<lambda>e. ParseNumbered (fst e) pre) dir) \<longleftrightarrow>
     n < 1000000 \<and> Numbered pre n \<in> om_keys dir"
  by (induction dir) (auto simp: List.map_filter_simps ParseNumbered_iff Numbered_eq split: option.split)

lemma numbered_distinct:
  "distinct (map fst dir) \<Longrightarrow> distinct (List.map_filter (\<lambda>e. ParseNumbered (fst e) pre) dir)"
proof (induction dir)
  case Nil
  then show ?case by (simp add: List.map_filter_simps)
next
  case (Cons e dir)
  show ?case
  proof (cases "ParseNumbered (fst e) pre")
    case None
    with Cons show ?thesis by (simp add: List.map_filter_simps)
  next
    case (Some n)
    then have "Numbered pre n = fst e" by (simp add: ParseNumbered_iff)
    then have "n \<notin> set (List.map_filter (\<lambda>e. ParseNumbered (fst e) pre) dir)"
      using Cons.prems by (simp add: numbered_members om_keys_def)
    with Cons Some show ?thesis by (simp add: List.map_filter_simps)
  qed
qed

lemma in_ListSegments: "n \<in> set (ListSegments dir) \<longleftrightarrow> n < 1000000 \<and> SegmentPath n \<in> om_keys dir"
  by (simp add: ListSegments_def SegmentPath_def numbered_members)

lemma in_ListCheckpoints: "n \<in> set (ListCheckpoints dir) \<longleftrightarrow> n < 1000000 \<and> CheckpointPath n \<in> om_keys dir"
  by (simp add: ListCheckpoints_def CheckpointPath_def numbered_members)

lemma ListSegments_sorted: "sorted (ListSegments dir)" "om_ok dir \<Longrightarrow> distinct (ListSegments dir)"
  by (simp_all add: ListSegments_def numbered_distinct om_ok_distinct)

lemma ListCheckpoints_sorted: "sorted (ListCheckpoints dir)" "om_ok dir \<Longrightarrow> distinct (ListCheckpoints dir)"
  by (simp_all add: ListCheckpoints_def numbered_distinct om_ok_distinct)

lemma sorted_last:
  fixes xs :: "nat list"
  assumes "sorted xs" "n \<in> set xs" "\<forall>x \<in> set xs. x \<le> n"
  shows "last xs = n"
proof -
  have "xs \<noteq> []" using assms(2) by auto
  then have "xs ! (length xs - 1) = last xs" by (simp add: last_conv_nth)
  moreover obtain i where "i < length xs" "xs ! i = n" using assms(2) by (auto simp: in_set_conv_nth)
  moreover have "xs ! i \<le> xs ! (length xs - 1)"
    using assms(1) \<open>i < length xs\<close> by (intro sorted_nth_mono) auto
  moreover have "last xs \<le> n" using assms(3) \<open>xs \<noteq> []\<close> by simp
  ultimately show ?thesis by simp
qed

text \<open>The newest checkpoint is the one that is loaded when it can be read.\<close>

lemma LoadLatest_newest:
  assumes "n < 1000000" "CheckpointPath n \<in> om_keys dir"
    and "\<forall>m < 1000000. CheckpointPath m \<in> om_keys dir \<longrightarrow> m \<le> n" "read_checkpoint cd dir n = Some ck"
  shows "LoadLatest cd dir = Some (n, ck)"
proof -
  have mem: "n \<in> set (ListCheckpoints dir)" using assms by (simp add: in_ListCheckpoints)
  then have "last (ListCheckpoints dir) = n"
    using assms(3) by (intro sorted_last) (auto simp: in_ListCheckpoints ListCheckpoints_sorted)
  moreover have "ListCheckpoints dir \<noteq> []" using mem by auto
  ultimately obtain ns where "ListCheckpoints dir = ns @ [n]" by (metis append_butlast_last_id)
  then show ?thesis using assms(4) by (simp add: LoadLatest_def)
qed

lemma LoadLatest_none:
  assumes "\<forall>m < 1000000. CheckpointPath m \<notin> om_keys dir"
  shows "LoadLatest cd dir = None"
proof -
  have "ListCheckpoints dir = []" using assms in_ListCheckpoints [of _ dir] by (metis list.set_intros(1) neq_Nil_conv)
  then show ?thesis by (simp add: LoadLatest_def)
qed

text \<open>The segments that are replayed are the ones from the checkpoint's number on.\<close>

lemma replayed_segments:
  assumes "om_ok dir" "base \<le> cur" "cur < 1000000"
    and "\<forall>k. base \<le> k \<longrightarrow> k \<le> cur \<longrightarrow> SegmentPath k \<in> om_keys dir"
    and "\<forall>k < 1000000. SegmentPath k \<in> om_keys dir \<longrightarrow> k \<le> cur"
  shows "filter (\<lambda>k. base \<le> k) (ListSegments dir) = [base..<cur] @ [cur]" "last (ListSegments dir) = cur"
    "ListSegments dir \<noteq> []"
proof -
  have "set (filter (\<lambda>k. base \<le> k) (ListSegments dir)) = set [base..<Suc cur]"
  proof (intro set_eqI iffI)
    fix k assume "k \<in> set (filter (\<lambda>k. base \<le> k) (ListSegments dir))"
    with assms(5) show "k \<in> set [base..<Suc cur]" by (auto simp: in_ListSegments less_Suc_eq_le)
  next
    fix k assume "k \<in> set [base..<Suc cur]"
    then have k: "base \<le> k" "k \<le> cur" by auto
    then have "k < 1000000" "SegmentPath k \<in> om_keys dir" using assms(3,4) by auto
    then show "k \<in> set (filter (\<lambda>k. base \<le> k) (ListSegments dir))" using k(1) by (simp add: in_ListSegments)
  qed
  then have "filter (\<lambda>k. base \<le> k) (ListSegments dir) = [base..<Suc cur]"
    by (intro sorted_distinct_set_unique)
      (simp_all add: ListSegments_sorted assms(1) sorted_filter [where f = id, simplified] del: upt_Suc)
  then show "filter (\<lambda>k. base \<le> k) (ListSegments dir) = [base..<cur] @ [cur]"
    using assms(2) by simp
  have mem: "cur \<in> set (ListSegments dir)" using assms(2-4) by (simp add: in_ListSegments)
  then show "last (ListSegments dir) = cur"
    using assms(5) by (intro sorted_last) (auto simp: in_ListSegments ListSegments_sorted)
  show "ListSegments dir \<noteq> []" using mem by auto
qed

lemma fold_replay_filter:
  "fold (replay_segment cd exec first) ns sd = fold (replay_segment cd exec first) (filter (\<lambda>k. first \<le> k) ns) sd"
  by (induction ns arbitrary: sd) (auto simp: replay_segment_def)

section \<open>Reading what was written\<close>

text \<open>A record or checkpoint that its serialization represents and its length field can hold.\<close>

definition fits :: "('r, 'c) codec \<Rightarrow> 'r \<Rightarrow> bool" where
  "fits cd r \<longleftrightarrow> cd_parse cd (cd_ser cd r) = Some r \<and> length (cd_ser cd r) < 2 ^ 32"

definition fits_ck :: "('r, 'c) codec \<Rightarrow> 'c \<Rightarrow> bool" where
  "fits_ck cd ck \<longleftrightarrow> cd_parse_ck cd (cd_ser_ck cd ck) = Some ck \<and> length (cd_ser_ck cd ck) < 2 ^ 32"

lemma frames_prefix:
  assumes "\<forall>p \<in> set ps. length p < 2 ^ 32"
  shows "\<exists>j p m. j \<le> length ps \<and> take n (frames crc ps) = frames crc (take j ps) @ take m (EncodeRecord crc p) \<and>
     m < length (EncodeRecord crc p) \<and> length p < 2 ^ 32"
  using assms
proof (induction ps arbitrary: n)
  case Nil
  show ?case
    by (intro exI [of _ 0] exI [of _ "[]"]) (simp add: kFrameHeaderSize_def)
next
  case (Cons q ps)
  let ?e = "EncodeRecord crc q"
  show ?case
  proof (cases "n < length ?e")
    case True
    then have "take n (frames crc (q # ps)) = frames crc (take 0 (q # ps)) @ take n ?e" by simp
    with True Cons.prems show ?thesis by (metis le0 list.set_intros(1))
  next
    case False
    obtain j p m where IH: "j \<le> length ps" "m < length (EncodeRecord crc p)" "length p < 2 ^ 32"
      "take (n - length ?e) (frames crc ps) = frames crc (take j ps) @ take m (EncodeRecord crc p)"
      using Cons.IH [of "n - length ?e"] Cons.prems by auto
    then have "take n (frames crc (q # ps)) = frames crc (take (Suc j) (q # ps)) @ take m (EncodeRecord crc p)"
      using False by (simp add: take_append)
    with IH show ?thesis by (metis Suc_le_mono length_Cons)
  qed
qed

lemma map_filter_parse:
  "\<forall>r \<in> set rs. fits cd r \<Longrightarrow> List.map_filter (cd_parse cd) (map (cd_ser cd) rs) = rs"
  by (induction rs) (auto simp: List.map_filter_simps fits_def)

lemma ReadSegment_torn:
  assumes "\<forall>r \<in> set rs. fits cd r" "m < length (EncodeRecord (cd_crc cd) p)" "length p < 2 ^ 32"
    and "file_bytes dir (SegmentPath k) =
       frames (cd_crc cd) (map (cd_ser cd) rs) @ take m (EncodeRecord (cd_crc cd) p)"
  shows "ReadSegment cd dir k =
     \<lparr>rs_records = rs, rs_torn_tail = 0 < m, rs_valid_bytes = length (frames (cd_crc cd) (map (cd_ser cd) rs))\<rparr>"
proof -
  have "\<forall>q \<in> set (map (cd_ser cd) rs @ [p]). length q < 2 ^ 32" using assms(1,3) by (auto simp: fits_def)
  from DecodeRecords_torn [OF this assms(2)] show ?thesis
    by (simp add: ReadSegment_def assms(4) map_filter_parse [OF assms(1)])
qed

lemma ReadSegment_whole:
  assumes "\<forall>r \<in> set rs. fits cd r"
    and "file_bytes dir (SegmentPath k) = frames (cd_crc cd) (map (cd_ser cd) rs)"
  shows "ReadSegment cd dir k =
     \<lparr>rs_records = rs, rs_torn_tail = False, rs_valid_bytes = length (frames (cd_crc cd) (map (cd_ser cd) rs))\<rparr>"
  using ReadSegment_torn [OF assms(1), of 0 "[]" dir k] assms(2) by (simp add: kFrameHeaderSize_def)

lemma read_checkpoint_written:
  assumes "fits_ck cd ck" "om_find dir (CheckpointPath n) = Some (EncodeRecord (cd_crc cd) (cd_ser_ck cd ck))"
  shows "read_checkpoint cd dir n = Some ck"
  using DecodeRecords_frames [of "[cd_ser_ck cd ck]" "cd_crc cd"] assms
  by (simp add: read_checkpoint_def file_bytes_def fits_ck_def)

lemma replay_whole_segments:
  assumes "\<forall>k \<in> set ns. first \<le> k \<and> (\<forall>r \<in> set (seg k). fits cd r) \<and>
     om_find dir (SegmentPath k) = Some (frames (cd_crc cd) (map (cd_ser cd) (seg k)))"
  shows "fold (replay_segment cd exec first) ns (s, dir) = (fold exec (concat (map seg ns)) s, dir)"
  using assms
proof (induction ns arbitrary: s)
  case Nil
  then show ?case by simp
next
  case (Cons k ns)
  then have "ReadSegment cd dir k = \<lparr>rs_records = seg k, rs_torn_tail = False,
      rs_valid_bytes = length (frames (cd_crc cd) (map (cd_ser cd) (seg k)))\<rparr>"
    by (intro ReadSegment_whole) (auto simp: file_bytes_def)
  with Cons show ?case by (simp add: replay_segment_def)
qed

end
