(* ===== verification/OpLog.thy ===== *)
theory OpLog
  imports LogFiles Replay
begin

text \<open>
  The operation log, \<open>src/src/master/oplog.cc\<close>: records are numbered and queued, a flusher
  writes and syncs them to the current segment, and now and then the log rotates to a new
  segment and a checkpoint is written in the background. \<open>log_step\<close> interleaves the live
  state, the flusher, the checkpoint writer and crashes; the theorem of the theory is that a
  recovered state is the live state less a suffix of records nobody was told are durable.
\<close>

section \<open>State and operations\<close>

record 'c oplog =
  ol_pending :: "(nat \<times> bytes) list"
  ol_next_seq :: nat
  ol_flushed_seq :: nat
  ol_segment :: nat
  ol_dir :: directory
  ol_jobs :: "(nat \<times> 'c) list"

definition Append :: "('r, 'c) codec \<Rightarrow> 'r \<Rightarrow> 'c oplog \<Rightarrow> 'c oplog \<times> nat" where
  "Append cd r ol =
     (let seq = ol_next_seq ol
      in (ol\<lparr>ol_next_seq := seq + 1,
             ol_pending := ol_pending ol @ [(seq, EncodeRecord (cd_crc cd) (cd_ser cd r))]\<rparr>, seq))"

definition WaitFlushed_returns :: "bool \<Rightarrow> nat \<Rightarrow> 'c oplog \<Rightarrow> bool" where
  "WaitFlushed_returns stopping seq ol \<longleftrightarrow> ol_flushed_seq ol \<ge> seq \<or> stopping"

text \<open>
  \<open>WriteBatch\<close> with the outcome of the sink's write and sync. The flushed sequence number
  advances whatever that outcome is.
\<close>

definition WriteBatch :: "io_result \<Rightarrow> bytes list \<Rightarrow> nat \<Rightarrow> 'c oplog \<Rightarrow> 'c oplog" where
  "WriteBatch io batch last_seq ol =
     (if batch = [] then ol
      else let joined = concat batch;
               written = (case io of IoOk \<Rightarrow> joined | IoFails n \<Rightarrow> take n joined);
               path = SegmentPath (ol_segment ol)
           in ol\<lparr>ol_dir := om_assign path (file_bytes (ol_dir ol) path @ written) (ol_dir ol),
                 ol_flushed_seq := max (ol_flushed_seq ol) last_seq\<rparr>)"

text \<open>The body of the flusher loop: take everything that is pending and write it.\<close>

definition flush_pending :: "io_result \<Rightarrow> 'c oplog \<Rightarrow> 'c oplog" where
  "flush_pending io ol =
     (let batch = map snd (ol_pending ol);
          last_seq = fold (\<lambda>e _. fst e) (ol_pending ol) 0
      in WriteBatch io batch last_seq (ol\<lparr>ol_pending := []\<rparr>))"

definition OpenSegment :: "nat \<Rightarrow> 'c oplog \<Rightarrow> 'c oplog" where
  "OpenSegment number ol =
     ol\<lparr>ol_dir := fst (om_emplace (SegmentPath number) [] (ol_dir ol)), ol_segment := number\<rparr>"

text \<open>\<open>Rotate\<close>; \<open>snapshot\<close> runs under the state mutex, the writer is queued behind its predecessor.\<close>

definition Rotate :: "io_result \<Rightarrow> 'c \<Rightarrow> 'c oplog \<Rightarrow> 'c oplog" where
  "Rotate io checkpoint ol =
     (let ol1 = flush_pending io ol;
          new_segment = ol_segment ol1 + 1;
          ol2 = OpenSegment new_segment ol1
      in ol2\<lparr>ol_jobs := ol_jobs ol2 @ [(new_segment, checkpoint)]\<rparr>)"

text \<open>The background writer: write the checkpoint and, if that worked, prune.\<close>

definition run_job :: "('r, 'c) codec \<Rightarrow> io_result \<Rightarrow> nat \<Rightarrow> 'c \<Rightarrow> directory \<Rightarrow> directory" where
  "run_job cd io new_segment checkpoint dir =
     (let (dir1, ok) = CheckpointerWrite cd io new_segment checkpoint dir
      in if ok then Prune new_segment 2 dir1 else dir1)"

text \<open>A log opened on the directory that recovery leaves.\<close>

definition open_log :: "nat \<Rightarrow> directory \<Rightarrow> 'c oplog" where
  "open_log active dir = OpenSegment active
     \<lparr>ol_pending = [], ol_next_seq = 1, ol_flushed_seq = 0, ol_segment = 0, ol_dir = dir, ol_jobs = []\<rparr>"

section \<open>Crashes\<close>

text \<open>
  What a crash may leave of the background writer's work: nothing, a damaged temporary file,
  or the checkpoint with some of the files to prune already gone.
\<close>

definition job_image :: "('r, 'c) codec \<Rightarrow> (nat \<times> 'c) list \<Rightarrow> directory \<Rightarrow> directory \<Rightarrow> bool" where
  "job_image cd jobs dir dir' \<longleftrightarrow>
     dir' = dir \<or>
     (\<exists>number ck js. jobs = (number, ck) # js \<and>
        ((\<exists>n. dir' = fst (CheckpointerWrite cd (IoFails n) number ck dir)) \<or>
         (\<exists>k. let dir1 = fst (CheckpointerWrite cd IoOk number ck dir)
              in dir' = fold om_erase (take k (prune_list number 2 dir1)) dir1)))"

text \<open>
  The directory after a crash: the synced files, and any prefix of the bytes of the records
  that are pending, which a write in progress may have reached the disk with.
\<close>

definition crash_image :: "('r, 'c) codec \<Rightarrow> 'c oplog \<Rightarrow> directory \<Rightarrow> bool" where
  "crash_image cd ol dir \<longleftrightarrow>
     (\<exists>dir1 n. job_image cd (ol_jobs ol) (ol_dir ol) dir1 \<and>
        dir = (let path = SegmentPath (ol_segment ol)
               in om_assign path (file_bytes dir1 path @ take n (concat (map snd (ol_pending ol)))) dir1))"

section \<open>The system\<close>

text \<open>
  The steps of a healthy disk. A record is executed and queued under the state mutex; the
  segment number stays within the six digits of a file name.
\<close>

inductive log_step ::
    "('r, 'c) codec \<Rightarrow> ('r \<Rightarrow> 's \<Rightarrow> 's) \<Rightarrow> ('r \<Rightarrow> 's \<Rightarrow> bool) \<Rightarrow> ('s \<Rightarrow> 's \<Rightarrow> bool) \<Rightarrow> ('s \<Rightarrow> 'c) \<Rightarrow> ('c \<Rightarrow> 's) \<Rightarrow>
     ('s \<Rightarrow> 's) \<Rightarrow> 's \<Rightarrow> 's \<times> 'c oplog \<Rightarrow> 's \<times> 'c oplog \<Rightarrow> bool"
  for cd exec allowed quiet snapshot load restore blank where
  append: "allowed r s \<Longrightarrow> fits cd r \<Longrightarrow>
     log_step cd exec allowed quiet snapshot load restore blank (s, ol) (exec r s, fst (Append cd r ol))"
| quiet: "quiet s s' \<Longrightarrow> log_step cd exec allowed quiet snapshot load restore blank (s, ol) (s', ol)"
| flush: "log_step cd exec allowed quiet snapshot load restore blank (s, ol) (s, flush_pending IoOk ol)"
| rotate: "fits_ck cd (snapshot s) \<Longrightarrow> ol_segment ol + 1 < 1000000 \<Longrightarrow>
     log_step cd exec allowed quiet snapshot load restore blank (s, ol) (s, Rotate IoOk (snapshot s) ol)"
| job: "ol_jobs ol = (number, ck) # js \<Longrightarrow>
     log_step cd exec allowed quiet snapshot load restore blank (s, ol)
       (s, ol\<lparr>ol_jobs := js, ol_dir := run_job cd io number ck (ol_dir ol)\<rparr>)"
| crash: "crash_image cd ol dir \<Longrightarrow> Recover cd exec load restore blank dir = (s', active, dir') \<Longrightarrow>
     log_step cd exec allowed quiet snapshot load restore blank (s, ol) (s', open_log active dir')"

section \<open>Recovery loses nothing that was acknowledged\<close>

locale durable_log = replicated exec allowed quiet similar snapshot load restore
  for exec :: "'r \<Rightarrow> 's \<Rightarrow> 's"
    and allowed :: "'r \<Rightarrow> 's \<Rightarrow> bool"
    and quiet :: "'s \<Rightarrow> 's \<Rightarrow> bool"
    and similar :: "'s \<Rightarrow> 's \<Rightarrow> bool"
    and snapshot :: "'s \<Rightarrow> 'c"
    and load :: "'c \<Rightarrow> 's"
    and restore :: "'s \<Rightarrow> 's" +
  fixes cd :: "('r, 'c) codec" and blank :: 's
  assumes similar_blank: "similar blank blank"
begin

abbreviation live :: "'s \<Rightarrow> 'r list \<Rightarrow> 's \<Rightarrow> bool" where
  "live \<equiv> run exec allowed quiet"

abbreviation enc :: "'r list \<Rightarrow> bytes" where
  "enc rs \<equiv> frames (cd_crc cd) (map (cd_ser cd) rs)"

text \<open>
  The invariant speaks of the history: \<open>st k\<close> is the live state when segment \<open>k\<close> was opened
  and \<open>seg k\<close> are the records of that segment, of which \<open>w\<close> are on disk for the current one.
\<close>

definition dir_inv :: "(nat \<Rightarrow> 's) \<Rightarrow> (nat \<Rightarrow> 'r list) \<Rightarrow> 'r list \<Rightarrow> nat \<Rightarrow> nat \<Rightarrow> directory \<Rightarrow> bool" where
  "dir_inv st seg w base cur dir \<longleftrightarrow>
     om_ok dir \<and> 1 \<le> base \<and> base \<le> cur \<and> cur < 1000000 \<and>
     (\<forall>k < 1000000. SegmentPath k \<in> om_keys dir \<longrightarrow> k \<le> cur) \<and>
     (\<forall>k. base \<le> k \<longrightarrow> k < cur \<longrightarrow> om_find dir (SegmentPath k) = Some (enc (seg k))) \<and>
     om_find dir (SegmentPath cur) = Some (enc w) \<and>
     (\<forall>n < 1000000. CheckpointPath n \<in> om_keys dir \<longrightarrow> n \<le> base) \<and>
     ((\<forall>n < 1000000. CheckpointPath n \<notin> om_keys dir) \<and> base = 1 \<and> similar (st 1) blank \<or>
      om_find dir (CheckpointPath base) =
        Some (EncodeRecord (cd_crc cd) (cd_ser_ck cd (snapshot (st base)))) \<and> fits_ck cd (snapshot (st base)))"

definition run_inv :: "(nat \<Rightarrow> 's) \<Rightarrow> (nat \<Rightarrow> 'r list) \<Rightarrow> nat \<Rightarrow> nat \<Rightarrow> 's \<Rightarrow> bool" where
  "run_inv st seg base cur s \<longleftrightarrow>
     (\<forall>k. base \<le> k \<longrightarrow> k < cur \<longrightarrow> live (st k) (seg k) (st (Suc k))) \<and> live (st cur) (seg cur) s \<and>
     (\<forall>k. base \<le> k \<longrightarrow> k \<le> cur \<longrightarrow> (\<forall>r \<in> set (seg k). fits cd r)) \<and> (\<exists>b. similar (st base) b)"

definition jobs_inv :: "(nat \<Rightarrow> 's) \<Rightarrow> nat \<Rightarrow> nat \<Rightarrow> (nat \<times> 'c) list \<Rightarrow> bool" where
  "jobs_inv st base cur jobs \<longleftrightarrow> sorted_wrt (<) (map fst jobs) \<and>
     (\<forall>e \<in> set jobs. base < fst e \<and> fst e \<le> cur \<and> snd e = snapshot (st (fst e)) \<and> fits_ck cd (snd e))"

definition queue_inv :: "'c oplog \<Rightarrow> 'r list \<Rightarrow> bool" where
  "queue_inv ol pend \<longleftrightarrow>
     map snd (ol_pending ol) = map (EncodeRecord (cd_crc cd) \<circ> cd_ser cd) pend \<and>
     map fst (ol_pending ol) = [ol_flushed_seq ol + 1..<ol_next_seq ol] \<and> ol_flushed_seq ol < ol_next_seq ol"

definition log_inv :: "'s \<Rightarrow> 'c oplog \<Rightarrow> bool" where
  "log_inv s ol \<longleftrightarrow> (\<exists>st seg w pend base.
     seg (ol_segment ol) = w @ pend \<and> dir_inv st seg w base (ol_segment ol) (ol_dir ol) \<and>
     run_inv st seg base (ol_segment ol) s \<and> jobs_inv st base (ol_segment ol) (ol_jobs ol) \<and> queue_inv ol pend)"

lemma log_invE:
  assumes "log_inv s ol"
  obtains st seg w pend base where "seg (ol_segment ol) = w @ pend"
    "dir_inv st seg w base (ol_segment ol) (ol_dir ol)" "run_inv st seg base (ol_segment ol) s"
    "jobs_inv st base (ol_segment ol) (ol_jobs ol)" "queue_inv ol pend"
  using assms unfolding log_inv_def by blast

text \<open>From the start of segment \<open>base\<close> to the start of segment \<open>n\<close>.\<close>

lemma run_chain:
  assumes "run_inv st seg base cur s" "base \<le> n" "n \<le> cur"
  shows "live (st base) (concat (map seg [base..<n])) (st n)"
  using assms(2,3)
proof (induction n)
  case 0
  then show ?case by (simp add: run.start)
next
  case (Suc n)
  show ?case
  proof (cases "base = Suc n")
    case True
    then show ?thesis by (simp add: run.start)
  next
    case False
    then have "base \<le> n" using Suc.prems by simp
    with Suc assms(1) have "live (st base) (concat (map seg [base..<n])) (st n)" "live (st n) (seg n) (st (Suc n))"
      by (auto simp: run_inv_def)
    with \<open>base \<le> n\<close> run_trans show ?thesis by fastforce
  qed
qed

lemma run_inv_later:
  assumes "run_inv st seg base cur s" "base \<le> n" "n \<le> cur"
  shows "run_inv st seg n cur s"
proof -
  have "\<exists>b. similar (st n) b"
    using assms(1) similar_run [OF run_chain [OF assms]] unfolding run_inv_def by blast
  with assms show ?thesis unfolding run_inv_def by (meson order_trans)
qed

section \<open>The steps keep the invariant\<close>

lemma concat_enc: "map snd es = map (EncodeRecord (cd_crc cd) \<circ> cd_ser cd) rs \<Longrightarrow> concat (map snd es) = enc rs"
  by (simp add: frames_def)

lemma fold_last_seq: "xs \<noteq> [] \<Longrightarrow> fold (\<lambda>e _. fst e) xs z = last (map fst xs)"
  by (induction xs rule: rev_induct) auto

lemma log_inv_append:
  assumes "log_inv s ol" "allowed r s" "fits cd r"
  shows "log_inv (exec r s) (fst (Append cd r ol))"
proof -
  obtain st seg w pend base where inv: "seg (ol_segment ol) = w @ pend"
    "dir_inv st seg w base (ol_segment ol) (ol_dir ol)" "run_inv st seg base (ol_segment ol) s"
    "jobs_inv st base (ol_segment ol) (ol_jobs ol)" "queue_inv ol pend"
    using assms(1) by (rule log_invE)
  let ?cur = "ol_segment ol"
  let ?seg = "seg(?cur := w @ pend @ [r])"
  have ol: "ol_segment (fst (Append cd r ol)) = ?cur" "ol_dir (fst (Append cd r ol)) = ol_dir ol"
    "ol_jobs (fst (Append cd r ol)) = ol_jobs ol"
    by (simp_all add: Append_def Let_def)
  have "live (st ?cur) ((w @ pend) @ [r]) (exec r s)"
    using inv(1,3) assms(2) by (intro run.logged) (simp_all add: run_inv_def)
  then have "run_inv st ?seg base ?cur (exec r s)"
    using inv(1,3) assms(3) by (auto simp: run_inv_def)
  moreover have "dir_inv st ?seg w base ?cur (ol_dir ol)"
    using inv(2) by (simp add: dir_inv_def)
  moreover have "queue_inv (fst (Append cd r ol)) (pend @ [r])"
    using inv(5) by (simp add: queue_inv_def Append_def Let_def)
  ultimately show ?thesis
    unfolding log_inv_def ol using inv(4)
    by (intro exI [of _ st] exI [of _ ?seg] exI [of _ w] exI [of _ "pend @ [r]"] exI [of _ base]) simp
qed

lemma log_inv_quiet:
  assumes "log_inv s ol" "quiet s s'"
  shows "log_inv s' ol"
  using assms run.silent [of exec allowed quiet _ _ s s'] unfolding log_inv_def run_inv_def by blast

lemma dir_inv_write:
  assumes "dir_inv st seg w base cur dir"
  shows "dir_inv st seg w' base cur (om_assign (SegmentPath cur) (enc w') dir)"
  using assms by (auto simp: dir_inv_def om_intros)

lemma flush_state:
  assumes "queue_inv ol pend" "om_find (ol_dir ol) (SegmentPath (ol_segment ol)) = Some (enc w)"
  shows "flush_pending IoOk ol = (if pend = [] then ol else
     ol\<lparr>ol_pending := [], ol_flushed_seq := ol_next_seq ol - 1,
        ol_dir := om_assign (SegmentPath (ol_segment ol)) (enc (w @ pend)) (ol_dir ol)\<rparr>)"
proof (cases "pend = []")
  case True
  with assms show ?thesis by (cases ol) (simp add: flush_pending_def WriteBatch_def queue_inv_def)
next
  case False
  with assms(1) have ne: "ol_pending ol \<noteq> []" by (auto simp: queue_inv_def)
  then have lt: "ol_flushed_seq ol + 1 < ol_next_seq ol"
    using assms(1) by (metis (no_types) queue_inv_def map_is_Nil_conv upt_rec)
  then have "fold (\<lambda>e _. fst e) (ol_pending ol) 0 = ol_next_seq ol - 1"
    using assms(1) by (simp add: fold_last_seq [OF ne] queue_inv_def)
  moreover have "concat (map snd (ol_pending ol)) = enc pend"
    using assms(1) by (intro concat_enc) (simp add: queue_inv_def)
  ultimately show ?thesis
    using False ne lt assms(2)
    by (cases ol) (simp add: flush_pending_def WriteBatch_def Let_def file_bytes_def)
qed

lemma flush_inv:
  assumes "seg (ol_segment ol) = w @ pend" "dir_inv st seg w base (ol_segment ol) (ol_dir ol)" "queue_inv ol pend"
  shows "dir_inv st seg (w @ pend) base (ol_segment ol) (ol_dir (flush_pending IoOk ol))"
    and "queue_inv (flush_pending IoOk ol) []" and "ol_segment (flush_pending IoOk ol) = ol_segment ol"
    and "ol_jobs (flush_pending IoOk ol) = ol_jobs ol"
proof -
  have "om_find (ol_dir ol) (SegmentPath (ol_segment ol)) = Some (enc w)" using assms(2) by (simp add: dir_inv_def)
  note flush = flush_state [OF assms(3) this]
  show "dir_inv st seg (w @ pend) base (ol_segment ol) (ol_dir (flush_pending IoOk ol))"
    using assms(2) dir_inv_write [OF assms(2), of "w @ pend"] by (simp add: flush)
  show "queue_inv (flush_pending IoOk ol) []"
    using assms(3) by (auto simp: flush queue_inv_def)
  show "ol_segment (flush_pending IoOk ol) = ol_segment ol" "ol_jobs (flush_pending IoOk ol) = ol_jobs ol"
    by (simp_all add: flush)
qed

lemma log_inv_flush:
  assumes "log_inv s ol"
  shows "log_inv s (flush_pending IoOk ol)"
proof -
  obtain st seg w pend base where inv: "seg (ol_segment ol) = w @ pend"
    "dir_inv st seg w base (ol_segment ol) (ol_dir ol)" "run_inv st seg base (ol_segment ol) s"
    "jobs_inv st base (ol_segment ol) (ol_jobs ol)" "queue_inv ol pend"
    using assms(1) by (rule log_invE)
  show ?thesis
    unfolding log_inv_def flush_inv(3,4) [OF inv(1,2,5)]
    using inv flush_inv(1,2) [OF inv(1,2,5)]
    by (intro exI [of _ st] exI [of _ seg] exI [of _ "w @ pend"] exI [of _ "[]"] exI [of _ base]) simp
qed

end

section \<open>Rotation, the checkpoint writer and crashes\<close>

context durable_log begin

lemma log_inv_rotate:
  assumes "log_inv s ol" "fits_ck cd (snapshot s)" "ol_segment ol + 1 < 1000000"
  shows "log_inv s (Rotate IoOk (snapshot s) ol)"
proof -
  obtain st seg w pend base where inv: "seg (ol_segment ol) = w @ pend"
    "dir_inv st seg w base (ol_segment ol) (ol_dir ol)" "run_inv st seg base (ol_segment ol) s"
    "jobs_inv st base (ol_segment ol) (ol_jobs ol)" "queue_inv ol pend"
    using assms(1) by (rule log_invE)
  let ?cur = "ol_segment ol" and ?ol1 = "flush_pending IoOk ol" and ?R = "Rotate IoOk (snapshot s) ol"
  let ?st = "st(Suc ?cur := s)" and ?seg = "seg(Suc ?cur := [])"
  note fl = flush_inv [OF inv(1,2,5)]
  have new: "om_find (ol_dir ?ol1) (SegmentPath (Suc ?cur)) = None"
  proof (rule om_find_NoneI)
    have "\<forall>k < 1000000. SegmentPath k \<in> om_keys (ol_dir ?ol1) \<longrightarrow> k \<le> ?cur" using fl(1) by (simp add: dir_inv_def)
    with assms(3) show "SegmentPath (Suc ?cur) \<notin> om_keys (ol_dir ?ol1)" by (metis Suc_eq_plus1 Suc_n_not_le_n)
  qed
  have R: "ol_segment ?R = Suc ?cur" "ol_dir ?R = om_assign (SegmentPath (Suc ?cur)) [] (ol_dir ?ol1)"
    "ol_jobs ?R = ol_jobs ol @ [(Suc ?cur, snapshot s)]" "ol_pending ?R = ol_pending ?ol1"
    "ol_flushed_seq ?R = ol_flushed_seq ?ol1" "ol_next_seq ?R = ol_next_seq ?ol1"
    by (simp_all add: Rotate_def Let_def OpenSegment_def fl om_emplace_def new)
  have bc: "base \<le> ?cur" using inv(2) by (simp add: dir_inv_def)
  have "dir_inv ?st ?seg [] base (Suc ?cur) (ol_dir ?R)"
    using fl(1) assms(3) inv(1) bc
    by (auto simp: dir_inv_def R om_intros less_Suc_eq)
  moreover have "run_inv ?st ?seg base (Suc ?cur) s"
    using inv(3) bc by (auto simp: run_inv_def run.start less_Suc_eq le_Suc_eq)
  moreover have "jobs_inv ?st base (Suc ?cur) (ol_jobs ?R)"
    using inv(4) assms(2) bc unfolding R jobs_inv_def by (fastforce simp: sorted_wrt_append)
  moreover have "queue_inv ?R []" using fl(2) unfolding queue_inv_def R .
  ultimately show ?thesis
    unfolding log_inv_def R(1)
    by (intro exI [of _ ?st] exI [of _ ?seg] exI [of _ "[]"] exI [of _ base]) simp
qed

lemma prune_list_names:
  assumes "om_ok dir" "newest < 1000000" "CheckpointPath newest \<in> om_keys dir"
    and "\<forall>m < 1000000. CheckpointPath m \<in> om_keys dir \<longrightarrow> m \<le> newest" "name \<in> set (prune_list newest 2 dir)"
  shows "\<exists>m < newest. name = SegmentPath m \<or> name = CheckpointPath m"
proof -
  let ?cks = "ListCheckpoints dir"
  have mem: "newest \<in> set ?cks" using assms(2,3) by (simp add: in_ListCheckpoints)
  have last: "last ?cks = newest"
    using assms(4) mem by (intro sorted_last) (auto simp: in_ListCheckpoints ListCheckpoints_sorted)
  have "m < newest" if m: "m \<in> set (take (length ?cks - 2) ?cks)" for m
  proof -
    obtain i where "i < length (take (length ?cks - 2) ?cks)" "take (length ?cks - 2) ?cks ! i = m"
      using m unfolding in_set_conv_nth by blast
    then have i: "i < length ?cks - 2" "m = ?cks ! i" by auto
    have "?cks ! i < ?cks ! (length ?cks - 1)"
      using i(1) assms(1) by (intro sorted_wrt_nth_less [of "(<)"])
        (auto simp: strict_sorted_iff ListCheckpoints_sorted)
    then show ?thesis using last i by (metis last_conv_nth list.size(3) not_less_zero zero_diff)
  qed
  with assms(5) show ?thesis by (auto simp: prune_list_def)
qed

lemma dir_inv_checkpoint:
  assumes "dir_inv st seg w base cur dir" "base < number" "number \<le> cur" "fits_ck cd (snapshot (st number))"
  shows "dir_inv st seg w number cur (fst (CheckpointerWrite cd IoOk number (snapshot (st number)) dir))"
  using assms by (auto simp: dir_inv_def CheckpointerWrite_def Let_def om_intros)

lemma dir_inv_damaged:
  assumes "dir_inv st seg w base cur dir" "number < 1000000"
  shows "dir_inv st seg w base cur (fst (CheckpointerWrite cd (IoFails n) number ck dir))"
proof -
  have "CheckpointPath base \<noteq> CheckpointPath number @ ''.tmp''" if "base < 1000000"
    using tmp_apart(1) [OF that assms(2)] .
  with assms show ?thesis by (auto simp: dir_inv_def CheckpointerWrite_def Let_def om_intros)
qed

lemma dir_inv_prune:
  assumes "dir_inv st seg w number cur dir" "CheckpointPath number \<in> om_keys dir"
    and "set names \<subseteq> set (prune_list number 2 dir)"
  shows "dir_inv st seg w number cur (fold om_erase names dir)"
proof -
  have cur: "number \<le> cur" "cur < 1000000" and ok: "om_ok dir" using assms(1) by (auto simp: dir_inv_def)
  have gone: "\<exists>m < number. name = SegmentPath m \<or> name = CheckpointPath m" if "name \<in> set names" for name
    using assms cur that by (intro prune_list_names [OF ok]) (auto simp: dir_inv_def)
  have find: "om_find (fold om_erase names dir) x = (if x \<in> set names then None else om_find dir x)" for x
    by (induction names arbitrary: dir) auto
  have keys: "om_keys (fold om_erase names dir) = om_keys dir - set names"
    by (auto simp: om_find_in_keys find split: if_splits)
  have "SegmentPath k \<notin> set names" if "number \<le> k" "k < 1000000" for k
    using gone [of "SegmentPath k"] that by auto
  moreover have "CheckpointPath number \<notin> set names"
    using gone [of "CheckpointPath number"] cur by auto
  ultimately show ?thesis
    using assms(1,2) cur by (auto simp: dir_inv_def find keys fold_invariant [where P = om_ok] om_intros)
qed

text \<open>Whatever part of the writer's job is on disk, the directory stays usable.\<close>

lemma dir_inv_job:
  assumes "dir_inv st seg w base cur dir" "jobs_inv st base cur jobs" "job_image cd jobs dir dir'"
  obtains "dir_inv st seg w base cur dir'"
  | number ck js where "jobs = (number, ck) # js" "base < number" "number \<le> cur" "dir_inv st seg w number cur dir'"
proof -
  have cur: "cur < 1000000" using assms(1) by (simp add: dir_inv_def)
  from assms(3) consider "dir' = dir"
    | number ck js n where "jobs = (number, ck) # js" "dir' = fst (CheckpointerWrite cd (IoFails n) number ck dir)"
    | number ck js k where "jobs = (number, ck) # js"
        "dir' = fold om_erase (take k (prune_list number 2 (fst (CheckpointerWrite cd IoOk number ck dir))))
          (fst (CheckpointerWrite cd IoOk number ck dir))"
    unfolding job_image_def Let_def by blast
  then show thesis
  proof cases
    case 1
    with assms(1) that(1) show thesis by simp
  next
    case 2
    with assms(2) cur have "number < 1000000" by (auto simp: jobs_inv_def)
    with 2 assms(1) that(1) show thesis by (simp add: dir_inv_damaged)
  next
    case 3
    let ?dir1 = "fst (CheckpointerWrite cd IoOk number ck dir)"
    have job: "base < number" "number \<le> cur" "ck = snapshot (st number)" "fits_ck cd ck"
      using 3(1) assms(2) by (auto simp: jobs_inv_def)
    have "dir_inv st seg w number cur ?dir1"
      using dir_inv_checkpoint [OF assms(1) job(1,2)] job(3,4) by simp
    moreover have "CheckpointPath number \<in> om_keys ?dir1" by (simp add: CheckpointerWrite_def Let_def)
    ultimately have "dir_inv st seg w number cur dir'"
      unfolding 3(2) by (rule dir_inv_prune) (rule set_take_subset)
    with 3(1) job(1,2) that(2) show thesis by blast
  qed
qed

lemma run_job_image: "job_image cd ((number, ck) # js) dir (run_job cd io number ck dir)"
proof (cases io)
  case IoOk
  let ?dir1 = "fst (CheckpointerWrite cd IoOk number ck dir)"
  have "run_job cd io number ck dir =
      fold om_erase (take (length (prune_list number 2 ?dir1)) (prune_list number 2 ?dir1)) ?dir1"
    by (simp add: IoOk run_job_def Prune_def CheckpointerWrite_def Let_def)
  then show ?thesis unfolding job_image_def Let_def by blast
next
  case (IoFails n)
  then have "run_job cd io number ck dir = fst (CheckpointerWrite cd (IoFails n) number ck dir)"
    by (simp add: run_job_def CheckpointerWrite_def Let_def)
  then show ?thesis unfolding job_image_def by blast
qed

lemma log_inv_job:
  assumes "log_inv s ol" "ol_jobs ol = (number, ck) # js"
  shows "log_inv s (ol\<lparr>ol_jobs := js, ol_dir := run_job cd io number ck (ol_dir ol)\<rparr>)"
proof -
  obtain st seg w pend base where inv: "seg (ol_segment ol) = w @ pend"
    "dir_inv st seg w base (ol_segment ol) (ol_dir ol)" "run_inv st seg base (ol_segment ol) s"
    "jobs_inv st base (ol_segment ol) (ol_jobs ol)" "queue_inv ol pend"
    using assms(1) by (rule log_invE)
  let ?ol = "ol\<lparr>ol_jobs := js, ol_dir := run_job cd io number ck (ol_dir ol)\<rparr>"
  have q: "queue_inv ?ol pend" using inv(5) by (simp add: queue_inv_def)
  have js: "jobs_inv st base (ol_segment ol) js" "jobs_inv st number (ol_segment ol) js"
    using inv(4) by (auto simp: jobs_inv_def assms(2))
  have image: "job_image cd (ol_jobs ol) (ol_dir ol) (ol_dir ?ol)"
    using run_job_image by (simp add: assms(2))
  show ?thesis
  proof (rule dir_inv_job [OF inv(2,4) image])
    assume "dir_inv st seg w base (ol_segment ol) (ol_dir ?ol)"
    with inv q js show ?thesis
      unfolding log_inv_def by (intro exI [of _ st] exI [of _ seg] exI [of _ w] exI [of _ pend] exI [of _ base]) simp
  next
    fix n c l assume "ol_jobs ol = (n, c) # l" "base < n" "n \<le> ol_segment ol"
      "dir_inv st seg w n (ol_segment ol) (ol_dir ?ol)"
    with inv q js assms(2) run_inv_later [OF inv(3), of n] show ?thesis
      unfolding log_inv_def by (intro exI [of _ st] exI [of _ seg] exI [of _ w] exI [of _ pend] exI [of _ n]) simp
  qed
qed

end

section \<open>Recovery after a crash\<close>

context durable_log begin

text \<open>What replay makes of a directory that ends in a possibly torn segment.\<close>

lemma recover_torn:
  assumes "dir_inv st seg w base cur dir1" "run_inv st seg base cur s" "seg cur = w @ pend" "j \<le> length pend"
    and p: "m < length (EncodeRecord (cd_crc cd) p)" "length p < 2 ^ 32"
    and dir: "dir = om_assign (SegmentPath cur)
      (enc (w @ take j pend) @ take m (EncodeRecord (cd_crc cd) p)) dir1"
  obtains state0 dir2 where "Recover cd exec load restore blank dir =
      (restore (fold exec (concat (map seg [base..<cur]) @ w @ take j pend) state0), cur, dir2)"
    "similar (st base) state0" "dir_inv st (seg(cur := w @ take j pend)) (w @ take j pend) base cur dir2"
proof -
  let ?w = "w @ take j pend"
  have d1: "om_ok dir1" "1 \<le> base" "base \<le> cur" "cur < 1000000" using assms(1) by (auto simp: dir_inv_def)
  have ok: "om_ok dir" using d1(1) by (simp add: dir om_intros)
  have find: "om_find dir x = (if x = SegmentPath cur then Some (enc ?w @ take m (EncodeRecord (cd_crc cd) p))
      else om_find dir1 x)" for x by (simp add: dir)
  have keys: "om_keys dir = om_keys dir1"
    using assms(1) by (auto simp: dir dir_inv_def om_find_in_keys)
  have whole: "\<forall>k \<in> set [base..<cur]. base \<le> k \<and> (\<forall>r \<in> set (seg k). fits cd r) \<and>
      om_find dir (SegmentPath k) = Some (enc (seg k))"
    using assms(1,2) d1 by (auto simp: dir_inv_def run_inv_def find)
  have w_fits: "\<forall>r \<in> set ?w. fits cd r"
    using assms(2,3) d1(3) by (auto simp: run_inv_def dest: in_set_takeD)
  have present: "\<forall>k. base \<le> k \<longrightarrow> k \<le> cur \<longrightarrow> SegmentPath k \<in> om_keys dir"
    using assms(1) by (auto simp: dir_inv_def keys om_find_in_keys le_less)
  have within: "\<forall>k < 1000000. SegmentPath k \<in> om_keys dir \<longrightarrow> k \<le> cur"
    using assms(1) by (simp add: dir_inv_def keys)
  note segs = replayed_segments [OF ok d1(3,4) present within]
  have read: "ReadSegment cd dir cur = \<lparr>rs_records = ?w, rs_torn_tail = 0 < m, rs_valid_bytes = length (enc ?w)\<rparr>"
    by (rule ReadSegment_torn [OF w_fits p]) (simp add: file_bytes_def find)
  let ?dir2 = "if 0 < m then TruncateSegment cur (length (enc ?w)) dir else dir"
  have replay: "fold (replay_segment cd exec base) (ListSegments dir) (s0, dir) =
      (fold exec (concat (map seg [base..<cur]) @ ?w) s0, ?dir2)" for s0
  proof -
    have "fold (replay_segment cd exec base) (ListSegments dir) (s0, dir) =
        replay_segment cd exec base cur (fold (replay_segment cd exec base) [base..<cur] (s0, dir))"
      by (simp add: fold_replay_filter [of _ _ _ "ListSegments dir"] segs(1))
    also have "fold (replay_segment cd exec base) [base..<cur] (s0, dir) =
        (fold exec (concat (map seg [base..<cur])) s0, dir)"
      by (rule replay_whole_segments [OF whole])
    also have "replay_segment cd exec base cur (x, dir) = (fold exec ?w x, ?dir2)" for x
      using d1(3) by (simp add: replay_segment_def read)
    finally show ?thesis by simp
  qed
  have find2: "om_find ?dir2 x = (if x = SegmentPath cur then Some (enc ?w) else om_find dir1 x)" for x
    by (simp add: TruncateSegment_def find)
  have keys2: "om_keys ?dir2 = om_keys dir1" by (simp add: TruncateSegment_def keys)
  have inv2: "dir_inv st (seg(cur := ?w)) ?w base cur ?dir2"
    using assms(1) ok unfolding dir_inv_def find2 keys2 by (auto simp: TruncateSegment_def)
  have active: "max (if ListSegments dir = [] then 1 else last (ListSegments dir)) base = cur"
    using segs d1(3) by simp
  show thesis
  proof (cases "om_find dir1 (CheckpointPath base) =
      Some (EncodeRecord (cd_crc cd) (cd_ser_ck cd (snapshot (st base)))) \<and> fits_ck cd (snapshot (st base))")
    case True
    then have "read_checkpoint cd dir base = Some (snapshot (st base))"
      by (intro read_checkpoint_written) (simp_all add: find)
    then have "LoadLatest cd dir = Some (base, snapshot (st base))"
      using d1 assms(1) True
      by (intro LoadLatest_newest) (auto simp: dir_inv_def keys om_find_in_keys)
    then have "Recover cd exec load restore blank dir =
        (restore (fold exec (concat (map seg [base..<cur]) @ ?w) (load (snapshot (st base)))), cur, ?dir2)"
      using d1(2) active by (simp add: Recover_def replay)
    moreover have "similar (st base) (load (snapshot (st base)))"
      using assms(2) similar_load by (auto simp: run_inv_def)
    ultimately show thesis using inv2 that by blast
  next
    case False
    then have none: "\<forall>n < 1000000. CheckpointPath n \<notin> om_keys dir" "base = 1" "similar (st 1) blank"
      using assms(1) by (auto simp: dir_inv_def keys)
    have "LoadLatest cd dir = None" by (rule LoadLatest_none [OF none(1)])
    then have "Recover cd exec load restore blank dir =
        (restore (fold exec (concat (map seg [base..<cur]) @ ?w) blank), cur, ?dir2)"
      using active replay [of blank] none(2) by (simp add: Recover_def)
    then show thesis using inv2 that none by blast
  qed
qed

lemma open_log_inv:
  assumes "dir_inv st (seg(cur := w)) w base cur dir" "run_inv st (seg(cur := w)) base cur s"
  shows "log_inv s (open_log cur dir)"
proof -
  have "om_find dir (SegmentPath cur) = Some (enc w)" using assms(1) by (simp add: dir_inv_def)
  then have ol: "ol_segment (open_log cur dir) = cur" "ol_dir (open_log cur dir) = dir"
    "ol_jobs (open_log cur dir) = []" "queue_inv (open_log cur dir) []"
    by (simp_all add: open_log_def OpenSegment_def om_emplace_def queue_inv_def)
  show ?thesis
    unfolding log_inv_def ol(1-3) using assms ol(4)
    by (intro exI [of _ st] exI [of _ "seg(cur := w)"] exI [of _ w] exI [of _ "[]"] exI [of _ base])
      (simp add: jobs_inv_def)
qed

text \<open>
  After a crash at any moment the recovered state stands for the live state at some earlier
  point of its life; only records still in the queue can be missing.
\<close>

lemma crash_recovery:
  assumes "log_inv s ol" "crash_image cd ol dir" "Recover cd exec load restore blank dir = (s', active, dir')"
  shows "\<exists>s1 lost. live s1 lost s \<and> similar s1 s' \<and> quiet s1 s' \<and> length lost \<le> length (ol_pending ol) \<and>
    log_inv s' (open_log active dir')"
proof -
  obtain st seg w pend base where inv: "seg (ol_segment ol) = w @ pend"
    "dir_inv st seg w base (ol_segment ol) (ol_dir ol)" "run_inv st seg base (ol_segment ol) s"
    "jobs_inv st base (ol_segment ol) (ol_jobs ol)" "queue_inv ol pend"
    using assms(1) by (rule log_invE)
  let ?cur = "ol_segment ol"
  obtain dir1 n where image: "job_image cd (ol_jobs ol) (ol_dir ol) dir1" and
    dir: "dir = om_assign (SegmentPath ?cur) (file_bytes dir1 (SegmentPath ?cur) @ take n (enc pend)) dir1"
    using assms(2) concat_enc [of "ol_pending ol" pend] inv(5) by (auto simp: crash_image_def queue_inv_def Let_def)
  obtain base1 where d1: "dir_inv st seg w base1 ?cur dir1" "run_inv st seg base1 ?cur s"
    using dir_inv_job [OF inv(2,4) image] inv(3) run_inv_later [OF inv(3)] by (metis less_imp_le)
  have bc: "base1 \<le> ?cur" using d1(1) by (simp add: dir_inv_def)
  have "\<forall>q \<in> set (map (cd_ser cd) pend). length q < 2 ^ 32"
    using d1(2) inv(1) bc by (auto simp: run_inv_def fits_def)
  from frames_prefix [OF this, of n "cd_crc cd"] obtain j p m where jpm: "j \<le> length pend"
    "take n (enc pend) = enc (take j pend) @ take m (EncodeRecord (cd_crc cd) p)"
    "m < length (EncodeRecord (cd_crc cd) p)" "length p < 2 ^ 32"
    by (auto simp: take_map)
  let ?w = "w @ take j pend" and ?hist = "concat (map seg [base1..<?cur])"
  have "file_bytes dir1 (SegmentPath ?cur) = enc w" using d1(1) by (simp add: dir_inv_def file_bytes_def)
  then have dir: "dir = om_assign (SegmentPath ?cur) (enc ?w @ take m (EncodeRecord (cd_crc cd) p)) dir1"
    by (simp add: dir jpm(2))
  obtain state0 dir2 where rec: "Recover cd exec load restore blank dir = (restore (fold exec (?hist @ ?w) state0), ?cur, dir2)"
    and sim0: "similar (st base1) state0" and inv2: "dir_inv st (seg(?cur := ?w)) ?w base1 ?cur dir2"
    by (rule recover_torn [OF d1 inv(1) jpm(1,3,4) dir])
  have s': "s' = restore (fold exec (?hist @ ?w) state0)" "active = ?cur" "dir' = dir2"
    using assms(3) rec by auto
  have "live (st ?cur) (?w @ drop j pend) s" using d1(2) inv(1) by (simp add: run_inv_def)
  then obtain s1 where s1: "live (st ?cur) ?w s1" "live s1 (drop j pend) s"
    using run_split by metis
  have "live (st base1) (?hist @ ?w) s1"
    using run_trans [OF s1(1) run_chain [OF d1(2) bc order_refl]] by simp
  then have "similar s1 (fold exec (?hist @ ?w) state0)" using sim0 by (rule similar_run)
  then have sim: "similar s1 s'" "quiet s1 s'" by (simp_all only: s' similar_restore quiet_restore)
  have "live (st ?cur) ?w s'" using run.silent [OF s1(1) sim(2)] .
  then have "run_inv st (seg(?cur := ?w)) base1 ?cur s'"
    using d1(2) inv(1) by (auto simp: run_inv_def dest: in_set_takeD)
  then have "log_inv s' (open_log active dir')"
    using open_log_inv inv2 by (simp add: s')
  moreover have "length (drop j pend) \<le> length (ol_pending ol)"
    using inv(5) by (metis queue_inv_def length_map length_drop diff_le_self)
  ultimately show ?thesis using s1(2) sim by blast
qed

lemma log_inv_step:
  assumes "log_step cd exec allowed quiet snapshot load restore blank (s, ol) (s', ol')" "log_inv s ol"
  shows "log_inv s' ol'"
  using assms
proof cases
  case append
  then show ?thesis using assms(2) log_inv_append by blast
next
  case quiet
  then show ?thesis using assms(2) log_inv_quiet by blast
next
  case flush
  then show ?thesis using assms(2) log_inv_flush by blast
next
  case rotate
  then show ?thesis using assms(2) log_inv_rotate by blast
next
  case (job number ck js io)
  then show ?thesis using assms(2) log_inv_job by blast
next
  case (crash dir active dir')
  then show ?thesis using crash_recovery [OF assms(2)] by blast
qed

text \<open>A fresh data directory.\<close>

lemma log_inv_fresh: "log_inv blank (open_log 1 [])"
proof -
  have ol: "ol_segment (open_log 1 []) = 1" "ol_dir (open_log 1 []) = [(SegmentPath 1, [])]"
    "ol_jobs (open_log 1 []) = []" "queue_inv (open_log 1 []) []"
    by (simp_all add: open_log_def OpenSegment_def om_emplace_def queue_inv_def)
  have "dir_inv (\<lambda>_. blank) (\<lambda>_. []) [] 1 1 [(SegmentPath 1, [])]"
    using similar_blank by (simp add: dir_inv_def om_ok_Cons)
  moreover have "run_inv (\<lambda>_. blank) (\<lambda>_. []) 1 1 blank"
    using similar_blank by (auto simp: run_inv_def run.start)
  ultimately show ?thesis
    unfolding log_inv_def ol(1-3) using ol(4)
    by (intro exI [of _ "\<lambda>_. blank"] exI [of _ "\<lambda>_. []"] exI [of _ "[]"] exI [of _ "[]"] exI [of _ 1])
      (simp add: jobs_inv_def)
qed

end

end
