(* ===== verification/MasterLog.thy ===== *)
theory MasterLog
  imports MasterRecovery OpLog
begin

text \<open>
  The master's state machine on its operation log: \<open>Master::Recover\<close> and \<open>Master::Log\<close> with the
  log of \<open>OpLog\<close>. The contract of the log is interpreted on the state machine, which gives the
  durability of the master, for any serialization and checksum (\<open>cd\<close>).
\<close>

interpretation master_log: durable_log Apply master_allowed master_quiet replica_of
  ToCheckpoint "\<lambda>ck. Load ck init_master_state" RecomputeRefcounts cd init_master_state
  for cd :: "(log_record, checkpoint) codec"
  by unfold_locales (rule replica_of_init)

abbreviation master_log_step ::
    "(log_record, checkpoint) codec \<Rightarrow> master_state \<times> checkpoint oplog \<Rightarrow> master_state \<times> checkpoint oplog \<Rightarrow> bool" where
  "master_log_step cd \<equiv> log_step cd Apply master_allowed master_quiet ToCheckpoint
     (\<lambda>ck. Load ck init_master_state) RecomputeRefcounts init_master_state"

text \<open>\<open>Master::Recover\<close>: the state, the active segment and the directory with torn tails cut.\<close>

definition MasterRecover ::
    "(log_record, checkpoint) codec \<Rightarrow> directory \<Rightarrow> master_state \<times> nat \<times> directory" where
  "MasterRecover cd dir =
     Recover cd Apply (\<lambda>ck. Load ck init_master_state) RecomputeRefcounts init_master_state dir"

definition master_reachable ::
    "(log_record, checkpoint) codec \<Rightarrow> master_state \<Rightarrow> checkpoint oplog \<Rightarrow> bool" where
  "master_reachable cd s ol \<longleftrightarrow> (master_log_step cd)\<^sup>*\<^sup>* (init_master_state, open_log 1 []) (s, ol)"

lemma master_reachable_step:
  "master_reachable cd s ol \<Longrightarrow> master_log_step cd (s, ol) (s', ol') \<Longrightarrow> master_reachable cd s' ol'"
  by (simp add: master_reachable_def)

lemma master_reachable_inv:
  assumes "master_reachable cd s ol"
  shows "master_log.log_inv cd s ol"
  using assms unfolding master_reachable_def
proof (induction "(s, ol)" arbitrary: s ol rule: rtranclp_induct)
  case base
  show ?case by (rule master_log.log_inv_fresh)
next
  case (step y s ol)
  then show ?case by (cases y) (blast intro: master_log.log_inv_step)
qed

lemma master_reachable_crash:
  assumes "master_reachable cd s ol" "crash_image cd ol dir" "MasterRecover cd dir = (s', active, dir')"
  shows "\<exists>s1 lost. master_run s1 lost s \<and> ms_view s' = ms_view s1 \<and> ms_ok s' \<and>
     length lost \<le> length (ol_pending ol)"
proof -
  obtain s1 lost where "master_run s1 lost s" "master_quiet s1 s'" "length lost \<le> length (ol_pending ol)"
    using master_log.crash_recovery [OF master_reachable_inv [OF assms(1)] assms(2)] assms(3)
    by (auto simp: MasterRecover_def)
  then show ?thesis by (auto simp: master_quiet_def)
qed

text \<open>What the queue holds is exactly what no caller has been told is flushed.\<close>

lemma queue_length:
  assumes "master_log.queue_inv cd ol pend"
  shows "ol_flushed_seq ol + length (ol_pending ol) + 1 = ol_next_seq ol"
proof -
  have "length (map fst (ol_pending ol)) = ol_next_seq ol - (ol_flushed_seq ol + 1)"
    using assms unfolding master_log.queue_inv_def by (metis length_upt)
  moreover have "length (map fst (ol_pending ol)) = length (ol_pending ol)" by simp
  ultimately show ?thesis using assms unfolding master_log.queue_inv_def by linarith
qed

lemma master_reachable_queue:
  assumes "master_reachable cd s ol"
  shows "ol_flushed_seq ol + length (ol_pending ol) + 1 = ol_next_seq ol"
  using master_log.log_invE [OF master_reachable_inv [OF assms]] queue_length by metis



section \<open>Where durability ends\<close>

text \<open>
  A failed write is acknowledged all the same: no byte reaches the segment, the queue is
  empty and every waiter returns.
\<close>

lemma fold_fst_last: "xs \<noteq> [] \<Longrightarrow> fold (\<lambda>e _. fst e) xs z = fst (last xs)"
  by (induction xs rule: rev_induct) auto

text \<open>
  When writing the log fails, the records are dropped and their waiters are told that
  they are durable all the same.
\<close>

lemma failed_flush:
  assumes "om_find (ol_dir ol) (SegmentPath (ol_segment ol)) = Some b" "ol_pending ol \<noteq> []"
  shows "om_find (ol_dir (flush_pending (IoFails 0) ol)) (SegmentPath (ol_segment ol)) = Some b \<and>
    ol_pending (flush_pending (IoFails 0) ol) = [] \<and>
    WaitFlushed_returns False (fst (last (ol_pending ol))) (flush_pending (IoFails 0) ol)"
  using assms
  by (auto simp: flush_pending_def WriteBatch_def WaitFlushed_returns_def Let_def file_bytes_def fold_fst_last)

text \<open>
  Pruning after a checkpoint removes every older segment, also the ones that an older
  checkpoint, which it keeps, would have to be replayed with.
\<close>

text \<open>
  After a checkpoint all older segments are gone, also those that the older checkpoint
  kept as a fallback would need.
\<close>

lemma prune_segments:
  assumes "k < newest" "newest < 1000000"
  shows "SegmentPath k \<notin> om_keys (Prune newest keep dir)"
proof -
  have find: "om_find (fold om_erase names d) x = (if x \<in> set names then None else om_find d x)" for names d x
    by (induction names arbitrary: d) auto
  show ?thesis
  proof (cases "SegmentPath k \<in> om_keys dir")
    case True
    then have "SegmentPath k \<in> set (prune_list newest keep dir)"
      using assms by (auto simp: prune_list_def in_ListSegments)
    then show ?thesis by (simp add: om_find_in_keys Prune_def find)
  next
    case False
    then show ?thesis by (simp add: om_find_in_keys Prune_def find)
  qed
qed

section \<open>Witnesses\<close>

text \<open>A serialization that covers what the witness writes: file creations.\<close>

definition create_codec :: "(log_record, checkpoint) codec" where
  "create_codec = \<lparr>cd_crc = (\<lambda>_. 0), cd_ser = (\<lambda>r. case r of CreateRec p \<Rightarrow> p | _ \<Rightarrow> []),
     cd_parse = (\<lambda>b. Some (CreateRec b)), cd_ser_ck = (\<lambda>_. []), cd_parse_ck = (\<lambda>_. None)\<rparr>"

definition created :: master_state where
  "created = Apply (CreateRec ''/a'') init_master_state"

definition created_log :: "checkpoint oplog" where
  "created_log = flush_pending IoOk (fst (Append create_codec (CreateRec ''/a'') (open_log 1 [])))"

lemma created_allowed: "master_allowed (CreateRec ''/a'') init_master_state"
proof -
  have rec: "rec_ok (CreateRec ''/a'') init_master_state" by code_simp
  have "ms_files created = [(''/a'', empty_meta)]" unfolding created_def by code_simp
  then have "refs_fit (ms_files (Apply (CreateRec ''/a'') init_master_state))"
    by (simp add: refs_fit_def refs_def created_def empty_meta_def)
  with rec show ?thesis by (simp add: master_allowed_def)
qed

lemma creation_reachable:
  assumes "fits cd (CreateRec ''/a'')"
  shows "master_reachable cd created (fst (Append cd (CreateRec ''/a'') (open_log 1 [])))"
proof -
  have "master_log_step cd (init_master_state, open_log 1 []) (created, fst (Append cd (CreateRec ''/a'') (open_log 1 [])))"
    unfolding created_def using created_allowed assms by (rule log_step.append)
  then show ?thesis unfolding master_reachable_def by (rule r_into_rtranclp)
qed

lemma created_reachable: "master_reachable create_codec created created_log"
proof -
  have "fits create_codec (CreateRec ''/a'')" by (simp add: fits_def create_codec_def)
  from master_reachable_step [OF creation_reachable [OF this] log_step.flush] show ?thesis by (simp add: created_log_def)
qed

lemma created_crash: "crash_image create_codec created_log (ol_dir created_log)"
proof -
  have "ol_pending created_log = []" by (simp add: created_log_def flush_pending_def WriteBatch_def Let_def)
  moreover have "om_assign p (file_bytes d p) d = d" if "om_find d p = Some b" "om_ok d" for p b and d :: directory
    using that by (intro om_ext) (auto simp: file_bytes_def om_intros fun_eq_iff)
  moreover have "om_find (ol_dir created_log) (SegmentPath (ol_segment created_log)) \<noteq> None" "om_ok (ol_dir created_log)"
    by (simp_all add: created_log_def flush_pending_def WriteBatch_def Append_def open_log_def OpenSegment_def om_intros
        om_emplace_def om_ok_def Let_def)
  ultimately show ?thesis
    unfolding crash_image_def job_image_def
    by (intro exI [of _ "ol_dir created_log"] exI [of _ 0]) (auto simp: Let_def)
qed



theorem failed_flush_witness:
  "WaitFlushed_returns False 1 (flush_pending (IoFails 0) (fst (Append create_codec (CreateRec ''/a'') (open_log 1 []))))"
proof -
  let ?ol = "fst (Append create_codec (CreateRec ''/a'') (open_log 1 []))"
  have "om_find (ol_dir ?ol) (SegmentPath (ol_segment ?ol)) = Some []" "ol_pending ?ol \<noteq> []"
    "fst (last (ol_pending ?ol)) = 1"
    by (simp_all add: Append_def open_log_def OpenSegment_def Let_def om_emplace_def)
  then show ?thesis using failed_flush [of ?ol "[]"] by simp
qed

theorem prune_segments_witness: "SegmentPath 1 \<notin> om_keys (Prune 2 2 [(SegmentPath 1, [])])"
  by (rule prune_segments) simp_all

end
