(* ===== verification/LogSink.thy ===== *)
theory LogSink
  imports MasterLog
begin

text \<open>
  \<open>LocalFileSink\<close> of \<open>src/src/master/oplog.cc\<close>, call by call: \<open>Write\<close> repeats \<open>write\<close> until everything is
  written or a call fails, and a signal counts as a failure. Together with \<open>WriteBatch\<close>, which goes on
  after a failure, this leaves half a record in the middle of a segment: what is logged and flushed
  after it cannot be read any more.
\<close>

section \<open>Writing\<close>

text \<open>
  \<open>calls i\<close> is what call \<open>i\<close> of \<open>write\<close> returns (never more than it was asked for); the value is the
  number of bytes that reached the file, and whether the loop got to the end.
\<close>

function sink_loop :: "(nat \<Rightarrow> int) \<Rightarrow> nat \<Rightarrow> nat \<Rightarrow> nat \<times> bool" where
  "sink_loop calls i remaining =
     (if remaining = 0 then (0, True)
      else if calls i \<le> 0 then (0, False)
      else let n = min (nat (calls i)) remaining
           in case sink_loop calls (i + 1) (remaining - n) of (m, ok) \<Rightarrow> (n + m, ok))"
  by pat_completeness auto
termination
  by (relation "measure (\<lambda>(calls, i, remaining). remaining)") auto

declare sink_loop.simps [simp del]

text \<open>The outcome, as \<open>OpLog.WriteBatch\<close> has it; \<open>synced\<close> is what \<open>fsync\<close> says.\<close>

definition sink_io :: "(nat \<Rightarrow> int) \<Rightarrow> bytes \<Rightarrow> io_result" where
  "sink_io calls bytes = (case sink_loop calls 0 (length bytes) of (n, ok) \<Rightarrow> if ok then IoOk else IoFails n)"

lemma sink_loop_bound: "fst (sink_loop calls i k) \<le> k \<and> (snd (sink_loop calls i k) \<longleftrightarrow> fst (sink_loop calls i k) = k)"
proof (induction calls i k rule: sink_loop.induct)
  case (1 calls i k)
  show ?case
  proof (cases "k = 0 \<or> calls i \<le> 0")
    case True
    then show ?thesis by (auto simp: sink_loop.simps [of calls i k])
  next
    case False
    let ?n = "min (nat (calls i)) k"
    obtain m ok where m: "sink_loop calls (i + 1) (k - ?n) = (m, ok)" by (metis surj_pair)
    then have "m \<le> k - ?n" "ok \<longleftrightarrow> m = k - ?n" using 1 False by auto
    moreover have "sink_loop calls i k = (?n + m, ok)" using False m by (simp add: sink_loop.simps [of calls i k] Let_def)
    ultimately show ?thesis by auto
  qed
qed

text \<open>
  What reaches the file is a prefix of the batch, and all of it exactly when the call is successful; a
  signal before the first byte writes nothing.
\<close>

lemma sink_io_prefix:
  "(sink_io calls bytes = IoOk \<or> (\<exists>n < length bytes. sink_io calls bytes = IoFails n)) \<and>
   ((\<forall>i. calls i > 0) \<longrightarrow> sink_io calls bytes = IoOk) \<and>
   (bytes \<noteq> [] \<longrightarrow> calls 0 = -1 \<longrightarrow> sink_io calls bytes = IoFails 0)"
proof -
  have "snd (sink_loop calls i k)" if "\<forall>i. calls i > 0" for i k
    using that
  proof (induction calls i k rule: sink_loop.induct)
    case (1 calls i k)
    have "\<not> calls i \<le> 0" using 1(2) by (simp add: not_le)
    then show ?case using 1 by (cases "k = 0") (auto simp: sink_loop.simps [of calls i k] sink_loop.simps [of calls i 0] Let_def split: prod.splits)
  qed
  then have "(\<forall>i. calls i > 0) \<longrightarrow> sink_io calls bytes = IoOk" by (metis (mono_tags, lifting) case_prod_beta sink_io_def)
  moreover have "bytes \<noteq> [] \<longrightarrow> calls 0 = -1 \<longrightarrow> sink_io calls bytes = IoFails 0"
    by (simp add: sink_io_def sink_loop.simps)
  ultimately show ?thesis
    using sink_loop_bound [of calls 0 "length bytes"] by (auto simp: sink_io_def split: prod.splits)
qed

section \<open>Half a record\<close>

text \<open>
  Two files are created. The write of the first record is cut after four bytes, that of the second one
  succeeds, and so everybody is told that both records are durable.
\<close>

definition cut_log :: "checkpoint oplog" where
  "cut_log = flush_pending (sink_io (\<lambda>i. if i = 0 then 4 else -1) (EncodeRecord (cd_crc create_codec) ''/a''))
     (fst (Append create_codec (CreateRec ''/a'') (open_log 1 [])))"

definition resumed_log :: "checkpoint oplog" where
  "resumed_log = flush_pending IoOk (fst (Append create_codec (CreateRec ''/b'') cut_log))"


end
