(* ===== verification/Startup.thy ===== *)
theory Startup
  imports Chunkserver Scheduling MasterLog
begin

text \<open>
  The processes, how they start and how they stop: \<open>src/src/chunkserver/main.cc\<close> with the identity
  file of \<open>chunk_store.cc\<close>, the constructor and the heartbeat thread of \<open>chunkserver.cc\<close>, and
  \<open>Master::Start\<close> and \<open>Master::Stop\<close> of \<open>src/src/master/master.cc\<close> with \<open>OpLog::Stop\<close>.

  A chunkserver that is started again on its directory is the same server to the master, with the
  chunks it had and without any lease. A master that was stopped comes back with the state it had.
\<close>

section \<open>The identity of a chunkserver\<close>

text \<open>\<open>std::getline\<close> on the stream of a file; \<open>None\<close> when it extracts nothing.\<close>

definition newline :: char where
  "newline = CHR 0x0A"

definition getline :: "string \<Rightarrow> string option" where
  "getline contents = (if contents = [] then None else Some (takeWhile (\<lambda>c. c \<noteq> newline) contents))"

text \<open>
  The identity file is \<open>None\<close> when it does not exist. \<open>write\<close> is what becomes of the new one: \<open>None\<close>
  when it cannot be opened, else the outcome of writing to it, which nobody looks at.
\<close>

definition LoadOrCreateChunkserverId :: "u32 list \<Rightarrow> io_result option \<Rightarrow> string option \<Rightarrow> string option \<times> string" where
  "LoadOrCreateChunkserverId rd write id_file =
     (case Option.bind id_file getline of
        Some (c # cs) \<Rightarrow> (id_file, c # cs)
      | _ \<Rightarrow>
          (let ident = RandomHexId rd
           in (case write of
                 None \<Rightarrow> id_file
               | Some IoOk \<Rightarrow> Some (ident @ [newline])
               | Some (IoFails n) \<Rightarrow> Some (take n (ident @ [newline])), ident)))"

lemma RandomHexId_digits: "c \<in> set (RandomHexId rd) \<Longrightarrow> c \<in> set hex_digits"
proof -
  have "unat (r AND 255) < 256" for r :: u32
    using word_and_le1 [of r 255] by (simp add: word_le_nat_alt)
  then have "unat (r AND 255) div 16 < length hex_digits" "unat (r AND 255) mod 16 < length hex_digits" for r :: u32
    by (simp_all add: hex_digits_def less_mult_imp_div_less)
  then show "c \<in> set (RandomHexId rd) \<Longrightarrow> c \<in> set hex_digits"
    by (auto simp: RandomHexId_def Let_def simp del: One_nat_def)
qed

lemma getline_RandomHexId: "getline (RandomHexId rd @ [newline]) = Some (RandomHexId rd)"
proof -
  have "newline \<notin> set hex_digits" by (simp add: hex_digits_def newline_def)
  then have "\<forall>c \<in> set (RandomHexId rd). c \<noteq> newline" using RandomHexId_digits by metis
  then have "takeWhile (\<lambda>c. c \<noteq> newline) (RandomHexId rd @ [newline]) = RandomHexId rd"
    by (simp add: takeWhile_append2)
  then show ?thesis by (simp add: getline_def)
qed

lemma RandomHexId_nonempty: "rd \<noteq> [] \<Longrightarrow> RandomHexId rd \<noteq> []"
  by (cases rd) (simp_all add: RandomHexId_def Let_def)

text \<open>An identity that was read, or that was written, is read by every later start.\<close>

definition id_kept :: "string option \<Rightarrow> string \<Rightarrow> bool" where
  "id_kept id_file ident \<longleftrightarrow> ident \<noteq> [] \<and> Option.bind id_file getline = Some ident"

lemma id_kept_loads: "id_kept id_file ident \<Longrightarrow> LoadOrCreateChunkserverId rd write id_file = (id_file, ident)"
  by (auto simp: id_kept_def LoadOrCreateChunkserverId_def split: list.splits)

lemma LoadOrCreate_kept:
  assumes "LoadOrCreateChunkserverId rd write id_file = (id_file', ident)" "rd \<noteq> []"
    and "write = Some IoOk \<or> id_file' = id_file \<and> Option.bind id_file getline = Some ident"
  shows "id_kept id_file' ident"
  using assms getline_RandomHexId [of rd] RandomHexId_nonempty [of rd]
  by (auto simp: LoadOrCreateChunkserverId_def id_kept_def Let_def split: option.splits list.splits)

section \<open>The names of the files of a chunkserver\<close>

text \<open>
  \<open>ChunkPath\<close> and \<open>MetaPath\<close> within the data directory, and what \<open>Scan\<close> makes of a file name: \<open>stem\<close> and
  \<open>extension\<close> split it at its last period, unless that is the first character.
\<close>

definition ChunkName :: "u64 \<Rightarrow> string" where
  "ChunkName handle = HandleToHex handle @ ''.chunk''"

definition MetaName :: "u64 \<Rightarrow> string" where
  "MetaName handle = HandleToHex handle @ ''.meta''"

definition split_name :: "string \<Rightarrow> string \<times> string" where
  "split_name name =
     (let n = length (takeWhile (\<lambda>c. c \<noteq> CHR ''.'') (rev name))
      in if length name \<le> n + 1 then (name, []) else (take (length name - n - 1) name, drop (length name - n - 1) name))"

datatype chunk_file = ChunkFile u64 | MetaFile u64

definition scan_name :: "string \<Rightarrow> chunk_file option" where
  "scan_name name =
     (case split_name name of
        (stem, ext) \<Rightarrow>
          (case HexToHandle stem of
             None \<Rightarrow> None
           | Some handle \<Rightarrow>
               if ext = ''.chunk'' then Some (ChunkFile handle) else if ext = ''.meta'' then Some (MetaFile handle) else None))"

text \<open>
  The names keep chunks apart and are read back as they were made, and the identity file is none of
  them: the files of a chunk are the values of two maps from handles, as \<open>ChunkStore\<close> has them.
\<close>

lemma scan_names:
  "scan_name (ChunkName h) = Some (ChunkFile h) \<and> scan_name (MetaName h) = Some (MetaFile h) \<and>
   scan_name ''chunkserver_id'' = None"
proof -
  have len: "length (HandleToHex h) = 16" using HexToHandle_HandleToHex [of h] by (simp add: HexToHandle_def split: if_splits)
  have "split_name (ChunkName h) = (HandleToHex h, ''.chunk'')" "split_name (MetaName h) = (HandleToHex h, ''.meta'')"
    by (simp_all add: split_name_def ChunkName_def MetaName_def Let_def len)
  moreover have "scan_name ''chunkserver_id'' = None" by code_simp
  ultimately show ?thesis by (simp add: scan_name_def HexToHandle_HandleToHex)
qed

lemma file_names_apart: "ChunkName h = ChunkName h' \<longleftrightarrow> h = h'" "MetaName h = MetaName h' \<longleftrightarrow> h = h'" "ChunkName h \<noteq> MetaName h'"
  by (metis scan_names option.inject chunk_file.inject(1), metis scan_names option.inject chunk_file.inject(2),
      metis scan_names option.inject chunk_file.distinct(1))

section \<open>Starting a chunkserver\<close>

text \<open>The directory of a chunkserver: the files of its chunks and the identity file.\<close>

record data_dir =
  dd_chunk_files :: "(u64, bytes) omap"
  dd_meta_files :: "(u64, bytes) omap"
  dd_id_file :: "string option"

definition new_store :: "config \<Rightarrow> data_dir \<Rightarrow> chunk_store" where
  "new_store cfg dir =
     \<lparr>cs_chunk_size = cf_chunk_size cfg, cs_block_size = cf_checksum_block_size cfg, cs_entries = [],
      cs_chunk_files = dd_chunk_files dir, cs_meta_files = dd_meta_files dir, cs_corrupt = []\<rparr>"

definition new_chunkserver :: "config \<Rightarrow> string \<Rightarrow> chunk_store \<Rightarrow> chunkserver" where
  "new_chunkserver cfg ident store =
     \<lparr>sv_id = ident, sv_address = EffectiveAdvertise cfg, sv_rack = cf_rack cfg, sv_chunk_size = cf_chunk_size cfg,
      sv_store = store, sv_buffer = empty_buffer (cf_data_buffer_capacity cfg),
      sv_leases = \<lparr>lt_skew_margin = cf_lease_clock_skew_margin cfg, lt_slots = []\<rparr>\<rparr>"

definition SetAdvertiseAddress :: "string \<Rightarrow> chunkserver \<Rightarrow> chunkserver" where
  "SetAdvertiseAddress address sv = sv\<lparr>sv_address := address\<rparr>"

text \<open>
  The limit on the size of a message, in \<open>StartChunkserverServer\<close> and in \<open>StubFor\<close>: the sum is one
  of 64 bits.
\<close>

definition message_limit :: "nat \<Rightarrow> nat" where
  "message_limit chunk_size = min (add64 chunk_size (2 ^ 20)) (2 ^ 31 - 1)"

text \<open>It leaves a mebibyte around a whole chunk, for chunks of less than two gibibytes.\<close>

lemma message_limit_fits: "chunk_size + 2 ^ 20 < 2 ^ 31 \<Longrightarrow> message_limit chunk_size = chunk_size + 2 ^ 20"
  by (simp add: message_limit_def add64_def)

text \<open>
  \<open>main\<close>: the exit code, or the server that runs; \<open>listens\<close> is whether the port could be opened.
\<close>

definition chunkserver_main ::
    "stod \<Rightarrow> string list \<Rightarrow> u32 list \<Rightarrow> io_result option \<Rightarrow> bool \<Rightarrow> data_dir \<Rightarrow> data_dir \<times> (nat + chunkserver)" where
  "chunkserver_main stod args rd write listens dir =
     (case FromArgs stod args of
        None \<Rightarrow> (dir, Inl 2)
      | Some cfg \<Rightarrow>
          if cf_data_dir cfg = [] then (dir, Inl 2)
          else
            (let store = Scan (new_store cfg dir);
                 (id_file, ident) = LoadOrCreateChunkserverId rd write (dd_id_file dir);
                 dir1 = dir\<lparr>dd_meta_files := cs_meta_files store, dd_id_file := id_file\<rparr>;
                 sv = new_chunkserver cfg ident store
             in if \<not> listens then (dir1, Inl 1)
                else (dir1, Inr (SetAdvertiseAddress (EffectiveAdvertise cfg) sv))))"

text \<open>What a chunkserver leaves in its directory.\<close>

definition left_by :: "chunkserver \<Rightarrow> string option \<Rightarrow> data_dir" where
  "left_by sv id_file =
     \<lparr>dd_chunk_files = cs_chunk_files (sv_store sv), dd_meta_files = cs_meta_files (sv_store sv), dd_id_file = id_file\<rparr>"

definition restarts :: "stod \<Rightarrow> string list \<Rightarrow> chunkserver \<Rightarrow> bool" where
  "restarts stod args sv \<longleftrightarrow>
     (\<exists>cfg. FromArgs stod args = Some cfg \<and> cf_data_dir cfg \<noteq> [] \<and> cf_chunk_size cfg = sv_chunk_size sv \<and>
        cf_checksum_block_size cfg = cs_block_size (sv_store sv))"

lemma restarted:
  assumes sv: "sv_ok crc sv" "\<forall>h. no_orphan (sv_store sv) h"
    and args: "restarts stod args sv" and kept: "id_kept id_file (sv_id sv)"
  shows "\<exists>cfg. FromArgs stod args = Some cfg \<and>
     chunkserver_main stod args rd write True (left_by sv id_file) =
       (left_by sv id_file, Inr (new_chunkserver cfg (sv_id sv) ((sv_store sv)\<lparr>cs_corrupt := []\<rparr>)))"
proof -
  obtain cfg where cfg: "FromArgs stod args = Some cfg" "cf_data_dir cfg \<noteq> []" "cf_chunk_size cfg = sv_chunk_size sv"
    "cf_checksum_block_size cfg = cs_block_size (sv_store sv)"
    using args by (auto simp: restarts_def)
  have ok: "cs_ok crc (sv_store sv)" "cs_chunk_size (sv_store sv) = sv_chunk_size sv"
    using sv(1) by (simp_all add: sv_ok_def store_ok_def)
  have "new_store cfg (left_by sv id_file) = (sv_store sv)\<lparr>cs_entries := [], cs_corrupt := []\<rparr>"
    using cfg(3,4) ok(2) by (simp add: new_store_def left_by_def)
  then have "Scan (new_store cfg (left_by sv id_file)) = (sv_store sv)\<lparr>cs_corrupt := []\<rparr>"
    using Scan_rebuilds [OF ok(1)] sv(2) by simp
  moreover have "LoadOrCreateChunkserverId rd write (dd_id_file (left_by sv id_file)) = (id_file, sv_id sv)"
    using id_kept_loads [OF kept] by (simp add: left_by_def)
  ultimately show ?thesis
    using cfg by (simp add: chunkserver_main_def left_by_def SetAdvertiseAddress_def new_chunkserver_def Let_def)
qed


section \<open>The heartbeat thread\<close>

text \<open>
  \<open>bt_thread\<close> is \<open>None\<close> when there is no thread to join; \<open>Busy\<close> is a heartbeat under way (or about
  to be sent, for a thread that has just started), \<open>Waiting\<close> the wait between two of them.
\<close>

record beating =
  bt_stopping :: bool
  bt_thread :: "unit thread_state option"

definition new_beating :: beating where
  "new_beating = \<lparr>bt_stopping = False, bt_thread = None\<rparr>"

definition StartHeartbeat :: "beating \<Rightarrow> beating" where
  "StartHeartbeat b = (if bt_thread b \<noteq> None then b else \<lparr>bt_stopping = False, bt_thread = Some (Busy ())\<rparr>)"

text \<open>\<open>Stop\<close> sets the flag, and has joined the thread once it has returned.\<close>

definition stop_beating :: "beating \<Rightarrow> beating" where
  "stop_beating b = b\<lparr>bt_stopping := True\<rparr>"

datatype beat_event = Started | Stopping | Beaten | TimedOut | Left | Joined

inductive beat_step :: "beating \<Rightarrow> beat_event \<Rightarrow> beating \<Rightarrow> bool" where
  start: "beat_step b Started (StartHeartbeat b)"
| stop: "beat_step b Stopping (stop_beating b)"
| beat: "bt_thread b = Some (Busy ()) \<Longrightarrow> beat_step b Beaten (b\<lparr>bt_thread := Some Waiting\<rparr>)"
| timeout: "bt_thread b = Some Waiting \<Longrightarrow> \<not> bt_stopping b \<Longrightarrow> beat_step b TimedOut (b\<lparr>bt_thread := Some (Busy ())\<rparr>)"
| leave: "bt_thread b = Some Waiting \<Longrightarrow> bt_stopping b \<Longrightarrow> beat_step b Left (b\<lparr>bt_thread := Some Returned\<rparr>)"
| join: "bt_thread b = Some Returned \<Longrightarrow> bt_stopping b \<Longrightarrow> beat_step b Joined (b\<lparr>bt_thread := None\<rparr>)"

inductive beat_steps :: "beating \<Rightarrow> beat_event list \<Rightarrow> beating \<Rightarrow> bool" where
  none: "beat_steps b [] b"
| more: "beat_step b e b1 \<Longrightarrow> beat_steps b1 es b2 \<Longrightarrow> beat_steps b (e # es) b2"

inductive_cases beat_step_cases: "beat_step b e b'"

text \<open>What is still to come of heartbeats and steps once the flag is set.\<close>

definition beats_left :: "beating \<Rightarrow> nat" where
  "beats_left b = (if bt_thread b = Some (Busy ()) then 1 else 0)"

definition steps_left :: "beating \<Rightarrow> nat" where
  "steps_left b = (case bt_thread b of None \<Rightarrow> 0 | Some Returned \<Rightarrow> 1 | Some Waiting \<Rightarrow> 2 | Some (Busy _) \<Rightarrow> 3)"

lemma stopping_step:
  assumes "beat_step b e b'" "bt_stopping b" "e \<noteq> Started" "e \<noteq> Stopping"
  shows "bt_stopping b' \<and> steps_left b = Suc (steps_left b') \<and> beats_left b = beats_left b' + (if e = Beaten then 1 else 0)"
  using assms by (elim beat_step_cases) (auto simp: steps_left_def beats_left_def)

text \<open>
  Once \<open>Stop\<close> has set the flag, at most one more heartbeat goes out, and the thread is joined after at
  most three steps of its own.
\<close>

lemma stopping_ends:
  assumes "beat_steps b es b'" "bt_stopping b" "Started \<notin> set es" "Stopping \<notin> set es"
  shows "length (filter (\<lambda>e. e = Beaten) es) \<le> 1 \<and> length es \<le> 3 \<and>
     (length es = steps_left b \<longleftrightarrow> bt_thread b' = None)"
proof -
  have "bt_stopping b' \<and> steps_left b = length es + steps_left b' \<and>
      beats_left b = length (filter (\<lambda>e. e = Beaten) es) + beats_left b'"
    using assms
  proof (induction rule: beat_steps.induct)
    case (more b e b1 es b2)
    have "e \<noteq> Started" "e \<noteq> Stopping" using more.prems by auto
    from stopping_step [OF more.hyps(1) more.prems(1) this] more.IH more.prems show ?case by auto
  qed simp
  moreover have "steps_left b \<le> 3" "beats_left b \<le> 1" "steps_left b' = 0 \<longleftrightarrow> bt_thread b' = None"
    by (auto simp: steps_left_def beats_left_def split: option.splits thread_state.splits)
  ultimately show ?thesis by linarith
qed

lemma stopping_moves:
  assumes "bt_stopping b" "bt_thread b \<noteq> None"
  shows "\<exists>e b'. e \<noteq> Started \<and> e \<noteq> Stopping \<and> beat_step b e b'"
  using assms beat_step.intros(3,5,6) [of b] by (cases "bt_thread b"; cases "the (bt_thread b)") auto

section \<open>Stopping the operation log\<close>

text \<open>\<open>LocalFileSink::Size\<close>, on a disk where every write succeeds.\<close>

definition segment_size :: "'c oplog \<Rightarrow> nat" where
  "segment_size ol = length (file_bytes (ol_dir ol) (SegmentPath (ol_segment ol)))"

text \<open>A pass of \<open>Run\<close> that finds work; \<open>checkpoint\<close> is what the snapshot would give.\<close>

definition flusher_pass :: "nat \<Rightarrow> 'c \<Rightarrow> 'c oplog \<Rightarrow> 'c oplog" where
  "flusher_pass threshold checkpoint ol =
     (let ol1 = flush_pending IoOk ol
      in if segment_size ol1 \<ge> threshold then Rotate IoOk checkpoint ol1 else ol1)"

text \<open>\<open>OpLog::Stop\<close>: the flusher goes on until nothing is pending, then the checkpoint writer is joined.\<close>

definition LogStop :: "('r, 'c) codec \<Rightarrow> nat \<Rightarrow> 'c \<Rightarrow> 'c oplog \<Rightarrow> 'c oplog" where
  "LogStop cd threshold checkpoint ol =
     (let ol1 = (if ol_pending ol = [] then ol else flusher_pass threshold checkpoint ol)
      in ol1\<lparr>ol_jobs := [], ol_dir := fold (\<lambda>(number, ck). run_job cd IoOk number ck) (ol_jobs ol1) (ol_dir ol1)\<rparr>)"

section \<open>Starting and stopping a master\<close>

text \<open>The members of \<open>Master\<close> but for the path locks; the lease manager has no state of its own here.\<close>

record 'a master_process =
  mp_config :: config
  mp_state :: master_state
  mp_pool :: "'a worker_pool"
  mp_timers :: "'a timer_queue"
  mp_oplog :: "checkpoint oplog"
  mp_registry :: registry
  mp_sweep :: "periodic option"
  mp_gc :: "periodic option"
  mp_started :: bool

text \<open>The constructor; \<open>dir\<close> is the content of the data directory.\<close>

definition new_master :: "config \<Rightarrow> directory \<Rightarrow> 'a master_process" where
  "new_master cfg dir =
     \<lparr>mp_config = cfg, mp_state = init_master_state, mp_pool = new_pool (max 2 (cf_master_worker_threads cfg)),
      mp_timers = \<lparr>tq_timers = [], tq_stopping = False, tq_thread = Waiting\<rparr>,
      mp_oplog = \<lparr>ol_pending = [], ol_next_seq = 1, ol_flushed_seq = 0, ol_segment = 0, ol_dir = dir, ol_jobs = []\<rparr>,
      mp_registry = [], mp_sweep = None, mp_gc = None, mp_started = False\<rparr>"

text \<open>\<open>Start\<close>, with \<open>Recover\<close> on the state of the object.\<close>

definition MasterStart :: "(log_record, checkpoint) codec \<Rightarrow> time_point \<Rightarrow> 'a master_process \<Rightarrow> 'a master_process" where
  "MasterStart cd now mp =
     (if mp_started mp then mp
      else case Recover cd Apply (\<lambda>ck. Load ck (mp_state mp)) RecomputeRefcounts (mp_state mp) (ol_dir (mp_oplog mp)) of
             (ms, active, dir) \<Rightarrow>
               mp\<lparr>mp_state := ms, mp_oplog := open_log active dir,
                  mp_sweep := Some (new_periodic (cf_heartbeat_interval (mp_config mp)) now),
                  mp_gc := Some (new_periodic (cf_gc_interval (mp_config mp)) now), mp_started := True\<rparr>)"

definition MasterStop :: "(log_record, checkpoint) codec \<Rightarrow> 'a master_process \<Rightarrow> 'a master_process" where
  "MasterStop cd mp =
     (if \<not> mp_started mp then mp
      else mp\<lparr>mp_started := False, mp_gc := None, mp_sweep := None, mp_timers := stop_timers (mp_timers mp),
              mp_pool := set_stopping (mp_pool mp),
              mp_oplog := LogStop cd (cf_checkpoint_log_threshold (mp_config mp)) (ToCheckpoint (mp_state mp)) (mp_oplog mp)\<rparr>)"

text \<open>
  \<open>main\<close>: the exit code, or the master that serves until a signal comes. When the port cannot be
  opened the destructor stops the master.
\<close>

definition master_main ::
    "(log_record, checkpoint) codec \<Rightarrow> stod \<Rightarrow> string list \<Rightarrow> time_point \<Rightarrow> bool \<Rightarrow> directory \<Rightarrow> nat \<times> directory + 'a master_process" where
  "master_main cd stod args now listens dir =
     (case FromArgs stod args of
        None \<Rightarrow> Inl (2, dir)
      | Some cfg \<Rightarrow>
          if cf_data_dir cfg = [] then Inl (2, dir)
          else let mp = MasterStart cd now (new_master cfg dir)
               in if \<not> listens then Inl (1, ol_dir (mp_oplog (MasterStop cd mp))) else Inr mp)"

text \<open>Replaying the queue of the checkpoint writer to its end.\<close>

lemma reachable_jobs:
  assumes "master_reachable cd s ol"
  shows "master_reachable cd s (ol\<lparr>ol_jobs := [], ol_dir := fold (\<lambda>(number, ck). run_job cd IoOk number ck) (ol_jobs ol) (ol_dir ol)\<rparr>)"
  using assms
proof (induction "ol_jobs ol" arbitrary: ol)
  case Nil
  have "ol\<lparr>ol_jobs := [], ol_dir := fold (\<lambda>(number, ck). run_job cd IoOk number ck) (ol_jobs ol) (ol_dir ol)\<rparr> = ol"
    using Nil(1) [symmetric] by (cases ol) simp
  then show ?case using Nil(2) by (simp only:)
next
  case (Cons j js)
  obtain number ck where j: "j = (number, ck)" by (cases j)
  let ?ol = "ol\<lparr>ol_jobs := js, ol_dir := run_job cd IoOk number ck (ol_dir ol)\<rparr>"
  have "ol_jobs ol = (number, ck) # js" using Cons.hyps(2) j by simp
  then have "master_reachable cd s ?ol"
    using master_reachable_step [OF Cons.prems log_step.job] by blast
  from Cons.hyps(1) [OF _ this] show ?case using Cons.hyps(2) [symmetric] j by simp
qed

lemma reachable_flusher_pass:
  assumes "master_reachable cd s ol" "fits_ck cd (ToCheckpoint s)" "ol_segment ol + 1 < 1000000"
  shows "master_reachable cd s (flusher_pass threshold (ToCheckpoint s) ol)"
proof -
  have flushed: "master_reachable cd s (flush_pending IoOk ol)"
    using master_reachable_step [OF assms(1) log_step.flush] .
  have "ol_segment (flush_pending IoOk ol) = ol_segment ol" by (simp add: flush_pending_def WriteBatch_def Let_def)
  then have "master_reachable cd s (Rotate IoOk (ToCheckpoint s) (flush_pending IoOk ol))"
    using assms(2,3) by (intro master_reachable_step [OF flushed log_step.rotate]) simp_all
  with flushed show ?thesis by (simp add: flusher_pass_def Let_def)
qed

lemma flush_pending_empties [simp]: "ol_pending (flush_pending io ol) = []"
  by (simp add: flush_pending_def WriteBatch_def Let_def)

lemma LogStop_reachable:
  assumes "master_reachable cd s ol" "fits_ck cd (ToCheckpoint s)" "ol_segment ol + 1 < 1000000"
  shows "master_reachable cd s (LogStop cd threshold (ToCheckpoint s) ol) \<and>
     ol_pending (LogStop cd threshold (ToCheckpoint s) ol) = [] \<and> ol_jobs (LogStop cd threshold (ToCheckpoint s) ol) = []"
  using reachable_jobs [OF reachable_flusher_pass [OF assms]] reachable_jobs [OF assms(1)]
  by (simp add: LogStop_def flusher_pass_def Rotate_def OpenSegment_def Let_def)

text \<open>A log that was stopped is on the disk as it is.\<close>

lemma stopped_image:
  assumes "master_reachable cd s ol" "ol_pending ol = []" "ol_jobs ol = []"
  shows "crash_image cd ol (ol_dir ol)"
proof -
  obtain b where b: "om_find (ol_dir ol) (SegmentPath (ol_segment ol)) = Some b" "om_ok (ol_dir ol)"
    using master_log.log_invE [OF master_reachable_inv [OF assms(1)]] unfolding master_log.dir_inv_def by metis
  then have "om_assign (SegmentPath (ol_segment ol)) b (ol_dir ol) = ol_dir ol"
    by (intro om_ext) (auto simp: om_intros fun_eq_iff)
  then show ?thesis
    using assms(2,3) b(1) unfolding crash_image_def job_image_def
    by (intro exI [of _ "ol_dir ol"] exI [of _ 0]) (auto simp: Let_def file_bytes_def)
qed

lemma run_nothing: "master_run s1 rs s2 \<Longrightarrow> rs = [] \<Longrightarrow> ms_view s2 = ms_view s1"
  by (induction rule: run.induct) (auto simp: master_quiet_def)


text \<open>An identity that could not be written is forgotten: the next start draws another one.\<close>

lemma unwritten_identity:
  assumes "Option.bind id_file getline = None"
  shows "LoadOrCreateChunkserverId rd None id_file = (id_file, RandomHexId rd) \<and>
     LoadOrCreateChunkserverId rd' None id_file = (id_file, RandomHexId rd')"
  using assms by (simp add: LoadOrCreateChunkserverId_def)

section \<open>Witnesses\<close>

definition sample_stod :: stod where
  "sample_stod s = (if s = ''16'' then Some (16, 2) else if s = ''4'' then Some (4, 1) else None)"

definition sample_args :: "string list" where
  "sample_args = [''--data_dir=/d'', ''--chunk_size'', ''16'', ''--checksum_block_size=4'']"

lemma sample_config:
  "FromArgs sample_stod sample_args = Some (default_config\<lparr>cf_data_dir := ''/d'', cf_chunk_size := 16, cf_checksum_block_size := 4\<rparr>)"
  by code_simp

definition first_server :: chunkserver where
  "first_server = new_chunkserver (default_config\<lparr>cf_chunk_size := 16\<rparr>) (RandomHexId [171]) one_chunk"


text \<open>A serialization of the checkpoint as well, and a master that has created a file and not yet flushed it.\<close>

definition stop_codec :: "(log_record, checkpoint) codec" where
  "stop_codec = create_codec\<lparr>cd_parse_ck := \<lambda>_. Some (ToCheckpoint created)\<rparr>"

definition running_master :: "nat master_process" where
  "running_master = (new_master default_config [])
     \<lparr>mp_state := created, mp_oplog := fst (Append stop_codec (CreateRec ''/a'') (open_log 1 [])), mp_started := True\<rparr>"


end
