(* ===== verification/LocationCache.thy ===== *)
theory LocationCache
  imports StdMap "HOL-Library.Product_Lexorder"
begin

text \<open>
  The client's caches, \<open>src/src/client/location_cache.h\<close>: entries by path and chunk index
  with a time to live. The template parameter is the type variable; \<open>Get\<close> and \<open>Put\<close> take the
  time \<open>t\<close> at which they read the clock.
\<close>

record 'e cached =
  ce_entry :: 'e
  ce_expiry :: time_point

record 'e expiring_cache =
  ec_ttl :: millis
  ec_entries :: "(string \<times> nat, 'e cached) omap"

definition Get :: "time_point \<Rightarrow> string \<Rightarrow> nat \<Rightarrow> 'e expiring_cache \<Rightarrow> 'e expiring_cache \<times> 'e option" where
  "Get t path index c =
     (case om_find (ec_entries c) (path, index) of
        None \<Rightarrow> (c, None)
      | Some e \<Rightarrow>
          if ce_expiry e \<le> t then (c\<lparr>ec_entries := om_erase (path, index) (ec_entries c)\<rparr>, None)
          else (c, Some (ce_entry e)))"

definition Put :: "time_point \<Rightarrow> string \<Rightarrow> nat \<Rightarrow> 'e \<Rightarrow> 'e expiring_cache \<Rightarrow> 'e expiring_cache" where
  "Put t path index entry c =
     c\<lparr>ec_entries := om_assign (path, index)
         \<lparr>ce_entry = entry, ce_expiry = after_ms t (ec_ttl c)\<rparr> (ec_entries c)\<rparr>"

definition Invalidate :: "string \<Rightarrow> nat \<Rightarrow> 'e expiring_cache \<Rightarrow> 'e expiring_cache" where
  "Invalidate path index c = c\<lparr>ec_entries := om_erase (path, index) (ec_entries c)\<rparr>"

text \<open>The loop from \<open>lower_bound({path, 0})\<close> on, over the keys of the path.\<close>

definition InvalidateFile :: "string \<Rightarrow> 'e expiring_cache \<Rightarrow> 'e expiring_cache" where
  "InvalidateFile path c =
     c\<lparr>ec_entries := fold om_erase
         (map fst (takeWhile (\<lambda>e. fst (fst e) = path) (om_lower_bound (path, 0) (ec_entries c))))
         (ec_entries c)\<rparr>"

section \<open>Properties\<close>

definition cache_ok :: "'e expiring_cache \<Rightarrow> bool" where
  "cache_ok c \<longleftrightarrow> om_ok (ec_entries c)"

text \<open>What the cache would answer at time \<open>t\<close>.\<close>

definition live_entry :: "time_point \<Rightarrow> 'e expiring_cache \<Rightarrow> string \<Rightarrow> nat \<Rightarrow> 'e option" where
  "live_entry t c path index =
     (case om_find (ec_entries c) (path, index) of
        None \<Rightarrow> None | Some e \<Rightarrow> if ce_expiry e \<le> t then None else Some (ce_entry e))"

lemma Get_live: "snd (Get t path index c) = live_entry t c path index"
  by (simp add: Get_def live_entry_def split: option.split)

lemma live_Get:
  assumes "t \<le> t'"
  shows "live_entry t' (fst (Get t path index c)) p i = live_entry t' c p i"
  using assms by (auto simp: Get_def live_entry_def split: option.split)

lemma live_Put:
  "live_entry t' (Put t path index entry c) p i =
     (if p = path \<and> i = index then if t' < after_ms t (ec_ttl c) then Some entry else None
      else live_entry t' c p i)"
  by (auto simp: Put_def live_entry_def)

lemma live_Invalidate:
  "live_entry t (Invalidate path index c) p i = (if p = path \<and> i = index then None else live_entry t c p i)"
  by (auto simp: Invalidate_def live_entry_def)

text \<open>The keys of one path are an interval of the order.\<close>

lemma file_range:
  fixes m :: "(string \<times> nat, 'v) omap"
  assumes "om_ok m"
  shows "takeWhile (\<lambda>e. fst (fst e) = path) (om_lower_bound (path, 0) m) = filter (\<lambda>e. fst (fst e) = path) m"
  using assms
proof (induction m)
  case Nil
  then show ?case by (simp add: om_lower_bound_def)
next
  case (Cons e m)
  then have IH: "takeWhile (\<lambda>e. fst (fst e) = path) (om_lower_bound (path, 0) m) = filter (\<lambda>e. fst (fst e) = path) m"
    and above: "\<And>x. x \<in> set m \<Longrightarrow> fst e < fst x"
    by (auto simp: om_ok_Cons om_keys_def)
  show ?case
  proof (cases "fst e < (path, 0)")
    case True
    then have "fst (fst e) \<noteq> path" by (cases "fst e") auto
    with True IH show ?thesis by (simp add: om_lower_bound_def)
  next
    case False
    then have lb: "om_lower_bound (path, 0) (e # m) = e # m" by (simp add: om_lower_bound_def)
    have "om_lower_bound (path, 0) m = m"
    proof (cases m)
      case (Cons x xs)
      with above [of x] False show ?thesis by (auto simp: om_lower_bound_def)
    qed (simp add: om_lower_bound_def)
    show ?thesis
    proof (cases "fst (fst e) = path")
      case True
      with lb IH \<open>om_lower_bound (path, 0) m = m\<close> show ?thesis by simp
    next
      case no: False
      with False have "path < fst (fst e)" by (cases "fst e") auto
      then have "fst (fst x) \<noteq> path" if "x \<in> set m" for x
        using above [OF that] by (cases "fst e"; cases "fst x") auto
      with lb no show ?thesis by (auto simp: filter_empty_conv)
    qed
  qed
qed

text \<open>
  Invalidating a file drops exactly the entries of this file from what the client can
  still find in its cache.
\<close>

lemma live_InvalidateFile:
  assumes "cache_ok c"
  shows "live_entry t (InvalidateFile path c) p i = (if p = path then None else live_entry t c p i)"
proof -
  have find: "om_find (fold om_erase ks m) x = (if x \<in> set ks then None else om_find m x)" for ks x
    and m :: "(string \<times> nat, 'a cached) omap"
    by (induction ks arbitrary: m) auto
  have "(p, i) \<in> set (map fst (filter (\<lambda>e. fst (fst e) = path) (ec_entries c))) \<longleftrightarrow>
      p = path \<and> om_find (ec_entries c) (p, i) \<noteq> None"
    using om_find_in_keys [of "(p, i)" "ec_entries c"] by (force simp: om_keys_def)
  then show ?thesis
    using assms by (auto simp: InvalidateFile_def live_entry_def find file_range cache_ok_def split: option.split)
qed

lemma cache_ok_ops:
  assumes "cache_ok c"
  shows "cache_ok (fst (Get t path index c))" "cache_ok (Put t path index entry c)"
    "cache_ok (Invalidate path index c)" "cache_ok (InvalidateFile path c)"
  using assms fold_invariant [where P = om_ok and f = om_erase, OF _ om_ok_erase]
  by (auto simp: cache_ok_def Get_def Put_def Invalidate_def InvalidateFile_def om_intros split: option.split)

section \<open>Witness\<close>

definition two_entries :: "nat expiring_cache" where
  "two_entries = Put 0 ''/b'' 0 8 (Put 0 ''/a'' 3 7 \<lparr>ec_ttl = 60000, ec_entries = []\<rparr>)"

theorem live_InvalidateFile_witness:
  "live_entry 1 (InvalidateFile ''/a'' two_entries) ''/a'' 3 = None \<and>
   live_entry 1 (InvalidateFile ''/a'' two_entries) ''/b'' 0 = Some 8"
proof -
  have ok: "cache_ok two_entries"
    unfolding two_entries_def by (intro cache_ok_ops) (simp add: cache_ok_def om_intros)
  have "live_entry 1 two_entries ''/b'' 0 = Some 8" by code_simp
  then show ?thesis using live_InvalidateFile [OF ok, of 1 "''/a''"] by simp
qed

end
