(* ===== verification/Distance.thy ===== *)
theory Distance
  imports Prelude "HOL-Library.Multiset"
begin

text \<open>
  Network distance and the push chain, \<open>src/src/common/distance.cc\<close>. The parsing of a dotted
  address is libc's \<open>inet_pton\<close>: it is the argument \<open>pton\<close>, which gives the address in host
  byte order or nothing.
\<close>

unbundle bit_operations_syntax

record endpoint =
  ep_address :: string
  ep_rack :: string

definition ParseIpv4 :: "(string \<Rightarrow> u32 option) \<Rightarrow> string \<Rightarrow> u32 option" where
  "ParseIpv4 pton address =
     pton (case str_rfind (CHR '':'') address of None \<Rightarrow> address | Some colon \<Rightarrow> take colon address)"

text \<open>\<open>while (bits < 32 && (x & (0x80000000u >> bits)) == 0) ++bits;\<close>\<close>

function prefix_loop :: "u32 \<Rightarrow> nat \<Rightarrow> nat" where
  "prefix_loop x bits =
     (if bits < 32 \<and> x AND drop_bit bits 0x80000000 = 0 then prefix_loop x (bits + 1) else bits)"
  by pat_completeness auto
termination by (relation "measure (\<lambda>(x, bits). 32 - bits)") auto

declare prefix_loop.simps [simp del]

definition CommonPrefixBits :: "u32 \<Rightarrow> u32 \<Rightarrow> nat" where
  "CommonPrefixBits a b = prefix_loop (a XOR b) 0"

definition DistanceBetween :: "(string \<Rightarrow> u32 option) \<Rightarrow> endpoint \<Rightarrow> endpoint \<Rightarrow> nat" where
  "DistanceBetween pton a b =
     (if ep_rack a \<noteq> [] \<and> ep_rack b \<noteq> [] then if ep_rack a = ep_rack b then 0 else 1
      else case (ParseIpv4 pton (ep_address a), ParseIpv4 pton (ep_address b)) of
             (Some ia, Some ib) \<Rightarrow> 32 - CommonPrefixBits ia ib
           | _ \<Rightarrow> 32)"

definition endpoint_of :: "replica \<Rightarrow> endpoint" where
  "endpoint_of r = \<lparr>ep_address = rp_address r, ep_rack = rp_rack r\<rparr>"

text \<open>\<open>std::min_element\<close>: the position of the first element with the least value.\<close>

fun min_element :: "('a \<Rightarrow> nat) \<Rightarrow> 'a list \<Rightarrow> nat" where
  "min_element f [] = 0"
| "min_element f [x] = 0"
| "min_element f (x # y # ys) =
     (let m = min_element f (y # ys) in if f ((y # ys) ! m) < f x then Suc m else 0)"

lemma min_element_less: "xs \<noteq> [] \<Longrightarrow> min_element f xs < length xs"
  by (induction f xs rule: min_element.induct) (auto simp: Let_def)

lemma min_element_le: "x \<in> set xs \<Longrightarrow> f (xs ! min_element f xs) \<le> f x"
  by (induction f xs rule: min_element.induct) (auto simp: Let_def)

lemma without_best:
  assumes "xs \<noteq> []"
  shows "length (take (min_element f xs) xs @ drop (Suc (min_element f xs)) xs) < length xs"
  using min_element_less [OF assms, of f] by simp

function push_chain :: "(string \<Rightarrow> u32 option) \<Rightarrow> endpoint \<Rightarrow> replica list \<Rightarrow> replica list" where
  "push_chain pton current replicas =
     (if replicas = [] then []
      else let best = min_element (\<lambda>x. DistanceBetween pton current (endpoint_of x)) replicas;
               r = replicas ! best
           in r # push_chain pton (endpoint_of r) (take best replicas @ drop (Suc best) replicas))"
  by pat_completeness auto
termination
  by (relation "measure (\<lambda>(p, c, rs). length rs)") (simp_all only: wf_measure in_measure case_prod_conv without_best not_False_eq_True)

declare push_chain.simps [simp del]

definition OrderPushChain :: "(string \<Rightarrow> u32 option) \<Rightarrow> endpoint \<Rightarrow> replica list \<Rightarrow> replica list" where
  "OrderPushChain pton origin replicas = push_chain pton origin replicas"

section \<open>Properties of the distance\<close>

lemma top_bit: "i < 32 \<Longrightarrow> k < 32 \<Longrightarrow> bit (drop_bit i (0x80000000 :: u32)) k \<longleftrightarrow> k = 31 - i"
proof -
  assume "i < 32" "k < 32"
  have "(0x80000000 :: u32) = push_bit 31 1" by simp
  then have "bit (drop_bit i (0x80000000 :: u32)) k \<longleftrightarrow> bit (push_bit 31 1 :: u32) (i + k)"
    by (simp only: bit_drop_bit_eq comp_def)
  also have "\<dots> \<longleftrightarrow> i + k = 31"
    using \<open>i < 32\<close> \<open>k < 32\<close> by (simp only: bit_push_bit_iff bit_1_iff) auto
  finally show ?thesis using \<open>i < 32\<close> by auto
qed

lemma mask_test: "i < 32 \<Longrightarrow> x AND drop_bit i (0x80000000 :: u32) = 0 \<longleftrightarrow> \<not> bit x (31 - i)"
proof -
  assume i: "i < 32"
  have "x AND drop_bit i (0x80000000 :: u32) = 0 \<longleftrightarrow> (\<forall>k < 32. \<not> (bit x k \<and> k = 31 - i))"
    using i by (auto simp: bit_eq_iff bit_and_iff top_bit)
  also have "\<dots> \<longleftrightarrow> \<not> bit x (31 - i)" using i by (auto dest: spec [of _ "31 - i"])
  finally show ?thesis .
qed

lemma prefix_loop_ge:
  assumes "bits \<le> 32" "\<forall>i < bits. \<not> bit x (31 - i)"
  shows "prefix_loop x bits \<ge> n \<and> n \<le> 32 \<longleftrightarrow> n \<le> 32 \<and> (\<forall>i < n. \<not> bit x (31 - i))"
  using assms
proof (induction x bits rule: prefix_loop.induct)
  case (1 x bits)
  show ?case
  proof (cases "bits < 32 \<and> \<not> bit x (31 - bits)")
    case True
    then have "prefix_loop x bits = prefix_loop x (bits + 1)"
      by (subst prefix_loop.simps) (simp add: mask_test)
    with 1 True show ?thesis by (auto simp: mask_test less_Suc_eq)
  next
    case False
    then have "prefix_loop x bits = bits"
      using 1(2) by (subst prefix_loop.simps) (auto simp: mask_test)
    moreover have "bits = 32 \<or> bit x (31 - bits)" using False 1(2) by auto
    ultimately show ?thesis using 1(2,3) by (auto dest: spec [of _ bits])
  qed
qed

text \<open>\<open>CommonPrefixBits\<close> is the number of leading bits in which the addresses agree.\<close>

lemma CommonPrefixBits_ge:
  assumes "n \<le> 32"
  shows "n \<le> CommonPrefixBits a b \<longleftrightarrow> (\<forall>i < n. bit a (31 - i) = bit b (31 - i))"
  using prefix_loop_ge [of 0 "a XOR b" n] assms by (auto simp: CommonPrefixBits_def bit_xor_iff)

lemma prefix_loop_le: "bits \<le> 32 \<Longrightarrow> prefix_loop x bits \<le> 32"
  by (induction x bits rule: prefix_loop.induct) (subst prefix_loop.simps, auto)

lemma CommonPrefixBits_le: "CommonPrefixBits a b \<le> 32"
  by (simp add: CommonPrefixBits_def prefix_loop_le)

lemma CommonPrefixBits_sym: "CommonPrefixBits a b = CommonPrefixBits b a"
  by (simp add: CommonPrefixBits_def xor.commute)

lemma CommonPrefixBits_ultra: "min (CommonPrefixBits a b) (CommonPrefixBits b c) \<le> CommonPrefixBits a c"
proof -
  let ?n = "min (CommonPrefixBits a b) (CommonPrefixBits b c)"
  have n: "?n \<le> 32" using CommonPrefixBits_le [of a b] by linarith
  have "\<forall>i < ?n. bit a (31 - i) = bit b (31 - i)" "\<forall>i < ?n. bit b (31 - i) = bit c (31 - i)"
    using CommonPrefixBits_ge [OF n, of a b] CommonPrefixBits_ge [OF n, of b c] by simp_all
  then show ?thesis using CommonPrefixBits_ge [OF n, of a c] by simp
qed

text \<open>
  Two addresses share all 32 bits exactly when they are equal.
\<close>

lemma CommonPrefixBits_eq: "CommonPrefixBits a b = 32 \<longleftrightarrow> a = b"
proof -
  have "CommonPrefixBits a b = 32 \<longleftrightarrow> 32 \<le> CommonPrefixBits a b" using CommonPrefixBits_le [of a b] by linarith
  also have "\<dots> \<longleftrightarrow> (\<forall>i < 32. bit a (31 - i) = bit b (31 - i))" by (rule CommonPrefixBits_ge) simp
  also have "\<dots> \<longleftrightarrow> (\<forall>k < 32. bit a k = bit b k)"
  proof safe
    fix k :: nat assume all: "\<forall>i < 32. bit a (31 - i) = bit b (31 - i)" "k < 32"
    then show "bit a k \<Longrightarrow> bit b k" "bit b k \<Longrightarrow> bit a k"
      using all(1) [rule_format, of "31 - k"] by simp_all
  next
    fix i :: nat assume "\<forall>k < 32. bit a k = bit b k" "i < 32"
    then have "bit a (31 - i) = bit b (31 - i)" by simp
    then show "bit a (31 - i) \<Longrightarrow> bit b (31 - i)" "bit b (31 - i) \<Longrightarrow> bit a (31 - i)" by blast+
  qed
  also have "\<dots> \<longleftrightarrow> a = b" by (auto simp: bit_eq_iff)
  finally show ?thesis .
qed

lemma DistanceBetween_sym: "DistanceBetween pton a b = DistanceBetween pton b a"
  by (auto simp: DistanceBetween_def CommonPrefixBits_sym split: option.split)

text \<open>
  The distance between servers obeys the ultrametric inequality, with racks known for
  all of them or for none.
\<close>

lemma DistanceBetween_ultra:
  assumes "(\<forall>e \<in> {a, b, c}. ep_rack e \<noteq> []) \<or> (\<forall>e \<in> {a, b, c}. ep_rack e = [])"
  shows "DistanceBetween pton a c \<le> max (DistanceBetween pton a b) (DistanceBetween pton b c)"
proof -
  have "32 - CommonPrefixBits x z \<le> max (32 - CommonPrefixBits x y) (32 - CommonPrefixBits y z)" for x y z
    using CommonPrefixBits_ultra [of x y z] by linarith
  then show ?thesis using assms by (auto simp: DistanceBetween_def split: option.split)
qed

section \<open>The push chain\<close>

lemma push_chain_mset: "mset (push_chain pton current replicas) = mset replicas"
proof (induction pton current replicas rule: push_chain.induct)
  case (1 pton current replicas)
  show ?case
  proof (cases "replicas = []")
    case True
    then show ?thesis by (simp add: push_chain.simps)
  next
    case False
    let ?best = "min_element (\<lambda>x. DistanceBetween pton current (endpoint_of x)) replicas"
    have "mset (push_chain pton current replicas) =
        add_mset (replicas ! ?best) (mset (take ?best replicas @ drop (Suc ?best) replicas))"
      using 1 [OF False refl refl] False by (subst push_chain.simps) (simp add: Let_def)
    also have "\<dots> = mset replicas"
      using id_take_nth_drop [OF min_element_less [OF False], of "\<lambda>x. DistanceBetween pton current (endpoint_of x)"]
      by (metis mset.simps(2) mset_append union_mset_add_mset_right)
    finally show ?thesis .
  qed
qed

text \<open>Each hop goes to a nearest one of the replicas that are still to be reached.\<close>

fun nearest_first :: "(string \<Rightarrow> u32 option) \<Rightarrow> endpoint \<Rightarrow> replica list \<Rightarrow> bool" where
  "nearest_first pton current [] = True"
| "nearest_first pton current (r # rs) =
     ((\<forall>x \<in> set rs. DistanceBetween pton current (endpoint_of r) \<le> DistanceBetween pton current (endpoint_of x)) \<and>
      nearest_first pton (endpoint_of r) rs)"

lemma push_chain_nearest: "nearest_first pton current (push_chain pton current replicas)"
proof (induction pton current replicas rule: push_chain.induct)
  case (1 pton current replicas)
  show ?case
  proof (cases "replicas = []")
    case True
    then show ?thesis by (simp add: push_chain.simps)
  next
    case False
    let ?best = "min_element (\<lambda>x. DistanceBetween pton current (endpoint_of x)) replicas"
    let ?rest = "push_chain pton (endpoint_of (replicas ! ?best)) (take ?best replicas @ drop (Suc ?best) replicas)"
    have eq: "push_chain pton current replicas = (replicas ! ?best) # ?rest"
      using False by (subst push_chain.simps) (simp add: Let_def)
    have "set ?rest = set (take ?best replicas @ drop (Suc ?best) replicas)"
      by (metis push_chain_mset set_mset_mset)
    also have "\<dots> \<subseteq> set replicas" by (auto dest: in_set_takeD in_set_dropD)
    finally have "\<forall>x \<in> set ?rest. DistanceBetween pton current (endpoint_of (replicas ! ?best)) \<le>
        DistanceBetween pton current (endpoint_of x)"
      using min_element_le [of _ replicas "\<lambda>x. DistanceBetween pton current (endpoint_of x)"] by blast
    with 1 [OF False refl refl] show ?thesis by (simp add: eq)
  qed
qed

text \<open>
  The order in which data is pushed visits every replica once, and each hop goes to a replica
  that is nearest, from the current one, among those still to be visited.
\<close>

lemma OrderPushChain_greedy:
  "mset (OrderPushChain pton client replicas) = mset replicas \<and>
   nearest_first pton client (OrderPushChain pton client replicas)"
  unfolding OrderPushChain_def using push_chain_mset push_chain_nearest by simp

text \<open>
  The common prefix of two addresses is at most 32 bits, and at least \<open>n\<close> bits exactly when
  their first \<open>n\<close> bits agree.
\<close>

lemma CommonPrefixBits_longest:
  "CommonPrefixBits a b \<le> 32 \<and>
   (\<forall>n \<le> 32. n \<le> CommonPrefixBits a b \<longleftrightarrow> (\<forall>i < n. bit a (31 - i) = bit b (31 - i)))"
  using CommonPrefixBits_le CommonPrefixBits_ge by blast

theorem CommonPrefixBits_longest_witness:
  "8 \<le> CommonPrefixBits 0x0A000001 0x0AFF0001 \<and> \<not> 9 \<le> CommonPrefixBits 0x0A000001 0x0AFF0001"
proof -
  note l = CommonPrefixBits_longest [of "0x0A000001" "0x0AFF0001", THEN conjunct2, rule_format]
  have "\<forall>i < 8. bit (0x0A000001 :: u32) (31 - i) = bit (0x0AFF0001 :: u32) (31 - i)"
    "\<not> (\<forall>i < 9. bit (0x0A000001 :: u32) (31 - i) = bit (0x0AFF0001 :: u32) (31 - i))" by code_simp+
  moreover have "(8 :: nat) \<le> 32" "(9 :: nat) \<le> 32" by simp_all
  ultimately show ?thesis using l [of 8] l [of 9] by blast
qed

end
