(* ===== verification/Client.thy ===== *)
theory Client
  imports LocationCache Distance Config Chunkserver
begin

text \<open>
  The client library, \<open>src/src/client/gfs_client.h\<close> and \<open>gfs_client.cc\<close>: the public operations, the
  caches, the choice of replicas, the push of data and the retry loops.

  What the client talks to is an argument: a value of \<open>'w net\<close> gives, for each call of the
  generated stubs, the outcome and the world after it. The world \<open>'w\<close> is anything (the servers,
  the network, the clock); the deadline handed to the call is its first argument. A call has
  failed (\<open>Inl\<close> its status code) or returned a response (\<open>Inr\<close>). The stubs that the client
  keeps by address have no state of their own and are left out, as are the texts of messages: a
  \<open>Status\<close> is its code.

  A loop with a counter is a recursion over the values the counter takes. The loops of \<open>Read\<close>,
  \<open>Write\<close>, \<open>WriteChunk\<close> and \<open>RecordAppend\<close>, whose end depends on what the servers answer, are
  partial functions: \<open>None\<close> is a call that does not return. \<open>ClientTermination\<close> proves which
  of them do.
\<close>

section \<open>Status codes\<close>

datatype error_code = kOk | kNotFound | kAlreadyExists | kInvalidArgument | kUnavailable | kStale | kFailed

text \<open>\<open>grpc::StatusCode\<close> without \<open>OK\<close>.\<close>

datatype grpc_code =
    GRPC_CANCELLED | GRPC_UNKNOWN | GRPC_INVALID_ARGUMENT | GRPC_DEADLINE_EXCEEDED | GRPC_NOT_FOUND
  | GRPC_ALREADY_EXISTS | GRPC_PERMISSION_DENIED | GRPC_RESOURCE_EXHAUSTED | GRPC_FAILED_PRECONDITION
  | GRPC_ABORTED | GRPC_OUT_OF_RANGE | GRPC_UNIMPLEMENTED | GRPC_INTERNAL | GRPC_UNAVAILABLE
  | GRPC_DATA_LOSS | GRPC_UNAUTHENTICATED

type_synonym 'a call = "grpc_code + 'a"

definition grpc_error :: "grpc_code \<Rightarrow> error_code" where
  "grpc_error code =
     (case code of
        GRPC_NOT_FOUND \<Rightarrow> kNotFound
      | GRPC_ALREADY_EXISTS \<Rightarrow> kAlreadyExists
      | GRPC_INVALID_ARGUMENT \<Rightarrow> kInvalidArgument
      | GRPC_UNAVAILABLE \<Rightarrow> kUnavailable
      | GRPC_DEADLINE_EXCEEDED \<Rightarrow> kUnavailable
      | _ \<Rightarrow> kFailed)"

fun FromGrpc :: "'a call \<Rightarrow> error_code" where
  "FromGrpc (Inr _) = kOk"
| "FromGrpc (Inl code) = grpc_error code"

fun FromResultCode :: "result_code \<Rightarrow> error_code" where
  "FromResultCode OK = kOk"
| "FromResultCode STALE_VERSION = kStale"
| "FromResultCode NOT_PRIMARY = kStale"
| "FromResultCode LEASE_EXPIRED = kStale"
| "FromResultCode NO_SUCH_CHUNK = kStale"
| "FromResultCode OUT_OF_RANGE = kInvalidArgument"
| "FromResultCode NO_REPLICAS = kUnavailable"
| "FromResultCode CHECKSUM_MISMATCH = kUnavailable"
| "FromResultCode DATA_MISSING = kUnavailable"
| "FromResultCode RETRY_NEXT_CHUNK = kFailed"
| "FromResultCode FAILED = kFailed"

definition IsRetryableLater :: "error_code \<Rightarrow> bool" where
  "IsRetryableLater status \<longleftrightarrow> status = kUnavailable \<or> status = kStale \<or> status = kFailed"

section \<open>State\<close>

record cached_chunk =
  cc_handle :: u64
  cc_version :: u64
  cc_replicas :: "replica list"

record cached_lease =
  le_handle :: u64
  le_version :: u64
  le_primary :: replica
  le_secondaries :: "replica list"

record client =
  cl_config :: config
  cl_client_id :: string
  cl_replica_seed :: nat
  cl_sequence :: u64
  cl_locations :: "cached_chunk expiring_cache"
  cl_leases :: "cached_lease expiring_cache"
  cl_info_loaded :: bool
  cl_chunk_size :: nat
  cl_max_append :: nat

text \<open>The constructor; \<open>hash\<close> is \<open>std::hash\<close> and \<open>client_id\<close> what \<open>RandomHexId\<close> gave.\<close>

definition new_client :: "(string \<Rightarrow> nat) \<Rightarrow> string \<Rightarrow> config \<Rightarrow> client" where
  "new_client hash client_id cfg =
     \<lparr>cl_config = cfg, cl_client_id = client_id, cl_replica_seed = hash client_id, cl_sequence = 1,
      cl_locations = \<lparr>ec_ttl = cf_client_location_cache_ttl cfg, ec_entries = []\<rparr>,
      cl_leases = \<lparr>ec_ttl = cf_client_location_cache_ttl cfg, ec_entries = []\<rparr>,
      cl_info_loaded = False, cl_chunk_size = 0, cl_max_append = 0\<rparr>"

definition ClientId :: "client \<Rightarrow> string" where
  "ClientId c = cl_client_id c"

section \<open>The calls\<close>

record read_request =
  rd_handle :: u64
  rd_version :: u64
  rd_offset :: nat
  rd_length :: nat

record lease_response =
  lr_code :: result_code
  lr_handle :: u64
  lr_version :: u64
  lr_primary :: replica
  lr_secondaries :: "replica list"

text \<open>
  The stubs. A push is a stream: opened at an address, written message by message (\<open>False\<close> once
  the stream is broken) and finished with the response. \<open>nt_pton\<close> is \<open>inet_pton\<close>, which orders
  the chain of a push (\<open>Distance\<close>).
\<close>

record 'w net =
  nt_pton :: "string \<Rightarrow> u32 option"
  nt_now :: "'w \<Rightarrow> time_point \<times> 'w"
  nt_sleep :: "millis \<Rightarrow> 'w \<Rightarrow> 'w"
  nt_GetClusterInfo :: "millis \<Rightarrow> 'w \<Rightarrow> (nat \<times> nat) call \<times> 'w"
  nt_Create :: "millis \<Rightarrow> string \<Rightarrow> 'w \<Rightarrow> unit call \<times> 'w"
  nt_Open :: "millis \<Rightarrow> string \<Rightarrow> 'w \<Rightarrow> nat call \<times> 'w"
  nt_Delete :: "millis \<Rightarrow> string \<Rightarrow> 'w \<Rightarrow> unit call \<times> 'w"
  nt_Rename :: "millis \<Rightarrow> string \<Rightarrow> string \<Rightarrow> 'w \<Rightarrow> unit call \<times> 'w"
  nt_Snapshot :: "millis \<Rightarrow> string \<Rightarrow> string \<Rightarrow> 'w \<Rightarrow> unit call \<times> 'w"
  nt_FindMatchingFiles :: "millis \<Rightarrow> string \<Rightarrow> bool \<Rightarrow> 'w \<Rightarrow> (string \<times> bool) list call \<times> 'w"
  nt_FindLocation :: "millis \<Rightarrow> string \<Rightarrow> nat \<Rightarrow> nat \<Rightarrow> 'w \<Rightarrow> chunk_info list call \<times> 'w"
  nt_FindLeaseHolder :: "millis \<Rightarrow> string \<Rightarrow> nat \<Rightarrow> 'w \<Rightarrow> lease_response call \<times> 'w"
  nt_AddChunk :: "millis \<Rightarrow> string \<Rightarrow> nat \<Rightarrow> 'w \<Rightarrow> result_code call \<times> 'w"
  nt_GetChunkLength :: "millis \<Rightarrow> string \<Rightarrow> u64 \<Rightarrow> 'w \<Rightarrow> (result_code \<times> nat) call \<times> 'w"
  nt_Read :: "millis \<Rightarrow> string \<Rightarrow> read_request \<Rightarrow> 'w \<Rightarrow> (result_code \<times> bytes) call \<times> 'w"
  nt_Write :: "millis \<Rightarrow> string \<Rightarrow> write_request \<Rightarrow> 'w \<Rightarrow> result_code call \<times> 'w"
  nt_RecordAppend :: "millis \<Rightarrow> string \<Rightarrow> record_append_request \<Rightarrow> 'w \<Rightarrow> (result_code \<times> nat) call \<times> 'w"
  nt_PushData :: "millis \<Rightarrow> string \<Rightarrow> 'w \<Rightarrow> 'w"
  nt_stream_Write :: "push_message \<Rightarrow> 'w \<Rightarrow> bool \<times> 'w"
  nt_stream_Finish :: "'w \<Rightarrow> (result_code \<times> string) call \<times> 'w"

text \<open>A client in its world.\<close>

type_synonym 'w run = "client \<times> 'w"

abbreviation deadline :: "client \<Rightarrow> millis" where
  "deadline c \<equiv> cf_client_rpc_deadline (cl_config c)"

definition SleepFor :: "'w net \<Rightarrow> millis \<Rightarrow> 'w \<Rightarrow> 'w" where
  "SleepFor net duration w = (if duration > 0 then nt_sleep net duration w else w)"

definition LeaseWaitDeadline :: "client \<Rightarrow> millis" where
  "LeaseWaitDeadline c =
     cf_lease_duration (cl_config c) + 2 * cf_lease_clock_skew_margin (cl_config c) + deadline c"

definition Backoff :: "client \<Rightarrow> nat \<Rightarrow> millis" where
  "Backoff c attempt = cf_retry_backoff_base (cl_config c) * 2 ^ min attempt 8"

text \<open>\<open>static_cast<int>(config_.mutation_retry_outer)\<close>.\<close>

definition outer_limit :: "client \<Rightarrow> int" where
  "outer_limit c = sint (of_nat (cf_mutation_retry_outer (cl_config c)) :: u32)"

section \<open>Cluster information and the caches\<close>

definition EnsureClusterInfo :: "'w net \<Rightarrow> 'w run \<Rightarrow> error_code \<times> 'w run" where
  "EnsureClusterInfo net = (\<lambda>(c, w).
     if cl_info_loaded c then (kOk, c, w)
     else case nt_GetClusterInfo net (deadline c) w of
            (Inl code, w') \<Rightarrow> (grpc_error code, c, w')
          | (Inr (chunk_size, max_append), w') \<Rightarrow>
              if chunk_size = 0 then (kFailed, c, w')
              else (kOk, c\<lparr>cl_chunk_size := chunk_size,
                           cl_max_append := if max_append = 0 then chunk_size div 4 else max_append,
                           cl_info_loaded := True\<rparr>, w'))"

definition ForgetFile :: "string \<Rightarrow> client \<Rightarrow> client" where
  "ForgetFile path c =
     c\<lparr>cl_locations := InvalidateFile path (cl_locations c), cl_leases := InvalidateFile path (cl_leases c)\<rparr>"

text \<open>The lookup of an entry and its insertion read the clock.\<close>

definition location_Get :: "'w net \<Rightarrow> string \<Rightarrow> nat \<Rightarrow> 'w run \<Rightarrow> cached_chunk option \<times> 'w run" where
  "location_Get net path index = (\<lambda>(c, w).
     case nt_now net w of
       (t, w') \<Rightarrow> (case LocationCache.Get t path index (cl_locations c) of
                     (cache, e) \<Rightarrow> (e, c\<lparr>cl_locations := cache\<rparr>, w')))"

definition location_Put :: "'w net \<Rightarrow> string \<Rightarrow> nat \<Rightarrow> cached_chunk \<Rightarrow> 'w run \<Rightarrow> 'w run" where
  "location_Put net path index e = (\<lambda>(c, w).
     case nt_now net w of
       (t, w') \<Rightarrow> (c\<lparr>cl_locations := LocationCache.Put t path index e (cl_locations c)\<rparr>, w'))"

definition lease_Get :: "'w net \<Rightarrow> string \<Rightarrow> nat \<Rightarrow> 'w run \<Rightarrow> cached_lease option \<times> 'w run" where
  "lease_Get net path index = (\<lambda>(c, w).
     case nt_now net w of
       (t, w') \<Rightarrow> (case LocationCache.Get t path index (cl_leases c) of
                     (cache, e) \<Rightarrow> (e, c\<lparr>cl_leases := cache\<rparr>, w')))"

definition lease_Put :: "'w net \<Rightarrow> string \<Rightarrow> nat \<Rightarrow> cached_lease \<Rightarrow> 'w run \<Rightarrow> 'w run" where
  "lease_Put net path index e = (\<lambda>(c, w).
     case nt_now net w of
       (t, w') \<Rightarrow> (c\<lparr>cl_leases := LocationCache.Put t path index e (cl_leases c)\<rparr>, w'))"

definition location_Invalidate :: "string \<Rightarrow> nat \<Rightarrow> 'w run \<Rightarrow> 'w run" where
  "location_Invalidate path index = (\<lambda>(c, w). (c\<lparr>cl_locations := Invalidate path index (cl_locations c)\<rparr>, w))"

definition lease_Invalidate :: "string \<Rightarrow> nat \<Rightarrow> 'w run \<Rightarrow> 'w run" where
  "lease_Invalidate path index = (\<lambda>(c, w). (c\<lparr>cl_leases := Invalidate path index (cl_leases c)\<rparr>, w))"

section \<open>Locating and reading a chunk\<close>

definition kLocationBatch :: nat where
  "kLocationBatch = 4"

text \<open>The loop over the chunks of a \<open>FindLocationResponse\<close>; \<open>found\<close> is \<open>*out\<close> once it is set.\<close>

definition entry_of :: "chunk_info \<Rightarrow> cached_chunk" where
  "entry_of chunk = \<lparr>cc_handle = inf_handle chunk, cc_version = inf_version chunk, cc_replicas = inf_replicas chunk\<rparr>"

fun store_locations ::
    "'w net \<Rightarrow> string \<Rightarrow> nat \<Rightarrow> chunk_info list \<Rightarrow> cached_chunk option \<Rightarrow> 'w run \<Rightarrow> cached_chunk option \<times> 'w run" where
  "store_locations net path index [] found s = (found, s)"
| "store_locations net path index (chunk # chunks) found s =
     store_locations net path index chunks
       (if inf_index chunk = index then Some (entry_of chunk) else found)
       (location_Put net path (inf_index chunk) (entry_of chunk) s)"

text \<open>An error, a missing chunk (\<open>Inr None\<close>), or where the chunk is.\<close>

definition Locate :: "'w net \<Rightarrow> string \<Rightarrow> nat \<Rightarrow> 'w run \<Rightarrow> (error_code + cached_chunk option) \<times> 'w run" where
  "Locate net path index s =
     (case location_Get net path index s of
        (Some cached, s1) \<Rightarrow> (Inr (Some cached), s1)
      | (None, c, w) \<Rightarrow>
          (case nt_FindLocation net (deadline c) path index kLocationBatch w of
             (Inl code, w') \<Rightarrow> (Inl (grpc_error code), c, w')
           | (Inr chunks, w') \<Rightarrow>
               (case store_locations net path index chunks None (c, w') of
                  (found, s2) \<Rightarrow> (Inr found, s2))))"

text \<open>The replicas in the order in which they are asked: \<open>replicas[(replica_seed_ + k) % n]\<close>.\<close>

definition rotation :: "nat \<Rightarrow> 'a list \<Rightarrow> 'a list" where
  "rotation seed rs = map (\<lambda>k. rs ! (add64 seed k mod length rs)) [0..<length rs]"

text \<open>One round over the replicas: what the first usable one answered.\<close>

fun read_replicas :: "'w net \<Rightarrow> read_request \<Rightarrow> replica list \<Rightarrow> 'w run \<Rightarrow> bytes option \<times> 'w run" where
  "read_replicas net req [] s = (None, s)"
| "read_replicas net req (r # rs) (c, w) =
     (case nt_Read net (deadline c) (rp_address r) req w of
        (Inl _, w') \<Rightarrow> read_replicas net req rs (c, w')
      | (Inr (code, data), w') \<Rightarrow>
          if code = OK then (Some data, c, w')
          else if code = OUT_OF_RANGE then (Some [], c, w')
          else read_replicas net req rs (c, w'))"

text \<open>\<open>attempts\<close> rounds; an error, the end of the file (\<open>Inr None\<close>) or a piece of the chunk.\<close>

fun read_attempts ::
    "'w net \<Rightarrow> string \<Rightarrow> nat \<Rightarrow> nat \<Rightarrow> nat \<Rightarrow> nat \<Rightarrow> 'w run \<Rightarrow> (error_code + bytes option) \<times> 'w run" where
  "read_attempts net path index in_chunk want 0 s = (Inl kUnavailable, s)"
| "read_attempts net path index in_chunk want (Suc attempts) s =
     (case Locate net path index s of
        (Inl status, s1) \<Rightarrow> (Inl status, s1)
      | (Inr None, s1) \<Rightarrow> (Inr None, s1)
      | (Inr (Some chunk), c1, w1) \<Rightarrow>
          (case read_replicas net
                  \<lparr>rd_handle = cc_handle chunk, rd_version = cc_version chunk, rd_offset = in_chunk, rd_length = want\<rparr>
                  (rotation (cl_replica_seed c1) (cc_replicas chunk)) (c1, w1) of
             (Some piece, s2) \<Rightarrow> (Inr (Some piece), s2)
           | (None, s2) \<Rightarrow>
               read_attempts net path index in_chunk want attempts (location_Invalidate path index s2)))"

definition ReadChunk ::
    "'w net \<Rightarrow> string \<Rightarrow> nat \<Rightarrow> nat \<Rightarrow> nat \<Rightarrow> 'w run \<Rightarrow> (error_code + bytes option) \<times> 'w run" where
  "ReadChunk net path index in_chunk want s = read_attempts net path index in_chunk want 2 s"

section \<open>Chunks and leases\<close>

definition Client_Open :: "'w net \<Rightarrow> string \<Rightarrow> 'w run \<Rightarrow> (error_code + nat) \<times> 'w run" where
  "Client_Open net path = (\<lambda>(c, w).
     case nt_Open net (deadline c) path w of
       (Inl code, w') \<Rightarrow> (Inl (grpc_error code), c, w')
     | (Inr chunk_count, w') \<Rightarrow> (Inr chunk_count, c, w'))"

fun add_chunks :: "'w net \<Rightarrow> string \<Rightarrow> nat list \<Rightarrow> 'w run \<Rightarrow> error_code \<times> 'w run" where
  "add_chunks net path [] s = (kOk, s)"
| "add_chunks net path (index # rest) (c, w) =
     (case nt_AddChunk net (deadline c) path index w of
        (Inl code, w') \<Rightarrow> (grpc_error code, c, w')
      | (Inr code, w') \<Rightarrow> if code \<noteq> OK then (FromResultCode code, c, w') else add_chunks net path rest (c, w'))"

text \<open>
  \<open>for (next = chunk_count; next <= index; ++next)\<close>. An \<open>index\<close> of \<open>2 ^ 64 - 1\<close>, at which \<open>next\<close>
  would wrap, needs a chunk size of one byte.
\<close>

definition EnsureChunk :: "'w net \<Rightarrow> string \<Rightarrow> nat \<Rightarrow> 'w run \<Rightarrow> error_code \<times> 'w run" where
  "EnsureChunk net path index s =
     (case Client_Open net path s of
        (Inl status, s1) \<Rightarrow> (status, s1)
      | (Inr chunk_count, s1) \<Rightarrow> add_chunks net path [chunk_count..<Suc index] s1)"

text \<open>An error, or the lease and whether it came from the cache.\<close>

definition FindLease :: "'w net \<Rightarrow> string \<Rightarrow> nat \<Rightarrow> 'w run \<Rightarrow> (error_code + cached_lease \<times> bool) \<times> 'w run" where
  "FindLease net path index s =
     (case lease_Get net path index s of
        (Some cached, s1) \<Rightarrow> (Inr (cached, True), s1)
      | (None, c, w) \<Rightarrow>
          (case nt_FindLeaseHolder net (LeaseWaitDeadline c) path index w of
             (Inl code, w') \<Rightarrow> (Inl (grpc_error code), c, w')
           | (Inr resp, w') \<Rightarrow>
               if lr_code resp \<noteq> OK then (Inl (FromResultCode (lr_code resp)), c, w')
               else let lease = \<lparr>le_handle = lr_handle resp, le_version = lr_version resp,
                                 le_primary = lr_primary resp, le_secondaries = lr_secondaries resp\<rparr>
                    in (Inr (lease, False), lease_Put net path index lease (c, w'))))"

section \<open>Pushing data\<close>

text \<open>The data cut into frames; \<open>frame\<close> is not zero (\<open>frame_size\<close>).\<close>

function frames :: "nat \<Rightarrow> bytes \<Rightarrow> bytes list" where
  "frames frame data =
     (if data = [] \<or> frame = 0 then [] else take frame data # frames frame (drop frame data))"
  by pat_completeness auto
termination by (relation "measure (\<lambda>(frame, data). length data)") auto

declare frames.simps [simp del]

definition frame_size :: "client \<Rightarrow> nat" where
  "frame_size c = (if cf_push_frame_size (cl_config c) = 0 then 256 * 2 ^ 10 else cf_push_frame_size (cl_config c))"

fun send_frames :: "'w net \<Rightarrow> bytes list \<Rightarrow> 'w \<Rightarrow> 'w" where
  "send_frames net [] w = w"
| "send_frames net (frame # rest) w =
     (case nt_stream_Write net (PushBytes frame) w of
        (alive, w') \<Rightarrow> if alive then send_frames net rest w' else w')"

definition push_chain_of :: "'w net \<Rightarrow> client \<Rightarrow> cached_lease \<Rightarrow> replica list" where
  "push_chain_of net c lease =
     OrderPushChain (nt_pton net) \<lparr>ep_address = [], ep_rack = cf_rack (cl_config c)\<rparr>
       (le_primary lease # le_secondaries lease)"

definition push_header_of :: "client \<Rightarrow> u64 \<Rightarrow> bytes \<Rightarrow> replica list \<Rightarrow> push_header" where
  "push_header_of c sequence data others =
     \<lparr>ph_client_id = cl_client_id c, ph_sequence = sequence, ph_total_length = length data, ph_forward_to = others\<rparr>"

definition PushData :: "'w net \<Rightarrow> cached_lease \<Rightarrow> u64 \<Rightarrow> bytes \<Rightarrow> 'w run \<Rightarrow> error_code \<times> 'w run" where
  "PushData net lease sequence data = (\<lambda>(c, w).
     let chain = push_chain_of net c lease;
         w1 = nt_PushData net (deadline c) (rp_address (hd chain)) w
     in case nt_stream_Write net (PushHeader (push_header_of c sequence data (tl chain))) w1 of
          (alive, w2) \<Rightarrow>
            (case nt_stream_Finish net (if alive then send_frames net (frames (frame_size c) data) w2 else w2) of
               (Inl _, w3) \<Rightarrow> (kUnavailable, c, w3)
             | (Inr (code, failed_at), w3) \<Rightarrow> (if code \<noteq> OK then kUnavailable else kOk, c, w3)))"

section \<open>Writing a chunk\<close>

text \<open>\<open>sequence_.fetch_add(1)\<close> and the sleep before a repetition.\<close>

definition next_sequence :: "'w run \<Rightarrow> u64 \<times> 'w run" where
  "next_sequence = (\<lambda>(c, w). (cl_sequence c, c\<lparr>cl_sequence := cl_sequence c + 1\<rparr>, w))"

definition pause :: "'w net \<Rightarrow> nat \<Rightarrow> 'w run \<Rightarrow> 'w run" where
  "pause net inner = (\<lambda>(c, w). (c, if inner > 0 then SleepFor net (Backoff c (inner - 1)) w else w))"

definition inner_attempts :: "client \<Rightarrow> nat list" where
  "inner_attempts c = [0..<max (cf_mutation_retry_inner (cl_config c)) 1]"

fun write_attempts ::
    "'w net \<Rightarrow> cached_lease \<Rightarrow> nat \<Rightarrow> bytes \<Rightarrow> nat list \<Rightarrow> error_code \<Rightarrow> 'w run \<Rightarrow> error_code \<times> 'w run" where
  "write_attempts net lease in_chunk data [] failure s = (failure, s)"
| "write_attempts net lease in_chunk data (inner # rest) failure s =
     (case next_sequence (pause net inner s) of
        (sequence, s1) \<Rightarrow>
          (case PushData net lease sequence data s1 of
             (pushed, c, w) \<Rightarrow>
               if pushed \<noteq> kOk then (pushed, c, w)
               else case nt_Write net (deadline c) (rp_address (le_primary lease))
                        \<lparr>wr_handle = le_handle lease, wr_version = le_version lease, wr_offset = in_chunk,
                         wr_client_id = cl_client_id c, wr_sequence = sequence\<rparr> w of
                      (Inl _, w') \<Rightarrow> (kUnavailable, c, w')
                    | (Inr code, w') \<Rightarrow>
                        if code = OK then (kOk, c, w')
                        else if code = DATA_MISSING \<or> code = FAILED
                        then write_attempts net lease in_chunk data rest (FromResultCode code) (c, w')
                        else (FromResultCode code, c, w')))"

definition TryWrite :: "'w net \<Rightarrow> cached_lease \<Rightarrow> nat \<Rightarrow> bytes \<Rightarrow> 'w run \<Rightarrow> error_code \<times> 'w run" where
  "TryWrite net lease in_chunk data s = write_attempts net lease in_chunk data (inner_attempts (fst s)) kFailed s"

text \<open>\<open>++outer\<close> and the sleep after a failed round.\<close>

definition rest_round :: "'w net \<Rightarrow> 'w run \<Rightarrow> 'w run" where
  "rest_round net = (\<lambda>(c, w). (c, SleepFor net (EffectiveOuterRetryDelay (cl_config c)) w))"

partial_function (option) write_rounds ::
    "'w net \<Rightarrow> string \<Rightarrow> nat \<Rightarrow> nat \<Rightarrow> bytes \<Rightarrow> int \<Rightarrow> bool \<Rightarrow> error_code \<Rightarrow> 'w run \<Rightarrow> (error_code \<times> 'w run) option" where
  "write_rounds net path index in_chunk data outer ensured failure s =
     (if outer > outer_limit (fst s) then Some (failure, s)
      else case FindLease net path index s of
             (Inl status, s1) \<Rightarrow>
               if status = kNotFound \<and> \<not> ensured
               then (case EnsureChunk net path index s1 of
                       (status', s2) \<Rightarrow>
                         if status' = kNotFound \<or> status' = kInvalidArgument then Some (status', s2)
                         else write_rounds net path index in_chunk data outer True failure s2)
               else if \<not> IsRetryableLater status then Some (status, s1)
               else write_rounds net path index in_chunk data (outer + 1) ensured status (rest_round net s1)
           | (Inr (lease, from_cache), s1) \<Rightarrow>
               (case TryWrite net lease in_chunk data s1 of
                  (attempt, s2) \<Rightarrow>
                    if attempt = kOk \<or> attempt = kInvalidArgument then Some (attempt, s2)
                    else if from_cache
                    then write_rounds net path index in_chunk data outer ensured attempt (lease_Invalidate path index s2)
                    else write_rounds net path index in_chunk data (outer + 1) ensured attempt
                           (rest_round net (lease_Invalidate path index s2))))"

definition WriteChunk :: "'w net \<Rightarrow> string \<Rightarrow> nat \<Rightarrow> nat \<Rightarrow> bytes \<Rightarrow> 'w run \<Rightarrow> (error_code \<times> 'w run) option" where
  "WriteChunk net path index in_chunk data s = write_rounds net path index in_chunk data 0 False kFailed s"

section \<open>Appending a record\<close>

text \<open>\<open>TryAppend\<close>: the offset in the chunk, a full chunk (\<open>*next_chunk\<close>), or an error.\<close>

datatype append_outcome = Appended nat | NextChunk | AppendFailed error_code

fun append_attempts ::
    "'w net \<Rightarrow> cached_lease \<Rightarrow> bytes \<Rightarrow> nat list \<Rightarrow> error_code \<Rightarrow> 'w run \<Rightarrow> append_outcome \<times> 'w run" where
  "append_attempts net lease data [] failure s = (AppendFailed failure, s)"
| "append_attempts net lease data (inner # rest) failure s =
     (case next_sequence (pause net inner s) of
        (sequence, s1) \<Rightarrow>
          (case PushData net lease sequence data s1 of
             (pushed, c, w) \<Rightarrow>
               if pushed \<noteq> kOk then (AppendFailed pushed, c, w)
               else case nt_RecordAppend net (deadline c) (rp_address (le_primary lease))
                        \<lparr>ra_handle = le_handle lease, ra_version = le_version lease,
                         ra_client_id = cl_client_id c, ra_sequence = sequence\<rparr> w of
                      (Inl _, w') \<Rightarrow> (AppendFailed kUnavailable, c, w')
                    | (Inr (code, offset), w') \<Rightarrow>
                        if code = OK then (Appended offset, c, w')
                        else if code = RETRY_NEXT_CHUNK then (NextChunk, c, w')
                        else if code = DATA_MISSING \<or> code = FAILED
                        then append_attempts net lease data rest (FromResultCode code) (c, w')
                        else (AppendFailed (FromResultCode code), c, w')))"

definition TryAppend :: "'w net \<Rightarrow> cached_lease \<Rightarrow> bytes \<Rightarrow> 'w run \<Rightarrow> append_outcome \<times> 'w run" where
  "TryAppend net lease data s = append_attempts net lease data (inner_attempts (fst s)) kFailed s"

partial_function (option) append_rounds ::
    "'w net \<Rightarrow> string \<Rightarrow> bytes \<Rightarrow> nat \<Rightarrow> int \<Rightarrow> bool \<Rightarrow> error_code \<Rightarrow> 'w run \<Rightarrow> ((error_code + nat) \<times> 'w run) option" where
  "append_rounds net path data index outer ensured failure s =
     (if outer > outer_limit (fst s) then Some (Inl failure, s)
      else case FindLease net path index s of
             (Inl status, s1) \<Rightarrow>
               if status = kNotFound \<and> \<not> ensured
               then (case EnsureChunk net path index s1 of
                       (status', s2) \<Rightarrow>
                         if status' = kNotFound \<or> status' = kInvalidArgument then Some (Inl status', s2)
                         else append_rounds net path data index outer True failure s2)
               else if \<not> IsRetryableLater status then Some (Inl status, s1)
               else append_rounds net path data index (outer + 1) ensured status (rest_round net s1)
           | (Inr (lease, from_cache), s1) \<Rightarrow>
               (case TryAppend net lease data s1 of
                  (Appended in_chunk, s2) \<Rightarrow> Some (Inr (add64 (mul64 index (cl_chunk_size (fst s2))) in_chunk), s2)
                | (NextChunk, s2) \<Rightarrow>
                    (case EnsureChunk net path (add64 index 1) s2 of
                       (status', s3) \<Rightarrow>
                         if status' = kOk then append_rounds net path data (add64 index 1) 0 True failure s3
                         else if \<not> IsRetryableLater status' then Some (Inl status', s3)
                         else append_rounds net path data index outer ensured failure s3)
                | (AppendFailed attempt, s2) \<Rightarrow>
                    if attempt = kInvalidArgument then Some (Inl attempt, s2)
                    else if from_cache
                    then append_rounds net path data index outer ensured attempt (lease_Invalidate path index s2)
                    else append_rounds net path data index (outer + 1) ensured attempt
                           (rest_round net (lease_Invalidate path index s2))))"

definition Client_RecordAppend :: "'w net \<Rightarrow> string \<Rightarrow> bytes \<Rightarrow> 'w run \<Rightarrow> ((error_code + nat) \<times> 'w run) option" where
  "Client_RecordAppend net path data s =
     (case EnsureClusterInfo net s of
        (status, s1) \<Rightarrow>
          if status \<noteq> kOk then Some (Inl status, s1)
          else if length data > cl_max_append (fst s1) then Some (Inl kInvalidArgument, s1)
          else case Client_Open net path s1 of
                 (Inl status', s2) \<Rightarrow> Some (Inl status', s2)
               | (Inr chunk_count, s2) \<Rightarrow>
                   if chunk_count = 0
                   then (case EnsureChunk net path 0 s2 of
                           (status', s3) \<Rightarrow>
                             if status' \<noteq> kOk then Some (Inl status', s3)
                             else append_rounds net path data 0 0 False kFailed s3)
                   else append_rounds net path data (chunk_count - 1) 0 False kFailed s2)"

section \<open>Reading and writing a range\<close>

text \<open>What has been read when the loop ends, with the status.\<close>

partial_function (option) read_loop ::
    "'w net \<Rightarrow> string \<Rightarrow> nat \<Rightarrow> nat \<Rightarrow> bytes \<Rightarrow> 'w run \<Rightarrow> (error_code \<times> bytes \<times> 'w run) option" where
  "read_loop net path pos stop data s =
     (if \<not> pos < stop then Some (kOk, data, s)
      else let chunk_size = cl_chunk_size (fst s);
               want = min (stop - pos) (chunk_size - pos mod chunk_size)
           in case ReadChunk net path (pos div chunk_size) (pos mod chunk_size) want s of
                (Inl status, s1) \<Rightarrow> Some (status, data, s1)
              | (Inr None, s1) \<Rightarrow> Some (kOk, data, s1)
              | (Inr (Some piece), s1) \<Rightarrow>
                  if length piece < want then Some (kOk, data @ piece, s1)
                  else read_loop net path (add64 pos (length piece)) stop (data @ piece) s1)"

definition Client_Read :: "'w net \<Rightarrow> string \<Rightarrow> nat \<Rightarrow> nat \<Rightarrow> 'w run \<Rightarrow> (error_code \<times> bytes \<times> 'w run) option" where
  "Client_Read net path offset len s =
     (if len = 0 then Some (kOk, [], s)
      else case EnsureClusterInfo net s of
             (status, s1) \<Rightarrow>
               if status \<noteq> kOk then Some (status, [], s1)
               else read_loop net path offset (add64 offset len) [] s1)"

partial_function (option) write_loop ::
    "'w net \<Rightarrow> string \<Rightarrow> nat \<Rightarrow> bytes \<Rightarrow> nat \<Rightarrow> 'w run \<Rightarrow> (error_code \<times> 'w run) option" where
  "write_loop net path offset data pos s =
     (if \<not> pos < length data then Some (kOk, s)
      else let chunk_size = cl_chunk_size (fst s);
               absolute = add64 offset pos;
               len = min (length data - pos) (chunk_size - absolute mod chunk_size)
           in Option.bind (WriteChunk net path (absolute div chunk_size) (absolute mod chunk_size) (take len (drop pos data)) s)
                (\<lambda>(status, s1). if status \<noteq> kOk then Some (status, s1)
                               else write_loop net path offset data (pos + len) s1))"

definition Client_Write :: "'w net \<Rightarrow> string \<Rightarrow> nat \<Rightarrow> bytes \<Rightarrow> 'w run \<Rightarrow> (error_code \<times> 'w run) option" where
  "Client_Write net path offset data s =
     (if data = [] then Some (kOk, s)
      else case EnsureClusterInfo net s of
             (status, s1) \<Rightarrow>
               if status \<noteq> kOk then Some (status, s1) else write_loop net path offset data 0 s1)"

section \<open>The length of a file\<close>

fun length_replicas :: "'w net \<Rightarrow> u64 \<Rightarrow> replica list \<Rightarrow> 'w run \<Rightarrow> nat option \<times> 'w run" where
  "length_replicas net handle [] s = (None, s)"
| "length_replicas net handle (r # rs) (c, w) =
     (case nt_GetChunkLength net (deadline c) (rp_address r) handle w of
        (Inl _, w') \<Rightarrow> length_replicas net handle rs (c, w')
      | (Inr (code, len), w') \<Rightarrow>
          if code = OK then (Some len, c, w') else length_replicas net handle rs (c, w'))"

fun length_attempts :: "'w net \<Rightarrow> string \<Rightarrow> nat \<Rightarrow> nat \<Rightarrow> 'w run \<Rightarrow> (error_code + nat) \<times> 'w run" where
  "length_attempts net path final 0 s = (Inl kUnavailable, s)"
| "length_attempts net path final (Suc attempts) s =
     (case Locate net path final s of
        (Inl status, s1) \<Rightarrow> (Inl status, s1)
      | (Inr None, s1) \<Rightarrow> (Inr (mul64 final (cl_chunk_size (fst s1))), s1)
      | (Inr (Some chunk), c1, w1) \<Rightarrow>
          (case length_replicas net (cc_handle chunk) (rotation (cl_replica_seed c1) (cc_replicas chunk)) (c1, w1) of
             (Some len, s2) \<Rightarrow> (Inr (add64 (mul64 final (cl_chunk_size (fst s2))) len), s2)
           | (None, s2) \<Rightarrow> length_attempts net path final attempts (location_Invalidate path final s2)))"

definition Client_Length :: "'w net \<Rightarrow> string \<Rightarrow> 'w run \<Rightarrow> (error_code + nat) \<times> 'w run" where
  "Client_Length net path s =
     (case EnsureClusterInfo net s of
        (status, s1) \<Rightarrow>
          if status \<noteq> kOk then (Inl status, s1)
          else case Client_Open net path s1 of
                 (Inl status', s2) \<Rightarrow> (Inl status', s2)
               | (Inr chunk_count, s2) \<Rightarrow>
                   if chunk_count = 0 then (Inr 0, s2) else length_attempts net path (chunk_count - 1) 2 s2)"

section \<open>Name space operations\<close>

definition Client_Create :: "'w net \<Rightarrow> string \<Rightarrow> 'w run \<Rightarrow> error_code \<times> 'w run" where
  "Client_Create net path = (\<lambda>(c, w).
     case nt_Create net (deadline c) path w of (status, w') \<Rightarrow> (FromGrpc status, c, w'))"

definition Client_Remove :: "'w net \<Rightarrow> string \<Rightarrow> 'w run \<Rightarrow> error_code \<times> 'w run" where
  "Client_Remove net path = (\<lambda>(c, w).
     case nt_Delete net (deadline c) path w of (status, w') \<Rightarrow> (FromGrpc status, ForgetFile path c, w'))"

definition Client_Rename :: "'w net \<Rightarrow> string \<Rightarrow> string \<Rightarrow> 'w run \<Rightarrow> error_code \<times> 'w run" where
  "Client_Rename net source target = (\<lambda>(c, w).
     case nt_Rename net (deadline c) source target w of
       (status, w') \<Rightarrow> (FromGrpc status, ForgetFile target (ForgetFile source c), w'))"

definition Client_Snapshot :: "'w net \<Rightarrow> string \<Rightarrow> string \<Rightarrow> 'w run \<Rightarrow> error_code \<times> 'w run" where
  "Client_Snapshot net source target = (\<lambda>(c, w).
     case nt_Snapshot net (LeaseWaitDeadline c) source target w of
       (status, w') \<Rightarrow> (FromGrpc status, ForgetFile source c, w'))"

text \<open>The entries are written only when the call succeeded.\<close>

definition Client_List ::
    "'w net \<Rightarrow> string \<Rightarrow> bool \<Rightarrow> 'w run \<Rightarrow> (error_code + (string \<times> bool) list) \<times> 'w run" where
  "Client_List net directory include_hidden = (\<lambda>(c, w).
     case nt_FindMatchingFiles net (deadline c) directory include_hidden w of
       (Inl code, w') \<Rightarrow> (Inl (grpc_error code), c, w')
     | (Inr entries, w') \<Rightarrow> (Inr entries, c, w'))"

definition Client_ChunkSize :: "'w net \<Rightarrow> 'w run \<Rightarrow> nat \<times> 'w run" where
  "Client_ChunkSize net s = (case EnsureClusterInfo net s of (_, s1) \<Rightarrow> (cl_chunk_size (fst s1), s1))"

end
