(* ===== verification/ClientRuns.thy ===== *)
theory ClientRuns
  imports Client
begin

text \<open>
  What the client's operations keep. The first section says what the helpers leave alone.

  \<open>run_property\<close> is the interface of a property of a client together with its world: the steps
  out of which the operations are made, a lookup in a cache, a call, a push with a fresh sequence
  number, keep it. Inside the locale every loop is shown to keep it; for the retry loops of a
  write this is an induction over a measure, which also shows that they return.
  \<open>client_property\<close> is the special case of a property of the client's own data, whatever the world.
\<close>

section \<open>What the helpers leave alone\<close>

lemma add_chunks_client: "fst (snd (add_chunks net path indices s)) = fst s"
  by (induction net path indices s rule: add_chunks.induct) (auto split: prod.split sum.split)

lemma Client_Open_client: "fst (snd (Client_Open net path s)) = fst s"
  by (cases s) (auto simp: Client_Open_def split: prod.split sum.split)

lemma EnsureChunk_client: "fst (snd (EnsureChunk net path index s)) = fst s"
  using Client_Open_client [of net path s] add_chunks_client
  by (auto simp: EnsureChunk_def split: prod.split sum.split)

lemma PushData_client: "fst (snd (PushData net lease sequence data s)) = fst s"
  by (cases s) (auto simp: PushData_def Let_def split: prod.split sum.split)

lemma rest_round_client: "fst (rest_round net s) = fst s"
  by (cases s) (simp add: rest_round_def)

lemma pause_client: "fst (pause net inner s) = fst s"
  by (cases s) (simp add: pause_def)

lemma read_replicas_client: "fst (snd (read_replicas net req rs s)) = fst s"
  by (induction net req rs s rule: read_replicas.induct) (auto split: prod.split sum.split)

lemma length_replicas_client: "fst (snd (length_replicas net handle rs s)) = fst s"
  by (induction net handle rs s rule: length_replicas.induct) (auto split: prod.split sum.split)

lemmas client_frames =
  add_chunks_client Client_Open_client EnsureChunk_client PushData_client rest_round_client pause_client
  read_replicas_client length_replicas_client

text \<open>An attempt to write or to append uses up sequence numbers and changes nothing else of the client.\<close>

definition only_sequence :: "client \<Rightarrow> client \<Rightarrow> bool" where
  "only_sequence c c' \<longleftrightarrow> (\<exists>n. c' = c\<lparr>cl_sequence := n\<rparr>)"

lemma only_sequence_refl [intro]: "only_sequence c c"
proof -
  have "c = c\<lparr>cl_sequence := cl_sequence c\<rparr>" by simp
  then show ?thesis unfolding only_sequence_def by blast
qed

lemma only_sequence_next: "only_sequence (c\<lparr>cl_sequence := n\<rparr>) c' \<Longrightarrow> only_sequence c c'"
  by (auto simp: only_sequence_def)

lemma next_sequence_pause:
  "next_sequence (pause net inner (c, w)) =
     (cl_sequence c, c\<lparr>cl_sequence := cl_sequence c + 1\<rparr>, snd (pause net inner (c, w)))"
  by (simp add: next_sequence_def pause_def)

lemma write_attempts_client:
  "only_sequence (fst s) (fst (snd (write_attempts net lease in_chunk data inners failure s)))"
proof (induction inners arbitrary: failure s)
  case (Cons inner rest)
  obtain c w where s: "s = (c, w)" by (cases s)
  let ?s1 = "(c\<lparr>cl_sequence := cl_sequence c + 1\<rparr>, snd (pause net inner (c, w)))"
  obtain pushed c2 w2 where p: "PushData net lease (cl_sequence c) data ?s1 = (pushed, c2, w2)" by (metis prod_cases3)
  then have "c2 = c\<lparr>cl_sequence := cl_sequence c + 1\<rparr>" using PushData_client [of net lease "cl_sequence c" data ?s1] by simp
  then have now: "only_sequence c c2" by (auto simp: only_sequence_def)
  have later: "only_sequence c (fst (snd (write_attempts net lease in_chunk data rest code (c2, w'))))" for code w'
    using Cons [of "(c2, w')" code] \<open>c2 = _\<close> by (auto simp: only_sequence_def)
  show ?case using now later by (auto simp: s p next_sequence_pause split: prod.split sum.split)
qed auto

lemma append_attempts_client:
  "only_sequence (fst s) (fst (snd (append_attempts net lease data inners failure s)))"
proof (induction inners arbitrary: failure s)
  case (Cons inner rest)
  obtain c w where s: "s = (c, w)" by (cases s)
  let ?s1 = "(c\<lparr>cl_sequence := cl_sequence c + 1\<rparr>, snd (pause net inner (c, w)))"
  obtain pushed c2 w2 where p: "PushData net lease (cl_sequence c) data ?s1 = (pushed, c2, w2)" by (metis prod_cases3)
  then have "c2 = c\<lparr>cl_sequence := cl_sequence c + 1\<rparr>" using PushData_client [of net lease "cl_sequence c" data ?s1] by simp
  then have now: "only_sequence c c2" by (auto simp: only_sequence_def)
  have later: "only_sequence c (fst (snd (append_attempts net lease data rest code (c2, w'))))" for code w'
    using Cons [of "(c2, w')" code] \<open>c2 = _\<close> by (auto simp: only_sequence_def)
  show ?case using now later by (auto simp: s p next_sequence_pause split: prod.split sum.split)
qed auto

text \<open>The lease cache around \<open>FindLease\<close>: no entry after an error, an entry before a cached answer.\<close>

definition held :: "string \<Rightarrow> nat \<Rightarrow> client \<Rightarrow> bool" where
  "held path index c \<longleftrightarrow> om_find (ec_entries (cl_leases c)) (path, index) \<noteq> None"

lemma lease_Get_cases:
  obtains (hit) e c1 w1 where "lease_Get net path index s = (Some e, c1, w1)" "held path index (fst s)" "c1 = fst s"
  | (miss) c1 w1 where "lease_Get net path index s = (None, c1, w1)" "\<not> held path index c1"
      "cl_config c1 = cl_config (fst s)"
proof -
  obtain c w where s: "s = (c, w)" by (cases s)
  obtain t w1 where now: "nt_now net w = (t, w1)" by fastforce
  show thesis
  proof (cases "snd (LocationCache.Get t path index (cl_leases c))")
    case (Some e)
    then show thesis
      by (intro hit [of e c w1])
        (auto simp: s now lease_Get_def LocationCache.Get_def held_def split: option.splits if_splits)
  next
    case None
    then show thesis
      by (intro miss [of "c\<lparr>cl_leases := fst (LocationCache.Get t path index (cl_leases c))\<rparr>" w1])
        (auto simp: s now lease_Get_def LocationCache.Get_def held_def split: option.splits if_splits)
  qed
qed

lemma FindLease_error:
  assumes "FindLease net path index s = (Inl status, s1)"
  shows "\<not> held path index (fst s1)" "cl_config (fst s1) = cl_config (fst s)"
  using assms by (cases rule: lease_Get_cases [of net path index s];
    auto simp: FindLease_def Let_def split: prod.splits sum.splits if_splits)+

lemma FindLease_lease:
  assumes "FindLease net path index s = (Inr (lease, from_cache), s1)"
  shows "from_cache \<Longrightarrow> held path index (fst s)" "cl_config (fst s1) = cl_config (fst s)"
  using assms by (cases rule: lease_Get_cases [of net path index s];
    auto simp: FindLease_def lease_Put_def Let_def split: prod.splits sum.splits if_splits)+

lemma lease_Invalidate_held: "\<not> held path index (fst (lease_Invalidate path index s))"
  by (cases s) (simp add: lease_Invalidate_def held_def Invalidate_def)

lemma lease_Invalidate_config: "cl_config (fst (lease_Invalidate path index s)) = cl_config (fst s)"
  by (cases s) (simp add: lease_Invalidate_def)

section \<open>Operations that may not return\<close>

definition returns_with :: "('w run \<Rightarrow> bool) \<Rightarrow> ('a \<times> 'w run) option \<Rightarrow> bool" where
  "returns_with R res \<longleftrightarrow> (case res of None \<Rightarrow> False | Some (_, s) \<Rightarrow> R s)"

lemma returns_with_Some [simp]: "returns_with R (Some (a, s)) \<longleftrightarrow> R s"
  by (simp add: returns_with_def)

lemma returns_withD: "returns_with R res \<Longrightarrow> \<exists>a s. res = Some (a, s) \<and> R s"
  by (auto simp: returns_with_def split: option.splits)

lemma returns_with_mono: "returns_with R res \<Longrightarrow> (\<And>s. R s \<Longrightarrow> Q s) \<Longrightarrow> returns_with Q res"
  by (auto simp: returns_with_def split: option.splits)

definition if_returns :: "('w run \<Rightarrow> bool) \<Rightarrow> ('a \<times> 'w run) option \<Rightarrow> bool" where
  "if_returns R res \<longleftrightarrow> (case res of None \<Rightarrow> True | Some (_, s) \<Rightarrow> R s)"

lemma if_returns_Some [simp]: "if_returns R (Some (a, s)) \<longleftrightarrow> R s"
  by (simp add: if_returns_def)

lemma if_returnsI: "(\<And>a s. res = Some (a, s) \<Longrightarrow> R s) \<Longrightarrow> if_returns R res"
  by (auto simp: if_returns_def split: option.split)

section \<open>Properties of runs\<close>

locale run_property =
  fixes net :: "'w net" and R :: "'w run \<Rightarrow> bool"
  assumes keeps_info: "R s \<Longrightarrow> R (snd (EnsureClusterInfo net s))"
    and keeps_Locate: "R s \<Longrightarrow> R (snd (Locate net path index s))"
    and keeps_location: "R s \<Longrightarrow> R (location_Invalidate path index s)"
    and keeps_FindLease: "R s \<Longrightarrow> R (snd (FindLease net path index s))"
    and keeps_lease: "R s \<Longrightarrow> R (lease_Invalidate path index s)"
    and keeps_Open: "R s \<Longrightarrow> R (snd (Client_Open net path s))"
    and keeps_AddChunk: "R (c, w) \<Longrightarrow> R (c, snd (nt_AddChunk net d path index w))"
    and keeps_GetChunkLength: "R (c, w) \<Longrightarrow> R (c, snd (nt_GetChunkLength net d a handle w))"
    and keeps_Read: "R (c, w) \<Longrightarrow> R (c, snd (nt_Read net d a rd w))"
    and keeps_sleep: "R (c, w) \<Longrightarrow> R (c, nt_sleep net d w)"
    and keeps_push: "R (c, w) \<Longrightarrow>
      R (snd (PushData net lease (cl_sequence c) data (c\<lparr>cl_sequence := cl_sequence c + 1\<rparr>, w)))"
    and keeps_Write: "R (c, w) \<Longrightarrow> R (c, snd (nt_Write net d a wr w))"
    and keeps_RecordAppend: "R (c, w) \<Longrightarrow> R (c, snd (nt_RecordAppend net d a ap w))"
begin

lemma read_replicas_keeps: "R s \<Longrightarrow> R (snd (read_replicas net req rs s))"
proof (induction rs arbitrary: s)
  case (Cons r rs)
  then show ?case using keeps_Read [of "fst s" "snd s" "deadline (fst s)" "rp_address r" req]
    by (cases s) (auto split: prod.split sum.split)
qed simp

lemma length_replicas_keeps: "R s \<Longrightarrow> R (snd (length_replicas net handle rs s))"
proof (induction rs arbitrary: s)
  case (Cons r rs)
  then show ?case using keeps_GetChunkLength [of "fst s" "snd s" "deadline (fst s)" "rp_address r" handle]
    by (cases s) (auto split: prod.split sum.split)
qed simp

lemma add_chunks_keeps: "R s \<Longrightarrow> R (snd (add_chunks net path indices s))"
proof (induction indices arbitrary: s)
  case (Cons i indices)
  then show ?case using keeps_AddChunk [of "fst s" "snd s" "deadline (fst s)" path i]
    by (cases s) (auto split: prod.split sum.split)
qed simp

lemma EnsureChunk_keeps: "R s \<Longrightarrow> R (snd (EnsureChunk net path index s))"
  using keeps_Open [of s path] add_chunks_keeps by (auto simp: EnsureChunk_def split: prod.split sum.split)

lemma rest_round_keeps: "R s \<Longrightarrow> R (rest_round net s)"
  using keeps_sleep by (cases s) (simp add: rest_round_def SleepFor_def)

lemma pause_keeps: "R s \<Longrightarrow> R (pause net inner s)"
  using keeps_sleep by (cases s) (simp add: pause_def SleepFor_def)

lemma read_attempts_keeps: "R s \<Longrightarrow> R (snd (read_attempts net path index in_chunk want n s))"
proof (induction n arbitrary: s)
  case (Suc n)
  obtain r c1 w1 where l: "Locate net path index s = (r, c1, w1)" by (metis prod_cases3)
  have p: "R (c1, w1)" using keeps_Locate [OF Suc.prems, of path index] l by simp
  have "R (snd (read_replicas net req rs (c1, w1)))" for req rs by (rule read_replicas_keeps [OF p])
  moreover from this have "R (snd (read_attempts net path index in_chunk want n
      (location_Invalidate path index (snd (read_replicas net req rs (c1, w1))))))" for req rs
    by (intro Suc.IH keeps_location)
  ultimately show ?case using l p by (auto simp: case_prod_unfold split: sum.split option.split)
qed simp

lemma ReadChunk_keeps: "R s \<Longrightarrow> R (snd (ReadChunk net path index in_chunk want s))"
  unfolding ReadChunk_def by (rule read_attempts_keeps)

lemma length_attempts_keeps: "R s \<Longrightarrow> R (snd (length_attempts net path final n s))"
proof (induction n arbitrary: s)
  case (Suc n)
  obtain r c1 w1 where l: "Locate net path final s = (r, c1, w1)" by (metis prod_cases3)
  have p: "R (c1, w1)" using keeps_Locate [OF Suc.prems, of path final] l by simp
  have "R (snd (length_replicas net handle rs (c1, w1)))" for handle rs by (rule length_replicas_keeps [OF p])
  moreover from this have "R (snd (length_attempts net path final n
      (location_Invalidate path final (snd (length_replicas net handle rs (c1, w1))))))" for handle rs
    by (intro Suc.IH keeps_location)
  ultimately show ?case using l p by (auto simp: case_prod_unfold split: sum.split option.split)
qed simp

lemma write_attempts_keeps: "R s \<Longrightarrow> R (snd (write_attempts net lease in_chunk data inners failure s))"
proof (induction inners arbitrary: failure s)
  case (Cons inner rest)
  obtain c w where s: "s = (c, w)" by (cases s)
  define w1 where "w1 = snd (pause net inner (c, w))"
  have "pause net inner s = (c, w1)" using pause_client [of net inner s] by (simp add: s w1_def prod_eq_iff)
  then have "R (c, w1)" using pause_keeps [OF Cons.prems, of inner] by simp
  then have "R (snd (PushData net lease (cl_sequence c) data (c\<lparr>cl_sequence := cl_sequence c + 1\<rparr>, w1)))" by (rule keeps_push)
  then obtain pushed c2 w2 where p: "PushData net lease (cl_sequence c) data (c\<lparr>cl_sequence := cl_sequence c + 1\<rparr>, w1) = (pushed, c2, w2)"
      "R (c2, w2)" by (metis prod_cases3 snd_conv)
  show ?case using p(1) Cons.IH keeps_Write [OF p(2)] p(2)
    by (simp add: s next_sequence_pause case_prod_unfold flip: w1_def split: sum.split)
qed simp

lemma append_attempts_keeps: "R s \<Longrightarrow> R (snd (append_attempts net lease data inners failure s))"
proof (induction inners arbitrary: failure s)
  case (Cons inner rest)
  obtain c w where s: "s = (c, w)" by (cases s)
  define w1 where "w1 = snd (pause net inner (c, w))"
  have "pause net inner s = (c, w1)" using pause_client [of net inner s] by (simp add: s w1_def prod_eq_iff)
  then have "R (c, w1)" using pause_keeps [OF Cons.prems, of inner] by simp
  then have "R (snd (PushData net lease (cl_sequence c) data (c\<lparr>cl_sequence := cl_sequence c + 1\<rparr>, w1)))" by (rule keeps_push)
  then obtain pushed c2 w2 where p: "PushData net lease (cl_sequence c) data (c\<lparr>cl_sequence := cl_sequence c + 1\<rparr>, w1) = (pushed, c2, w2)"
      "R (c2, w2)" by (metis prod_cases3 snd_conv)
  show ?case using p(1) Cons.IH keeps_RecordAppend [OF p(2)] p(2)
    by (simp add: s next_sequence_pause case_prod_unfold flip: w1_def split: sum.split)
qed simp

lemma TryWrite_keeps: "R s \<Longrightarrow> R (snd (TryWrite net lease in_chunk data s))"
  unfolding TryWrite_def by (rule write_attempts_keeps)

lemma TryAppend_keeps: "R s \<Longrightarrow> R (snd (TryAppend net lease data s))"
  unfolding TryAppend_def by (rule append_attempts_keeps)


text \<open>
  The rounds of a write return. A round counts \<open>outer\<close> up, sets \<open>ensured\<close>, or uses up the cached
  lease: an error removes the entry of the cache, and only a cached lease is retried at once.
\<close>

lemma write_rounds_returns:
  assumes "R s" "outer_limit (fst s) = limit"
    and "nat (3 * (limit + 1 - outer)) + (if ensured then 0 else 1) + (if held path index (fst s) then 1 else 0) = n"
  shows "returns_with R (write_rounds net path index in_chunk data outer ensured failure s)"
  using assms
proof (induction n arbitrary: outer ensured failure s rule: less_induct)
  case (less n)
  have again: "returns_with R (write_rounds net path index in_chunk data outer' ensured' failure' s')"
    if "nat (3 * (limit + 1 - outer')) + (if ensured' then 0 else 1) + (if held path index (fst s') then 1 else 0) < n"
      "R s'" "outer_limit (fst s') = limit" for s' outer' ensured' failure'
    by (rule less.IH [OF that refl])
  show ?case
  proof (cases "outer > limit")
    case True
    then show ?thesis using less.prems by (subst write_rounds.simps) simp
  next
    case going: False
    obtain r s1 where f: "FindLease net path index s = (r, s1)" by (metis surj_pair)
    have p1: "R s1" using keeps_FindLease [OF less.prems(1), of path index] f by simp
    show ?thesis
    proof (cases r)
      case (Inl status)
      note e = FindLease_error [OF f [unfolded Inl]]
      have l1: "outer_limit (fst s1) = limit" using e(2) less.prems(2) by (simp add: outer_limit_def)
      obtain status' s2 where ec: "EnsureChunk net path index s1 = (status', s2)" by (metis surj_pair)
      have s2: "fst s2 = fst s1" "R s2"
        using EnsureChunk_client [of net path index s1] EnsureChunk_keeps [OF p1, of path index] ec by simp_all
      have "\<not> ensured \<Longrightarrow> returns_with R (write_rounds net path index in_chunk data outer True failure s2)"
        using again [of outer True s2 failure] p1 l1 e(1) s2 less.prems(3) going by auto
      moreover have "returns_with R (write_rounds net path index in_chunk data (outer + 1) ensured status (rest_round net s1))"
        using again [of "outer + 1" ensured "rest_round net s1" status] p1 l1 e(1) rest_round_client [of net s1] rest_round_keeps [OF p1] less.prems(3) going
        by auto
      ultimately show ?thesis
        using going less.prems(2) f Inl ec p1 s2 by (subst write_rounds.simps) auto
    next
      case (Inr x)
      obtain lease from_cache where x: "x = (lease, from_cache)" by fastforce
      note e = FindLease_lease [OF f [unfolded Inr x]]
      obtain attempt s2 where ta: "TryWrite net lease in_chunk data s1 = (attempt, s2)" by (metis surj_pair)
      have os: "only_sequence (fst s1) (fst s2)" using write_attempts_client ta unfolding TryWrite_def by (metis snd_conv)
      have p2: "R s2" using TryWrite_keeps [OF p1, of lease in_chunk data] ta by simp
      let ?s3 = "lease_Invalidate path index s2"
      have s3: "R ?s3" "outer_limit (fst ?s3) = limit" "\<not> held path index (fst ?s3)"
        using keeps_lease [OF p2] lease_Invalidate_held [of path index s2] lease_Invalidate_config [of path index s2] os e(2) less.prems(2)
        by (auto simp: outer_limit_def only_sequence_def)
      have "from_cache \<Longrightarrow> returns_with R (write_rounds net path index in_chunk data outer ensured attempt ?s3)"
        using again [of outer ensured ?s3 attempt] s3 e(1) less.prems(3) going by auto
      moreover have "returns_with R (write_rounds net path index in_chunk data (outer + 1) ensured attempt (rest_round net ?s3))"
        using again [of "outer + 1" ensured "rest_round net ?s3" attempt] s3 rest_round_client [of net ?s3] rest_round_keeps [OF s3(1)] less.prems(3) going
        by auto
      ultimately show ?thesis
        using going less.prems(2) f Inr x ta p2 by (subst write_rounds.simps) auto
    qed
  qed
qed

lemma WriteChunk_returns: "R s \<Longrightarrow> returns_with R (WriteChunk net path index in_chunk data s)"
  unfolding WriteChunk_def by (rule write_rounds_returns [OF _ refl refl])

text \<open>A write returns, because every iteration writes at least one byte of the data.\<close>

lemma write_loop_returns:
  assumes "R s" "\<And>s. R s \<Longrightarrow> 0 < cl_chunk_size (fst s)"
  shows "returns_with R (write_loop net path offset data pos s)"
  using assms(1)
proof (induction "length data - pos" arbitrary: pos s rule: less_induct)
  case less
  show ?case
  proof (cases "pos < length data")
    case True
    let ?size = "cl_chunk_size (fst s)" and ?absolute = "add64 offset pos"
    let ?len = "min (length data - pos) (?size - ?absolute mod ?size)"
    have "0 < ?len" using True assms(2) [OF less.prems] by simp
    moreover obtain status s1 where w:
      "WriteChunk net path (?absolute div ?size) (?absolute mod ?size) (take ?len (drop pos data)) s = Some (status, s1)" "R s1"
      using returns_withD [OF WriteChunk_returns [OF less.prems]] by blast
    ultimately have "returns_with R (write_loop net path offset data (pos + ?len) s1)"
      using True by (intro less.hyps) auto
    then show ?thesis using True w by (subst write_loop.simps) (simp add: Let_def)
  qed (use less.prems in \<open>subst write_loop.simps, simp\<close>)
qed

text \<open>A read or an append that returns keeps it as well.\<close>

lemma read_loop_keeps:
  assumes "read_loop net path pos stop data s = Some (status, bytes, s')" "R s"
  shows "R s'"
proof -
  have "net = net \<and> R s \<longrightarrow> R (snd (snd (status, bytes, s')))"
  proof (rule read_loop.raw_induct [where P = "\<lambda>n path pos stop data s r. n = net \<and> R s \<longrightarrow> R (snd (snd r))", OF _ assms(1)], rule impI)
    fix f :: "'w net \<Rightarrow> string \<Rightarrow> nat \<Rightarrow> nat \<Rightarrow> bytes \<Rightarrow> 'w run \<Rightarrow> (error_code \<times> bytes \<times> 'w run) option"
    fix n path pos stop data s r
    assume IH: "\<And>n path pos stop data s r. f n path pos stop data s = Some r \<Longrightarrow> n = net \<and> R s \<longrightarrow> R (snd (snd r))"
      and here: "n = net \<and> R s"
      and eq: "(if \<not> pos < stop then Some (kOk, data, s)
       else let chunk_size = cl_chunk_size (fst s); want = min (stop - pos) (chunk_size - pos mod chunk_size)
            in case ReadChunk n path (pos div chunk_size) (pos mod chunk_size) want s of
                 (Inl status, s1) \<Rightarrow> Some (status, data, s1)
               | (Inr None, s1) \<Rightarrow> Some (kOk, data, s1)
               | (Inr (Some piece), s1) \<Rightarrow>
                   if length piece < want then Some (kOk, data @ piece, s1)
                   else f n path (add64 pos (length piece)) stop (data @ piece) s1) = Some r"
    from here have n: "n = net" and p: "R s" by simp_all
    define size want where "size = cl_chunk_size (fst s)" and "want = min (stop - pos) (cl_chunk_size (fst s) - pos mod cl_chunk_size (fst s))"
    obtain x s1 where rc: "ReadChunk net path (pos div size) (pos mod size) want s = (x, s1)" by (metis surj_pair)
    have p1: "R s1" using ReadChunk_keeps [OF p, of path "pos div size" "pos mod size" want] rc by simp
    show "R (snd (snd r))"
    proof (cases "\<exists>piece. pos < stop \<and> x = Inr (Some piece) \<and> \<not> length piece < want")
      case True
      then obtain piece where "f n path (add64 pos (length piece)) stop (data @ piece) s1 = Some r"
        using eq rc by (auto simp: n Let_def size_def want_def)
      from IH [OF this] p1 n show ?thesis by blast
    next
      case False
      then show ?thesis using eq rc p p1
        by (auto simp: n Let_def size_def want_def split: if_splits sum.splits option.splits)
    qed
  qed
  with assms(2) show ?thesis by simp
qed

lemma append_rounds_keeps:
  assumes "append_rounds net path data index outer ensured failure s = Some (status, s')" "R s"
  shows "R s'"
proof -
  have "net = net \<and> R s \<longrightarrow> R (snd (status, s'))"
  proof (rule append_rounds.raw_induct [where P = "\<lambda>n path data index outer ensured failure s r. n = net \<and> R s \<longrightarrow> R (snd r)", OF _ assms(1)], rule impI)
    fix f :: "'w net \<Rightarrow> string \<Rightarrow> bytes \<Rightarrow> nat \<Rightarrow> int \<Rightarrow> bool \<Rightarrow> error_code \<Rightarrow> 'w run \<Rightarrow> ((error_code + nat) \<times> 'w run) option"
    fix n path data index outer ensured failure s r
    assume IH: "\<And>n path data index outer ensured failure s r.
        f n path data index outer ensured failure s = Some r \<Longrightarrow> n = net \<and> R s \<longrightarrow> R (snd r)"
      and here: "n = net \<and> R s"
      and eq: "(if outer > outer_limit (fst s) then Some (Inl failure, s)
      else case FindLease n path index s of
             (Inl status, s1) \<Rightarrow>
               if status = kNotFound \<and> \<not> ensured
               then (case EnsureChunk n path index s1 of
                       (status', s2) \<Rightarrow>
                         if status' = kNotFound \<or> status' = kInvalidArgument then Some (Inl status', s2)
                         else f n path data index outer True failure s2)
               else if \<not> IsRetryableLater status then Some (Inl status, s1)
               else f n path data index (outer + 1) ensured status (rest_round n s1)
           | (Inr (lease, from_cache), s1) \<Rightarrow>
               (case TryAppend n lease data s1 of
                  (Appended in_chunk, s2) \<Rightarrow> Some (Inr (add64 (mul64 index (cl_chunk_size (fst s2))) in_chunk), s2)
                | (NextChunk, s2) \<Rightarrow>
                    (case EnsureChunk n path (add64 index 1) s2 of
                       (status', s3) \<Rightarrow>
                         if status' = kOk then f n path data (add64 index 1) 0 True failure s3
                         else if \<not> IsRetryableLater status' then Some (Inl status', s3)
                         else f n path data index outer ensured failure s3)
                | (AppendFailed attempt, s2) \<Rightarrow>
                    if attempt = kInvalidArgument then Some (Inl attempt, s2)
                    else if from_cache
                    then f n path data index outer ensured attempt (lease_Invalidate path index s2)
                    else f n path data index (outer + 1) ensured attempt
                           (rest_round n (lease_Invalidate path index s2)))) = Some r"
    from here have n: "n = net" and p: "R s" by simp_all
    obtain x s1 where fl: "FindLease net path index s = (x, s1)" by (metis surj_pair)
    have p1: "R s1" using keeps_FindLease [OF p, of path index] fl by simp
    have step: "R (snd r)" if "f n path data i out en fail s'' = Some r" "R s''" for i out en fail s''
      using IH [OF that(1)] that(2) n by blast
    show "R (snd r)"
    proof (cases x)
      case (Inl status)
      obtain status' s2 where ec: "EnsureChunk net path index s1 = (status', s2)" by (metis surj_pair)
      have "R s2" using EnsureChunk_keeps [OF p1, of path index] ec by simp
      then show ?thesis using eq p p1 rest_round_keeps [OF p1] by (auto simp: n fl Inl ec intro: step split: if_splits)
    next
      case (Inr y)
      obtain lease from_cache where y: "y = (lease, from_cache)" by fastforce
      obtain a s2 where ta: "TryAppend net lease data s1 = (a, s2)" by (metis surj_pair)
      have p2: "R s2" using TryAppend_keeps [OF p1, of lease data] ta by simp
      obtain status' s3 where ec: "EnsureChunk net path (add64 index 1) s2 = (status', s3)" by (metis surj_pair)
      have "R s3" using EnsureChunk_keeps [OF p2, of path "add64 index 1"] ec by simp
      then show ?thesis using eq p p2 keeps_lease [OF p2] rest_round_keeps [OF keeps_lease [OF p2]]
        by (cases a) (auto simp: n fl Inr y ta ec simp del: One_nat_def intro: step split: if_splits)
    qed
  qed
  with assms(2) show ?thesis by simp
qed

end

lemma run_property_conj: "run_property net R \<Longrightarrow> run_property net Q \<Longrightarrow> run_property net (\<lambda>s. R s \<and> Q s)"
  unfolding run_property_def by simp

section \<open>Properties of the client's data\<close>

locale client_property =
  fixes P :: "client \<Rightarrow> bool"
  assumes P_location_Get: "P c \<Longrightarrow> P (c\<lparr>cl_locations := fst (LocationCache.Get t path index (cl_locations c))\<rparr>)"
    and P_location_Put: "P c \<Longrightarrow> P (c\<lparr>cl_locations := LocationCache.Put t path index e (cl_locations c)\<rparr>)"
    and P_location_Invalidate: "P c \<Longrightarrow> P (c\<lparr>cl_locations := Invalidate path index (cl_locations c)\<rparr>)"
    and P_lease_Get: "P c \<Longrightarrow> P (c\<lparr>cl_leases := fst (LocationCache.Get t path index (cl_leases c))\<rparr>)"
    and P_lease_Put: "P c \<Longrightarrow> P (c\<lparr>cl_leases := LocationCache.Put t path index e' (cl_leases c)\<rparr>)"
    and P_lease_Invalidate: "P c \<Longrightarrow> P (c\<lparr>cl_leases := Invalidate path index (cl_leases c)\<rparr>)"
    and P_forget: "P c \<Longrightarrow> P (ForgetFile path c)"
    and P_sequence: "P c \<Longrightarrow> P (c\<lparr>cl_sequence := n\<rparr>)"
    and P_info: "P c \<Longrightarrow> chunk_size \<noteq> 0 \<Longrightarrow> P (c\<lparr>cl_chunk_size := chunk_size, cl_max_append := m, cl_info_loaded := True\<rparr>)"
begin

lemma P_store: "P (fst s) \<Longrightarrow> P (fst (snd (store_locations net path index chunks found s)))"
  by (induction net path index chunks found s rule: store_locations.induct)
    (auto simp: location_Put_def P_location_Put split: prod.split)

lemma P_Locate: "P (fst s) \<Longrightarrow> P (fst (snd (Locate net path index s)))"
proof -
  assume p: "P (fst s)"
  obtain c w where s: "s = (c, w)" by (cases s)
  obtain t w1 where now: "nt_now net w = (t, w1)" by fastforce
  define c1 where "c1 = c\<lparr>cl_locations := fst (LocationCache.Get t path index (cl_locations c))\<rparr>"
  have g: "location_Get net path index s = (snd (LocationCache.Get t path index (cl_locations c)), c1, w1)"
    by (simp add: s location_Get_def now c1_def split: prod.split)
  have p1: "P c1" using p P_location_Get [of c t path index] by (simp add: c1_def s)
  have "P (fst (snd (store_locations net path index chunks None (c1, w'))))" for chunks w'
    using P_store [of "(c1, w')"] p1 by simp
  then show ?thesis using p1 by (simp add: Locate_def g case_prod_unfold split: sum.split option.split)
qed

lemma P_FindLease: "P (fst s) \<Longrightarrow> P (fst (snd (FindLease net path index s)))"
proof -
  assume p: "P (fst s)"
  obtain c w where s: "s = (c, w)" by (cases s)
  obtain t w1 where now: "nt_now net w = (t, w1)" by fastforce
  define c1 where "c1 = c\<lparr>cl_leases := fst (LocationCache.Get t path index (cl_leases c))\<rparr>"
  have g: "lease_Get net path index s = (snd (LocationCache.Get t path index (cl_leases c)), c1, w1)"
    by (simp add: s lease_Get_def now c1_def split: prod.split)
  have "P c1" using p P_lease_Get [of c t path index] by (simp add: c1_def s)
  then show ?thesis using P_lease_Put
    by (auto simp: FindLease_def g lease_Put_def Let_def split: prod.split sum.split option.split)
qed

lemma P_EnsureClusterInfo: "P (fst s) \<Longrightarrow> P (fst (snd (EnsureClusterInfo net s)))"
  using P_info by (cases s) (auto simp: EnsureClusterInfo_def split: prod.split sum.split)

end

text \<open>It is a property of runs in every world.\<close>

sublocale client_property \<subseteq> run_property net "\<lambda>s. P (fst s)" for net
proof
  fix s :: "'b run" and path index
  show "P (fst s) \<Longrightarrow> P (fst (location_Invalidate path index s))" "P (fst s) \<Longrightarrow> P (fst (lease_Invalidate path index s))"
    using P_location_Invalidate P_lease_Invalidate by (cases s; simp add: location_Invalidate_def lease_Invalidate_def)+
qed (simp_all add: P_Locate P_FindLease P_EnsureClusterInfo Client_Open_client PushData_client P_sequence)

section \<open>The well-formed client\<close>

definition client_ok :: "client \<Rightarrow> bool" where
  "client_ok c \<longleftrightarrow> cache_ok (cl_locations c) \<and> cache_ok (cl_leases c) \<and> (cl_info_loaded c \<longrightarrow> 0 < cl_chunk_size c)"

text \<open>Once the cluster information is there it stays, and with it a chunk size that is not zero.\<close>

definition client_ready :: "client \<Rightarrow> bool" where
  "client_ready c \<longleftrightarrow> client_ok c \<and> cl_info_loaded c"

interpretation wf: client_property client_ok
  by unfold_locales (auto simp: client_ok_def ForgetFile_def cache_ok_ops)

interpretation ready: client_property client_ready
  by unfold_locales (auto simp: client_ready_def client_ok_def ForgetFile_def cache_ok_ops)

lemma client_ready_size: "client_ready c \<Longrightarrow> 0 < cl_chunk_size c"
  by (simp add: client_ready_def client_ok_def)

lemma client_ready_ok: "client_ready c \<Longrightarrow> client_ok c"
  by (simp add: client_ready_def)

lemma EnsureClusterInfo_ready:
  assumes "EnsureClusterInfo net s = (kOk, s1)" "client_ok (fst s)"
  shows "client_ready (fst s1)"
proof -
  have "client_ok (fst s1)" using wf.keeps_info [OF assms(2), of net] assms(1) by simp
  moreover have "grpc_error code \<noteq> kOk" for code by (cases code) (simp_all add: grpc_error_def)
  then have "cl_info_loaded (fst s1)"
    using assms(1) by (cases s) (auto simp: EnsureClusterInfo_def split: if_splits prod.splits sum.splits)
  ultimately show ?thesis by (simp add: client_ready_def)
qed

lemma new_client_ok: "client_ok (new_client hash client_id cfg)"
  by (simp add: client_ok_def new_client_def cache_ok_def om_intros)

section \<open>The public operations\<close>

text \<open>A write returns, in a well-formed client and with every property of runs kept.\<close>

lemma write_returns:
  assumes run: "run_property net R" and s: "R s" "client_ok (fst s)"
  shows "returns_with (\<lambda>s. R s \<and> client_ok (fst s)) (Client_Write net path offset data s)"
proof -
  obtain status s1 where e: "EnsureClusterInfo net s = (status, s1)" by (metis surj_pair)
  have s1: "R s1" "client_ok (fst s1)"
    using run_property.keeps_info [OF run s(1)] wf.keeps_info [OF s(2), of net] e by simp_all
  note both = run_property_conj [OF run ready.run_property_axioms]
  have "returns_with (\<lambda>s. R s \<and> client_ok (fst s)) (write_loop net path offset data 0 s1)" if "status = kOk"
  proof -
    have "client_ready (fst s1)" using EnsureClusterInfo_ready e s(2) that by blast
    with s1(1) have "returns_with (\<lambda>s. R s \<and> client_ready (fst s)) (write_loop net path offset data 0 s1)"
      by (intro run_property.write_loop_returns [OF both]) (auto simp: client_ready_size)
    then show ?thesis by (rule returns_with_mono) (simp add: client_ready_ok)
  qed
  with s s1 e show ?thesis by (simp add: Client_Write_def)
qed

lemma read_keeps:
  assumes run: "run_property net R" and s: "R s"
  shows "if_returns R (map_option snd (Client_Read net path offset len s))"
proof -
  obtain status s1 where e: "EnsureClusterInfo net s = (status, s1)" by (metis surj_pair)
  have s1: "R s1" using run_property.keeps_info [OF run s] e by simp
  have "if_returns R (map_option snd (read_loop net path pos stop [] s1))" for pos stop
    using run_property.read_loop_keeps [OF run _ s1] by (intro if_returnsI) auto
  then show ?thesis using s s1 e by (simp add: Client_Read_def)
qed

lemma append_keeps:
  assumes run: "run_property net R" and s: "R s"
  shows "if_returns R (Client_RecordAppend net path data s)"
proof -
  obtain status s1 where e: "EnsureClusterInfo net s = (status, s1)" by (metis surj_pair)
  have s1: "R s1" using run_property.keeps_info [OF run s] e by simp
  obtain r s2 where o: "Client_Open net path s1 = (r, s2)" by (metis surj_pair)
  have s2: "R s2" using run_property.keeps_Open [OF run s1, of path] o by simp
  obtain status' s3 where ec: "EnsureChunk net path 0 s2 = (status', s3)" by (metis surj_pair)
  have s3: "R s3" using run_property.EnsureChunk_keeps [OF run s2, of path 0] ec by simp
  have "if_returns R (append_rounds net path data i 0 False kFailed s')" if "R s'" for i s'
    using run_property.append_rounds_keeps [OF run _ that] by (intro if_returnsI)
  then show ?thesis using e o ec s1 s2 s3 by (simp add: Client_RecordAppend_def split: sum.split)
qed

lemma length_keeps:
  assumes run: "run_property net R" and s: "R s"
  shows "R (snd (Client_Length net path s))"
proof -
  obtain status s1 where e: "EnsureClusterInfo net s = (status, s1)" by (metis surj_pair)
  have s1: "R s1" using run_property.keeps_info [OF run s] e by simp
  obtain r s2 where o: "Client_Open net path s1 = (r, s2)" by (metis surj_pair)
  have s2: "R s2" using run_property.keeps_Open [OF run s1, of path] o by simp
  show ?thesis using e o s1 s2 run_property.length_attempts_keeps [OF run s2]
    by (simp add: Client_Length_def split: sum.split)
qed

end
