(* ===== verification/ClientTermination.thy ===== *)
theory ClientTermination
  imports ClientRuns
begin

text \<open>
  Which operations of the client return: a write always does, a read does when the chunkservers
  answer with no more than they are asked for, and a record append may not. The world is
  arbitrary.
\<close>

abbreviation run_ok :: "'w run \<Rightarrow> bool" where
  "run_ok s \<equiv> client_ok (fst s)"

lemma run_ok_property: "run_property net run_ok"
  by (rule wf.run_property_axioms)


text \<open>
  C18: Every public operation that returns leaves a well-formed client: both caches are maps with
  ordered keys, and once the cluster information has been taken over its chunk size is not zero.
\<close>

theorem client_stays_ok:
  assumes ok: "client_ok (fst s)"
  shows "run_ok (snd (Client_Create net path s)) \<and> run_ok (snd (Client_Remove net path s)) \<and>
    run_ok (snd (Client_Rename net path target s)) \<and> run_ok (snd (Client_Snapshot net path target s)) \<and>
    run_ok (snd (Client_List net path include_hidden s)) \<and> run_ok (snd (Client_Open net path s)) \<and>
    run_ok (snd (Client_Length net path s)) \<and> run_ok (snd (Client_ChunkSize net s)) \<and>
    returns_with run_ok (Client_Write net path offset data s) \<and>
    if_returns run_ok (map_option snd (Client_Read net path offset len s)) \<and>
    if_returns run_ok (Client_RecordAppend net path data s)"
proof (intro conjI)
  show "run_ok (snd (Client_Create net path s))" "run_ok (snd (Client_Remove net path s))"
    "run_ok (snd (Client_Rename net path target s))" "run_ok (snd (Client_Snapshot net path target s))"
    "run_ok (snd (Client_List net path include_hidden s))" "run_ok (snd (Client_Open net path s))"
    using ok wf.P_forget Client_Open_client [of net path s]
    by (cases s; auto simp: Client_Create_def Client_Remove_def Client_Rename_def Client_Snapshot_def Client_List_def
        split: prod.split sum.split)+
  show "run_ok (snd (Client_ChunkSize net s))"
    using wf.keeps_info [OF ok, of net] by (simp add: Client_ChunkSize_def case_prod_unfold)
  show "returns_with run_ok (Client_Write net path offset data s)"
    using write_returns [OF run_ok_property ok ok] by simp
  show "run_ok (snd (Client_Length net path s))" by (rule length_keeps [OF run_ok_property ok])
  show "if_returns run_ok (map_option snd (Client_Read net path offset len s))" by (rule read_keeps [OF run_ok_property ok])
  show "if_returns run_ok (Client_RecordAppend net path data s)" by (rule append_keeps [OF run_ok_property ok])
qed

section \<open>Reads return\<close>

text \<open>A chunkserver does not answer with more bytes than the request asks for.\<close>

definition bounded_reads :: "'w net \<Rightarrow> bool" where
  "bounded_reads net \<longleftrightarrow>
     (\<forall>d a req w data w'. nt_Read net d a req w = (Inr (OK, data), w') \<longrightarrow> length data \<le> rd_length req)"

lemma read_replicas_bounded:
  "bounded_reads net \<Longrightarrow> read_replicas net req rs s = (Some piece, s') \<Longrightarrow> length piece \<le> rd_length req"
  by (induction net req rs s rule: read_replicas.induct)
    (auto simp: bounded_reads_def split: prod.splits sum.splits if_splits, metis)

lemma ReadChunk_bounded:
  assumes "bounded_reads net" "ReadChunk net path index in_chunk want s = (Inr (Some piece), s')"
  shows "length piece \<le> want"
proof -
  have "read_attempts net path index in_chunk want n s = (Inr (Some piece), s') \<Longrightarrow> length piece \<le> want" for n s
    by (induction n arbitrary: s)
      (auto dest!: read_replicas_bounded [OF assms(1)] split: prod.splits sum.splits option.splits)
  then show ?thesis using assms(2) by (simp add: ReadChunk_def)
qed

lemma read_loop_step:
  fixes size want :: nat
  assumes "pos < stop" "size = cl_chunk_size (fst s)" "want = min (stop - pos) (size - pos mod size)"
    and "ReadChunk net path (pos div size) (pos mod size) want s = (x, s1)"
  shows "read_loop net path pos stop data s =
     (case x of Inl status \<Rightarrow> Some (status, data, s1) | Inr None \<Rightarrow> Some (kOk, data, s1)
      | Inr (Some piece) \<Rightarrow> if length piece < want then Some (kOk, data @ piece, s1)
           else read_loop net path (add64 pos (length piece)) stop (data @ piece) s1)"
  using assms(1,4) unfolding assms(3) unfolding assms(2) by (subst read_loop.simps) (simp add: Let_def)

lemma read_loop_returns:
  assumes "bounded_reads net" "client_ready (fst s)" "stop < 2 ^ 64"
  shows "\<exists>status bytes s'. read_loop net path pos stop data s = Some (status, data @ bytes, s') \<and>
     length bytes \<le> stop - pos \<and> client_ready (fst s')"
  using assms(2)
proof (induction "stop - pos" arbitrary: pos data s rule: less_induct)
  case less
  show ?case
  proof (cases "pos < stop")
    case True
    define size want where "size = cl_chunk_size (fst s)" and "want = min (stop - pos) (size - pos mod size)"
    have want: "0 < want" "want \<le> stop - pos"
      using True client_ready_size [OF less.prems] by (simp_all add: want_def size_def)
    then have smaller: "stop - (pos + want) < stop - pos" using True by linarith
    obtain x s1 where rc: "ReadChunk net path (pos div size) (pos mod size) want s = (x, s1)" by (metis surj_pair)
    have p1: "client_ready (fst s1)"
      using ready.ReadChunk_keeps [OF less.prems, of net path "pos div size" "pos mod size" want] rc by simp
    note unfold = read_loop_step [OF True size_def want_def rc]
    show ?thesis
    proof (cases "\<exists>piece. x = Inr (Some piece)")
      case True
      then obtain piece where x: "x = Inr (Some piece)" by blast
      have le: "length piece \<le> want" using ReadChunk_bounded [OF assms(1)] rc x by blast
      show ?thesis
      proof (cases "length piece < want")
        case True
        then show ?thesis using unfold x p1 want by auto
      next
        case False
        then have len: "length piece = want" using le by simp
        have step: "add64 pos want = pos + want" using want assms(3) by (intro add64_eq) linarith
        obtain status bytes s' where IH: "read_loop net path (pos + want) stop (data @ piece) s1 = Some (status, (data @ piece) @ bytes, s')"
          "length bytes \<le> stop - (pos + want)" "client_ready (fst s')"
          using less.hyps [OF smaller p1, of "data @ piece"] by auto
        then show ?thesis using unfold x len step want
          by (intro exI [of _ status] exI [of _ "piece @ bytes"] exI [of _ s']) simp
      qed
    next
      case False
      then show ?thesis using unfold p1 by (cases s1) (auto split: sum.split option.split)
    qed
  next
    case False
    then show ?thesis using less.prems by (cases s) (auto simp: read_loop.simps)
  qed
qed

lemma Client_Read_terminates:
  assumes "bounded_reads net" "client_ok (fst s)"
  shows "\<exists>status bytes s'. Client_Read net path offset len s = Some (status, bytes, s') \<and> length bytes \<le> len \<and> client_ok (fst s')"
proof -
  obtain status s1 where e: "EnsureClusterInfo net s = (status, s1)" by (metis surj_pair)
  have s1: "client_ok (fst s1)" using wf.keeps_info [OF assms(2), of net] e by simp
  have stop: "add64 offset len - offset \<le> len" using mod_less_eq_dividend [of "offset + len" "2 ^ 64"] unfolding add64_def by linarith
  show ?thesis
  proof (cases "len = 0 \<or> status \<noteq> kOk")
    case True
    then show ?thesis using e s1 assms(2) by (cases s; cases s1) (auto simp: Client_Read_def)
  next
    case False
    then have "client_ready (fst s1)" using EnsureClusterInfo_ready e assms(2) by blast
    from read_loop_returns [OF assms(1) this add64_bound, of path offset offset len "[]"]
    show ?thesis using False e stop by (auto simp: Client_Read_def client_ready_ok intro: le_trans)
  qed
qed

text \<open>
  C25: A read returns, with at most the number of bytes that were asked for, when no chunkserver
  answers with more bytes than a request names.
\<close>

theorem Client_Read_returns:
  assumes "bounded_reads net" "client_ok (fst s)"
  shows "\<exists>status bytes s'. Client_Read net path offset len s = Some (status, bytes, s') \<and> length bytes \<le> len \<and> client_ok (fst s')"
  using assms by (rule Client_Read_terminates)

section \<open>An append that does not return\<close>

text \<open>
  A cluster with a file of one chunk, whose primary answers that the chunk is full, and with no
  chunkserver for another chunk.
\<close>

definition at_p :: replica where
  "at_p = \<lparr>rp_chunkserver_id = ''P'', rp_address = ''p'', rp_rack = []\<rparr>"

definition full_net :: "unit net" where
  "full_net =
     \<lparr>nt_pton = (\<lambda>_. None), nt_now = (\<lambda>w. (0, w)), nt_sleep = (\<lambda>_ w. w),
      nt_GetClusterInfo = (\<lambda>_ w. (Inr (16, 4), w)), nt_Create = (\<lambda>_ _ w. (Inl GRPC_UNIMPLEMENTED, w)),
      nt_Open = (\<lambda>_ _ w. (Inr 1, w)), nt_Delete = (\<lambda>_ _ w. (Inl GRPC_UNIMPLEMENTED, w)),
      nt_Rename = (\<lambda>_ _ _ w. (Inl GRPC_UNIMPLEMENTED, w)), nt_Snapshot = (\<lambda>_ _ _ w. (Inl GRPC_UNIMPLEMENTED, w)),
      nt_FindMatchingFiles = (\<lambda>_ _ _ w. (Inr [], w)), nt_FindLocation = (\<lambda>_ _ _ _ w. (Inr [], w)),
      nt_FindLeaseHolder = (\<lambda>_ _ _ w. (Inr \<lparr>lr_code = OK, lr_handle = 7, lr_version = 1, lr_primary = at_p, lr_secondaries = []\<rparr>, w)),
      nt_AddChunk = (\<lambda>_ _ _ w. (Inr NO_REPLICAS, w)), nt_GetChunkLength = (\<lambda>_ _ _ w. (Inr (OK, 16), w)),
      nt_Read = (\<lambda>_ _ _ w. (Inr (OK, []), w)), nt_Write = (\<lambda>_ _ _ w. (Inr OK, w)),
      nt_RecordAppend = (\<lambda>_ _ _ w. (Inr (RETRY_NEXT_CHUNK, 0), w)), nt_PushData = (\<lambda>_ _ w. w),
      nt_stream_Write = (\<lambda>_ w. (True, w)), nt_stream_Finish = (\<lambda>w. (Inr (OK, []), w))\<rparr>"

lemma full_push: "PushData full_net lease sequence data (c, w) = (kOk, c, ())"
  by (simp add: PushData_def full_net_def Let_def)

lemma full_append: "\<exists>s'. TryAppend full_net lease data s = (NextChunk, s') \<and> only_sequence (fst s) (fst s')"
proof -
  have "inner_attempts (fst s) = 0 # [1..<max (cf_mutation_retry_inner (cl_config (fst s))) 1]"
    unfolding inner_attempts_def by (simp add: upt_conv_Cons)
  moreover have "nt_RecordAppend full_net d a req w = (Inr (RETRY_NEXT_CHUNK, 0), w)" for d a req w by (simp add: full_net_def)
  ultimately show ?thesis
    by (cases s) (auto simp: TryAppend_def next_sequence_pause full_push only_sequence_def)
qed

lemma full_lease:
  obtains lease from_cache s1 where "FindLease full_net path index s = (Inr (lease, from_cache), s1)"
    "cl_config (fst s1) = cl_config (fst s)"
proof -
  obtain r s1 where Pair: "FindLease full_net path index s = (r, s1)" by (metis surj_pair)
  show thesis
  proof (cases r)
    case (Inl status)
    with Pair show thesis
      by (cases rule: lease_Get_cases [of full_net path index s]; simp add: FindLease_def full_net_def Let_def)
  next
    case (Inr x)
    then show thesis using Pair FindLease_lease(2) that by (cases x) blast
  qed
qed

lemma full_ensure: "EnsureChunk full_net path 1 s = (kUnavailable, fst s, ())"
  by (cases s) (simp add: EnsureChunk_def Client_Open_def full_net_def upt_rec)

lemma full_rounds:
  assumes "append_rounds full_net path data 0 outer ensured failure s = Some r"
  shows "outer > outer_limit (fst s)"
proof -
  have "full_net = full_net \<and> (0::nat) = 0 \<longrightarrow> outer > outer_limit (fst s)"
  proof (rule append_rounds.raw_induct [where
      P = "\<lambda>net path data index outer ensured failure s r. net = full_net \<and> index = 0 \<longrightarrow> outer > outer_limit (fst s)",
      OF _ assms], rule impI)
    fix f :: "unit net \<Rightarrow> string \<Rightarrow> bytes \<Rightarrow> nat \<Rightarrow> int \<Rightarrow> bool \<Rightarrow> error_code \<Rightarrow> unit run \<Rightarrow> ((error_code + nat) \<times> unit run) option"
    fix net path data index outer ensured failure s r
    assume IH: "\<And>net path data index outer ensured failure s r. f net path data index outer ensured failure s = Some r \<Longrightarrow>
        net = full_net \<and> index = 0 \<longrightarrow> outer > outer_limit (fst s)"
      and here: "net = full_net \<and> index = 0"
      and eq: "(if outer > outer_limit (fst s) then Some (Inl failure, s)
      else case FindLease net path index s of
             (Inl status, s1) \<Rightarrow>
               if status = kNotFound \<and> \<not> ensured
               then (case EnsureChunk net path index s1 of
                       (status', s2) \<Rightarrow>
                         if status' = kNotFound \<or> status' = kInvalidArgument then Some (Inl status', s2)
                         else f net path data index outer True failure s2)
               else if \<not> IsRetryableLater status then Some (Inl status, s1)
               else f net path data index (outer + 1) ensured status (rest_round net s1)
           | (Inr (lease, from_cache), s1) \<Rightarrow>
               (case TryAppend net lease data s1 of
                  (Appended in_chunk, s2) \<Rightarrow> Some (Inr (add64 (mul64 index (cl_chunk_size (fst s2))) in_chunk), s2)
                | (NextChunk, s2) \<Rightarrow>
                    (case EnsureChunk net path (add64 index 1) s2 of
                       (status', s3) \<Rightarrow>
                         if status' = kOk then f net path data (add64 index 1) 0 True failure s3
                         else if \<not> IsRetryableLater status' then Some (Inl status', s3)
                         else f net path data index outer ensured failure s3)
                | (AppendFailed attempt, s2) \<Rightarrow>
                    if attempt = kInvalidArgument then Some (Inl attempt, s2)
                    else if from_cache
                    then f net path data index outer ensured attempt (lease_Invalidate path index s2)
                    else f net path data index (outer + 1) ensured attempt
                           (rest_round net (lease_Invalidate path index s2)))) = Some r"
    show "outer_limit (fst s) < outer"
    proof (rule ccontr)
      assume going: "\<not> ?thesis"
      obtain lease from_cache s1 where fl: "FindLease full_net path 0 s = (Inr (lease, from_cache), s1)"
        "cl_config (fst s1) = cl_config (fst s)" by (rule full_lease)
      obtain s2 where ta: "TryAppend full_net lease data s1 = (NextChunk, s2)" "only_sequence (fst s1) (fst s2)"
        using full_append by blast
      have "add64 0 1 = 1" by (simp add: add64_def)
      then have "f full_net path data 0 outer ensured failure (fst s2, ()) = Some r"
        using eq going here fl ta full_ensure [of path s2] by (simp add: IsRetryableLater_def del: One_nat_def)
      from IH [OF this] have "outer > outer_limit (fst s2)" by simp
      then show False using going fl(2) ta(2) by (auto simp: only_sequence_def outer_limit_def)
    qed
  qed
  then show ?thesis by simp
qed

text \<open>
  C33: A record append never returns while the last chunk is full and the master has no server for
  another: the round is repeated without a pause and without being counted.
\<close>

theorem RecordAppend_diverges:
  "Client_RecordAppend full_net path ''x'' (new_client hash client_id default_config, ()) = None"
proof -
  define c where "c = (new_client hash client_id default_config)
    \<lparr>cl_chunk_size := 16, cl_max_append := 4, cl_info_loaded := True\<rparr>"
  have "EnsureClusterInfo full_net (new_client hash client_id default_config, ()) = (kOk, c, ())"
    by (simp add: EnsureClusterInfo_def full_net_def c_def new_client_def)
  moreover have "Client_Open full_net path (c, ()) = (Inr 1, c, ())" by (simp add: Client_Open_def full_net_def)
  moreover have "outer_limit c = 2" by (simp add: outer_limit_def c_def new_client_def default_config_def)
  then have "append_rounds full_net path ''x'' 0 0 False kFailed (c, ()) = None"
    using full_rounds [of path "''x''" 0 False kFailed "(c, ())"] by (cases "append_rounds full_net path ''x'' 0 0 False kFailed (c, ())") auto
  moreover have "cl_max_append c = 4" by (simp add: c_def)
  ultimately show ?thesis by (simp add: Client_RecordAppend_def)
qed

section \<open>A limit that is read as negative\<close>

lemma outer_limit_signed:
  assumes "cf_mutation_retry_outer (cl_config c) < 2 ^ 32"
  shows "outer_limit c = (if cf_mutation_retry_outer (cl_config c) < 2 ^ 31 then int (cf_mutation_retry_outer (cl_config c))
     else int (cf_mutation_retry_outer (cl_config c)) - 2 ^ 32)"
proof -
  let ?n = "cf_mutation_retry_outer (cl_config c)"
  have "outer_limit c = signed_take_bit 31 (int ?n)" unfolding outer_limit_def by (subst signed_of_nat) simp
  also have "\<dots> = (int ?n + 2 ^ 31) mod 2 ^ 32 - 2 ^ 31" by (simp add: signed_take_bit_eq_take_bit_shift take_bit_eq_mod)
  also have "\<dots> = (if ?n < 2 ^ 31 then int ?n else int ?n - 2 ^ 32)"
  proof (cases "?n < 2 ^ 31")
    case True
    then have "(int ?n + 2 ^ 31) mod 2 ^ 32 = int ?n + 2 ^ 31" by (intro mod_pos_pos_trivial) auto
    with True show ?thesis by simp
  next
    case False
    then have "(int ?n + 2 ^ 31 - 2 ^ 32) mod 2 ^ 32 = int ?n + 2 ^ 31 - 2 ^ 32"
      using assms by (intro mod_pos_pos_trivial) auto
    then have "(int ?n + 2 ^ 31) mod 2 ^ 32 = int ?n + 2 ^ 31 - 2 ^ 32" by (metis minus_mod_self2)
    with False show ?thesis by simp
  qed
  finally show ?thesis .
qed

text \<open>
  With a setting of \<open>mutation_retry_outer\<close> of \<open>2 ^ 31\<close> or more, which the option accepts, a write
  of a chunk fails without having called any server: the limit is converted to a negative \<open>int\<close>.
\<close>

lemma outer_limit_negative:
  assumes "2 ^ 31 \<le> cf_mutation_retry_outer (cl_config c)" "cf_mutation_retry_outer (cl_config c) < 2 ^ 32"
  shows "WriteChunk net path index in_chunk data (c, w) = Some (kFailed, c, w)"
proof -
  have "outer_limit c < 0" using outer_limit_signed [OF assms(2)] assms by simp
  then show ?thesis unfolding WriteChunk_def by (subst write_rounds.simps) simp
qed

section \<open>Witnesses\<close>

definition full_client :: client where
  "full_client = new_client (\<lambda>_. 0) ''id'' default_config"

lemma full_client_ok: "client_ok (fst (full_client, ()))"
  by (simp add: full_client_def new_client_ok)


theorem client_stays_ok_witness: "run_ok (snd (Client_Length full_net ''/a'' (full_client, ())))"
  using client_stays_ok [OF full_client_ok] by blast

theorem Client_Read_returns_witness:
  "\<exists>status bytes s'. Client_Read full_net ''/a'' 0 5 (full_client, ()) = Some (status, bytes, s') \<and>
     length bytes \<le> 5 \<and> client_ok (fst s')"
  by (rule Client_Read_returns [OF _ full_client_ok]) (simp add: bounded_reads_def full_net_def)

theorem outer_limit_negative_witness:
  "WriteChunk full_net ''/a'' 0 0 ''x'' (full_client\<lparr>cl_config := default_config\<lparr>cf_mutation_retry_outer := 3000000000\<rparr>\<rparr>, ()) =
     Some (kFailed, full_client\<lparr>cl_config := default_config\<lparr>cf_mutation_retry_outer := 3000000000\<rparr>\<rparr>, ())"
  by (rule outer_limit_negative) simp_all

end
