(* ===== verification/ClientPushes.thy ===== *)
theory ClientPushes
  imports ClientTermination
begin

text \<open>
  Every push of data carries a sequence number of its own. \<open>logged net\<close> is the network \<open>net\<close>
  together with a log of the headers that the client sends; the numbers in this log are
  consecutive, whatever fails and however often a mutation is retried. Chunkservers buffer
  pushed data by client and sequence number, so a retry never reuses the data of another push.
\<close>

section \<open>A network with a log\<close>

definition beside :: "('w \<Rightarrow> 'r \<times> 'w) \<Rightarrow> 'w \<times> 'l \<Rightarrow> 'r \<times> 'w \<times> 'l" where
  "beside f = (\<lambda>(w, l). case f w of (r, w') \<Rightarrow> (r, w', l))"

definition log_header :: "push_message \<Rightarrow> push_header list \<Rightarrow> push_header list" where
  "log_header m l = (case m of PushHeader h \<Rightarrow> l @ [h] | _ \<Rightarrow> l)"

definition logged :: "'w net \<Rightarrow> ('w \<times> push_header list) net" where
  "logged net =
     \<lparr>nt_pton = nt_pton net, nt_now = beside (nt_now net), nt_sleep = (\<lambda>d (w, l). (nt_sleep net d w, l)),
      nt_GetClusterInfo = (\<lambda>d. beside (nt_GetClusterInfo net d)), nt_Create = (\<lambda>d p. beside (nt_Create net d p)),
      nt_Open = (\<lambda>d p. beside (nt_Open net d p)), nt_Delete = (\<lambda>d p. beside (nt_Delete net d p)),
      nt_Rename = (\<lambda>d p q. beside (nt_Rename net d p q)), nt_Snapshot = (\<lambda>d p q. beside (nt_Snapshot net d p q)),
      nt_FindMatchingFiles = (\<lambda>d p b. beside (nt_FindMatchingFiles net d p b)),
      nt_FindLocation = (\<lambda>d p i n. beside (nt_FindLocation net d p i n)),
      nt_FindLeaseHolder = (\<lambda>d p i. beside (nt_FindLeaseHolder net d p i)),
      nt_AddChunk = (\<lambda>d p i. beside (nt_AddChunk net d p i)),
      nt_GetChunkLength = (\<lambda>d a h. beside (nt_GetChunkLength net d a h)), nt_Read = (\<lambda>d a r. beside (nt_Read net d a r)),
      nt_Write = (\<lambda>d a r. beside (nt_Write net d a r)), nt_RecordAppend = (\<lambda>d a r. beside (nt_RecordAppend net d a r)),
      nt_PushData = (\<lambda>d a (w, l). (nt_PushData net d a w, l)),
      nt_stream_Write = (\<lambda>m (w, l). case nt_stream_Write net m w of (alive, w') \<Rightarrow> (alive, w', log_header m l)),
      nt_stream_Finish = beside (nt_stream_Finish net)\<rparr>"

section \<open>The numbers of the pushes\<close>

text \<open>Since the client was \<open>c0\<close> and the log \<open>l0\<close>, it has used up one number for each header sent.\<close>

definition numbered :: "client \<Rightarrow> push_header list \<Rightarrow> client \<times> 'w \<times> push_header list \<Rightarrow> bool" where
  "numbered c0 l0 = (\<lambda>(c, w, l).
     cl_client_id c = cl_client_id c0 \<and>
     (\<exists>new. l = l0 @ new \<and> cl_sequence c = cl_sequence c0 + of_nat (length new) \<and>
        map ph_client_id new = replicate (length new) (cl_client_id c0) \<and>
        map ph_sequence new = map (\<lambda>i. cl_sequence c0 + of_nat i) [0..<length new]))"

lemma numbered_start: "numbered c l (c, w, l)"
  by (simp add: numbered_def)

text \<open>What does not push keeps the number, the identity and the log.\<close>

definition silent :: "client \<times> 'w \<times> push_header list \<Rightarrow> client \<times> 'w \<times> push_header list \<Rightarrow> bool" where
  "silent = (\<lambda>(c, w, l) (c', w', l'). cl_client_id c' = cl_client_id c \<and> cl_sequence c' = cl_sequence c \<and> l' = l)"

lemma numbered_silent: "silent s s' \<Longrightarrow> numbered c0 l0 s \<Longrightarrow> numbered c0 l0 s'"
  by (auto simp: numbered_def silent_def)

lemma silent_refl: "silent s s"
  by (simp add: silent_def split_beta)

lemma silent_trans: "silent s s' \<Longrightarrow> silent s' s'' \<Longrightarrow> silent s s''"
  by (simp add: silent_def split_beta)

lemmas logged_sel = logged_def beside_def

lemma silent_store: "silent s (snd (store_locations (logged net) path index chunks found s))"
proof (induction chunks arbitrary: found s)
  case (Cons chunk chunks)
  have "silent s (location_Put (logged net) path (inf_index chunk) (entry_of chunk) s)"
    by (simp add: location_Put_def logged_sel silent_def split_beta)
  from silent_trans [OF this Cons] show ?case by simp
qed (simp add: silent_refl)

lemma silent_Locate: "silent s (snd (Locate (logged net) path index s))"
proof -
  have get: "silent s (snd (location_Get (logged net) path index s))"
    by (simp add: location_Get_def logged_sel silent_def split_beta)
  show ?thesis
  proof (cases "fst (location_Get (logged net) path index s)")
    case (Some e)
    with get show ?thesis by (simp add: Locate_def case_prod_unfold)
  next
    case None
    obtain c w l where g: "snd (location_Get (logged net) path index s) = (c, w, l)" by (metis prod_cases3)
    define r where "r = nt_FindLocation net (deadline c) path index kLocationBatch w"
    have call: "nt_FindLocation (logged net) (deadline c) path index kLocationBatch (w, l) = (fst r, snd r, l)"
      by (simp add: logged_sel r_def split_beta)
    have "silent s (c, snd r, l)" using get g by (simp add: silent_def split_beta)
    then have "silent s (snd (store_locations (logged net) path index chunks None (c, snd r, l)))" for chunks
      by (rule silent_trans [OF _ silent_store])
    with \<open>silent s (c, snd r, l)\<close> show ?thesis using None g
      by (simp add: Locate_def case_prod_unfold call split: sum.split)
  qed
qed

lemma silent_FindLease: "silent s (snd (FindLease (logged net) path index s))"
proof -
  have get: "silent s (snd (lease_Get (logged net) path index s))"
    by (simp add: lease_Get_def logged_sel silent_def split_beta)
  show ?thesis
  proof (cases "fst (lease_Get (logged net) path index s)")
    case (Some e)
    with get show ?thesis by (simp add: FindLease_def case_prod_unfold)
  next
    case None
    obtain c w l where g: "snd (lease_Get (logged net) path index s) = (c, w, l)" by (metis prod_cases3)
    define r where "r = nt_FindLeaseHolder net (LeaseWaitDeadline c) path index w"
    have call: "nt_FindLeaseHolder (logged net) (LeaseWaitDeadline c) path index (w, l) = (fst r, snd r, l)"
      by (simp add: logged_sel r_def split_beta)
    have step: "silent s (c, snd r, l)" using get g by (simp add: silent_def split_beta)
    then have "silent s (lease_Put (logged net) path index e (c, snd r, l))" for e
      by (simp add: lease_Put_def logged_sel silent_def split_beta)
    with step show ?thesis using None g
      by (simp add: FindLease_def case_prod_unfold call Let_def split: sum.split)
  qed
qed

lemma send_frames_log: "snd (send_frames (logged net) fs (w, l)) = l"
  by (induction fs arbitrary: w) (auto simp: logged_sel log_header_def split: prod.split)

text \<open>A push sends one header, with the number it was given.\<close>

lemma PushData_log:
  "\<exists>status w' h. PushData (logged net) lease sequence data (c, w, l) = (status, c, w', l @ [h]) \<and>
     ph_sequence h = sequence \<and> ph_client_id h = cl_client_id c"
proof -
  define chain where "chain = push_chain_of (logged net) c lease"
  define h where "h = push_header_of c sequence data (tl chain)"
  define w1 where "w1 = nt_PushData net (deadline c) (rp_address (hd chain)) w"
  obtain alive w2 where w2: "nt_stream_Write net (PushHeader h) w1 = (alive, w2)" by fastforce
  define w3 where "w3 = (if alive then send_frames (logged net) (frames (frame_size c) data) (w2, l @ [h]) else (w2, l @ [h]))"
  have l3: "snd w3 = l @ [h]" by (simp add: w3_def send_frames_log)
  obtain r w4 where w4: "nt_stream_Finish net (fst w3) = (r, w4)" by fastforce
  have fin: "nt_stream_Finish (logged net) w3 = (r, w4, l @ [h])"
    using w4 l3 by (simp add: logged_sel split_beta)
  have "nt_PushData (logged net) (deadline c) (rp_address (hd chain)) (w, l) = (w1, l)" by (simp add: logged_def w1_def)
  moreover have "nt_stream_Write (logged net) (PushHeader h) (w1, l) = (alive, w2, l @ [h])"
    using w2 by (simp add: logged_def log_header_def)
  ultimately have "PushData (logged net) lease sequence data (c, w, l) =
      (case r of Inl _ \<Rightarrow> kUnavailable | Inr (code, _) \<Rightarrow> if code \<noteq> OK then kUnavailable else kOk, c, w4, l @ [h])"
    by (simp add: PushData_def Let_def fin flip: chain_def h_def w3_def split: sum.split prod.split)
  then show ?thesis by (auto simp: h_def push_header_of_def)
qed

lemma numbered_push:
  assumes "numbered c0 l0 (c, w)"
  shows "numbered c0 l0 (snd (PushData (logged net) lease (cl_sequence c) data (c\<lparr>cl_sequence := cl_sequence c + 1\<rparr>, w)))"
proof -
  obtain w1 l where w: "w = (w1, l)" by fastforce
  obtain status w' h where p: "PushData (logged net) lease (cl_sequence c) data (c\<lparr>cl_sequence := cl_sequence c + 1\<rparr>, w1, l) =
      (status, c\<lparr>cl_sequence := cl_sequence c + 1\<rparr>, w', l @ [h])" "ph_sequence h = cl_sequence c" "ph_client_id h = cl_client_id c"
    using PushData_log [of net lease "cl_sequence c" data "c\<lparr>cl_sequence := cl_sequence c + 1\<rparr>" w1 l] by auto
  from assms w obtain new where new: "l = l0 @ new" "cl_sequence c = cl_sequence c0 + of_nat (length new)"
    "map ph_client_id new = replicate (length new) (cl_client_id c0)"
    "map ph_sequence new = map (\<lambda>i. cl_sequence c0 + of_nat i) [0..<length new]" "cl_client_id c = cl_client_id c0"
    by (auto simp: numbered_def)
  then show ?thesis unfolding w p(1)
    using p(2,3) by (auto simp: numbered_def replicate_append_same intro!: exI [of _ "new @ [h]"])
qed

interpretation pushes: run_property "logged net" "numbered c0 l0" for net :: "'w net" and c0 l0
proof
  fix s :: "('w \<times> push_header list) run" and path index
  assume s: "numbered c0 l0 s"
  have "silent s (snd (EnsureClusterInfo (logged net) s))" "silent s (snd (Client_Open (logged net) path s))"
    "silent s (location_Invalidate path index s)" "silent s (lease_Invalidate path index s)"
    by (auto simp: EnsureClusterInfo_def Client_Open_def location_Invalidate_def lease_Invalidate_def logged_sel silent_def
        split: prod.splits sum.splits)
  then show "numbered c0 l0 (snd (EnsureClusterInfo (logged net) s))" "numbered c0 l0 (snd (Client_Open (logged net) path s))"
    "numbered c0 l0 (location_Invalidate path index s)" "numbered c0 l0 (lease_Invalidate path index s)"
    using s numbered_silent by blast+
  show "numbered c0 l0 (snd (Locate (logged net) path index s))" "numbered c0 l0 (snd (FindLease (logged net) path index s))"
    using s numbered_silent silent_Locate silent_FindLease by blast+
next
  fix c and w :: "'w \<times> push_header list" and lease data
  assume "numbered c0 l0 (c, w)"
  then show "numbered c0 l0 (snd (PushData (logged net) lease (cl_sequence c) data (c\<lparr>cl_sequence := cl_sequence c + 1\<rparr>, w)))"
    by (rule numbered_push)
qed (auto simp: numbered_def logged_sel split: prod.splits)

section \<open>Fresh numbers\<close>


text \<open>The same of a record append that returns.\<close>

lemma append_pushes_fresh:
  assumes "Client_RecordAppend (logged net) path data (c, w, []) = Some (result, c', w', new)"
  shows "map ph_sequence new = map (\<lambda>i. cl_sequence c + of_nat i) [0..<length new]"
proof -
  have "if_returns (numbered c []) (Client_RecordAppend (logged net) path data (c, w, []))"
    by (rule append_keeps [OF pushes.run_property_axioms numbered_start])
  with assms show ?thesis by (auto simp: numbered_def)
qed

text \<open>Different pushes have different keys, short of \<open>2 ^ 64\<close> of them.\<close>

lemma numbers_distinct:
  fixes start :: u64
  assumes "n \<le> 2 ^ 64"
  shows "distinct (map (\<lambda>i. start + of_nat i) [0..<n])"
proof -
  have "inj_on (\<lambda>i. start + of_nat i) {0..<n}"
  proof (rule inj_onI)
    fix i j assume ij: "i \<in> {0..<n}" "j \<in> {0..<n}" "start + of_nat i = start + of_nat j"
    then have "unat (of_nat i :: u64) = unat (of_nat j :: u64)" by simp
    then show "i = j" using ij(1,2) assms by (simp add: unat_of_nat take_bit_eq_mod)
  qed
  then show ?thesis by (simp add: distinct_map)
qed

section \<open>Witness\<close>


end
