(* ===== verification/ClientReads.thy ===== *)
theory ClientReads
  imports ClientTermination
begin

text \<open>
  Reading a file through the client. \<open>file_service\<close> is the contract between the client and the
  servers while a file does not change: what \<open>Open\<close>, \<open>FindLocation\<close>, \<open>Read\<close> and \<open>GetChunkLength\<close>
  may answer about its chunks. It says nothing of calls that fail. Inside the locale, reads and
  lengths are exact or errors. \<open>System\<close> interprets it on the master and the chunkservers.
\<close>

section \<open>A file in chunks\<close>

text \<open>Handle and version of a chunk, the addresses of its replicas, its bytes.\<close>

record file_chunk =
  fc_handle :: u64
  fc_version :: u64
  fc_addresses :: "string set"
  fc_bytes :: bytes

definition file_bytes :: "file_chunk list \<Rightarrow> bytes" where
  "file_bytes chunks = concat (map fc_bytes chunks)"

text \<open>All chunks but the last are full, and positions do not overflow.\<close>

definition packed :: "nat \<Rightarrow> file_chunk list \<Rightarrow> bool" where
  "packed n chunks \<longleftrightarrow> 0 < n \<and> length chunks * n + kLocationBatch < 2 ^ 64 \<and>
     (\<forall>i < length chunks. length (fc_bytes (chunks ! i)) \<le> n \<and>
        (Suc i < length chunks \<longrightarrow> length (fc_bytes (chunks ! i)) = n))"

lemma packed_Cons:
  "packed n (x # xs) \<Longrightarrow> packed n xs \<and> length (fc_bytes x) \<le> n \<and> (xs \<noteq> [] \<longrightarrow> length (fc_bytes x) = n)"
proof -
  assume p: "packed n (x # xs)"
  then have "\<forall>i < Suc (length xs). length (fc_bytes ((x # xs) ! i)) \<le> n \<and>
      (i < length xs \<longrightarrow> length (fc_bytes ((x # xs) ! i)) = n)" by (simp add: packed_def)
  from spec [OF this, of 0] have "length (fc_bytes x) \<le> n \<and> (xs \<noteq> [] \<longrightarrow> length (fc_bytes x) = n)" by simp
  moreover have "length xs * n + kLocationBatch < 2 ^ 64" using p by (simp add: packed_def)
  then have "packed n xs" using p unfolding packed_def by (metis Suc_less_eq length_Cons nth_Cons_Suc)
  ultimately show ?thesis by blast
qed

lemma file_bytes_length: "packed n chunks \<Longrightarrow> length (file_bytes chunks) \<le> length chunks * n"
proof (induction chunks)
  case (Cons x xs)
  then show ?case using packed_Cons [OF Cons.prems] by (auto simp: file_bytes_def)
qed (simp add: file_bytes_def)

lemma file_bytes_drop:
  "packed n chunks \<Longrightarrow> i < length chunks \<Longrightarrow>
     drop (i * n) (file_bytes chunks) = fc_bytes (chunks ! i) @ file_bytes (drop (Suc i) chunks)"
proof (induction chunks arbitrary: i)
  case (Cons x xs)
  show ?case
  proof (cases i)
    case 0
    then show ?thesis by (simp add: file_bytes_def)
  next
    case (Suc j)
    then have xs: "xs \<noteq> []" "j < length xs" using Cons.prems by auto
    then have "length (fc_bytes x) = n" "packed n xs" using packed_Cons [OF Cons.prems(1)] by auto
    then have "drop (i * n) (file_bytes (x # xs)) = drop (j * n) (file_bytes xs)"
      by (simp add: Suc file_bytes_def)
    then show ?thesis using Cons.IH [OF \<open>packed n xs\<close> xs(2)] Suc by simp
  qed
qed simp

text \<open>A read that stays in one chunk.\<close>

lemma read_in_chunk:
  assumes p: "packed n chunks" and pos: "pos div n < length chunks" and want: "want \<le> n - pos mod n"
  shows "take want (drop pos (file_bytes chunks)) = take want (drop (pos mod n) (fc_bytes (chunks ! (pos div n))))"
    and "length (take want (drop (pos mod n) (fc_bytes (chunks ! (pos div n))))) < want \<Longrightarrow>
      drop pos (file_bytes chunks) = take want (drop (pos mod n) (fc_bytes (chunks ! (pos div n))))"
proof -
  let ?i = "pos div n" and ?f = "fc_bytes (chunks ! (pos div n))"
  have "drop pos (file_bytes chunks) = drop (pos mod n) (drop (?i * n) (file_bytes chunks))" by (simp add: add.commute)
  also have "\<dots> = drop (pos mod n) (?f @ file_bytes (drop (Suc ?i) chunks))" by (simp add: file_bytes_drop [OF p pos])
  finally have d: "drop pos (file_bytes chunks) = drop (pos mod n) (?f @ file_bytes (drop (Suc ?i) chunks))" .
  have "take want (drop pos (file_bytes chunks)) = take want (drop (pos mod n) ?f) \<and>
    (length (take want (drop (pos mod n) ?f)) < want \<longrightarrow> drop pos (file_bytes chunks) = take want (drop (pos mod n) ?f))"
  proof (cases "Suc ?i < length chunks")
    case True
    then have "length ?f = n" using p by (simp add: packed_def)
    then show ?thesis using d want by simp
  next
    case False
    then have "drop (Suc ?i) chunks = []" by simp
    then show ?thesis using d by (simp add: file_bytes_def)
  qed
  then show "take want (drop pos (file_bytes chunks)) = take want (drop (pos mod n) ?f)"
    and "length (take want (drop (pos mod n) ?f)) < want \<Longrightarrow> drop pos (file_bytes chunks) = take want (drop (pos mod n) ?f)"
    by blast+
qed

lemma file_bytes_end: "packed n chunks \<Longrightarrow> length chunks \<le> pos div n \<Longrightarrow> drop pos (file_bytes chunks) = []"
proof -
  assume "packed n chunks" "length chunks \<le> pos div n"
  then have "length chunks * n \<le> pos" by (meson div_times_less_eq_dividend mult_le_mono1 order_trans)
  with file_bytes_length [OF \<open>packed n chunks\<close>] show ?thesis by simp
qed

section \<open>Errors\<close>

lemma grpc_error_not_ok: "grpc_error code \<noteq> kOk"
  by (cases code) (simp_all add: grpc_error_def)

lemma Locate_error: "Locate net path index s = (Inl status, s') \<Longrightarrow> status \<noteq> kOk"
  using grpc_error_not_ok by (auto simp: Locate_def split: prod.splits option.splits sum.splits)

lemma ReadChunk_error: "ReadChunk net path index in_chunk want s = (Inl status, s') \<Longrightarrow> status \<noteq> kOk"
proof -
  have "read_attempts net path index in_chunk want k s = (Inl status, s') \<Longrightarrow> status \<noteq> kOk" for k
    by (induction k arbitrary: s) (auto dest: Locate_error split: prod.splits option.splits sum.splits)
  then show "ReadChunk net path index in_chunk want s = (Inl status, s') \<Longrightarrow> status \<noteq> kOk" by (simp add: ReadChunk_def)
qed

section \<open>The contract\<close>

text \<open>The client has nothing else in its cache for this file, and the chunk size of the cluster.\<close>

definition known :: "file_chunk list \<Rightarrow> nat \<Rightarrow> cached_chunk \<Rightarrow> bool" where
  "known chunks i e \<longleftrightarrow> i < length chunks \<and> cc_handle e = fc_handle (chunks ! i) \<and> cc_version e = fc_version (chunks ! i) \<and>
     rp_address ` set (cc_replicas e) \<subseteq> fc_addresses (chunks ! i)"

definition agrees :: "string \<Rightarrow> file_chunk list \<Rightarrow> nat \<Rightarrow> client \<Rightarrow> bool" where
  "agrees path chunks n c \<longleftrightarrow>
     (\<forall>i e. om_find (ec_entries (cl_locations c)) (path, i) = Some e \<longrightarrow> known chunks i (ce_entry e)) \<and>
     (cl_info_loaded c \<longrightarrow> cl_chunk_size c = n)"

lemma agrees_new: "agrees path chunks n (new_client hash client_id cfg)"
  by (simp add: agrees_def new_client_def)

locale file_service =
  fixes net :: "'w net" and I :: "'w \<Rightarrow> bool" and path :: string and chunks :: "file_chunk list" and n :: nat
  assumes chunk_size: "I w \<Longrightarrow> nt_GetClusterInfo net d w = (Inr (sz, m), w') \<Longrightarrow> sz = n"
    and opened: "I w \<Longrightarrow> nt_Open net d path w = (Inr k, w') \<Longrightarrow> k = length chunks"
    and located: "I w \<Longrightarrow> nt_FindLocation net d path first kLocationBatch w = (Inr infos, w') \<Longrightarrow> info \<in> set infos \<Longrightarrow>
      inf_index info < length chunks \<and> inf_handle info = fc_handle (chunks ! inf_index info) \<and>
      inf_version info = fc_version (chunks ! inf_index info) \<and>
      rp_address ` set (inf_replicas info) \<subseteq> fc_addresses (chunks ! inf_index info)"
    and covered: "I w \<Longrightarrow> nt_FindLocation net d path first kLocationBatch w = (Inr infos, w') \<Longrightarrow> first < length chunks \<Longrightarrow>
      first \<in> inf_index ` set infos"
    and bytes: "I w \<Longrightarrow> i < length chunks \<Longrightarrow> a \<in> fc_addresses (chunks ! i) \<Longrightarrow> offset + len < 2 ^ 64 \<Longrightarrow>
      nt_Read net d a \<lparr>rd_handle = fc_handle (chunks ! i), rd_version = fc_version (chunks ! i), rd_offset = offset, rd_length = len\<rparr> w =
        (Inr (code, data), w') \<Longrightarrow>
      (code = OK \<longrightarrow> data = take len (drop offset (fc_bytes (chunks ! i)))) \<and>
      (code = OUT_OF_RANGE \<longrightarrow> length (fc_bytes (chunks ! i)) \<le> offset)"
    and lengths: "I w \<Longrightarrow> i < length chunks \<Longrightarrow> a \<in> fc_addresses (chunks ! i) \<Longrightarrow>
      nt_GetChunkLength net d a (fc_handle (chunks ! i)) w = (Inr (OK, k), w') \<Longrightarrow> k = length (fc_bytes (chunks ! i))"
    and stays: "I w \<Longrightarrow> I (snd (nt_now net w)) \<and> I (snd (nt_GetClusterInfo net d w)) \<and> I (snd (nt_Open net d p w)) \<and>
      I (snd (nt_FindLocation net d p first cnt w)) \<and> I (snd (nt_Read net d a req w)) \<and> I (snd (nt_GetChunkLength net d a handle w))"
    and packed_if: "I w \<Longrightarrow> packed n chunks"
begin

abbreviation R :: "'w run \<Rightarrow> bool" where
  "R s \<equiv> I (snd s) \<and> agrees path chunks n (fst s)"

lemma I_now: "I w \<Longrightarrow> I (snd (nt_now net w))"
  using stays by blast

lemma R_store:
  "R s \<Longrightarrow> (\<forall>info \<in> set infos. known chunks (inf_index info) (entry_of info)) \<Longrightarrow> (\<forall>e. found = Some e \<longrightarrow> known chunks index e) \<Longrightarrow>
   store_locations net path index infos found s = (found', s') \<Longrightarrow>
   R s' \<and> (\<forall>e. found' = Some e \<longrightarrow> known chunks index e) \<and> (found' = None \<longleftrightarrow> found = None \<and> index \<notin> inf_index ` set infos)"
proof (induction infos arbitrary: found s)
  case (Cons info infos)
  obtain c w where s: "s = (c, w)" by (cases s)
  obtain t w1 where now: "nt_now net w = (t, w1)" by fastforce
  have "I w1" using Cons.prems(1) I_now [of w] now by (simp add: s)
  moreover have k: "known chunks (inf_index info) (entry_of info)" using Cons.prems(2) by simp
  ultimately have put: "R (location_Put net path (inf_index info) (entry_of info) s)"
    using Cons.prems(1) by (simp add: s agrees_def location_Put_def LocationCache.Put_def now)
  define found1 where "found1 = (if inf_index info = index then Some (entry_of info) else found)"
  have "\<forall>e. found1 = Some e \<longrightarrow> known chunks index e" using Cons.prems(3) k by (auto simp: found1_def)
  moreover have "store_locations net path index infos found1 (location_Put net path (inf_index info) (entry_of info) s) = (found', s')"
    using Cons.prems(4) by (simp add: found1_def)
  moreover have "\<forall>info \<in> set infos. known chunks (inf_index info) (entry_of info)" using Cons.prems(2) by simp
  ultimately have "R s' \<and> (\<forall>e. found' = Some e \<longrightarrow> known chunks index e) \<and>
      (found' = None \<longleftrightarrow> found1 = None \<and> index \<notin> inf_index ` set infos)"
    using Cons.IH [OF put] by blast
  moreover have "found1 = None \<longleftrightarrow> found = None \<and> index \<noteq> inf_index info" by (auto simp: found1_def)
  ultimately show ?case by simp
qed simp

text \<open>Where a chunk is: known, or missing and then beyond the end, or an error.\<close>

lemma R_Locate:
  assumes "R s" "Locate net path index s = (r, s')"
  shows "R s'" "r = Inr (Some e) \<Longrightarrow> known chunks index e" "r = Inr None \<Longrightarrow> length chunks \<le> index"
proof -
  obtain c w where s: "s = (c, w)" by (cases s)
  obtain t w1 where now: "nt_now net w = (t, w1)" by fastforce
  have Iw: "I w" "I w1" using assms(1) stays [of w] now by (auto simp: s)
  define c1 where "c1 = c\<lparr>cl_locations := fst (LocationCache.Get t path index (cl_locations c))\<rparr>"
  have g: "location_Get net path index s = (snd (LocationCache.Get t path index (cl_locations c)), c1, w1)"
    by (simp add: s location_Get_def now c1_def split: prod.split)
  have c1: "agrees path chunks n c1" "R (c1, w1)"
    using assms(1) Iw by (auto simp: s agrees_def c1_def LocationCache.Get_def split: option.splits)
  have "R s' \<and> (\<forall>e. r = Inr (Some e) \<longrightarrow> known chunks index e) \<and> (r = Inr None \<longrightarrow> length chunks \<le> index)"
  proof (cases "snd (LocationCache.Get t path index (cl_locations c))")
    case (Some e)
    then have "known chunks index e"
      using assms(1) by (auto simp: s agrees_def LocationCache.Get_def split: option.splits if_splits)
    moreover have "r = Inr (Some e)" "s' = (c1, w1)" using assms(2) by (simp_all add: Locate_def g Some)
    ultimately show ?thesis using c1(2) by simp
  next
    case None
    obtain res w2 where call: "nt_FindLocation net (deadline c1) path index kLocationBatch w1 = (res, w2)" by fastforce
    then have w2: "I w2" using stays [OF Iw(2)] by (metis snd_conv)
    show ?thesis
    proof (cases res)
      case (Inl code)
      then show ?thesis using assms(2) c1(1) w2 by (auto simp: Locate_def g None call)
    next
      case (Inr infos)
      obtain found s3 where st: "store_locations net path index infos None (c1, w2) = (found, s3)" by (metis surj_pair)
      have "\<forall>info \<in> set infos. known chunks (inf_index info) (entry_of info)"
        using located [OF Iw(2) call [unfolded Inr]] by (simp add: known_def entry_of_def)
      then have "R s3 \<and> (\<forall>e. found = Some e \<longrightarrow> known chunks index e) \<and> (found = None \<longleftrightarrow> index \<notin> inf_index ` set infos)"
        using R_store [OF _ _ _ st] c1(1) w2 by simp
      moreover have "r = Inr found" "s' = s3" using assms(2) by (simp_all add: Locate_def g None call Inr st)
      ultimately show ?thesis using covered [OF Iw(2) call [unfolded Inr]] not_le by blast
    qed
  qed
  then show "R s'" "r = Inr (Some e) \<Longrightarrow> known chunks index e" "r = Inr None \<Longrightarrow> length chunks \<le> index" by blast+
qed

text \<open>What a chunk answers.\<close>

lemma R_read_replicas:
  assumes "known chunks i e" "offset + len < 2 ^ 64"
  shows "R s \<Longrightarrow> rp_address ` set rs \<subseteq> fc_addresses (chunks ! i) \<Longrightarrow>
     read_replicas net \<lparr>rd_handle = cc_handle e, rd_version = cc_version e, rd_offset = offset, rd_length = len\<rparr> rs s = (r, s') \<Longrightarrow>
     R s' \<and> (\<forall>piece. r = Some piece \<longrightarrow> piece = take len (drop offset (fc_bytes (chunks ! i))))"
proof (induction rs arbitrary: s)
  case (Cons r0 rs)
  let ?req = "\<lparr>rd_handle = cc_handle e, rd_version = cc_version e, rd_offset = offset, rd_length = len\<rparr>"
  obtain c w where s: "s = (c, w)" by (cases s)
  obtain res w1 where call: "nt_Read net (deadline c) (rp_address r0) ?req w = (res, w1)" by fastforce
  have Iw: "I w" using Cons.prems(1) s by simp
  then have w1: "R (c, w1)" using Cons.prems(1) stays [OF Iw] call s by (metis fst_conv snd_conv)
  note rest = Cons.IH [OF w1]
  show ?case
  proof (cases res)
    case (Inl code)
    then show ?thesis using rest Cons.prems(2,3) by (simp add: s call)
  next
    case (Inr x)
    obtain code data where x: "x = (code, data)" by fastforce
    have "(code = OK \<longrightarrow> data = take len (drop offset (fc_bytes (chunks ! i)))) \<and>
        (code = OUT_OF_RANGE \<longrightarrow> length (fc_bytes (chunks ! i)) \<le> offset)"
      using bytes [OF Iw _ _ assms(2), of i "rp_address r0" "deadline c" code data w1] assms(1) call Cons.prems(2)
      by (simp add: known_def Inr x)
    then show ?thesis using Inr x rest w1 Cons.prems(2,3)
      by (auto simp: s call split: if_splits)
  qed
qed simp

lemma set_rotation: "set (rotation seed rs) \<subseteq> set rs"
  by (auto simp: rotation_def intro!: nth_mem mod_less_divisor)

lemma R_inval: "R s \<Longrightarrow> R (location_Invalidate p index s)"
  by (cases s) (simp add: location_Invalidate_def agrees_def Invalidate_def)

lemma R_ReadChunk:
  assumes "R s" "offset + len < 2 ^ 64" "ReadChunk net path index offset len s = (r, s')"
  shows "R s'" "r = Inr None \<Longrightarrow> length chunks \<le> index"
    "r = Inr (Some piece) \<Longrightarrow> index < length chunks \<and> piece = take len (drop offset (fc_bytes (chunks ! index)))"
proof -
  have "read_attempts net path index offset len k s = (r, s') \<Longrightarrow> R s \<Longrightarrow>
     R s' \<and> (r = Inr None \<longrightarrow> length chunks \<le> index) \<and>
     (\<forall>piece. r = Inr (Some piece) \<longrightarrow> index < length chunks \<and> piece = take len (drop offset (fc_bytes (chunks ! index))))" for k
  proof (induction k arbitrary: s)
    case (Suc k)
    obtain l s1 where l: "Locate net path index s = (l, s1)" by (metis surj_pair)
    note L = R_Locate [OF Suc.prems(2) l]
    show ?case
    proof (cases "\<exists>e. l = Inr (Some e)")
      case False
      then show ?thesis using Suc.prems(1) L by (auto simp: l split: sum.splits option.splits)
    next
      case True
      then obtain e where e: "l = Inr (Some e)" by blast
      then have k: "known chunks index e" by (rule L(2))
      let ?rs = "rotation (cl_replica_seed (fst s1)) (cc_replicas e)"
      obtain q s2 where q: "read_replicas net \<lparr>rd_handle = cc_handle e, rd_version = cc_version e, rd_offset = offset, rd_length = len\<rparr> ?rs s1 = (q, s2)"
        by (metis surj_pair)
      have "rp_address ` set ?rs \<subseteq> fc_addresses (chunks ! index)" using k set_rotation by (fastforce simp: known_def)
      note q' = R_read_replicas [OF k assms(2) L(1) this q]
      show ?thesis
      proof (cases q)
        case None
        then have "read_attempts net path index offset len k (location_Invalidate path index s2) = (r, s')"
          using Suc.prems(1) l e q by (simp add: case_prod_unfold)
        then show ?thesis using Suc.IH R_inval q' by blast
      next
        case (Some piece)
        then have "r = Inr (Some piece)" "s' = s2" using Suc.prems(1) l e q by (simp_all add: case_prod_unfold)
        then show ?thesis using q' Some k by (simp add: known_def)
      qed
    qed
  qed auto
  from this [of 2] assms(1,3) show "R s'" "r = Inr None \<Longrightarrow> length chunks \<le> index"
    "r = Inr (Some piece) \<Longrightarrow> index < length chunks \<and> piece = take len (drop offset (fc_bytes (chunks ! index)))"
    by (auto simp: ReadChunk_def)
qed

text \<open>The loop of \<open>Read\<close> from a position on.\<close>

lemma R_read_loop:
  assumes "R s" "client_ready (fst s)" "stop < 2 ^ 64"
  shows "\<exists>status piece s'. read_loop net path pos stop data s = Some (status, data @ piece, s') \<and> R s' \<and>
     (status = kOk \<longrightarrow> piece = take (stop - pos) (drop pos (file_bytes chunks))) \<and>
     prefix piece (take (stop - pos) (drop pos (file_bytes chunks)))"
  using assms(1,2)
proof (induction "stop - pos" arbitrary: pos data s rule: less_induct)
  case less
  let ?file = "file_bytes chunks"
  have packed: "packed n chunks" using packed_if less.prems(1) by blast
  show ?case
  proof (cases "pos < stop")
    case False
    then show ?thesis using less.prems by (cases s) (auto simp: read_loop.simps)
  next
    case True
    define want where "want = min (stop - pos) (n - pos mod n)"
    have size: "n = cl_chunk_size (fst s)" using less.prems by (simp add: agrees_def client_ready_def)
    have n: "0 < n" using packed by (simp add: packed_def)
    then have "pos mod n < n" by simp
    then have want: "0 < want" "want \<le> stop - pos" "want \<le> n - pos mod n" using True by (auto simp: want_def)
    obtain x s1 where rc: "ReadChunk net path (pos div n) (pos mod n) want s = (x, s1)" by (metis surj_pair)
    note unfold = read_loop_step [OF True size want_def rc]
    have small: "pos mod n + want < 2 ^ 64"
    proof -
      have "pos mod n \<le> pos" by (rule mod_less_eq_dividend)
      then have "pos mod n + want \<le> stop" using want(2) True by linarith
      then show ?thesis using assms(3) by simp
    qed
    note R1 = R_ReadChunk [OF less.prems(1) small rc]
    have ready: "client_ready (fst s1)"
      using ready.ReadChunk_keeps [OF less.prems(2), of net path "pos div n" "pos mod n" want] rc by simp
    consider (error) status where "x = Inl status" | (missing) "x = Inr None" | (piece) piece where "x = Inr (Some piece)"
      by (metis option.exhaust sum.exhaust)
    then show ?thesis
    proof cases
      case error
      then have "status \<noteq> kOk" using ReadChunk_error rc by blast
      then show ?thesis using unfold error R1(1) by (cases s1) auto
    next
      case missing
      then have "drop pos ?file = []" by (intro file_bytes_end [OF packed] R1(2))
      then show ?thesis using unfold missing R1(1) by (cases s1) auto
    next
      case piece
      note p = R1(3) [OF piece]
      note here = read_in_chunk [OF packed conjunct1 [OF p] want(3)]
      show ?thesis
      proof (cases "length piece < want")
        case True
        then have "drop pos ?file = piece" using here(2) p by simp
        then have "piece = take (stop - pos) (drop pos ?file)" using True want(2) by simp
        then show ?thesis using unfold piece True R1(1) by (cases s1) auto
      next
        case False
        then have len: "length piece = want" using p by simp
        have step: "add64 pos want = pos + want" using want(2) assms(3) True by (intro add64_eq) linarith
        have "stop - (pos + want) < stop - pos" using want(1) \<open>pos < stop\<close> by linarith
        then obtain status rest s' where IH: "read_loop net path (pos + want) stop (data @ piece) s1 = Some (status, (data @ piece) @ rest, s')"
          "R s'" "status = kOk \<longrightarrow> rest = take (stop - (pos + want)) (drop (pos + want) ?file)"
          "prefix rest (take (stop - (pos + want)) (drop (pos + want) ?file))"
          using less.hyps [OF _ R1(1) ready, of "pos + want" "data @ piece"] by blast
        have "take (stop - pos) (drop pos ?file) = piece @ take (stop - (pos + want)) (drop (pos + want) ?file)"
          using here(1) p want(2) by (metis add.commute diff_diff_left drop_drop le_add_diff_inverse take_add)
        then show ?thesis using unfold piece len step IH by auto
      qed
    qed
  qed
qed

lemma R_info:
  assumes "R s" "client_ok (fst s)" "EnsureClusterInfo net s = (status, s1)"
  shows "R s1" "status = kOk \<Longrightarrow> client_ready (fst s1)"
proof -
  obtain c w where s: "s = (c, w)" by (cases s)
  obtain res w1 where call: "nt_GetClusterInfo net (deadline c) w = (res, w1)" by fastforce
  have Iw: "I w" using assms(1) s by simp
  then have "I w1" using stays [OF Iw] call by (metis snd_conv)
  moreover have "res = Inr (sz, m) \<Longrightarrow> sz = n" for sz m using chunk_size [OF Iw] call by blast
  ultimately show "R s1"
    using assms(1,3) by (auto simp: s EnsureClusterInfo_def call agrees_def split: if_splits sum.splits)
  show "status = kOk \<Longrightarrow> client_ready (fst s1)" using EnsureClusterInfo_ready assms(2,3) by blast
qed

lemma Client_Read_exact:
  assumes "R s" "client_ok (fst s)" "offset + len < 2 ^ 64"
  shows "\<exists>status data s'. Client_Read net path offset len s = Some (status, data, s') \<and> R s' \<and>
     (status = kOk \<longrightarrow> data = take len (drop offset (file_bytes chunks))) \<and>
     prefix data (take len (drop offset (file_bytes chunks)))"
proof -
  obtain status s1 where e: "EnsureClusterInfo net s = (status, s1)" by (metis surj_pair)
  note i = R_info [OF assms(1,2) e]
  show ?thesis
  proof (cases "len = 0 \<or> status \<noteq> kOk")
    case True
    then show ?thesis using e i(1) assms(1) by (cases s; cases s1) (auto simp: Client_Read_def)
  next
    case False
    have "add64 offset len = offset + len" using assms(3) by (simp add: add64_eq)
    then show ?thesis
      using R_read_loop [OF i(1) i(2) assms(3), of offset "[]"] False e by (auto simp: Client_Read_def)
  qed
qed

lemma R_length_replicas:
  assumes "known chunks i e"
  shows "R s \<Longrightarrow> rp_address ` set rs \<subseteq> fc_addresses (chunks ! i) \<Longrightarrow> length_replicas net (cc_handle e) rs s = (r, s') \<Longrightarrow>
     R s' \<and> (\<forall>k. r = Some k \<longrightarrow> k = length (fc_bytes (chunks ! i)))"
proof (induction rs arbitrary: s)
  case (Cons r0 rs)
  obtain c w where s: "s = (c, w)" by (cases s)
  obtain res w1 where call: "nt_GetChunkLength net (deadline c) (rp_address r0) (cc_handle e) w = (res, w1)" by fastforce
  have Iw: "I w" using Cons.prems(1) s by simp
  then have w1: "R (c, w1)" using Cons.prems(1) stays [OF Iw] call s by (metis fst_conv snd_conv)
  have "res = Inr (OK, k) \<Longrightarrow> k = length (fc_bytes (chunks ! i))" for k
    using lengths [OF Iw, of i "rp_address r0" "deadline c" k w1] assms call Cons.prems(2) by (simp add: known_def)
  then show ?case using Cons.IH [OF w1] Cons.prems(2,3) w1
    by (auto simp: s call split: sum.splits if_splits)
qed auto

lemma R_length_attempts:
  assumes "Suc final = length chunks"
  shows "R s \<Longrightarrow> client_ready (fst s) \<Longrightarrow> length_attempts net path final k s = (r, s') \<Longrightarrow>
    R s' \<and> (\<forall>l. r = Inr l \<longrightarrow> l = length (file_bytes chunks))"
proof (induction k arbitrary: s)
  case (Suc k)
  have packed: "packed n chunks" using packed_if Suc.prems(1) by blast
  obtain l s1 where l: "Locate net path final s = (l, s1)" by (metis surj_pair)
  note L = R_Locate [OF Suc.prems(1) l]
  have ready: "client_ready (fst s1)" using ready.keeps_Locate [OF Suc.prems(2), of net path final] l by simp
  show ?case
  proof (cases "\<exists>e. l = Inr (Some e)")
    case False
    then show ?thesis using Suc.prems(3) L assms by (auto simp: l split: sum.splits option.splits)
  next
    case True
    then obtain e where e: "l = Inr (Some e)" by blast
    then have k: "known chunks final e" by (rule L(2))
    let ?rs = "rotation (cl_replica_seed (fst s1)) (cc_replicas e)"
    obtain q s2 where q: "length_replicas net (cc_handle e) ?rs s1 = (q, s2)" by (metis surj_pair)
    have "rp_address ` set ?rs \<subseteq> fc_addresses (chunks ! final)" using k set_rotation by (fastforce simp: known_def)
    note q' = R_length_replicas [OF k L(1) this q]
    have s2: "client_ready (fst s2)" using length_replicas_client [of net "cc_handle e" ?rs s1] q ready by simp
    show ?thesis
    proof (cases q)
      case None
      then have "length_attempts net path final k (location_Invalidate path final s2) = (r, s')"
        using Suc.prems(3) l e q by (simp add: case_prod_unfold)
      moreover have "client_ready (fst (location_Invalidate path final s2))" by (rule ready.keeps_location [OF s2])
      ultimately show ?thesis using Suc.IH R_inval q' by blast
    next
      case (Some len)
      let ?f = "fc_bytes (chunks ! final)"
      have size: "cl_chunk_size (fst s2) = n" using q' s2 by (simp add: agrees_def client_ready_def)
      have f: "length (file_bytes chunks) = final * n + length ?f"
      proof -
        have "drop (final * n) (file_bytes chunks) = ?f"
          using file_bytes_drop [OF packed, of final] assms by (simp add: file_bytes_def)
        moreover have "final * n \<le> length (file_bytes chunks)"
        proof (cases final)
          case (Suc j)
          then have "length (fc_bytes (chunks ! j)) = n" using packed assms by (simp add: packed_def)
          then have "n \<le> length (drop (j * n) (file_bytes chunks))"
            using file_bytes_drop [OF packed, of j] Suc assms by simp
          then have "n \<le> length (file_bytes chunks) - j * n" by simp
          moreover have "0 < n" using packed by (simp add: packed_def)
          ultimately have "j * n + n \<le> length (file_bytes chunks)" by linarith
          then show ?thesis using Suc by simp
        qed simp
        ultimately show ?thesis by (metis le_add_diff_inverse length_drop)
      qed
      have "length (file_bytes chunks) < 2 ^ 64"
        using file_bytes_length [OF packed] packed by (simp add: packed_def)
      then have "add64 (mul64 final n) (length ?f) = length (file_bytes chunks)"
        using f by (simp add: add64_def mul64_def)
      then show ?thesis using Suc.prems(3) l e q Some q' size by (auto simp: case_prod_unfold)
    qed
  qed
qed auto

lemma Client_Length_exact:
  assumes "R s" "client_ok (fst s)" "Client_Length net path s = (Inr l, s')"
  shows "l = length (file_bytes chunks)"
proof -
  obtain status s1 where e: "EnsureClusterInfo net s = (status, s1)" by (metis surj_pair)
  note i = R_info [OF assms(1,2) e]
  have ok: "status = kOk" using assms(3) e by (auto simp: Client_Length_def split: if_splits)
  obtain c w where s1: "s1 = (c, w)" by (cases s1)
  obtain res w1 where call: "nt_Open net (deadline c) path w = (res, w1)" by fastforce
  have Iw: "I w" using i(1) s1 by simp
  have w1: "I w1" using stays [OF Iw] call by (metis snd_conv)
  obtain k where res: "res = Inr k" using assms(3) e ok by (cases res) (auto simp: Client_Length_def Client_Open_def s1 call)
  have k: "k = length chunks" using opened [OF Iw call [unfolded res]] .
  show ?thesis
  proof (cases "k = 0")
    case True
    then show ?thesis using assms(3) e ok k by (simp add: Client_Length_def Client_Open_def s1 call res file_bytes_def)
  next
    case False
    then have "length_attempts net path (k - 1) 2 (c, w1) = (Inr l, s')"
      using assms(3) e ok by (simp add: Client_Length_def Client_Open_def s1 call res)
    then show ?thesis using R_length_attempts [of "k - 1" "(c, w1)"] False k i s1 w1 ok by simp
  qed
qed

end

end
