(* ===== verification/System.thy ===== *)
theory System
  imports ClientReads MasterRequests Cluster
begin

text \<open>
  A client, the master and the chunkservers together. The world of the client is a \<open>system\<close>: the
  master's state and registry, the chunkservers by address, the clock, and what the network will
  do to the calls to come. A call is delivered, or its request is lost, or its response is lost
  after the server has handled it; each also takes some time. \<open>system_net\<close> gives the calls of
  the client in this world by the handlers of the master and of the chunkservers. The calls
  \<open>Delete\<close>, \<open>Rename\<close>, \<open>Snapshot\<close>, \<open>AddChunk\<close> and \<open>FindLeaseHolder\<close>, during which the master calls
  chunkservers itself, are those of an arbitrary \<open>base\<close>.
\<close>

section \<open>The system\<close>

datatype fate = Delivered | RequestLost | ResponseLost

record system =
  sy_config :: config
  sy_master :: master_state
  sy_registry :: registry
  sy_servers :: cluster
  sy_stream :: "(string \<times> push_message list) option"
  sy_time :: time_point
  sy_events :: "(fate \<times> nat) list"

text \<open>The next event; with none left, calls are delivered at once.\<close>

definition next_event :: "system \<Rightarrow> fate \<times> system" where
  "next_event sy =
     (case sy_events sy of
        [] \<Rightarrow> (Delivered, sy)
      | (fate, delay) # rest \<Rightarrow> (fate, sy\<lparr>sy_time := sy_time sy + int delay, sy_events := rest\<rparr>))"

text \<open>A call with its handler.\<close>

definition remote :: "(system \<Rightarrow> 'r call \<times> system) \<Rightarrow> system \<Rightarrow> 'r call \<times> system" where
  "remote handler sy =
     (case next_event sy of
        (Delivered, sy1) \<Rightarrow> handler sy1
      | (RequestLost, sy1) \<Rightarrow> (Inl GRPC_UNAVAILABLE, sy1)
      | (ResponseLost, sy1) \<Rightarrow> (Inl GRPC_DEADLINE_EXCEEDED, snd (handler sy1)))"

text \<open>The status of an answer of the master, as the code of its call.\<close>

fun answer :: "status \<times> 'r \<Rightarrow> 'r call" where
  "answer (StatusOk, r) = Inr r"
| "answer (InvalidArgument, r) = Inl GRPC_INVALID_ARGUMENT"
| "answer (NotFound, r) = Inl GRPC_NOT_FOUND"
| "answer (AlreadyExists, r) = Inl GRPC_ALREADY_EXISTS"

section \<open>Calls of the chunkservers\<close>

text \<open>A server that is not there does not answer, nor does one that crashed.\<close>

definition at_server :: "string \<Rightarrow> (chunkserver \<Rightarrow> chunkserver \<times> 'r option) \<Rightarrow> system \<Rightarrow> 'r call \<times> system" where
  "at_server a handler sy =
     (case sy_servers sy a of
        None \<Rightarrow> (Inl GRPC_UNAVAILABLE, sy)
      | Some sv \<Rightarrow>
          (case handler sv of
             (sv', Some r) \<Rightarrow> (Inr r, sy\<lparr>sy_servers := (sy_servers sy)(a \<mapsto> sv')\<rparr>)
           | (sv', None) \<Rightarrow> (Inl GRPC_UNAVAILABLE, sy\<lparr>sy_servers := (sy_servers sy)(a := None)\<rparr>)))"

definition at_cluster :: "(cluster \<Rightarrow> cluster \<times> 'r option) \<Rightarrow> system \<Rightarrow> 'r call \<times> system" where
  "at_cluster handler sy =
     (case handler (sy_servers sy) of
        (cl, Some r) \<Rightarrow> (Inr r, sy\<lparr>sy_servers := cl\<rparr>)
      | (cl, None) \<Rightarrow> (Inl GRPC_UNAVAILABLE, sy\<lparr>sy_servers := cl\<rparr>))"

text \<open>
  The stream of a push: the messages that arrived. A message that is lost breaks the stream, and
  the servers drop what they have received of it.
\<close>

definition stream_write :: "push_message \<Rightarrow> system \<Rightarrow> bool \<times> system" where
  "stream_write m sy =
     (case next_event sy of
        (fate, sy1) \<Rightarrow>
          (case sy_stream sy1 of
             None \<Rightarrow> (False, sy1)
           | Some (a, ms) \<Rightarrow>
               if fate = Delivered then (True, sy1\<lparr>sy_stream := Some (a, ms @ [m])\<rparr>)
               else (False, sy1\<lparr>sy_stream := None\<rparr>)))"

definition stream_finish :: "system \<Rightarrow> (result_code \<times> string) call \<times> system" where
  "stream_finish sy =
     (case sy_stream sy of
        Some (a, PushHeader header # rest) \<Rightarrow>
          remote (at_cluster (cluster_PushData a (ph_forward_to header) header rest)) (sy\<lparr>sy_stream := None\<rparr>)
      | _ \<Rightarrow> (Inl GRPC_UNAVAILABLE, sy\<lparr>sy_stream := None\<rparr>))"

section \<open>The calls of the client\<close>

definition system_net :: "(bytes \<Rightarrow> u32) \<Rightarrow> (string \<Rightarrow> u32 option) \<Rightarrow> system net \<Rightarrow> system net" where
  "system_net crc pton base = base
     \<lparr>nt_pton := pton,
      nt_now := (\<lambda>sy. let sy1 = snd (next_event sy) in (sy_time sy1, sy1)),
      nt_sleep := (\<lambda>d sy. sy\<lparr>sy_time := after_ms (sy_time sy) d\<rparr>),
      nt_GetClusterInfo := (\<lambda>d. remote (\<lambda>sy. (Inr (Master_GetClusterInfo (sy_config sy)), sy))),
      nt_Create := (\<lambda>d path. remote (\<lambda>sy.
        case Master_Create path (sy_master sy) of (ms, rs, status) \<Rightarrow> (answer (status, ()), sy\<lparr>sy_master := ms\<rparr>))),
      nt_Open := (\<lambda>d path. remote (\<lambda>sy. (answer (Master_Open path (sy_master sy)), sy))),
      nt_FindMatchingFiles := (\<lambda>d directory hidden. remote (\<lambda>sy.
        (map_sum id (map (\<lambda>e. (le_name e, le_is_directory e))) (answer (Master_FindMatchingFiles directory hidden (sy_master sy))), sy))),
      nt_FindLocation := (\<lambda>d path first cnt. remote (\<lambda>sy.
        (answer (Master_FindLocation (sy_registry sy) path first cnt (sy_master sy)), sy))),
      nt_GetChunkLength := (\<lambda>d a handle. remote (at_server a (\<lambda>sv. (sv, Some (Chunkserver_GetChunkLength handle sv))))),
      nt_Read := (\<lambda>d a req. remote (at_server a
        (Chunkserver_Read crc (rd_handle req) (rd_version req) (rd_offset req) (rd_length req)))),
      nt_Write := (\<lambda>d a req. remote (\<lambda>sy.
        case at_cluster (cluster_Write crc (sy_time sy) a req) sy of (r, sy1) \<Rightarrow> (map_sum id fst r, sy1))),
      nt_RecordAppend := (\<lambda>d a req. remote (\<lambda>sy.
        case at_cluster (cluster_RecordAppend crc (sy_time sy) a req) sy of
          (r, sy1) \<Rightarrow> (map_sum id (\<lambda>resp. (rr_code resp, rr_offset resp)) r, sy1))),
      nt_PushData := (\<lambda>d a sy. sy\<lparr>sy_stream := Some (a, [])\<rparr>),
      nt_stream_Write := stream_write,
      nt_stream_Finish := stream_finish\<rparr>"

section \<open>A file at rest\<close>

text \<open>
  The system holds the file: the master knows its chunks, and the replicas the master names have
  the bytes of the chunk, where they have the chunk at all.
\<close>

definition serves :: "(bytes \<Rightarrow> u32) \<Rightarrow> string \<Rightarrow> file_chunk list \<Rightarrow> nat \<Rightarrow> system \<Rightarrow> bool" where
  "serves crc path chunks n sy \<longleftrightarrow>
     cluster_ok crc n (sy_servers sy) \<and> cf_chunk_size (sy_config sy) = n \<and> packed n chunks \<and> CheckPath path False = None \<and>
     (\<exists>meta. ns_Find (ms_files (sy_master sy)) path = Some meta \<and> fm_chunks meta = map fc_handle chunks) \<and>
     (\<forall>ch \<in> set chunks.
        (\<exists>m. ct_Find (ms_chunks (sy_master sy)) (fc_handle ch) = Some m \<and> cm_version m = fc_version ch \<and>
           rp_address ` set (ResolveLocations (sy_registry sy) m) \<subseteq> fc_addresses ch) \<and>
        (\<forall>a \<in> fc_addresses ch. \<forall>v f. chunk_at (sy_servers sy) a (fc_handle ch) = Some (v, f) \<longrightarrow> f = fc_bytes ch))"

text \<open>A read changes at most the set of corrupt chunks.\<close>

lemma Read_store: "fst (Read crc h offset len cs) = cs \<or> fst (Read crc h offset len cs) = MarkCorrupt h cs"
  by (simp add: Read_def Let_def split: option.split)

lemma MarkCorrupt_content: "content (MarkCorrupt h cs) = content cs"
  by (simp add: content_def MarkCorrupt_def fun_eq_iff)

lemma MarkCorrupt_ok: "store_ok crc n cs \<Longrightarrow> store_ok crc n (MarkCorrupt h cs)"
  by (auto simp: store_ok_def cs_ok_def MarkCorrupt_def om_intros entry_ok_def)

lemma Chunkserver_Read_keeps:
  assumes "sv_ok crc sv"
  shows "sv_ok crc (fst (Chunkserver_Read crc' h v offset len sv))"
    "content (sv_store (fst (Chunkserver_Read crc' h v offset len sv))) = content (sv_store sv)"
    "sv_chunk_size (fst (Chunkserver_Read crc' h v offset len sv)) = sv_chunk_size sv"
proof -
  have "\<exists>store. fst (Chunkserver_Read crc' h v offset len sv) = sv\<lparr>sv_store := store\<rparr> \<and>
      (store = sv_store sv \<or> store = MarkCorrupt h (sv_store sv))"
  proof (cases "Version h (sv_store sv)")
    case None
    then show ?thesis by (intro exI [of _ "sv_store sv"]) (simp add: Chunkserver_Read_def)
  next
    case (Some current)
    show ?thesis
    proof (cases "current < v")
      case True
      with Some show ?thesis by (intro exI [of _ "sv_store sv"]) (simp add: Chunkserver_Read_def)
    next
      case False
      with Some show ?thesis using Read_store
        by (intro exI [of _ "fst (Read crc' h offset len (sv_store sv))"]) (simp add: Chunkserver_Read_def case_prod_unfold)
    qed
  qed
  then obtain store where store: "fst (Chunkserver_Read crc' h v offset len sv) = sv\<lparr>sv_store := store\<rparr>"
    "store = sv_store sv \<or> store = MarkCorrupt h (sv_store sv)" by blast
  then have "content store = content (sv_store sv)" "store_ok crc (sv_chunk_size sv) store"
    using assms MarkCorrupt_ok by (auto simp: MarkCorrupt_content sv_ok_def)
  then show "sv_ok crc (fst (Chunkserver_Read crc' h v offset len sv))"
    "content (sv_store (fst (Chunkserver_Read crc' h v offset len sv))) = content (sv_store sv)"
    "sv_chunk_size (fst (Chunkserver_Read crc' h v offset len sv)) = sv_chunk_size sv"
    using assms store(1) by (simp_all add: sv_ok_def)
qed

text \<open>What a server with the chunk answers to a read.\<close>

lemma Chunkserver_Read_answer:
  assumes "sv_ok crc sv" "content (sv_store sv) h = Some (v', f)" "offset + len < 2 ^ 64"
    and "snd (Chunkserver_Read crc h v offset len sv) = Some (code, data)"
  shows "(code = OK \<longrightarrow> data = take len (drop offset f)) \<and> (code = OUT_OF_RANGE \<longrightarrow> length f \<le> offset)"
proof (cases "v' < v")
  case True
  then show ?thesis using assms(2,4) by (auto simp: Chunkserver_Read_def Version_content)
next
  case False
  then have read: "snd (Read crc h offset len (sv_store sv)) = Some (code, data)"
    using assms(2,4) by (simp add: Chunkserver_Read_def Version_content case_prod_unfold)
  have ok: "cs_ok crc (sv_store sv)" using sv_okD [OF assms(1)] by simp
  show ?thesis
  proof (cases "offset \<le> length f")
    case True
    then show ?thesis using Read_content [OF ok assms(2) True assms(3)] read by simp
  next
    case beyond: False
    obtain e where "cs_Find (sv_store sv) h = Some e" "ce_length e = length f"
      using cs_ok_entry [OF ok assms(2)] by (metis cs_Find_def entry_ok_def)
    then show ?thesis using beyond read by (simp add: Read_def)
  qed
qed

text \<open>The events, the clock and the stream do not matter to it.\<close>

lemma serves_cong:
  "sy_config sy' = sy_config sy \<Longrightarrow> sy_master sy' = sy_master sy \<Longrightarrow> sy_registry sy' = sy_registry sy \<Longrightarrow>
   sy_servers sy' = sy_servers sy \<Longrightarrow> serves crc path chunks n sy' = serves crc path chunks n sy"
  by (simp add: serves_def)

lemma next_event_sel [simp]:
  "sy_config (snd (next_event sy)) = sy_config sy" "sy_master (snd (next_event sy)) = sy_master sy"
  "sy_registry (snd (next_event sy)) = sy_registry sy" "sy_servers (snd (next_event sy)) = sy_servers sy"
  "sy_stream (snd (next_event sy)) = sy_stream sy"
  by (simp_all add: next_event_def split: list.split prod.split)

lemma serves_next_event: "serves crc path chunks n (snd (next_event sy)) = serves crc path chunks n sy"
  by (rule serves_cong) simp_all

lemma remote_keeps:
  assumes "\<And>sy. P sy \<Longrightarrow> P (snd (handler sy))" "P (snd (next_event sy))"
  shows "P (snd (remote handler sy))"
  using assms by (auto simp: remote_def case_prod_unfold split: fate.split)

lemma serves_remote:
  assumes "serves crc path chunks n sy" "\<And>sy. serves crc path chunks n sy \<Longrightarrow> serves crc path chunks n (snd (handler sy))"
  shows "serves crc path chunks n (snd (remote handler sy))"
  using remote_keeps [where P = "serves crc path chunks n", OF assms(2)] assms(1) by (simp add: serves_next_event)

text \<open>A call that returned was handled.\<close>

lemma remote_returned:
  assumes "remote handler sy = (Inr r, sy')"
  obtains sy1 where "handler sy1 = (Inr r, sy')" "sy1 = snd (next_event sy)"
  using assms by (auto simp: remote_def case_prod_unfold split: fate.splits)

lemma serves_upd:
  assumes "serves crc path chunks n sy" "sy_servers sy a = Some sv"
    and "sv_ok crc sv'" "content (sv_store sv') = content (sv_store sv)" "sv_chunk_size sv' = sv_chunk_size sv"
  shows "serves crc path chunks n (sy\<lparr>sy_servers := (sy_servers sy)(a \<mapsto> sv')\<rparr>)"
    "serves crc path chunks n (sy\<lparr>sy_servers := (sy_servers sy)(a := None)\<rparr>)"
proof -
  have "chunk_at ((sy_servers sy)(a \<mapsto> sv')) b h = chunk_at (sy_servers sy) b h" for b h
    using assms(2,4) by (simp add: chunk_at_def)
  moreover have "cluster_ok crc n ((sy_servers sy)(a \<mapsto> sv'))"
    using assms by (intro cluster_ok_upd) (auto simp: serves_def cluster_ok_def)
  ultimately show "serves crc path chunks n (sy\<lparr>sy_servers := (sy_servers sy)(a \<mapsto> sv')\<rparr>)"
    using assms(1) by (simp add: serves_def)
  have "chunk_at ((sy_servers sy)(a := None)) b h = (if b = a then None else chunk_at (sy_servers sy) b h)" for b h
    by (simp add: chunk_at_def)
  moreover have "cluster_ok crc n ((sy_servers sy)(a := None))" using assms(1) by (auto simp: serves_def cluster_ok_def)
  ultimately show "serves crc path chunks n (sy\<lparr>sy_servers := (sy_servers sy)(a := None)\<rparr>)"
    using assms(1) by (simp add: serves_def)
qed

section \<open>The contract holds\<close>

text \<open>The chunks that the master reports.\<close>

lemma FindLocation_serves:
  assumes "serves crc path chunks n sy"
    and "answer (Master_FindLocation (sy_registry sy) path first kLocationBatch (sy_master sy)) = Inr infos"
  shows "info \<in> set infos \<Longrightarrow> inf_index info < length chunks \<and> inf_handle info = fc_handle (chunks ! inf_index info) \<and>
      inf_version info = fc_version (chunks ! inf_index info) \<and>
      rp_address ` set (inf_replicas info) \<subseteq> fc_addresses (chunks ! inf_index info)"
    and "first < length chunks \<Longrightarrow> first \<in> inf_index ` set infos"
proof -
  obtain meta where meta: "ns_Find (ms_files (sy_master sy)) path = Some meta" "fm_chunks meta = map fc_handle chunks"
    "CheckPath path False = None" using assms(1) by (auto simp: serves_def)
  define stop where "stop = min (length chunks) (add64 first (max 1 kLocationBatch))"
  define info_of where "info_of = (\<lambda>i. map_option (FillChunkInfo (sy_registry sy) i (fm_chunks meta ! i))
      (ct_Find (ms_chunks (sy_master sy)) (fm_chunks meta ! i)))"
  have infos: "infos = List.map_filter info_of [first..<stop]"
    using assms(2) meta by (simp add: Master_FindLocation_def Let_def stop_def info_of_def)
  have chunk: "\<exists>m. info_of i = Some (FillChunkInfo (sy_registry sy) i (fc_handle (chunks ! i)) m) \<and>
      cm_version m = fc_version (chunks ! i) \<and> rp_address ` set (ResolveLocations (sy_registry sy) m) \<subseteq> fc_addresses (chunks ! i)"
    if "i < length chunks" for i
  proof -
    have "chunks ! i \<in> set chunks" using that by simp
    then obtain m where "ct_Find (ms_chunks (sy_master sy)) (fc_handle (chunks ! i)) = Some m" "cm_version m = fc_version (chunks ! i)"
      "rp_address ` set (ResolveLocations (sy_registry sy) m) \<subseteq> fc_addresses (chunks ! i)"
      using assms(1) unfolding serves_def by blast
    then show ?thesis using that by (intro exI [of _ m]) (simp add: info_of_def meta)
  qed
  show "inf_index info < length chunks \<and> inf_handle info = fc_handle (chunks ! inf_index info) \<and>
      inf_version info = fc_version (chunks ! inf_index info) \<and>
      rp_address ` set (inf_replicas info) \<subseteq> fc_addresses (chunks ! inf_index info)" if "info \<in> set infos"
  proof -
    from that infos obtain i where i: "i < length chunks" "info_of i = Some info"
      by (auto simp: map_filter_def stop_def)
    from chunk [OF i(1)] obtain m where m: "info = FillChunkInfo (sy_registry sy) i (fc_handle (chunks ! i)) m"
      "cm_version m = fc_version (chunks ! i)" "rp_address ` set (ResolveLocations (sy_registry sy) m) \<subseteq> fc_addresses (chunks ! i)"
      using i(2) by auto
    show ?thesis using i(1) m(2,3) by (simp add: m(1) FillChunkInfo_def)
  qed
  show "first \<in> inf_index ` set infos" if inside: "first < length chunks"
  proof -
    have "length chunks * 1 \<le> length chunks * n" using assms(1) by (intro mult_le_mono) (auto simp: serves_def packed_def)
    moreover have "length chunks * n + kLocationBatch < 2 ^ 64" using assms(1) by (simp add: serves_def packed_def)
    ultimately have "first + kLocationBatch < 2 ^ 64" using inside by linarith
    then have "first < stop" using inside by (simp add: stop_def add64_eq kLocationBatch_def)
    moreover obtain m where m: "info_of first = Some (FillChunkInfo (sy_registry sy) first (fc_handle (chunks ! first)) m)"
      using chunk [OF inside] by blast
    ultimately have "FillChunkInfo (sy_registry sy) first (fc_handle (chunks ! first)) m \<in> set infos"
      by (auto simp: infos map_filter_def intro!: image_eqI [of _ _ first])
    then show ?thesis by (force simp: FillChunkInfo_def)
  qed
qed

lemma serves_server:
  assumes "serves crc path chunks n sy" "i < length chunks" "a \<in> fc_addresses (chunks ! i)" "sy_servers sy a = Some sv"
  shows "sv_ok crc sv" "content (sv_store sv) (fc_handle (chunks ! i)) = Some (v, f) \<Longrightarrow> f = fc_bytes (chunks ! i)"
proof -
  have "chunks ! i \<in> set chunks" using assms(2) by simp
  then show "sv_ok crc sv" "content (sv_store sv) (fc_handle (chunks ! i)) = Some (v, f) \<Longrightarrow> f = fc_bytes (chunks ! i)"
    using assms by (auto simp: serves_def cluster_ok_def chunk_at_def)
qed

lemma serves_Read:
  assumes "serves crc path chunks n sy"
  shows "serves crc path chunks n (snd (at_server a (Chunkserver_Read crc h v offset len) sy))"
proof (cases "sy_servers sy a")
  case (Some sv)
  then have "sv_ok crc sv" using assms by (auto simp: serves_def cluster_ok_def)
  note k = Chunkserver_Read_keeps [OF this, of crc h v offset len]
  show ?thesis using serves_upd [OF assms Some k]
    by (simp add: at_server_def Some case_prod_unfold split: option.split)
qed (simp add: at_server_def assms)

lemma serves_GetChunkLength:
  assumes "serves crc path chunks n sy"
  shows "serves crc path chunks n (snd (at_server a (\<lambda>sv. (sv, Some (Chunkserver_GetChunkLength h sv))) sy))"
proof (cases "sy_servers sy a")
  case (Some sv)
  then have "(sy_servers sy)(a \<mapsto> sv) = sy_servers sy" by (simp add: fun_upd_idem)
  then show ?thesis using assms by (simp add: at_server_def Some serves_def)
qed (simp add: at_server_def assms)

interpretation at_rest: file_service "system_net crc pton base" "serves crc path chunks n" path chunks n
  for crc pton base path chunks n
proof
  fix w :: system and d
  assume w: "serves crc path chunks n w"
  let ?net = "system_net crc pton base"
  have w1: "serves crc path chunks n (snd (next_event w))" using w by (simp add: serves_next_event)
  show "sz = n" if "nt_GetClusterInfo ?net d w = (Inr (sz, m), w')" for sz m w'
  proof -
    from that obtain sy1 where "(Inr (Master_GetClusterInfo (sy_config sy1)), sy1) = (Inr (sz, m) :: (nat \<times> nat) call, w')" "sy1 = snd (next_event w)"
      by (auto simp: system_net_def elim!: remote_returned)
    then show ?thesis using w by (auto simp: Master_GetClusterInfo_def serves_def)
  qed
  show "k = length chunks" if "nt_Open ?net d path w = (Inr k, w')" for k w'
  proof -
    from that obtain sy1 where "answer (Master_Open path (sy_master sy1)) = Inr k" "sy1 = snd (next_event w)"
      by (auto simp: system_net_def elim!: remote_returned)
    then show ?thesis using w by (auto simp: Master_Open_def serves_def)
  qed
  show "packed n chunks" using w by (simp add: serves_def)
  have call: "answer (Master_FindLocation (sy_registry (snd (next_event w))) path first kLocationBatch (sy_master (snd (next_event w)))) = Inr infos"
    if "nt_FindLocation ?net d path first kLocationBatch w = (Inr infos, w')" for first infos w'
    using that by (auto simp: system_net_def elim!: remote_returned)
  show "inf_index info < length chunks \<and> inf_handle info = fc_handle (chunks ! inf_index info) \<and>
      inf_version info = fc_version (chunks ! inf_index info) \<and>
      rp_address ` set (inf_replicas info) \<subseteq> fc_addresses (chunks ! inf_index info)"
    if "nt_FindLocation ?net d path first kLocationBatch w = (Inr infos, w')" "info \<in> set infos" for first infos w' info
    by (rule FindLocation_serves(1) [OF w1 call [OF that(1)] that(2)])
  show "first \<in> inf_index ` set infos"
    if "nt_FindLocation ?net d path first kLocationBatch w = (Inr infos, w')" "first < length chunks" for first infos w'
    by (rule FindLocation_serves(2) [OF w1 call [OF that(1)] that(2)])
  show "serves crc path chunks n (snd (nt_now ?net w)) \<and> serves crc path chunks n (snd (nt_GetClusterInfo ?net d w)) \<and>
      serves crc path chunks n (snd (nt_Open ?net d p w)) \<and> serves crc path chunks n (snd (nt_FindLocation ?net d p first cnt w)) \<and>
      serves crc path chunks n (snd (nt_Read ?net d a req w)) \<and> serves crc path chunks n (snd (nt_GetChunkLength ?net d a handle w))"
    for p first cnt a req handle
  proof (intro conjI)
    show "serves crc path chunks n (snd (nt_now ?net w))" using w1 by (simp add: system_net_def Let_def)
  qed (simp_all add: system_net_def serves_remote [OF w] serves_Read serves_GetChunkLength)
next
  fix w :: system and d i a
  assume w: "serves crc path chunks n w" and i: "i < length chunks" "a \<in> fc_addresses (chunks ! i)"
  let ?net = "system_net crc pton base"
  have w1: "serves crc path chunks n (snd (next_event w))" using w by (simp add: serves_next_event)
  show "(code = OK \<longrightarrow> data = take len (drop offset (fc_bytes (chunks ! i)))) \<and>
      (code = OUT_OF_RANGE \<longrightarrow> length (fc_bytes (chunks ! i)) \<le> offset)"
    if "offset + len < 2 ^ 64" "nt_Read ?net d a \<lparr>rd_handle = fc_handle (chunks ! i), rd_version = fc_version (chunks ! i),
        rd_offset = offset, rd_length = len\<rparr> w = (Inr (code, data), w')" for offset len code data w'
  proof -
    let ?h = "fc_handle (chunks ! i)" and ?v = "fc_version (chunks ! i)"
    from that(2) have "at_server a (Chunkserver_Read crc ?h ?v offset len) (snd (next_event w)) = (Inr (code, data), w')"
      by (auto simp: system_net_def elim!: remote_returned)
    then obtain sv where sv: "sy_servers (snd (next_event w)) a = Some sv" "snd (Chunkserver_Read crc ?h ?v offset len sv) = Some (code, data)"
      by (auto simp: at_server_def split: option.splits prod.splits)
    note s = serves_server [OF w1 i sv(1)]
    show ?thesis
    proof (cases "content (sv_store sv) ?h")
      case None
      then show ?thesis using sv(2) by (auto simp: Chunkserver_Read_def Version_content)
    next
      case (Some vf)
      then show ?thesis using Chunkserver_Read_answer [OF s(1) _ that(1) sv(2)] s(2) by (cases vf) simp
    qed
  qed
  show "k = length (fc_bytes (chunks ! i))" if "nt_GetChunkLength ?net d a (fc_handle (chunks ! i)) w = (Inr (OK, k), w')" for k w'
  proof -
    let ?h = "fc_handle (chunks ! i)"
    from that have "at_server a (\<lambda>sv. (sv, Some (Chunkserver_GetChunkLength ?h sv))) (snd (next_event w)) = (Inr (OK, k), w')"
      by (auto simp: system_net_def elim!: remote_returned)
    then obtain sv where sv: "sy_servers (snd (next_event w)) a = Some sv" "Chunkserver_GetChunkLength ?h sv = (OK, k)"
      by (auto simp: at_server_def split: option.splits prod.splits)
    note s = serves_server [OF w1 i sv(1)]
    have ok: "cs_ok crc (sv_store sv)" using sv_okD [OF s(1)] by simp
    show ?thesis
    proof (cases "content (sv_store sv) ?h")
      case None
      then show ?thesis using sv(2) by (simp add: Chunkserver_GetChunkLength_def Length_def content_None)
    next
      case (Some vf)
      then show ?thesis using sv(2) Length_content [OF ok] s(2) by (cases vf) (simp add: Chunkserver_GetChunkLength_def)
    qed
  qed
qed

section \<open>Reading from end to end\<close>

text \<open>
  C3: A client that reads a file the system serves gets exactly the bytes of the file in the range,
  or an error, whatever calls are lost and whatever replicas have crashed: an answer of success is
  the range of the file, and the bytes handed out before an error are a prefix of it.
\<close>

theorem Client_Read_served:
  assumes "serves crc path chunks n w" "client_ok c" "agrees path chunks n c" "offset + len < 2 ^ 64"
  shows "\<exists>status data s'. Client_Read (system_net crc pton base) path offset len (c, w) = Some (status, data, s') \<and>
     (status = kOk \<longrightarrow> data = take len (drop offset (file_bytes chunks))) \<and>
     prefix data (take len (drop offset (file_bytes chunks)))"
proof -
  have "serves crc path chunks n (snd (c, w)) \<and> agrees path chunks n (fst (c, w))" "client_ok (fst (c, w))"
    using assms by simp_all
  from at_rest.Client_Read_exact [OF this assms(4), of pton base] show ?thesis by blast
qed

text \<open>
  The length a client is told of a file the system serves is the length of the file.
\<close>

lemma Client_Length_served:
  assumes "serves crc path chunks n w" "client_ok c" "agrees path chunks n c"
    and "Client_Length (system_net crc pton base) path (c, w) = (Inr l, s')"
  shows "l = length (file_bytes chunks)"
proof -
  have "serves crc path chunks n (snd (c, w)) \<and> agrees path chunks n (fst (c, w))" "client_ok (fst (c, w))"
    using assms by simp_all
  from at_rest.Client_Length_exact [OF this assms(4)] show ?thesis .
qed

section \<open>Witnesses\<close>

text \<open>One file with one chunk, on the server at \<open>''q''\<close>; calls of the \<open>base\<close> fail.\<close>

definition silent_net :: "system net" where
  "silent_net =
     \<lparr>nt_pton = (\<lambda>_. None), nt_now = (\<lambda>w. (0, w)), nt_sleep = (\<lambda>_ w. w),
      nt_GetClusterInfo = (\<lambda>_ w. (Inl GRPC_UNAVAILABLE, w)), nt_Create = (\<lambda>_ _ w. (Inl GRPC_UNAVAILABLE, w)),
      nt_Open = (\<lambda>_ _ w. (Inl GRPC_UNAVAILABLE, w)), nt_Delete = (\<lambda>_ _ w. (Inl GRPC_UNAVAILABLE, w)),
      nt_Rename = (\<lambda>_ _ _ w. (Inl GRPC_UNAVAILABLE, w)), nt_Snapshot = (\<lambda>_ _ _ w. (Inl GRPC_UNAVAILABLE, w)),
      nt_FindMatchingFiles = (\<lambda>_ _ _ w. (Inl GRPC_UNAVAILABLE, w)), nt_FindLocation = (\<lambda>_ _ _ _ w. (Inl GRPC_UNAVAILABLE, w)),
      nt_FindLeaseHolder = (\<lambda>_ _ _ w. (Inl GRPC_UNAVAILABLE, w)), nt_AddChunk = (\<lambda>_ _ _ w. (Inl GRPC_UNAVAILABLE, w)),
      nt_GetChunkLength = (\<lambda>_ _ _ w. (Inl GRPC_UNAVAILABLE, w)), nt_Read = (\<lambda>_ _ _ w. (Inl GRPC_UNAVAILABLE, w)),
      nt_Write = (\<lambda>_ _ _ w. (Inl GRPC_UNAVAILABLE, w)), nt_RecordAppend = (\<lambda>_ _ _ w. (Inl GRPC_UNAVAILABLE, w)),
      nt_PushData = (\<lambda>_ _ w. w), nt_stream_Write = (\<lambda>_ w. (False, w)), nt_stream_Finish = (\<lambda>w. (Inl GRPC_UNAVAILABLE, w))\<rparr>"

definition read_net :: "system net" where
  "read_net = system_net no_crc (\<lambda>_. None) silent_net"

definition sample_chunks :: "file_chunk list" where
  "sample_chunks = [\<lparr>fc_handle = 7, fc_version = 1, fc_addresses = {''q''}, fc_bytes = ''abcdef''\<rparr>]"

definition sample_system :: system where
  "sample_system =
     \<lparr>sy_config = default_config\<lparr>cf_chunk_size := 16\<rparr>,
      sy_master = init_master_state
        \<lparr>ms_files := [(''/f'', \<lparr>fm_chunks = [7]\<rparr>)],
         ms_chunks := \<lparr>ct_chunks = [(7, new_chunk\<lparr>cm_version := 1, cm_locations := [(''Q'', 0)]\<rparr>)], ct_held_by = [(''Q'', [7])]\<rparr>\<rparr>,
      sy_registry = [(''Q'', \<lparr>ci_id = ''Q'', ci_address = ''q'', ci_rack = [], ci_last_heartbeat = 0, ci_alive = True\<rparr>)],
      sy_servers = sample_cluster, sy_stream = None, sy_time = 0, sy_events = []\<rparr>"

lemma sample_serves: "serves no_crc ''/f'' sample_chunks 16 sample_system"
proof -
  have path: "CheckPath ''/f'' False = None" by code_simp
  have find: "ns_Find (ms_files (sy_master sample_system)) ''/f'' = Some \<lparr>fm_chunks = [7]\<rparr>" by code_simp
  have chunk: "ct_Find (ms_chunks (sy_master sample_system)) 7 = Some (new_chunk\<lparr>cm_version := 1, cm_locations := [(''Q'', 0)]\<rparr>)"
    by (simp add: sample_system_def ct_Find_def)
  have at: "rp_address ` set (ResolveLocations (sy_registry sample_system) (new_chunk\<lparr>cm_version := 1, cm_locations := [(''Q'', 0)]\<rparr>)) = {''q''}"
    by (simp add: ResolveLocations_def sample_system_def Resolve_def)
  have bytes: "chunk_at (sy_servers sample_system) ''q'' 7 = Some (1, ''abcdef'')"
    by (simp add: chunk_at_def sample_system_def sample_cluster_def sample_server_def one_chunk_content)
  have "cluster_ok no_crc 16 (sy_servers sample_system)" "cf_chunk_size (sy_config sample_system) = 16"
    using sample_cluster_ok by (simp_all add: sample_system_def)
  then show ?thesis
    using path find chunk at bytes by (simp add: serves_def sample_chunks_def packed_def kLocationBatch_def new_chunk_def)
qed

theorem Client_Read_served_witness:
  "\<exists>status data s'. Client_Read read_net ''/f'' 2 3 (full_client, sample_system) = Some (status, data, s') \<and> prefix data ''cde''"
proof -
  have "take 3 (drop 2 (file_bytes sample_chunks)) = ''cde''" by code_simp
  moreover have "agrees ''/f'' sample_chunks 16 full_client" by (simp add: full_client_def agrees_new)
  moreover have "client_ok full_client" using full_client_ok by simp
  ultimately show ?thesis
    using Client_Read_served [OF sample_serves, of full_client 2 3 "\<lambda>_. None" silent_net] unfolding read_net_def by auto
qed

theorem Client_Length_served_witness:
  "fst (Client_Length read_net ''/f'' (full_client, sample_system)) = Inr 6"
proof -
  obtain r s' where e: "Client_Length read_net ''/f'' (full_client, sample_system) = (r, s')" by (metis surj_pair)
  have "\<not> isl (fst (Client_Length read_net ''/f'' (full_client, sample_system)))" by code_simp
  then obtain l where r: "r = Inr l" using e by (cases r) auto
  have "length (file_bytes sample_chunks) = 6" by code_simp
  moreover have "agrees ''/f'' sample_chunks 16 full_client" by (simp add: full_client_def agrees_new)
  moreover have "client_ok full_client" using full_client_ok by simp
  ultimately have "l = 6"
    using Client_Length_served [OF sample_serves, of full_client "\<lambda>_. None" silent_net l s'] e r unfolding read_net_def by simp
  then show ?thesis using e r by simp
qed

end
