(* ===== verification/ClientWrites.thy ===== *)
theory ClientWrites
  imports System
begin

text \<open>
  Writing a chunk through the client, down to the replicas. \<open>fit\<close> is what an attempt of
  \<open>TryWrite\<close> needs of the servers: healthy stores, room in the buffers, and a primary whose lease
  names the given secondaries. Attempts that fail keep it, whatever part of them was carried out,
  so that the attempt that succeeds finds it; the push down the chain and the write at the primary
  (\<open>Cluster\<close>) then put the data on every replica of the lease.
\<close>

section \<open>Servers that can take a write\<close>

definition sv_fit :: "(bytes \<Rightarrow> u32) \<Rightarrow> nat \<Rightarrow> nat \<Rightarrow> chunkserver \<Rightarrow> bool" where
  "sv_fit crc n k sv \<longleftrightarrow> sv_ok crc sv \<and> sv_chunk_size sv = n \<and>
     max (BytesInUse (sv_buffer sv)) (max (db_capacity (sv_buffer sv)) k) + k < 2 ^ 64"

definition lease_names :: "u64 \<Rightarrow> replica list \<Rightarrow> chunkserver \<Rightarrow> bool" where
  "lease_names h secondaries sv \<longleftrightarrow> (\<exists>s. om_find (lt_slots (sv_leases sv)) h = Some s \<and> sl_secondaries s = secondaries)"

definition fit :: "(bytes \<Rightarrow> u32) \<Rightarrow> nat \<Rightarrow> nat \<Rightarrow> string \<Rightarrow> u64 \<Rightarrow> replica list \<Rightarrow> cluster \<Rightarrow> bool" where
  "fit crc n k primary h secondaries cl \<longleftrightarrow>
     (\<forall>a sv. cl a = Some sv \<longrightarrow> sv_fit crc n k sv) \<and>
     (\<forall>sv. cl primary = Some sv \<longrightarrow> lease_names h secondaries sv)"

lemma fit_cluster: "fit crc n k primary h secondaries cl \<Longrightarrow> cluster_ok crc n cl \<and> room k cl"
  by (fastforce simp: fit_def sv_fit_def cluster_ok_def room_def)

lemma fit_upd:
  "fit crc n k primary h secondaries cl \<Longrightarrow> sv_fit crc n k sv \<Longrightarrow> (a = primary \<Longrightarrow> lease_names h secondaries sv) \<Longrightarrow>
   fit crc n k primary h secondaries (cl(a \<mapsto> sv))"
  by (auto simp: fit_def)

lemma Put_fit:
  assumes "db_ok db" "max (BytesInUse db) (max (db_capacity db) k) + k < 2 ^ 64" "length d \<le> k"
  shows "db_ok (DataBuffer.Put key d db)"
    "max (BytesInUse (DataBuffer.Put key d db)) (max (db_capacity (DataBuffer.Put key d db)) k) + k < 2 ^ 64"
proof -
  have used: "BytesInUse db = total (db_lru db)" using db_okD(4) [OF assms(1)] by (simp add: BytesInUse_def)
  then have room: "total (db_lru db) + length d < 2 ^ 64" using assms(2,3) by (simp add: max_def split: if_splits)
  note p = Put_props [OF assms(1) room, of key]
  show "db_ok (DataBuffer.Put key d db)" by (rule p(1))
  have cap: "db_capacity (DataBuffer.Put key d db) = db_capacity db"
  proof -
    have "db_ok (drop_existing key db)" "total (db_lru (drop_existing key db)) + length d < 2 ^ 64"
    proof -
      show ok: "db_ok (drop_existing key db)" using Take_view(3) [OF assms(1)] by (simp add: drop_existing_Take)
      have "view (drop_existing key db) = filter (\<lambda>e. fst e \<noteq> key) (view db)"
        using Take_view(2) [OF assms(1)] by (simp add: drop_existing_Take)
      moreover have "view_total (filter (\<lambda>e. fst e \<noteq> key) (view db)) \<le> view_total (view db)"
        by (induction "view db") (auto simp: view_total_def sum_list_filter_le_nat)
      ultimately show "total (db_lru (drop_existing key db)) + length d < 2 ^ 64" using room by (simp add: total_view)
    qed
    from evict_props [OF this] have "db_capacity (evict (length d) (drop_existing key db)) = db_capacity (drop_existing key db)" by blast
    moreover have "db_capacity (drop_existing key db) = db_capacity db" by (simp add: drop_existing_def split: option.split)
    ultimately show ?thesis by (simp add: DataBuffer.Put_def push_front_def)
  qed
  have "BytesInUse (DataBuffer.Put key d db) = view_total (view (DataBuffer.Put key d db))"
    using db_okD(4) [OF p(1)] by (simp add: BytesInUse_def total_view)
  moreover obtain m where "view (DataBuffer.Put key d db) = (key, d) # take m (filter (\<lambda>e. fst e \<noteq> key) (view db))"
    "m = 0 \<or> view_total (view (DataBuffer.Put key d db)) \<le> db_capacity db" using p(2) by blast
  ultimately have "BytesInUse (DataBuffer.Put key d db) \<le> max (db_capacity db) k"
    using assms(3) by (auto simp: view_total_def)
  then show "max (BytesInUse (DataBuffer.Put key d db)) (max (db_capacity (DataBuffer.Put key d db)) k) + k < 2 ^ 64"
    using assms(2) cap by (simp add: max_def split: if_splits)
qed

lemma Take_fit:
  assumes "db_ok db"
  shows "BytesInUse (fst (Take key db)) \<le> BytesInUse db" "db_capacity (fst (Take key db)) = db_capacity db"
proof -
  have "view_total (filter (\<lambda>e. fst e \<noteq> key) (view db)) \<le> view_total (view db)"
    by (induction "view db") (auto simp: view_total_def sum_list_filter_le_nat)
  then show "BytesInUse (fst (Take key db)) \<le> BytesInUse db"
    using Take_view(2,3) [OF assms, of key] db_okD(4) [OF assms] db_okD(4) [OF Take_view(3) [OF assms, of key]]
    by (simp add: BytesInUse_def total_view)
  show "db_capacity (fst (Take key db)) = db_capacity db" by (simp add: Take_def Let_def split: option.split)
qed

section \<open>What the handlers keep\<close>

lemma PushData_fit:
  assumes "sv_fit crc n k sv" "length (received (tl msgs)) \<le> k"
  shows "sv_fit crc n k (fst (Chunkserver_PushData forward msgs sv))"
    "sv_leases (fst (Chunkserver_PushData forward msgs sv)) = sv_leases sv"
proof -
  have "fst (Chunkserver_PushData forward msgs sv) = sv \<or>
      (\<exists>key. fst (Chunkserver_PushData forward msgs sv) = sv\<lparr>sv_buffer := DataBuffer.Put key (received (tl msgs)) (sv_buffer sv)\<rparr>)"
    by (auto simp: Chunkserver_PushData_def Let_def split: list.split push_message.split)
  then show "sv_fit crc n k (fst (Chunkserver_PushData forward msgs sv))"
    "sv_leases (fst (Chunkserver_PushData forward msgs sv)) = sv_leases sv"
    using assms Put_fit [of "sv_buffer sv" k "received (tl msgs)"] by (auto simp: sv_fit_def sv_ok_def)
qed

lemma NextSerial_names:
  assumes "\<exists>s. om_find (lt_slots lt) h = Some s \<and> sl_secondaries s = secondaries"
  shows "\<exists>s. om_find (lt_slots (fst (NextSerial h' lt))) h = Some s \<and> sl_secondaries s = secondaries"
  using assms by (cases "h' = h") (auto simp: NextSerial_def Let_def set_slot_def slot_of_def)

lemma Write_fit:
  assumes "sv_fit crc n k sv"
  shows "sv_fit crc n k (fst (Chunkserver_Write crc t reply req sv))"
    "lease_names h secondaries sv \<Longrightarrow> lease_names h secondaries (fst (Chunkserver_Write crc t reply req sv))"
proof -
  let ?sv = "fst (Chunkserver_Write crc t reply req sv)" and ?key = "(wr_client_id req, wr_sequence req)"
  have b: "sv_buffer ?sv = sv_buffer sv \<or> sv_buffer ?sv = fst (Take ?key (sv_buffer sv))"
    by (auto simp: Chunkserver_Write_def Let_def split: option.split prod.split sum.split)
  have l: "sv_leases ?sv = sv_leases sv \<or> sv_leases ?sv = fst (NextSerial (wr_handle req) (sv_leases sv))"
    by (auto simp: Chunkserver_Write_def Let_def split: option.split prod.split sum.split)
  have db: "db_ok (sv_buffer sv)" using assms by (simp add: sv_fit_def sv_ok_def)
  have "sv_ok crc ?sv" using assms by (intro sv_ok_Write) (simp add: sv_fit_def)
  then show "sv_fit crc n k ?sv" using assms b Take_fit [OF db, of ?key] by (auto simp: sv_fit_def)
  show "lease_names h secondaries ?sv" if "lease_names h secondaries sv"
    using l that NextSerial_names [of "sv_leases sv" h secondaries "wr_handle req"] by (auto simp: lease_names_def)
qed

lemma ApplyMutation_leases [simp]: "sv_leases (fst (Chunkserver_ApplyMutation crc am sv)) = sv_leases sv"
  by (auto simp: Chunkserver_ApplyMutation_def Let_def split: option.split prod.split)

lemma ApplyMutation_fit:
  assumes "sv_fit crc n k sv"
  shows "sv_fit crc n k (fst (Chunkserver_ApplyMutation crc am sv))"
proof -
  let ?sv = "fst (Chunkserver_ApplyMutation crc am sv)" and ?key = "(am_client_id am, am_sequence am)"
  have b: "sv_buffer ?sv = sv_buffer sv \<or> sv_buffer ?sv = fst (Take ?key (sv_buffer sv))"
    by (auto simp: Chunkserver_ApplyMutation_def Let_def split: option.split prod.split)
  have db: "db_ok (sv_buffer sv)" using assms by (simp add: sv_fit_def sv_ok_def)
  have "sv_ok crc ?sv" using assms by (intro sv_ok_ApplyMutation) (simp add: sv_fit_def)
  then show "sv_fit crc n k ?sv" using assms b Take_fit [OF db, of ?key] by (auto simp: sv_fit_def)
qed

section \<open>What the calls keep\<close>

lemma cluster_PushData_fit:
  "fit crc n k primary h secondaries cl \<Longrightarrow> length (received rest) \<le> k \<Longrightarrow>
   fit crc n k primary h secondaries (fst (cluster_PushData a fwd header rest cl))"
proof (induction a fwd header rest cl rule: cluster_PushData.induct)
  case (1 a header rest cl)
  show ?case
  proof (cases "cl a")
    case (Some sv)
    let ?p = "Chunkserver_PushData (\<lambda>r m. None) (PushHeader (header\<lparr>ph_forward_to := []\<rparr>) # rest) sv"
    have "sv_fit crc n k sv" "a = primary \<Longrightarrow> lease_names h secondaries sv" using 1(1) Some by (auto simp: fit_def)
    then have "fit crc n k primary h secondaries (cl(a \<mapsto> fst ?p))"
      using 1 PushData_fit by (intro fit_upd) (auto simp: lease_names_def)
    then show ?thesis using Some by (simp add: case_prod_unfold del: fun_upd_apply)
  qed (use 1 in simp)
next
  case (2 a nxt others header rest cl)
  show ?case
  proof (cases "cl a")
    case (Some sv)
    let ?down = "cluster_PushData (rp_address nxt) others header (filter is_data rest) cl"
    have IH: "fit crc n k primary h secondaries (fst ?down)" using 2 Some by simp
    show ?thesis
    proof (cases "fst ?down a")
      case (Some sv1)
      let ?p = "Chunkserver_PushData (\<lambda>r m. snd ?down) (PushHeader (header\<lparr>ph_forward_to := nxt # others\<rparr>) # rest) sv1"
      have "sv_fit crc n k sv1" "a = primary \<Longrightarrow> lease_names h secondaries sv1" using IH Some by (auto simp: fit_def)
      then have "fit crc n k primary h secondaries ((fst ?down)(a \<mapsto> fst ?p))"
        using IH 2(3) PushData_fit by (intro fit_upd) (auto simp: lease_names_def)
      then show ?thesis using \<open>cl a = Some sv\<close> Some by (simp add: case_prod_unfold del: fun_upd_apply)
    qed (use IH \<open>cl a = Some sv\<close> in \<open>simp add: case_prod_unfold\<close>)
  qed (use 2 in simp)
qed

lemma deliver_fit: "fit crc n k primary h secondaries cl \<Longrightarrow> fit crc n k primary h secondaries (deliver crc sent cl)"
  using ApplyMutation_fit by (auto simp: fit_def deliver_def lease_names_def split: option.splits if_splits)

lemma cluster_Write_fit:
  assumes "fit crc n k primary h secondaries cl"
  shows "fit crc n k primary h secondaries (fst (cluster_Write crc t a req cl))"
proof (cases "cl a")
  case (Some sv)
  let ?w = "Chunkserver_Write crc t (cluster_reply crc (cl(a := None))) req sv"
  have "sv_fit crc n k sv" "a = primary \<Longrightarrow> lease_names h secondaries sv" using assms Some by (auto simp: fit_def)
  then have "fit crc n k primary h secondaries ((deliver crc (snd (snd ?w)) cl)(a \<mapsto> fst ?w))"
    using assms Write_fit by (intro fit_upd deliver_fit) auto
  then show ?thesis using Some by (simp add: cluster_Write_def case_prod_unfold)
qed (use assms in \<open>simp add: cluster_Write_def\<close>)

section \<open>One push\<close>

lemma received_frames: "0 < frame \<Longrightarrow> received (map PushBytes (frames frame data)) = data"
proof (induction frame data rule: frames.induct)
  case (1 frame data)
  then show ?case by (cases "data = []") (simp_all add: frames.simps [of frame data] frames.simps [of frame "[]"] received_def)
qed

text \<open>The stream holds what was written to it; a broken stream stays broken.\<close>

lemma next_event_update [simp]:
  "next_event (sy\<lparr>sy_stream := x\<rparr>) = (fst (next_event sy), (snd (next_event sy))\<lparr>sy_stream := x\<rparr>)"
  by (simp add: next_event_def split: list.split prod.split)

lemma send_frames_stream:
  assumes "send_frames (system_net crc pton base) fs w = w'" "sy_stream w = Some (a, ms)"
  shows "sy_servers w' = sy_servers w" "sy_stream w' = None \<or> sy_stream w' = Some (a, ms @ map PushBytes fs)"
proof -
  have "sy_servers w' = sy_servers w \<and> (sy_stream w' = None \<or> sy_stream w' = Some (a, ms @ map PushBytes fs))"
    using assms
  proof (induction fs arbitrary: w ms)
    case (Cons f fs)
    have call: "nt_stream_Write (system_net crc pton base) = stream_write" by (simp add: system_net_def)
    show ?case
    proof (cases "fst (next_event w) = Delivered")
      case True
      let ?w1 = "(snd (next_event w))\<lparr>sy_stream := Some (a, ms @ [PushBytes f])\<rparr>"
      have "stream_write (PushBytes f) w = (True, ?w1)" using True Cons.prems(2) by (simp add: stream_write_def case_prod_unfold)
      then have "send_frames (system_net crc pton base) fs ?w1 = w'" using Cons.prems(1) by (simp add: call)
      from Cons.IH [OF this] show ?thesis by simp
    next
      case False
      then have "stream_write (PushBytes f) w = (False, (snd (next_event w))\<lparr>sy_stream := None\<rparr>)"
        using Cons.prems(2) by (simp add: stream_write_def case_prod_unfold)
      then show ?thesis using Cons.prems(1) by (auto simp: call)
    qed
  qed auto
  then show "sy_servers w' = sy_servers w" "sy_stream w' = None \<or> sy_stream w' = Some (a, ms @ map PushBytes fs)" by blast+
qed

text \<open>What a call does to the servers: nothing, or what its handler does.\<close>

lemma remote_servers:
  "sy_servers (snd (remote (at_cluster handler) sy)) = sy_servers sy \<or>
   sy_servers (snd (remote (at_cluster handler) sy)) = fst (handler (sy_servers sy))"
  by (auto simp: remote_def at_cluster_def case_prod_unfold split: fate.split option.split)

lemma remote_cluster_returned:
  assumes "remote (at_cluster handler) sy = (Inr r, sy')"
  shows "handler (sy_servers sy) = (sy_servers sy', Some r)"
  using assms by (auto simp: at_cluster_def split: prod.splits option.splits elim!: remote_returned)

lemma system_push:
  assumes "PushData (system_net crc pton base) lease sequence data (c, w) = (status, c', w')"
  defines "chain \<equiv> push_chain_of (system_net crc pton base) c lease"
  shows "c' = c"
    and "fit crc n (length data) primary h secondaries (sy_servers w) \<Longrightarrow> fit crc n (length data) primary h secondaries (sy_servers w')"
    and "status = kOk \<Longrightarrow> \<exists>who. cluster_PushData (rp_address (hd chain)) (tl chain) (push_header_of c sequence data (tl chain))
      (map PushBytes (frames (frame_size c) data)) (sy_servers w) = (sy_servers w', Some (OK, who))"
proof -
  let ?net = "system_net crc pton base"
  define header where "header = push_header_of c sequence data (tl chain)"
  define fs where "fs = frames (frame_size c) data"
  define a where "a = rp_address (hd chain)"
  define w1 where "w1 = w\<lparr>sy_stream := Some (a, [])\<rparr>"
  obtain alive w2 where w2: "stream_write (PushHeader header) w1 = (alive, w2)" by fastforce
  define w3 where "w3 = (if alive then send_frames ?net fs w2 else w2)"
  have w2': "sy_servers w2 = sy_servers w \<and> (if alive then sy_stream w2 = Some (a, [PushHeader header]) else sy_stream w2 = None)"
    using w2 by (auto simp: stream_write_def w1_def case_prod_unfold split: if_splits)
  have w3': "sy_servers w3 = sy_servers w \<and> (sy_stream w3 = None \<or> sy_stream w3 = Some (a, PushHeader header # map PushBytes fs))"
  proof (cases alive)
    case True
    then show ?thesis using send_frames_stream [OF refl, of w2 a "[PushHeader header]" crc pton base fs] w2' by (simp add: w3_def)
  qed (use w2' in \<open>simp add: w3_def\<close>)
  obtain r w4 where w4: "stream_finish w3 = (r, w4)" by fastforce
  have fw: "ph_forward_to header = tl chain" by (simp add: header_def push_header_of_def)
  have calls: "nt_PushData ?net d b v = v\<lparr>sy_stream := Some (b, [])\<rparr>" "nt_stream_Write ?net = stream_write"
    "nt_stream_Finish ?net = stream_finish" for d b v by (simp_all add: system_net_def)
  have "PushData ?net lease sequence data (c, w) =
      (case r of Inl _ \<Rightarrow> kUnavailable | Inr (code, _) \<Rightarrow> if code \<noteq> OK then kUnavailable else kOk, c, w4)"
    by (cases r) (simp_all only: PushData_def Let_def calls prod.case chain_def [symmetric] a_def [symmetric] header_def [symmetric]
      fs_def [symmetric] w1_def [symmetric] w2 w3_def [symmetric] w4 sum.case, simp split: prod.split)
  then have res: "c' = c" "w' = w4" "status = (case r of Inl _ \<Rightarrow> kUnavailable | Inr (code, _) \<Rightarrow> if code \<noteq> OK then kUnavailable else kOk)"
    using assms(1) by auto
  then show "c' = c" by simp
  have frame: "0 < frame_size c" by (simp add: frame_size_def)
  show "fit crc n (length data) primary h secondaries (sy_servers w')" if f: "fit crc n (length data) primary h secondaries (sy_servers w)"
  proof (cases "sy_stream w3")
    case None
    then have "sy_servers w4 = sy_servers w" using w4 w3' by (auto simp: stream_finish_def)
    then show ?thesis using f res(2) by simp
  next
    case (Some x)
    then have "stream_finish w3 = remote (at_cluster (cluster_PushData a (tl chain) header (map PushBytes fs))) (w3\<lparr>sy_stream := None\<rparr>)"
      using w3' fw by (auto simp: stream_finish_def)
    then have "remote (at_cluster (cluster_PushData a (tl chain) header (map PushBytes fs))) (w3\<lparr>sy_stream := None\<rparr>) = (r, w4)"
      using w4 by simp
    then have "sy_servers w4 = sy_servers w \<or>
        sy_servers w4 = fst (cluster_PushData a (tl chain) header (map PushBytes fs) (sy_servers w))"
      using remote_servers [of "cluster_PushData a (tl chain) header (map PushBytes fs)" "w3\<lparr>sy_stream := None\<rparr>"] w3' by simp
    then show ?thesis using f res(2) cluster_PushData_fit [OF f, of "map PushBytes fs" a "tl chain" header]
      received_frames [OF frame, of data] by (auto simp: fs_def)
  qed
  show "\<exists>who. cluster_PushData (rp_address (hd chain)) (tl chain) (push_header_of c sequence data (tl chain))
      (map PushBytes (frames (frame_size c) data)) (sy_servers w) = (sy_servers w', Some (OK, who))" if "status = kOk"
  proof -
    from that res(3) obtain who where r: "r = Inr (OK, who)" by (auto split: sum.splits if_splits)
    then obtain x where x: "sy_stream w3 = Some x" using w4 by (auto simp: stream_finish_def split: option.splits)
    then have "remote (at_cluster (cluster_PushData a (tl chain) header (map PushBytes fs))) (w3\<lparr>sy_stream := None\<rparr>) = (Inr (OK, who), w4)"
      using w3' fw w4 r by (auto simp: stream_finish_def)
    from remote_cluster_returned [OF this] show ?thesis using res(2) w3' by (auto simp: a_def header_def fs_def)
  qed
qed

section \<open>An attempt that succeeds\<close>

text \<open>The write at the primary, as a call.\<close>

lemma write_call:
  assumes "nt_Write (system_net crc pton base) d a req w = (r, w')"
  shows "\<exists>t. sy_servers w' = sy_servers w \<or> sy_servers w' = fst (cluster_Write crc t a req (sy_servers w))"
    and "r = Inr code \<Longrightarrow> \<exists>t who. cluster_Write crc t a req (sy_servers w) = (sy_servers w', Some (code, who))"
proof -
  define handler where "handler = (\<lambda>sy. case at_cluster (cluster_Write crc (sy_time sy) a req) sy of (r, sy1) \<Rightarrow> (map_sum id fst r :: result_code call, sy1))"
  have call: "remote handler w = (r, w')" using assms by (simp add: system_net_def handler_def)
  define w1 where "w1 = snd (next_event w)"
  have h: "sy_servers (snd (handler w1)) = fst (cluster_Write crc (sy_time w1) a req (sy_servers w))"
    by (simp add: handler_def at_cluster_def w1_def case_prod_unfold split: option.split)
  show "\<exists>t. sy_servers w' = sy_servers w \<or> sy_servers w' = fst (cluster_Write crc t a req (sy_servers w))"
    using call h by (auto simp: remote_def w1_def case_prod_unfold split: fate.splits)
  show "\<exists>t who. cluster_Write crc t a req (sy_servers w) = (sy_servers w', Some (code, who))" if "r = Inr code"
  proof -
    from call that obtain sy1 where "handler sy1 = (Inr code, w')" "sy1 = w1" unfolding w1_def by (auto elim: remote_returned)
    then have "\<exists>who. cluster_Write crc (sy_time w1) a req (sy_servers w) = (sy_servers w', Some (code, who))"
      by (auto simp: handler_def at_cluster_def w1_def map_sum_def split: prod.splits option.splits sum.splits)
    then show ?thesis by blast
  qed
qed

text \<open>The data is on the primary and on the secondaries of its lease.\<close>

definition on_replicas :: "string \<Rightarrow> replica list \<Rightarrow> u64 \<Rightarrow> u64 \<Rightarrow> nat \<Rightarrow> bytes \<Rightarrow> cluster \<Rightarrow> bool" where
  "on_replicas primary secondaries h v offset data cl \<longleftrightarrow>
     (\<forall>a \<in> insert primary (rp_address ` set secondaries).
        \<exists>f. chunk_at cl a h = Some (v, f) \<and> take (length data) (drop offset f) = data)"

lemma fit_replicas:
  assumes "fit crc n k primary h secondaries cl"
  shows "replicas_at t primary h cl = {} \<or> replicas_at t primary h cl = insert primary (rp_address ` set secondaries)"
proof (cases "cl primary")
  case (Some sv)
  then have "lease_names h secondaries sv" using assms by (simp add: fit_def)
  then obtain s where "om_find (lt_slots (sv_leases sv)) h = Some s" "sl_secondaries s = secondaries"
    by (auto simp: lease_names_def)
  then show ?thesis using Some by (simp add: replicas_at_def Check_def)
qed (simp add: replicas_at_def)

lemma push_then_write:
  assumes fit: "fit crc n (length data) primary (wr_handle req) secondaries cl"
    and chain: "chain \<noteq> []" "distinct (map rp_address chain)" "insert primary (rp_address ` set secondaries) \<subseteq> rp_address ` set chain"
    and push: "cluster_PushData (rp_address (hd chain)) (tl chain) header rest cl = (cl1, Some (OK, who))" "received rest = data"
    and key: "wr_client_id req = ph_client_id header" "wr_sequence req = ph_sequence header"
    and wr: "cluster_Write crc t primary req cl1 = (cl', Some (OK, who'))"
  shows "on_replicas primary secondaries (wr_handle req) (wr_version req) (wr_offset req) data cl'"
proof -
  have ok: "cluster_ok crc n cl" "room (length (received rest)) cl" using fit_cluster [OF fit] push(2) by simp_all
  have addrs: "distinct (rp_address (hd chain) # map rp_address (tl chain))" using chain(1,2) by (cases chain) simp_all
  note c = pushed_chain [OF ok addrs push(1)]
  have "rp_address ` set chain = insert (rp_address (hd chain)) (rp_address ` set (tl chain))"
    using chain(1) by (cases chain) simp_all
  then have data: "\<forall>b \<in> rp_address ` set chain. data_at cl1 b (wr_client_id req, wr_sequence req) = Some data"
    using c key push(2) by simp
  have "fit crc n (length data) primary (wr_handle req) secondaries cl1"
    using cluster_PushData_fit [OF fit, of rest "rp_address (hd chain)" "tl chain" header] push by simp
  then have reps: "replicas_at t primary (wr_handle req) cl1 = {} \<or>
      replicas_at t primary (wr_handle req) cl1 = insert primary (rp_address ` set secondaries)"
    by (rule fit_replicas)
  have at: "\<forall>a \<in> replicas_at t primary (wr_handle req) cl1. data_at cl1 a (wr_client_id req, wr_sequence req) = Some data"
  proof
    fix a assume "a \<in> replicas_at t primary (wr_handle req) cl1"
    with reps have "a \<in> insert primary (rp_address ` set secondaries)" by (elim disjE) simp_all
    then show "data_at cl1 a (wr_client_id req, wr_sequence req) = Some data"
      using data chain(3) by (meson subsetD)
  qed
  from written_everywhere [OF conjunct1 [OF c] wr at]
  have primary: "primary \<in> replicas_at t primary (wr_handle req) cl1" by (elim conjE)
  have w: "\<exists>f. chunk_at cl' a (wr_handle req) = Some (wr_version req, written (wr_offset req) data f)"
    if a: "a \<in> replicas_at t primary (wr_handle req) cl1" for a
    using written_everywhere [OF conjunct1 [OF c] wr at] a by meson
  from reps primary have "replicas_at t primary (wr_handle req) cl1 = insert primary (rp_address ` set secondaries)"
    by (elim disjE) simp_all
  with w have "\<forall>a \<in> insert primary (rp_address ` set secondaries).
      \<exists>f. chunk_at cl' a (wr_handle req) = Some (wr_version req, written (wr_offset req) data f)" by simp
  then show ?thesis unfolding on_replicas_def using written_reads by (meson)
qed

text \<open>The attempts of \<open>TryWrite\<close>, of which the last succeeds.\<close>

lemma write_attempts_everywhere:
  assumes names: "insert primary (rp_address ` set secondaries) \<subseteq> rp_address ` set (le_primary lease # le_secondaries lease)"
    and addrs: "distinct (map rp_address (le_primary lease # le_secondaries lease))" and primary: "primary = rp_address (le_primary lease)"
  shows "fit crc n (length data) primary (le_handle lease) secondaries (sy_servers (snd s)) \<Longrightarrow> failure \<noteq> kOk \<Longrightarrow>
     write_attempts (system_net crc pton base) lease in_chunk data inners failure s = (kOk, s') \<Longrightarrow>
     on_replicas primary secondaries (le_handle lease) (le_version lease) in_chunk data (sy_servers (snd s'))"
proof (induction inners arbitrary: failure s)
  case (Cons inner rest)
  let ?net = "system_net crc pton base"
  obtain c w where s: "s = (c, w)" by (cases s)
  define w1 c1 where "w1 = snd (pause ?net inner (c, w))" and "c1 = c\<lparr>cl_sequence := cl_sequence c + 1\<rparr>"
  have w1: "sy_servers w1 = sy_servers w" by (simp add: w1_def pause_def SleepFor_def system_net_def)
  have seq: "next_sequence (pause ?net inner s) = (cl_sequence c, c1, w1)" by (simp add: s next_sequence_pause w1_def c1_def)
  obtain pushed c2 w2 where p: "PushData ?net lease (cl_sequence c) data (c1, w1) = (pushed, c2, w2)" by (metis prod_cases3)
  note sp = system_push [OF p]
  have f1: "fit crc n (length data) primary (le_handle lease) secondaries (sy_servers w1)" using Cons.prems(1) w1 s by simp
  note f2 = sp(2) [OF f1]
  have ok: "pushed = kOk" using Cons.prems(3) p seq by (auto simp: c1_def split: if_splits)
  let ?req = "\<lparr>wr_handle = le_handle lease, wr_version = le_version lease, wr_offset = in_chunk,
     wr_client_id = cl_client_id c2, wr_sequence = cl_sequence c\<rparr>"
  obtain r w3 where call: "nt_Write ?net (deadline c2) (rp_address (le_primary lease)) ?req w2 = (r, w3)" by fastforce
  note wc = write_call [OF call]
  have run: "write_attempts ?net lease in_chunk data (inner # rest) failure s =
      (case r of Inl _ \<Rightarrow> (kUnavailable, c2, w3)
       | Inr code \<Rightarrow> if code = OK then (kOk, c2, w3)
           else if code = DATA_MISSING \<or> code = FAILED
           then write_attempts ?net lease in_chunk data rest (FromResultCode code) (c2, w3) else (FromResultCode code, c2, w3))"
    using seq p ok call by simp
  obtain code where r: "r = Inr code" using run Cons.prems(3) by (cases r) auto
  show ?case
  proof (cases "code = OK")
    case True
    then have s': "s' = (c2, w3)" using run Cons.prems(3) r by simp
    let ?chain = "push_chain_of ?net c1 lease"
    have perm: "mset ?chain = mset (le_primary lease # le_secondaries lease)"
      unfolding push_chain_of_def OrderPushChain_def by (rule push_chain_mset)
    then have "?chain \<noteq> []" "set ?chain = set (le_primary lease # le_secondaries lease)"
      by (metis mset.simps(1) mset_zero_iff list.distinct(1), metis set_mset_mset)
    moreover have "mset (map rp_address ?chain) = mset (map rp_address (le_primary lease # le_secondaries lease))"
      using perm by (metis mset_map)
    then have "distinct (map rp_address ?chain)" using addrs mset_eq_imp_distinct_iff by blast
    moreover obtain who where push: "cluster_PushData (rp_address (hd ?chain)) (tl ?chain) (push_header_of c1 (cl_sequence c) data (tl ?chain))
        (map PushBytes (frames (frame_size c1) data)) (sy_servers w1) = (sy_servers w2, Some (OK, who))"
      using sp(3) [OF ok] by blast
    moreover have "received (map PushBytes (frames (frame_size c1) data)) = data"
      by (rule received_frames) (simp add: frame_size_def)
    moreover obtain t who' where "cluster_Write crc t primary ?req (sy_servers w2) = (sy_servers w3, Some (OK, who'))"
      using wc(2) [OF r] True primary by blast
    moreover have "wr_client_id ?req = ph_client_id (push_header_of c1 (cl_sequence c) data (tl ?chain))"
      "wr_sequence ?req = ph_sequence (push_header_of c1 (cl_sequence c) data (tl ?chain))"
      using sp(1) by (simp_all add: push_header_of_def)
    ultimately show ?thesis
      using push_then_write [of crc n data primary ?req secondaries "sy_servers w1" ?chain] f1 names s' by simp
  next
    case False
    then have "write_attempts ?net lease in_chunk data rest (FromResultCode code) (c2, w3) = (kOk, s')" "FromResultCode code \<noteq> kOk"
      using run Cons.prems(3) r by (cases code; auto split: if_splits)+
    moreover have "fit crc n (length data) primary (le_handle lease) secondaries (sy_servers w3)"
      using wc(1) f2 cluster_Write_fit [OF f2] by auto
    ultimately show ?thesis using Cons.IH [of "(c2, w3)"] by simp
  qed
qed auto

text \<open>
  The client's write reaches every replica. Whatever answers, losses and delays the network
  draws, if \<open>TryWrite\<close> reports success for a lease whose primary's table names the lease's
  secondaries, and the servers are healthy with room for the data, then afterwards the primary and
  every secondary of the lease hold the chunk at the lease's version, and the bytes at the offset
  of the chunk are the data - though each of the attempts that failed before, at any point of the
  push or of the write, may have left the replicas in different states.
\<close>

lemma TryWrite_everywhere:
  assumes fit: "fit crc n (length data) (rp_address (le_primary lease)) (le_handle lease) secondaries (sy_servers w)"
    and names: "rp_address ` set secondaries \<subseteq> rp_address ` set (le_primary lease # le_secondaries lease)"
    and addrs: "distinct (map rp_address (le_primary lease # le_secondaries lease))"
    and run: "TryWrite (system_net crc pton base) lease in_chunk data (c, w) = (kOk, c', w')"
  shows "on_replicas (rp_address (le_primary lease)) secondaries (le_handle lease) (le_version lease) in_chunk data (sy_servers w')"
proof -
  have "insert (rp_address (le_primary lease)) (rp_address ` set secondaries) \<subseteq> rp_address ` set (le_primary lease # le_secondaries lease)"
    using names by simp
  from write_attempts_everywhere [OF this addrs refl, of crc n data "(c, w)" kFailed pton base in_chunk _ "(c', w')"] fit run
  show ?thesis by (simp add: TryWrite_def)
qed

section \<open>The witness\<close>

definition sample_lease :: cached_lease where
  "sample_lease = \<lparr>le_handle = 7, le_version = 1, le_primary = \<lparr>rp_chunkserver_id = ''P'', rp_address = ''p'', rp_rack = []\<rparr>,
     le_secondaries = [at_q]\<rparr>"

lemma sample_fit: "fit no_crc 16 3 ''p'' 7 [at_q] (sy_servers sample_system)"
proof -
  have lease: "\<exists>s. om_find (lt_slots (Grant 0 7 60000 [at_q] \<lparr>lt_skew_margin = 5000, lt_slots = []\<rparr>)) 7 = Some s \<and> sl_secondaries s = [at_q]"
    by (simp add: Grant_def Let_def set_slot_def slot_of_def)
  have "BytesInUse (empty_buffer 64 :: (string \<times> u64) data_buffer) = 0" "db_capacity (empty_buffer 64 :: (string \<times> u64) data_buffer) = 64"
    by (simp_all add: BytesInUse_def empty_buffer_def)
  then have sv: "sv_fit no_crc 16 3 (sample_server l)" for l
    by (simp add: sv_fit_def sample_server_def sv_ok_def store_ok_def one_chunk_ok one_chunk_content db_ok_empty)
  have servers: "sy_servers sample_system = sample_cluster" by (simp add: sample_system_def)
  have "sample_cluster a = Some s \<Longrightarrow> sv_fit no_crc 16 3 s" for a s using sv by (auto simp: sample_cluster_def split: if_splits)
  moreover have "sample_cluster ''p'' = Some s \<Longrightarrow> lease_names 7 [at_q] s" for s
    using lease by (auto simp: sample_cluster_def sample_server_def lease_names_def)
  ultimately show ?thesis unfolding fit_def servers by blast
qed

theorem TryWrite_everywhere_witness:
  "\<exists>c' w'. TryWrite read_net sample_lease 4 ''xyz'' (full_client, sample_system) = (kOk, c', w') \<and>
     on_replicas ''p'' [at_q] 7 1 4 ''xyz'' (sy_servers w')"
proof -
  obtain code c' w' where run: "TryWrite read_net sample_lease 4 ''xyz'' (full_client, sample_system) = (code, c', w')"
    by (metis prod_cases3)
  have "fst (TryWrite read_net sample_lease 4 ''xyz'' (full_client, sample_system)) = kOk" by code_simp
  then have "code = kOk" using run by simp
  moreover have "fit no_crc 16 (length ''xyz'') (rp_address (le_primary sample_lease)) (le_handle sample_lease) [at_q] (sy_servers sample_system)"
    using sample_fit by (simp add: sample_lease_def numeral_3_eq_3)
  from TryWrite_everywhere [OF this, of "\<lambda>_. None" silent_net 4 full_client c' w'] run calculation
  have "on_replicas ''p'' [at_q] 7 1 4 ''xyz'' (sy_servers w')"
    by (simp add: sample_lease_def at_q_def read_net_def)
  ultimately show ?thesis using run by blast
qed

end
