(* ===== verification/Grants.thy ===== *)
theory Grants
  imports ClientWrites MasterChunks MasterChores
begin

text \<open>
  Granting a lease with both sides: the rounds of \<open>GrantSerialized\<close> (\<open>src/src/master/lease_manager.cc\<close>)
  with the calls they make, carried out on the chunkservers of \<open>Cluster\<close>, each of which may be lost on
  the way or carried out without an answer. The threads that make the calls of a round run in
  parallel; the calls go to different chunkservers, so that one order stands for all.

  What the master sees of it is a run of \<open>LeaseManager.grant_rounds\<close>. A grant that succeeds leaves
  every holder of the chunk at the new version with the bytes it had, the primary with a lease that
  names the other holders, and no lease of another holder; a write the client then reports as done
  is on every holder.
\<close>

section \<open>The calls of a round\<close>

record grant_round =
  gd_before :: registry
  gd_fate :: "string \<Rightarrow> fate"
  gd_time :: time_point
  gd_after :: registry
  gd_now :: time_point

text \<open>\<open>ChunkserverRegistry::Stub\<close>: a dead server still has an address.\<close>

definition Stub :: "string \<Rightarrow> registry \<Rightarrow> string option" where
  "Stub sid servers = map_option ci_address (om_find servers sid)"

text \<open>A call of a handler that answers with a code, and whether the master sees it succeed.\<close>

definition call_server ::
    "fate \<Rightarrow> string option \<Rightarrow> (chunkserver \<Rightarrow> chunkserver \<times> result_code) \<Rightarrow> cluster \<Rightarrow> cluster \<times> bool" where
  "call_server fate address handler cl =
     (case address of
        None \<Rightarrow> (cl, False)
      | Some a \<Rightarrow>
          (case cl a of
             None \<Rightarrow> (cl, False)
           | Some sv \<Rightarrow>
               if fate = RequestLost then (cl, False)
               else case handler sv of (sv', code) \<Rightarrow> (cl(a \<mapsto> sv'), fate = Delivered \<and> code = OK)))"

definition secondary_replicas :: "grant_round \<Rightarrow> attempt \<Rightarrow> replica list" where
  "secondary_replicas rd attempt = List.map_filter (\<lambda>sid. Resolve sid (gd_before rd)) (at_secondaries attempt)"

definition send_grant :: "config \<Rightarrow> grant_round \<Rightarrow> u64 \<Rightarrow> attempt \<Rightarrow> cluster \<Rightarrow> cluster \<times> bool" where
  "send_grant cfg rd handle attempt =
     call_server (gd_fate rd (at_primary attempt)) (Stub (at_primary attempt) (gd_before rd))
       (Chunkserver_GrantLease (gd_time rd) handle (at_version attempt) (cf_lease_duration cfg) (secondary_replicas rd attempt))"

definition send_update :: "grant_round \<Rightarrow> u64 \<Rightarrow> attempt \<Rightarrow> string \<Rightarrow> cluster \<Rightarrow> cluster \<times> bool" where
  "send_update rd handle attempt sid =
     call_server (gd_fate rd sid) (Stub sid (gd_before rd)) (Chunkserver_UpdateVersion handle (at_version attempt))"

text \<open>The calls to the secondaries, with those that failed.\<close>

fun send_updates :: "grant_round \<Rightarrow> u64 \<Rightarrow> attempt \<Rightarrow> string list \<Rightarrow> cluster \<Rightarrow> cluster \<times> string list" where
  "send_updates rd handle attempt [] cl = (cl, [])"
| "send_updates rd handle attempt (sid # sids) cl =
     (case send_update rd handle attempt sid cl of
        (cl1, ok) \<Rightarrow>
          (case send_updates rd handle attempt sids cl1 of
             (cl2, failed) \<Rightarrow> (cl2, if ok then failed else sid # failed)))"

definition send_round :: "config \<Rightarrow> grant_round \<Rightarrow> u64 \<Rightarrow> attempt \<Rightarrow> cluster \<Rightarrow> cluster \<times> string list" where
  "send_round cfg rd handle attempt cl =
     (case send_grant cfg rd handle attempt cl of
        (cl1, ok) \<Rightarrow>
          (case send_updates rd handle attempt (at_secondaries attempt) cl1 of
             (cl2, failed) \<Rightarrow> (cl2, if ok then failed else at_primary attempt # failed)))"

text \<open>The rounds, one per environment.\<close>

fun cluster_rounds ::
    "config \<Rightarrow> grant_round list \<Rightarrow> u64 \<Rightarrow> master_state \<Rightarrow> cluster \<Rightarrow>
     (master_state \<times> log_record list \<times> grant_result) \<times> cluster" where
  "cluster_rounds cfg [] handle ms cl = ((clear_granting handle ms, [], refused NO_REPLICAS), cl)"
| "cluster_rounds cfg (rd # rds) handle ms cl =
     (case PrepareLocked cfg (gd_before rd) handle ms of
        (ms1, None) \<Rightarrow> ((clear_granting handle ms1, [], refused NO_REPLICAS), cl)
      | (ms1, Some attempt) \<Rightarrow>
          (case send_round cfg rd handle attempt cl of
             (cl1, failed) \<Rightarrow>
               (case finish_round cfg (gd_after rd) (\<lambda>sid. sid \<notin> set failed) (gd_now rd) handle attempt ms1 of
                  Inl ms2 \<Rightarrow> cluster_rounds cfg rds handle ms2 cl1
                | Inr result \<Rightarrow> (result, cl1))))"

definition cluster_grant ::
    "config \<Rightarrow> (nat \<Rightarrow> grant_round) \<Rightarrow> u64 \<Rightarrow> master_state \<Rightarrow> cluster \<Rightarrow>
     (master_state \<times> log_record list \<times> grant_result) \<times> cluster" where
  "cluster_grant cfg rounds handle ms cl = cluster_rounds cfg (map rounds [0..<8]) handle ms cl"

section \<open>The master's view\<close>

text \<open>What the chunkservers do shows in the acknowledgements only.\<close>

lemma cluster_rounds_master:
  "\<exists>envs. fst (cluster_rounds cfg rds h ms cl) = grant_rounds cfg envs h ms \<and> length envs = length rds"
proof (induction rds arbitrary: ms cl)
  case (Cons rd rds)
  obtain ms1 a where p: "PrepareLocked cfg (gd_before rd) h ms = (ms1, a)" by (metis surj_pair)
  show ?case
  proof (cases a)
    case None
    obtain envs :: "round_env list" where "length envs = length rds" by (metis length_replicate)
    then show ?thesis using p None
      by (intro exI [of _ "\<lparr>re_before = gd_before rd, re_acked = \<lambda>_. True, re_after = gd_after rd, re_now = gd_now rd\<rparr> # envs"]) simp
  next
    case (Some attempt)
    obtain cl1 failed where s: "send_round cfg rd h attempt cl = (cl1, failed)" by (metis surj_pair)
    let ?env = "\<lparr>re_before = gd_before rd, re_acked = \<lambda>sid. sid \<notin> set failed, re_after = gd_after rd, re_now = gd_now rd\<rparr>"
    let ?fin = "finish_round cfg (gd_after rd) (\<lambda>sid. sid \<notin> set failed) (gd_now rd) h attempt ms1"
    obtain envs where envs: "length envs = length rds"
      "\<And>ms2. ?fin = Inl ms2 \<Longrightarrow> fst (cluster_rounds cfg rds h ms2 cl1) = grant_rounds cfg envs h ms2"
    proof (cases ?fin)
      case (Inl ms2)
      then show thesis using Cons.IH [of ms2 cl1] that by auto
    next
      case (Inr result)
      obtain envs :: "round_env list" where "length envs = length rds" by (metis length_replicate)
      then show thesis using Inr by (intro that [of envs]) auto
    qed
    then have "fst (cluster_rounds cfg (rd # rds) h ms cl) = grant_rounds cfg (?env # envs) h ms"
      using p Some s by (cases ?fin) auto
    then show ?thesis using envs(1) by (intro exI [of _ "?env # envs"]) simp
  qed
qed simp


section \<open>One call\<close>

lemma SetVersion_missing: "content cs h = None \<Longrightarrow> SetVersion h w cs = (cs, NO_SUCH_CHUNK)"
  by (simp add: SetVersion_def content_None cs_Find_def)

lemma sizes_SetVersion: "cs_chunk_size (fst (SetVersion h w cs)) = cs_chunk_size cs"
  by (simp add: SetVersion_def split: option.split)

text \<open>A handler that may set the version of a chunk and touch the leases, and nothing else.\<close>

definition version_only :: "u64 \<Rightarrow> u64 \<Rightarrow> chunkserver \<Rightarrow> chunkserver \<Rightarrow> bool" where
  "version_only h v sv sv' \<longleftrightarrow>
     sv_buffer sv' = sv_buffer sv \<and> sv_chunk_size sv' = sv_chunk_size sv \<and>
     (content (sv_store sv') = content (sv_store sv) \<or>
      (\<exists>w f. content (sv_store sv) h = Some (w, f) \<and> content (sv_store sv') = (content (sv_store sv))(h \<mapsto> (v, f))))"

lemma GrantLease_effect:
  assumes "sv_ok crc sv" "Chunkserver_GrantLease t h v d secondaries sv = (sv', code)"
  shows "sv_ok crc sv' \<and> version_only h v sv sv' \<and>
     (code = OK \<longrightarrow> (\<exists>f. content (sv_store sv') h = Some (v, f)) \<and> sv_leases sv' = Grant t h d secondaries (sv_leases sv))"
proof (cases "content (sv_store sv) h")
  case None
  then show ?thesis using assms by (auto simp: Chunkserver_GrantLease_def SetVersion_missing version_only_def)
next
  case (Some wf)
  obtain w f where wf: "content (sv_store sv) h = Some (w, f)" using Some by (cases wf) simp
  have cs: "cs_ok crc (sv_store sv)" "cs_chunk_size (sv_store sv) = sv_chunk_size sv" "db_ok (sv_buffer sv)"
    using sv_okD [OF assms(1)] by simp_all
  obtain store where s: "SetVersion h v (sv_store sv) = (store, OK)" "cs_ok crc store"
    "content store = (content (sv_store sv))(h \<mapsto> (v, f))"
    using SetVersion_content [OF cs(1) wf, of v] by blast
  have "cs_chunk_size store = sv_chunk_size sv" using sizes_SetVersion [of h v "sv_store sv"] s(1) cs(2) by simp
  then show ?thesis using assms(2) s cs wf
    by (auto simp: Chunkserver_GrantLease_def sv_ok_def store_ok_def version_only_def)
qed

lemma UpdateVersion_effect:
  assumes "sv_ok crc sv" "Chunkserver_UpdateVersion h v sv = (sv', code)"
  shows "sv_ok crc sv' \<and> version_only h v sv sv' \<and>
     (code = OK \<longrightarrow> (\<exists>f. content (sv_store sv') h = Some (v, f)) \<and> sv_leases sv' = LeaseTable.Revoke h (sv_leases sv))"
proof (cases "content (sv_store sv) h")
  case None
  then show ?thesis using assms by (auto simp: Chunkserver_UpdateVersion_def SetVersion_missing version_only_def)
next
  case (Some wf)
  obtain w f where wf: "content (sv_store sv) h = Some (w, f)" using Some by (cases wf) simp
  have cs: "cs_ok crc (sv_store sv)" "cs_chunk_size (sv_store sv) = sv_chunk_size sv" "db_ok (sv_buffer sv)"
    using sv_okD [OF assms(1)] by simp_all
  obtain store where s: "SetVersion h v (sv_store sv) = (store, OK)" "cs_ok crc store"
    "content store = (content (sv_store sv))(h \<mapsto> (v, f))"
    using SetVersion_content [OF cs(1) wf, of v] by blast
  have "cs_chunk_size store = sv_chunk_size sv" using sizes_SetVersion [of h v "sv_store sv"] s(1) cs(2) by simp
  then show ?thesis using assms(2) s cs wf
    by (auto simp: Chunkserver_UpdateVersion_def sv_ok_def store_ok_def version_only_def)
qed

text \<open>What holds of a cluster before and after the calls.\<close>

definition kept :: "(bytes \<Rightarrow> u32) \<Rightarrow> chunkserver \<Rightarrow> chunkserver \<Rightarrow> bool" where
  "kept crc sv sv' \<longleftrightarrow>
     sv_ok crc sv' \<and> sv_buffer sv' = sv_buffer sv \<and> sv_chunk_size sv' = sv_chunk_size sv \<and>
     (\<forall>h. map_option snd (content (sv_store sv') h) = map_option snd (content (sv_store sv) h))"

definition same_bytes :: "(bytes \<Rightarrow> u32) \<Rightarrow> cluster \<Rightarrow> cluster \<Rightarrow> bool" where
  "same_bytes crc cl cl' \<longleftrightarrow> (\<forall>a. rel_option (kept crc) (cl a) (cl' a))"

definition healthy :: "(bytes \<Rightarrow> u32) \<Rightarrow> cluster \<Rightarrow> bool" where
  "healthy crc cl \<longleftrightarrow> (\<forall>a sv. cl a = Some sv \<longrightarrow> sv_ok crc sv)"

lemma kept_refl: "sv_ok crc sv \<Longrightarrow> kept crc sv sv"
  by (simp add: kept_def)

lemma kept_trans: "kept crc sv sv1 \<Longrightarrow> kept crc sv1 sv2 \<Longrightarrow> kept crc sv sv2"
  by (simp add: kept_def)

lemma same_bytes_refl: "healthy crc cl \<Longrightarrow> same_bytes crc cl cl"
  unfolding same_bytes_def healthy_def by (metis kept_refl option.rel_refl_strong option.set_cases)

lemma same_bytes_trans:
  assumes "same_bytes crc cl cl1" "same_bytes crc cl1 cl2"
  shows "same_bytes crc cl cl2"
  unfolding same_bytes_def
proof
  fix a
  have "rel_option (kept crc) (cl a) (cl1 a)" "rel_option (kept crc) (cl1 a) (cl2 a)" using assms by (simp_all add: same_bytes_def)
  then show "rel_option (kept crc) (cl a) (cl2 a)" by (auto simp: option_rel_Some1 intro: kept_trans elim!: option.rel_cases)
qed

lemma same_bytesD: "same_bytes crc cl cl' \<Longrightarrow> cl' a = Some sv' \<Longrightarrow> \<exists>sv. cl a = Some sv \<and> kept crc sv sv'"
  unfolding same_bytes_def by (metis option_rel_Some2)

lemma same_bytes_healthy: "same_bytes crc cl cl' \<Longrightarrow> healthy crc cl'"
  unfolding healthy_def using same_bytesD by (fastforce simp: kept_def)

lemma same_bytes_call:
  assumes "healthy crc cl" "cl a = Some sv" "sv_ok crc sv'" "version_only h v sv sv'"
  shows "same_bytes crc cl (cl(a \<mapsto> sv'))"
proof -
  have "map_option snd (content (sv_store sv') g) = map_option snd (content (sv_store sv) g)" for g
    using assms(4) by (auto simp: version_only_def)
  then have "kept crc sv sv'" using assms(3,4) by (simp add: kept_def version_only_def)
  then show ?thesis using assms(2) same_bytes_refl [OF assms(1)] by (simp add: same_bytes_def)
qed

text \<open>A handler of this kind, called through the network.\<close>

lemma call_server_effect:
  assumes "healthy crc cl" "call_server fate address handler cl = (cl', ok)"
    and handler: "\<And>sv sv' code. sv_ok crc sv \<Longrightarrow> handler sv = (sv', code) \<Longrightarrow> sv_ok crc sv' \<and> version_only h v sv sv' \<and> (code = OK \<longrightarrow> P sv sv')"
  shows "same_bytes crc cl cl' \<and> (\<forall>b. address \<noteq> Some b \<longrightarrow> cl' b = cl b) \<and>
     (ok \<longrightarrow> (\<exists>a sv sv'. address = Some a \<and> cl a = Some sv \<and> cl' a = Some sv' \<and> P sv sv'))"
proof (cases "\<exists>a sv. address = Some a \<and> cl a = Some sv \<and> fate \<noteq> RequestLost")
  case False
  then have "cl' = cl" "\<not> ok" using assms(2) by (auto simp: call_server_def split: option.splits if_splits)
  then show ?thesis using same_bytes_refl [OF assms(1)] by simp
next
  case True
  then obtain a sv where a: "address = Some a" "cl a = Some sv" "fate \<noteq> RequestLost" by blast
  obtain sv' code where s: "handler sv = (sv', code)" by (metis surj_pair)
  have ok: "sv_ok crc sv" using assms(1) a(2) by (simp add: healthy_def)
  note e = handler [OF ok s]
  have "cl' = cl(a \<mapsto> sv')" "ok = (fate = Delivered \<and> code = OK)" using assms(2) a s by (auto simp: call_server_def)
  then show ?thesis using e a same_bytes_call [OF assms(1) a(2), of sv' h v] by auto
qed

section \<open>A round\<close>

definition up_to_date :: "u64 \<Rightarrow> u64 \<Rightarrow> chunkserver \<Rightarrow> bool" where
  "up_to_date h v sv \<longleftrightarrow> (\<exists>f. content (sv_store sv) h = Some (v, f))"

definition follows :: "u64 \<Rightarrow> u64 \<Rightarrow> chunkserver \<Rightarrow> bool" where
  "follows h v sv \<longleftrightarrow> up_to_date h v sv \<and> (\<forall>t. Check t h (sv_leases sv) = kNotHeld)"

definition leads :: "u64 \<Rightarrow> u64 \<Rightarrow> replica list \<Rightarrow> chunkserver \<Rightarrow> bool" where
  "leads h v secondaries sv \<longleftrightarrow> up_to_date h v sv \<and>
     (\<exists>s. om_find (lt_slots (sv_leases sv)) h = Some s \<and> sl_held s \<and> sl_secondaries s = secondaries)"

lemma Check_Revoke: "Check t h (LeaseTable.Revoke h lt) = kNotHeld"
  by (auto simp: Check_def LeaseTable.Revoke_def set_slot_def split: option.split)

lemma Grant_slot: "\<exists>s. om_find (lt_slots (Grant t h d secondaries lt)) h = Some s \<and> sl_held s \<and> sl_secondaries s = secondaries"
  by (simp add: Grant_def set_slot_def)

lemma send_grant_effect:
  assumes "healthy crc cl" "send_grant cfg rd h a cl = (cl', ok)"
  shows "same_bytes crc cl cl' \<and> (\<forall>b. Stub (at_primary a) (gd_before rd) \<noteq> Some b \<longrightarrow> cl' b = cl b) \<and>
     (ok \<longrightarrow> (\<exists>b sv. Stub (at_primary a) (gd_before rd) = Some b \<and> cl' b = Some sv \<and>
        leads h (at_version a) (secondary_replicas rd a) sv))"
proof -
  have "sv_ok crc sv' \<and> version_only h (at_version a) sv sv' \<and> (code = OK \<longrightarrow> leads h (at_version a) (secondary_replicas rd a) sv')"
    if "sv_ok crc sv" "Chunkserver_GrantLease (gd_time rd) h (at_version a) (cf_lease_duration cfg) (secondary_replicas rd a) sv = (sv', code)"
    for sv sv' code
    using GrantLease_effect [OF that] Grant_slot by (auto simp: leads_def up_to_date_def)
  from call_server_effect [OF assms(1) assms(2) [unfolded send_grant_def], where P = "\<lambda>_. leads h (at_version a) (secondary_replicas rd a)", OF this]
  show ?thesis by blast
qed

lemma send_update_effect:
  assumes "healthy crc cl" "send_update rd h a sid cl = (cl', ok)"
  shows "same_bytes crc cl cl' \<and> (\<forall>b. Stub sid (gd_before rd) \<noteq> Some b \<longrightarrow> cl' b = cl b) \<and>
     (ok \<longrightarrow> (\<exists>b sv. Stub sid (gd_before rd) = Some b \<and> cl' b = Some sv \<and> follows h (at_version a) sv))"
proof -
  have "sv_ok crc sv' \<and> version_only h (at_version a) sv sv' \<and> (code = OK \<longrightarrow> follows h (at_version a) sv')"
    if "sv_ok crc sv" "Chunkserver_UpdateVersion h (at_version a) sv = (sv', code)" for sv sv' code
    using UpdateVersion_effect [OF that] by (auto simp: follows_def up_to_date_def Check_Revoke)
  from call_server_effect [OF assms(1) assms(2) [unfolded send_update_def], where P = "\<lambda>_. follows h (at_version a)", OF this]
  show ?thesis by blast
qed

text \<open>Servers have addresses of their own.\<close>

definition apart :: "registry \<Rightarrow> bool" where
  "apart servers \<longleftrightarrow> (\<forall>s s' a. Stub s servers = Some a \<longrightarrow> Stub s' servers = Some a \<longrightarrow> s = s')"

lemma send_updates_effect:
  assumes apart: "apart (gd_before rd)"
  shows "healthy crc cl \<Longrightarrow> distinct sids \<Longrightarrow> send_updates rd h a sids cl = (cl', failed) \<Longrightarrow>
     same_bytes crc cl cl' \<and> (\<forall>b. (\<forall>sid \<in> set sids. Stub sid (gd_before rd) \<noteq> Some b) \<longrightarrow> cl' b = cl b) \<and>
     set failed \<subseteq> set sids \<and>
     (\<forall>sid \<in> set sids - set failed. \<exists>b sv. Stub sid (gd_before rd) = Some b \<and> cl' b = Some sv \<and> follows h (at_version a) sv)"
proof (induction sids arbitrary: cl cl' failed)
  case (Cons sid sids)
  obtain cl1 ok where u: "send_update rd h a sid cl = (cl1, ok)" by (metis surj_pair)
  obtain failed' where us: "send_updates rd h a sids cl1 = (cl', failed')" and failed: "failed = (if ok then failed' else sid # failed')"
    using Cons.prems(3) u by (auto split: prod.splits)
  note e = send_update_effect [OF Cons.prems(1) u]
  have "healthy crc cl1" using e same_bytes_healthy by blast
  from Cons.IH [OF this _ us] Cons.prems(2) have IH: "same_bytes crc cl1 cl'"
    "\<And>b. \<forall>sid \<in> set sids. Stub sid (gd_before rd) \<noteq> Some b \<Longrightarrow> cl' b = cl1 b" "set failed' \<subseteq> set sids"
    "\<And>s. s \<in> set sids - set failed' \<Longrightarrow> \<exists>b sv. Stub s (gd_before rd) = Some b \<and> cl' b = Some sv \<and> follows h (at_version a) sv"
    by auto
  have first: "\<exists>b sv. Stub sid (gd_before rd) = Some b \<and> cl' b = Some sv \<and> follows h (at_version a) sv" if ok
  proof -
    obtain b sv where b: "Stub sid (gd_before rd) = Some b" "cl1 b = Some sv" "follows h (at_version a) sv"
      using e \<open>ok\<close> by blast
    have "Stub s (gd_before rd) \<noteq> Some b" if "s \<in> set sids" for s
      using apart b(1) Cons.prems(2) that unfolding apart_def by (metis distinct.simps(2))
    then have "cl' b = cl1 b" using IH(2) by blast
    then show ?thesis using b by auto
  qed
  have "same_bytes crc cl cl'" using e IH(1) same_bytes_trans by blast
  moreover have "cl' b = cl b" if "\<forall>s \<in> set (sid # sids). Stub s (gd_before rd) \<noteq> Some b" for b
    using that IH(2) e by simp
  moreover have "set failed \<subseteq> set (sid # sids)" using IH(3) by (auto simp: failed)
  moreover have "\<exists>b sv. Stub s (gd_before rd) = Some b \<and> cl' b = Some sv \<and> follows h (at_version a) sv"
    if s: "s \<in> set (sid # sids) - set failed" for s
  proof (cases "s = sid")
    case True
    then have ok using s by (auto simp: failed split: if_splits)
    then show ?thesis using first True by simp
  next
    case False
    then have "s \<in> set sids - set failed'" using s by (auto simp: failed split: if_splits)
    then show ?thesis by (rule IH(4))
  qed
  ultimately show ?case by blast
qed (simp add: same_bytes_refl)

lemma send_round_effect:
  assumes "healthy crc cl" "apart (gd_before rd)" "distinct (at_primary a # at_secondaries a)"
    and "send_round cfg rd h a cl = (cl', failed)"
  shows "same_bytes crc cl cl'"
    and "failed = [] \<Longrightarrow> \<exists>b sv. Stub (at_primary a) (gd_before rd) = Some b \<and> cl' b = Some sv \<and>
        leads h (at_version a) (secondary_replicas rd a) sv"
    and "failed = [] \<Longrightarrow> sid \<in> set (at_secondaries a) \<Longrightarrow>
        \<exists>b sv. Stub sid (gd_before rd) = Some b \<and> cl' b = Some sv \<and> follows h (at_version a) sv"
proof -
  obtain cl1 ok where g: "send_grant cfg rd h a cl = (cl1, ok)" by (metis surj_pair)
  obtain failed' where us: "send_updates rd h a (at_secondaries a) cl1 = (cl', failed')"
    and failed: "failed = (if ok then failed' else at_primary a # failed')"
    using assms(4) g by (auto simp: send_round_def split: prod.splits)
  note e = send_grant_effect [OF assms(1) g]
  have h1: "healthy crc cl1" using e same_bytes_healthy by blast
  have "distinct (at_secondaries a)" using assms(3) by simp
  note u = send_updates_effect [OF assms(2) h1 this us]
  show "same_bytes crc cl cl'" using e u same_bytes_trans by blast
  show "\<exists>b sv. Stub sid (gd_before rd) = Some b \<and> cl' b = Some sv \<and> follows h (at_version a) sv"
    if "failed = []" "sid \<in> set (at_secondaries a)" using u that by (auto simp: failed split: if_splits)
  show "\<exists>b sv. Stub (at_primary a) (gd_before rd) = Some b \<and> cl' b = Some sv \<and> leads h (at_version a) (secondary_replicas rd a) sv"
    if "failed = []"
  proof -
    have ok using that by (auto simp: failed split: if_splits)
    then obtain b sv where b: "Stub (at_primary a) (gd_before rd) = Some b" "cl1 b = Some sv"
      "leads h (at_version a) (secondary_replicas rd a) sv" using e by blast
    have "Stub s (gd_before rd) \<noteq> Some b" if "s \<in> set (at_secondaries a)" for s
      using assms(2,3) b(1) that unfolding apart_def by (metis distinct.simps(2))
    then have "cl' b = cl1 b" using u by blast
    then show ?thesis using b by auto
  qed
qed

lemma send_updates_failed: "send_updates rd h a sids cl = (cl', failed) \<Longrightarrow> set failed \<subseteq> set sids"
  by (induction sids arbitrary: cl cl' failed) (force split: prod.splits if_splits)+

section \<open>A grant that succeeds\<close>

text \<open>
  What a granted lease comes with: the holders that are alive, the primary first; the version and
  the lease in the chunk table; and the servers of the holders as the calls have left them.
\<close>

definition granted :: "config \<Rightarrow> grant_round \<Rightarrow> u64 \<Rightarrow> string list \<Rightarrow> grant_result \<Rightarrow> master_state \<Rightarrow> cluster \<Rightarrow> bool" where
  "granted cfg rd h sids r ms cl \<longleftrightarrow> sids \<noteq> [] \<and> distinct sids \<and>
     (\<exists>c. ct_Find (ms_chunks ms) h = Some c \<and> set sids = {sid \<in> om_keys (cm_locations c). Resolve sid (gd_before rd) \<noteq> None} \<and>
        cm_version c = gr_version r \<and>
        cm_lease c = Some \<lparr>ls_primary = hd sids, ls_expiry = after_ms (gd_now rd) (cf_lease_duration cfg), ls_revoked = False\<rparr>) \<and>
     gr_primary r = Resolve (hd sids) (gd_after rd) \<and>
     gr_secondaries r = List.map_filter (\<lambda>sid. Resolve sid (gd_after rd)) (tl sids) \<and>
     (\<exists>a sv. Stub (hd sids) (gd_before rd) = Some a \<and> cl a = Some sv \<and>
        leads h (gr_version r) (List.map_filter (\<lambda>sid. Resolve sid (gd_before rd)) (tl sids)) sv) \<and>
     (\<forall>sid \<in> set (tl sids). \<exists>a sv. Stub sid (gd_before rd) = Some a \<and> cl a = Some sv \<and> follows h (gr_version r) sv)"

lemma PrepareLocked_distinct:
  assumes "ms_ok ms" "PrepareLocked cfg servers h ms = (ms1, Some a)"
  shows "distinct (at_primary a # at_secondaries a)"
proof -
  obtain c where c: "ct_Find (ms_chunks ms) h = Some c" using PrepareLocked_Some [OF assms(2)] by blast
  have "om_ok (cm_locations c)" using ct_okD [OF ms_coreD(2) [OF ms_okD(2) [OF assms(1)]]] c by blast
  then have "distinct (live_locations servers c)" by (simp add: live_locations_def om_ok_distinct)
  then show ?thesis using assms(2) c by (auto simp: PrepareLocked_def Let_def split: if_splits)
qed

lemma finish_round_secondaries:
  "finish_round cfg servers acked now h a ms = Inr (ms', rs, r) \<Longrightarrow> gr_code r = OK \<Longrightarrow>
   gr_secondaries r = List.map_filter (\<lambda>sid. Resolve sid servers) (at_secondaries a)"
  by (auto simp: finish_round_def Let_def refused_def split: option.splits if_splits)

lemma next_version: "v + 1 \<noteq> 0 \<Longrightarrow> max v (v + 1) = (v + 1 :: u64)"
proof -
  assume "v + 1 \<noteq> 0"
  then have "unat (v + 1) = Suc (unat v)" by (simp add: unatSuc add.commute)
  then have "v \<le> v + 1" by (simp add: word_le_nat_alt)
  then show ?thesis by (simp add: max_def)
qed

lemma cluster_rounds_OK:
  "ms_ok ms \<Longrightarrow> ct_Find (ms_chunks ms) h = Some c \<Longrightarrow> \<not> cm_pending c \<Longrightarrow> cm_version c + 1 \<noteq> 0 \<Longrightarrow>
   healthy crc cl \<Longrightarrow> \<forall>rd \<in> set rds. apart (gd_before rd) \<Longrightarrow>
   cluster_rounds cfg rds h ms cl = ((ms', rs, r), cl') \<Longrightarrow> gr_code r = OK \<Longrightarrow>
   gr_version r = cm_version c + 1 \<and> same_bytes crc cl cl' \<and> (\<exists>rd \<in> set rds. \<exists>sids. granted cfg rd h sids r ms' cl')"
proof (induction rds arbitrary: ms c cl)
  case Nil
  then show ?case by (auto simp: refused_def)
next
  case (Cons rd rds)
  obtain ms1 a where p: "PrepareLocked cfg (gd_before rd) h ms = (ms1, a)" by fastforce
  have ok1: "ms_ok ms1" using quiet_PrepareLocked [OF p] quiet_from_ok [OF Cons.prems(1)] by auto
  from Cons.prems(7,8) p obtain att where att: "a = Some att" by (auto simp: refused_def split: option.splits)
  note p' = p [unfolded att]
  obtain c0 where c0: "ct_Find (ms_chunks ms) h = Some c0" "ct_Find (ms_chunks ms1) h = Some (c0\<lparr>cm_granting := True\<rparr>)"
    "at_version att = cm_version c0 + 1"
    "set (at_primary att # at_secondaries att) = {sid \<in> om_keys (cm_locations c0). Resolve sid (gd_before rd) \<noteq> None}"
    by (rule PrepareLocked_Some [OF p'])
  with Cons.prems(2) have c: "c0 = c" by simp
  obtain cl1 failed where s: "send_round cfg rd h att cl = (cl1, failed)" by (metis surj_pair)
  have dist: "distinct (at_primary att # at_secondaries att)" by (rule PrepareLocked_distinct [OF Cons.prems(1) p'])
  have apart: "apart (gd_before rd)" using Cons.prems(6) by simp
  note round = send_round_effect [OF Cons.prems(5) apart dist s]
  show ?case
  proof (cases "finish_round cfg (gd_after rd) (\<lambda>sid. sid \<notin> set failed) (gd_now rd) h att ms1")
    case (Inl ms2)
    note again = finish_round_again [OF Inl]
    have ok2: "ms_ok ms2" using quiet_from_ok [OF ok1 again(1)] .
    obtain c2 where c2: "ct_Find (ms_chunks ms2) h = Some c2" "core_of c2 = core_of c"
      using again(3) c0(2) c by (auto simp: core_of_def)
    then have v: "cm_version c2 = cm_version c" "\<not> cm_pending c2" using Cons.prems(3) by (auto simp: core_of_def)
    have rest: "cluster_rounds cfg rds h ms2 cl1 = ((ms', rs, r), cl')" using Cons.prems(7) p' s Inl by simp
    have "cm_version c2 + 1 \<noteq> 0" "\<forall>rd \<in> set rds. apart (gd_before rd)" using Cons.prems(4,6) v(1) by simp_all
    from Cons.IH [OF ok2 c2(1) v(2) this(1) same_bytes_healthy [OF round(1)] this(2) rest Cons.prems(8)]
    show ?thesis using v(1) same_bytes_trans [OF round(1)] by auto
  next
    case (Inr b)
    then have fin: "finish_round cfg (gd_after rd) (\<lambda>sid. sid \<notin> set failed) (gd_now rd) h att ms1 = Inr (ms', rs, r)"
      and cl1: "cl1 = cl'" using Cons.prems(7) p' s by simp_all
    have "\<not> cm_pending (c0\<lparr>cm_granting := True\<rparr>)" using Cons.prems(3) c by simp
    note f = finish_round_OK [OF ok1 fin c0(2) this]
    have version: "gr_version r = cm_version c + 1" using f(3) c0(3) c Cons.prems(4) next_version by simp
    have v: "at_version att = gr_version r" using version c0(3) c by simp
    have "set failed \<subseteq> set (at_primary att # at_secondaries att)"
      using s by (auto simp: send_round_def split: prod.splits if_splits dest!: send_updates_failed)
    then have none: "failed = []" using f(6) by (cases failed) auto
    have "granted cfg rd h (at_primary att # at_secondaries att) r ms' cl'"
      unfolding granted_def
      using dist f(5,7) c0(4) version c finish_round_secondaries [OF fin f(2)] round(2) [OF none] round(3) [OF none]
      by (auto simp: v cl1 secondary_replicas_def)
    then show ?thesis using version round(1) cl1 by auto
  qed
qed

section \<open>From the grant to the write\<close>

lemma Resolve_Stub: "Resolve sid servers = Some R \<Longrightarrow> Stub sid servers = Some (rp_address R)"
  by (auto simp: Resolve_def Stub_def split: option.splits if_splits)

lemma map_filter_Resolve:
  "\<forall>sid \<in> set sids. Resolve sid servers \<noteq> None \<Longrightarrow>
   map Some (map rp_address (List.map_filter (\<lambda>sid. Resolve sid servers) sids)) = map (\<lambda>sid. Stub sid servers) sids"
  by (induction sids) (auto simp: map_filter_simps Resolve_Stub)

lemma apart_addresses:
  assumes "apart servers" "distinct sids" "map Some addresses = map (\<lambda>sid. Stub sid servers) sids"
  shows "distinct addresses"
proof -
  have "inj_on (\<lambda>sid. Stub sid servers) (set sids)"
  proof (rule inj_onI)
    fix s s' assume s: "s \<in> set sids" "s' \<in> set sids" "Stub s servers = Stub s' servers"
    have "Stub s servers \<in> set (map Some addresses)" using s(1) assms(3) by simp
    then obtain a where "Stub s servers = Some a" by auto
    then show "s = s'" using s(3) assms(1) unfolding apart_def by metis
  qed
  then have "distinct (map (\<lambda>sid. Stub sid servers) sids)" using assms(2) by (simp add: distinct_map)
  then show ?thesis using assms(3) distinct_map [of Some addresses] by simp
qed

lemma kept_fit: "kept crc sv sv' \<Longrightarrow> sv_fit crc n k sv \<Longrightarrow> sv_fit crc n k sv'"
  by (simp add: kept_def sv_fit_def)

text \<open>The answer of a grant, as the client keeps it.\<close>

definition granted_lease :: "u64 \<Rightarrow> grant_result \<Rightarrow> cached_lease" where
  "granted_lease h r =
     \<lparr>le_handle = h, le_version = gr_version r, le_primary = the (gr_primary r), le_secondaries = gr_secondaries r\<rparr>"

text \<open>
  C4: what the master grants, the client can rely on. On healthy servers with room, each with an
  address of its own, let a grant succeed, whatever calls were lost in its rounds, and let the client
  then report a write under the granted lease as done, whatever calls were lost in its attempts:
  every replica the master lists as a live holder of the chunk has the version of the chunk table,
  and the data at the offset.
\<close>

theorem granted_write_everywhere:
  assumes chunk: "ms_ok ms" "ct_Find (ms_chunks ms) h = Some c" "\<not> cm_pending c" "cm_version c + 1 \<noteq> 0"
    and fit: "\<forall>a sv. cl a = Some sv \<longrightarrow> sv_fit crc n (length data) sv"
    and registry: "apart servers" "\<forall>i < 8. gd_before (rounds i) = servers \<and> gd_after (rounds i) = servers"
    and grant: "cluster_grant cfg rounds h ms cl = ((ms', rs, r), cl')" "gr_code r = OK"
    and run: "sy_servers w = cl'"
      "TryWrite (system_net crc pton base) (granted_lease h r) in_chunk data (k, w) = (kOk, k', w')"
  shows "\<exists>c'. ct_Find (ms_chunks ms') h = Some c' \<and>
     (\<forall>sid \<in> om_keys (cm_locations c'). \<forall>R. Resolve sid servers = Some R \<longrightarrow>
        (\<exists>f. chunk_at (sy_servers w') (rp_address R) h = Some (cm_version c', f) \<and> take (length data) (drop in_chunk f) = data))"
proof -
  have healthy: "healthy crc cl" using fit by (simp add: healthy_def sv_fit_def)
  have rds: "gd_before rd = servers" "gd_after rd = servers" if "rd \<in> set (map rounds [0..<8])" for rd
    using that registry(2) by (auto simp del: upt.simps)
  have "\<forall>rd \<in> set (map rounds [0..<8]). apart (gd_before rd)" using rds(1) registry(1) by metis
  from cluster_rounds_OK [OF chunk healthy this grant(1) [unfolded cluster_grant_def] grant(2)]
  obtain rd sids where kept: "same_bytes crc cl cl'" and rd: "rd \<in> set (map rounds [0..<8])" and g: "granted cfg rd h sids r ms' cl'"
    by blast
  note now = rds [OF rd]
  obtain p ss where sids: "sids = p # ss" using g by (cases sids) (auto simp: granted_def)
  obtain c' where c': "ct_Find (ms_chunks ms') h = Some c'" "set sids = {sid \<in> om_keys (cm_locations c'). Resolve sid servers \<noteq> None}"
    "cm_version c' = gr_version r" using g now by (auto simp: granted_def)
  have live: "\<forall>sid \<in> set sids. Resolve sid servers \<noteq> None" using c'(2) by simp
  obtain P where P: "Resolve p servers = Some P" using live sids by auto
  let ?lease = "granted_lease h r" and ?ss = "List.map_filter (\<lambda>sid. Resolve sid servers) ss"
  have lease: "le_primary ?lease = P" "le_secondaries ?lease = ?ss" "le_handle ?lease = h" "le_version ?lease = gr_version r"
    using g now P sids by (simp_all add: granted_def granted_lease_def)
  have addresses: "map Some (map rp_address (P # ?ss)) = map (\<lambda>sid. Stub sid servers) sids"
    using map_filter_Resolve [of ss servers] live P sids Resolve_Stub [OF P] by simp
  have distinct: "distinct (map rp_address (P # ?ss))"
    using apart_addresses [OF registry(1) _ addresses] g by (simp add: granted_def)
  obtain sv where sv: "cl' (rp_address P) = Some sv" "leads h (gr_version r) ?ss sv"
    using g now sids Resolve_Stub [OF P] by (auto simp: granted_def)
  have "fit crc n (length data) (rp_address P) h ?ss cl'"
    unfolding fit_def
  proof (intro conjI allI impI)
    show "sv_fit crc n (length data) s" if "cl' a = Some s" for a s
      using same_bytesD [OF kept that] fit kept_fit by blast
    show "lease_names h ?ss s" if "cl' (rp_address P) = Some s" for s
      using that sv by (auto simp: leads_def lease_names_def)
  qed
  moreover have "insert (rp_address P) (rp_address ` set ?ss) \<subseteq> rp_address ` set (le_primary ?lease # le_secondaries ?lease)"
    by (simp add: lease)
  moreover have "distinct (map rp_address (le_primary ?lease # le_secondaries ?lease))" using distinct by (simp add: lease)
  ultimately have on: "on_replicas (rp_address P) ?ss (le_handle ?lease) (le_version ?lease) in_chunk data (sy_servers (snd (k', w')))"
    by (intro write_attempts_everywhere [where s = "(k, w)" and failure = kFailed and s' = "(k', w')" and lease = ?lease,
          OF _ _ _ _ _ run(2) [unfolded TryWrite_def]])
      (simp_all add: lease run(1))
  have mem: "rp_address R \<in> insert (rp_address P) (rp_address ` set ?ss)" if "sid \<in> om_keys (cm_locations c')" "Resolve sid servers = Some R" for sid R
  proof -
    have "sid \<in> set sids" using that c'(2) by simp
    then have "Some (rp_address R) \<in> set (map (\<lambda>sid. Stub sid servers) sids)" using Resolve_Stub [OF that(2)] by force
    then have "Some (rp_address R) \<in> set (map Some (map rp_address (P # ?ss)))" by (simp only: addresses)
    then show ?thesis by auto
  qed
  have "\<exists>f. chunk_at (sy_servers w') (rp_address R) h = Some (cm_version c', f) \<and> take (length data) (drop in_chunk f) = data"
    if "sid \<in> om_keys (cm_locations c')" "Resolve sid servers = Some R" for sid R
    using on mem [OF that] lease(3,4) c'(3) by (auto simp: on_replicas_def)
  then show ?thesis using c'(1) by blast
qed

section \<open>An example\<close>

text \<open>
  Chunk 7 at version 1 on the servers \<open>s\<close> and \<open>t\<close>, at the addresses \<open>p\<close> and \<open>q\<close>, and a grant all
  calls of which arrive.
\<close>

definition grant_server :: "string \<Rightarrow> string \<Rightarrow> chunkserver" where
  "grant_server sid address = (sample_server \<lparr>lt_skew_margin = 5000, lt_slots = []\<rparr>)\<lparr>sv_id := sid, sv_address := address\<rparr>"

definition grant_cluster :: cluster where
  "grant_cluster a =
     (if a = ''p'' then Some (grant_server ''s'' ''p'') else if a = ''q'' then Some (grant_server ''t'' ''q'') else None)"

definition grant_servers :: registry where
  "grant_servers =
     [(''s'', \<lparr>ci_id = ''s'', ci_address = ''p'', ci_rack = [], ci_last_heartbeat = 0, ci_alive = True\<rparr>),
      (''t'', \<lparr>ci_id = ''t'', ci_address = ''q'', ci_rack = [], ci_last_heartbeat = 0, ci_alive = True\<rparr>)]"

definition grant_state :: master_state where
  "grant_state = Apply (BumpVersionRec 7 1) sample_state"

definition good_round :: grant_round where
  "good_round = \<lparr>gd_before = grant_servers, gd_fate = (\<lambda>_. Delivered), gd_time = 0, gd_after = grant_servers, gd_now = 0\<rparr>"

definition good_grant :: "(master_state \<times> log_record list \<times> grant_result) \<times> cluster" where
  "good_grant = cluster_grant default_config (\<lambda>_. good_round) 7 grant_state grant_cluster"

definition write_after :: "(master_state \<times> log_record list \<times> grant_result) \<times> cluster \<Rightarrow> error_code \<times> client \<times> system" where
  "write_after g = TryWrite read_net (granted_lease 7 (snd (snd (fst g)))) 0 ''xyz'' (full_client, sample_system\<lparr>sy_servers := snd g\<rparr>)"

lemma good_grant_answer: "gr_code (snd (snd (fst good_grant))) = OK" by code_simp

lemma good_grant_chunk: "map_option (\<lambda>c. (cm_version c, map fst (cm_locations c))) (ct_Find (ms_chunks (fst (fst good_grant))) 7) = Some (2, [''s'', ''t''])"
  by code_simp

lemma good_write: "fst (write_after good_grant) = kOk" by code_simp

lemma grant_state_ok: "ms_ok grant_state"
proof -
  have rec: "rec_ok (BumpVersionRec 7 1) sample_state" by code_simp
  have files: "ms_files (Apply (BumpVersionRec 7 1) sample_state) = [(''/a'', \<lparr>fm_chunks = [7]\<rparr>)]" by code_simp
  have fit: "refs_fit (ms_files (Apply (BumpVersionRec 7 1) sample_state))" unfolding files by (simp add: refs_fit_def refs_def)
  show ?thesis unfolding grant_state_def by (rule ms_ok_Apply [OF sample_state_ok rec fit])
qed

lemma grant_chunk: "ct_Find (ms_chunks grant_state) 7 =
   Some (new_chunk\<lparr>cm_version := 1, cm_refcount := 1, cm_locations := [(''s'', 0), (''t'', 0)]\<rparr>)"
  by code_simp

lemma grant_fit: "grant_cluster a = Some sv \<Longrightarrow> sv_fit no_crc 16 3 sv"
proof -
  have buffer: "BytesInUse (empty_buffer 64 :: (string \<times> u64) data_buffer) = 0" "db_capacity (empty_buffer 64 :: (string \<times> u64) data_buffer) = 64"
    by (simp_all add: BytesInUse_def empty_buffer_def)
  have "sv_fit no_crc 16 3 (grant_server sid b)" for sid b
    by (simp add: buffer sv_fit_def grant_server_def sample_server_def sv_ok_def store_ok_def one_chunk_ok one_chunk_content db_ok_empty)
  then show "grant_cluster a = Some sv \<Longrightarrow> sv_fit no_crc 16 3 sv" by (auto simp: grant_cluster_def split: if_splits)
qed

lemma grant_apart: "apart grant_servers"
  by (auto simp: apart_def Stub_def grant_servers_def split: if_splits)

theorem granted_write_everywhere_witness:
  "\<exists>f. chunk_at (sy_servers (snd (snd (write_after good_grant)))) ''q'' 7 = Some (2, f) \<and> take 3 f = ''xyz''"
proof -
  obtain ms' rs r cl' where g: "good_grant = ((ms', rs, r), cl')" by (metis prod_cases3 surj_pair)
  obtain code k' w' where w: "write_after good_grant = (code, k', w')" by (metis prod_cases3)
  have run: "TryWrite (system_net no_crc (\<lambda>_. None) silent_net) (granted_lease 7 r) 0 ''xyz'' (full_client, sample_system\<lparr>sy_servers := cl'\<rparr>) =
      (kOk, k', w')"
    using w good_write by (simp add: write_after_def g read_net_def)
  have gc: "cluster_grant default_config (\<lambda>_. good_round) 7 grant_state grant_cluster = ((ms', rs, r), cl')"
    using g by (simp add: good_grant_def)
  have "\<exists>c'. ct_Find (ms_chunks ms') 7 = Some c' \<and>
     (\<forall>sid \<in> om_keys (cm_locations c'). \<forall>R. Resolve sid grant_servers = Some R \<longrightarrow>
        (\<exists>f. chunk_at (sy_servers w') (rp_address R) 7 = Some (cm_version c', f) \<and> take (length ''xyz'') (drop 0 f) = ''xyz''))"
    by (rule granted_write_everywhere [where n = 16, OF grant_state_ok grant_chunk _ _ _ grant_apart _ gc _ _ run])
      (use grant_fit [unfolded numeral_3_eq_3] good_grant_answer in \<open>auto simp: g good_round_def new_chunk_def\<close>)
  then obtain c' where c': "ct_Find (ms_chunks ms') 7 = Some c'"
    "\<forall>sid \<in> om_keys (cm_locations c'). \<forall>R. Resolve sid grant_servers = Some R \<longrightarrow>
        (\<exists>f. chunk_at (sy_servers w') (rp_address R) 7 = Some (cm_version c', f) \<and> take (length ''xyz'') (drop 0 f) = ''xyz'')"
    by blast
  have "cm_version c' = 2" "map fst (cm_locations c') = [''s'', ''t'']" using good_grant_chunk c'(1) by (simp_all add: g)
  moreover from this(2) have "''t'' \<in> om_keys (cm_locations c')" by (auto simp: om_keys_def)
  moreover have "Resolve ''t'' grant_servers = Some \<lparr>rp_chunkserver_id = ''t'', rp_address = ''q'', rp_rack = []\<rparr>"
    by (simp add: Resolve_def grant_servers_def)
  ultimately obtain f where "chunk_at (sy_servers w') ''q'' 7 = Some (2, f)" "take (length ''xyz'') (drop 0 f) = ''xyz''"
    using c'(2) by fastforce
  then show ?thesis using w by (simp add: numeral_3_eq_3)
qed

end
