(* ===== verification/StaleReplica.thy ===== *)
theory StaleReplica
  imports Grants
begin

text \<open>
  A round of \<open>GrantSerialized\<close> that is repeated (\<open>src/src/master/lease_manager.cc\<close>) asks for the version
  of the round before. A chunkserver whose answer was lost has taken that version already; the
  master drops it, but its next heartbeat (\<open>Master::HeartBeat\<close> in \<open>src/src/master/master.cc\<close>) reports the
  current version. What was written in between is not on it.
\<close>

section \<open>The version of a repeated round\<close>

text \<open>After a round that failed, the next one asks for the version that some servers have taken.\<close>

lemma repeated_round_version:
  assumes "PrepareLocked cfg before h ms = (ms1, Some a)" "finish_round cfg after acked now h a ms1 = Inl ms2"
    and "PrepareLocked cfg before' h ms2 = (ms3, Some a')"
  shows "at_version a' = at_version a"
proof -
  obtain c where c: "ct_Find (ms_chunks ms) h = Some c" "ct_Find (ms_chunks ms1) h = Some (c\<lparr>cm_granting := True\<rparr>)"
    "at_version a = cm_version c + 1"
    using assms(1) by (auto simp: PrepareLocked_def Find_update_chunk Let_def split: option.splits if_splits)
  then obtain sids where "ms2 = remove_locations h sids ms1"
    using assms(2) by (auto simp: finish_round_def Let_def split: option.splits if_splits)
  then obtain c' where "ct_Find (ms_chunks ms2) h = Some c'" "cm_version c' = cm_version c"
    using c(2) by (auto simp: Find_remove_locations)
  then show ?thesis using assms(3) c(3) by (auto simp: PrepareLocked_def Let_def split: if_splits)
qed

section \<open>What follows from it\<close>

definition lossy_round :: grant_round where
  "lossy_round = good_round\<lparr>gd_fate := (\<lambda>sid. if sid = ''t'' then ResponseLost else Delivered)\<rparr>"

definition lossy_grant :: "(master_state \<times> log_record list \<times> grant_result) \<times> cluster" where
  "lossy_grant = cluster_grant default_config (\<lambda>i. if i = 0 then lossy_round else good_round) 7 grant_state grant_cluster"

lemma lossy_grant_answer: "gr_code (snd (snd (fst lossy_grant))) = OK" by code_simp

lemma lossy_write: "fst (write_after lossy_grant) = kOk" by code_simp


text \<open>
  The lossy grant, step by step: its second round asks for the version of its first, without \<open>t\<close>, which
  has that version already; the write that follows is on \<open>p\<close> alone; the next heartbeat of \<open>t\<close> reports
  the version of the chunk table, which makes \<open>t\<close> a holder again, and a read there is answered.
\<close>

definition lossy_cluster :: cluster where
  "lossy_cluster = sy_servers (snd (snd (write_after lossy_grant)))"

definition readmitting :: "registry \<times> master_state \<times> log_record list \<times> heartbeat_response \<times> u64 list" where
  "readmitting =
     Master_HeartBeat default_config 1 (HeartbeatRequest 1 (the (lossy_cluster ''q''))) grant_servers (fst (fst lossy_grant))"

lemma lossy_grant_chunk:
  "map_option (\<lambda>c. (cm_version c, map fst (cm_locations c))) (ct_Find (ms_chunks (fst (fst lossy_grant))) 7) = Some (2, [''s''])"
  by code_simp

lemma lossy_at_p: "chunk_at lossy_cluster ''p'' 7 = Some (2, ''xyzdef'')" by code_simp

lemma lossy_at_q: "chunk_at lossy_cluster ''q'' 7 = Some (2, ''abcdef'')" by code_simp

lemma lossy_read: "snd (Chunkserver_Read no_crc 7 2 0 3 (the (lossy_cluster ''q''))) = Some (OK, ''abc'')" by code_simp

lemma lossy_heartbeat: "HeartbeatRequest 1 (the (lossy_cluster ''q'')) =
   \<lparr>hb_chunkserver_id = ''t'', hb_address = ''q'', hb_rack = [], hb_chunks = [\<lparr>cr_handle = 7, cr_version = 2, cr_length = 6\<rparr>],
    hb_lease_extension_requests = [], hb_corrupt = []\<rparr>"
  by code_simp

lemma lossy_state: "fst (fst lossy_grant) =
   \<lparr>ms_files = [(''/a'', \<lparr>fm_chunks = [7]\<rparr>)],
    ms_chunks = \<lparr>ct_chunks = [(7, \<lparr>cm_version = 2, cm_refcount = 1, cm_pending = False, cm_granting = False,
        cm_locations = [(''s'', 0)], cm_lease = Some \<lparr>ls_primary = ''s'', ls_expiry = 60000000000, ls_revoked = False\<rparr>\<rparr>)],
      ct_held_by = [(''s'', [7])]\<rparr>,
    ms_next_handle = 8\<rparr>"
  by code_simp

lemma readmitted:
  "case readmitting of (servers, ms, rs, resp, again) \<Rightarrow>
     map_option (\<lambda>c. (cm_version c, map rp_address (ResolveLocations servers c))) (ct_Find (ms_chunks ms) 7) =
       Some (2, [''p'', ''q'']) \<and> hr_delete_handles resp = []"
  unfolding readmitting_def lossy_heartbeat lossy_state by code_simp


end
