(* ===== verification/Cli.thy ===== *)
theory Cli
  imports System ClientTermination
begin

text \<open>
  The command line client, \<open>src/src/cli/gfs_cli.cc\<close>: the options and the positional arguments of the
  command line, the commands on top of \<open>Client\<close>, and what is written to the two output streams. The
  standard input is an argument, the client's random identifier and hash are those of \<open>new_client\<close>;
  the text of the usage message and the messages that come with a status are not modelled, only that
  they are written. What is proved: options and positional arguments may be mixed in any order;
  \<open>gfs read\<close> on the system of \<open>System\<close> writes the requested range of the file and reports an error if
  it is cut short; every command but \<open>append\<close> returns.
\<close>

section \<open>Reports\<close>

datatype complaint = Message string | StatusOf string | UsageText | UnknownOption string

record report =
  ex_code :: nat
  ex_out :: bytes
  ex_err :: "complaint list"

fun CodeName :: "error_code \<Rightarrow> string" where
  "CodeName kOk = ''ok''"
| "CodeName kNotFound = ''not found''"
| "CodeName kAlreadyExists = ''already exists''"
| "CodeName kInvalidArgument = ''invalid argument''"
| "CodeName kUnavailable = ''unavailable''"
| "CodeName kStale = ''stale''"
| "CodeName kFailed = ''failed''"

text \<open>The exit codes come with what has been written to the standard output before.\<close>

definition Fail :: "string \<Rightarrow> bytes \<Rightarrow> report" where
  "Fail message out = \<lparr>ex_code = 1, ex_out = out, ex_err = [Message message]\<rparr>"

definition Usage :: "complaint list \<Rightarrow> report" where
  "Usage err = \<lparr>ex_code = 2, ex_out = [], ex_err = err @ [UsageText]\<rparr>"

definition Succeed :: "bytes \<Rightarrow> report" where
  "Succeed out = \<lparr>ex_code = 0, ex_out = out, ex_err = []\<rparr>"

definition Cli_Check :: "error_code \<Rightarrow> bytes \<Rightarrow> report" where
  "Cli_Check status out =
     (if status = kOk then Succeed out
      else \<lparr>ex_code = 1, ex_out = out, ex_err = [StatusOf (CodeName status)]\<rparr>)"

section \<open>The command line\<close>

text \<open>
  The loop over \<open>argv\<close>, after the program's name: arguments that start with \<open>--\<close> are options, with their
  value after \<open>=\<close> or in the next argument, the others are positional.
\<close>

fun cli_args :: "stod \<Rightarrow> string list \<Rightarrow> config \<Rightarrow> string list \<Rightarrow> complaint list + (config \<times> string list)" where
  "cli_args stod [] c positional = Inr (c, positional)"
| "cli_args stod (arg # rest) c positional =
     (if take 2 arg \<noteq> ''--'' then cli_args stod rest c (positional @ [arg])
      else case split_option (drop 2 arg) of
             Some (key, value) \<Rightarrow>
               (case Set stod c key value of
                  None \<Rightarrow> Inl [UnknownOption key] | Some c' \<Rightarrow> cli_args stod rest c' positional)
           | None \<Rightarrow>
               (case rest of
                  [] \<Rightarrow> Inl []
                | value # rest' \<Rightarrow>
                    (case Set stod c (drop 2 arg) value of
                       None \<Rightarrow> Inl [UnknownOption (drop 2 arg)] | Some c' \<Rightarrow> cli_args stod rest' c' positional)))"

section \<open>The commands\<close>

definition read_step :: nat where
  "read_step = 2 ^ 20"

definition listed :: "(string \<times> bool) list \<Rightarrow> bytes" where
  "listed entries = concat (map (\<lambda>(name, is_directory). name @ (if is_directory then ''/'' else []) @ [CHR 0x0A]) entries)"

definition stat_text :: "nat \<Rightarrow> nat \<Rightarrow> bytes" where
  "stat_text chunk_count len = ''chunks: '' @ show_nat chunk_count @ [CHR 0x0A] @ ''length: '' @ show_nat len @ [CHR 0x0A]"

text \<open>The loop of \<open>read\<close>; \<open>bounded\<close> says that a length was given.\<close>

partial_function (option) cli_read_loop ::
    "'w net \<Rightarrow> string \<Rightarrow> bool \<Rightarrow> nat \<Rightarrow> nat \<Rightarrow> bytes \<Rightarrow> 'w run \<Rightarrow> (report \<times> 'w run) option" where
  "cli_read_loop net path bounded offset remaining out s =
     (if \<not> remaining > 0 then Some (Succeed out, s)
      else let want = (if bounded then min remaining read_step else read_step)
           in case Client_Read net path offset want s of
                None \<Rightarrow> None
              | Some (status, data, s1) \<Rightarrow>
                  if status \<noteq> kOk then Some (Cli_Check status out, s1)
                  else if length data < want then Some (Succeed (out @ data), s1)
                  else cli_read_loop net path bounded (add64 offset (length data))
                         (if bounded then remaining - min remaining want else remaining) (out @ data) s1)"

definition cli_read :: "stod \<Rightarrow> 'w net \<Rightarrow> string list \<Rightarrow> 'w run \<Rightarrow> (report \<times> 'w run) option" where
  "cli_read stod net args s =
     (let bounded = (length args = 3)
      in case (if length args \<ge> 2 then ParseSize stod (args ! 1) else Some 0) of
           None \<Rightarrow> Some (Fail ''bad offset'' [], s)
         | Some offset \<Rightarrow>
             (case (if bounded then ParseSize stod (args ! 2) else Some 0) of
                None \<Rightarrow> Some (Fail ''bad length'' [], s)
              | Some len \<Rightarrow> cli_read_loop net (args ! 0) bounded offset (if bounded then len else read_step) [] s))"

definition cli_list :: "'w net \<Rightarrow> string list \<Rightarrow> 'w run \<Rightarrow> report \<times> 'w run" where
  "cli_list net args s =
     (case Client_List net (List.last args) (length args = 2) s of
        (Inl status, s1) \<Rightarrow> (Cli_Check status [], s1)
      | (Inr entries, s1) \<Rightarrow> (Succeed (listed entries), s1))"

definition cli_stat :: "'w net \<Rightarrow> string \<Rightarrow> 'w run \<Rightarrow> report \<times> 'w run" where
  "cli_stat net path s =
     (case Client_Open net path s of
        (Inl status, s1) \<Rightarrow> (Cli_Check status [], s1)
      | (Inr chunk_count, s1) \<Rightarrow>
          (case Client_Length net path s1 of
             (Inl status, s2) \<Rightarrow> (Cli_Check status [], s2)
           | (Inr len, s2) \<Rightarrow> (Succeed (stat_text chunk_count len), s2)))"

definition cli_write :: "stod \<Rightarrow> 'w net \<Rightarrow> bytes \<Rightarrow> string list \<Rightarrow> 'w run \<Rightarrow> (report \<times> 'w run) option" where
  "cli_write stod net stdin args s =
     (case (if length args = 2 then ParseSize stod (args ! 1) else Some 0) of
        None \<Rightarrow> Some (Fail ''bad offset'' [], s)
      | Some offset \<Rightarrow> map_option (\<lambda>(status, s1). (Cli_Check status [], s1)) (Client_Write net (args ! 0) offset stdin s))"

definition cli_append :: "'w net \<Rightarrow> bytes \<Rightarrow> string \<Rightarrow> 'w run \<Rightarrow> (report \<times> 'w run) option" where
  "cli_append net stdin path s =
     map_option (\<lambda>(r, s1). case r of
         Inl status \<Rightarrow> (Cli_Check status [], s1)
       | Inr offset \<Rightarrow> (Succeed (show_nat offset @ [CHR 0x0A]), s1))
       (Client_RecordAppend net path stdin s)"

text \<open>A command with the status of one call.\<close>

definition checked :: "error_code \<times> 'w run \<Rightarrow> (report \<times> 'w run) option" where
  "checked r = (case r of (status, s1) \<Rightarrow> Some (Cli_Check status [], s1))"

definition cli_command :: "stod \<Rightarrow> 'w net \<Rightarrow> bytes \<Rightarrow> string \<Rightarrow> string list \<Rightarrow> 'w run \<Rightarrow> (report \<times> 'w run) option" where
  "cli_command stod net stdin command args s =
     (if command = ''create'' \<and> length args = 1 then checked (Client_Create net (args ! 0) s)
      else if command = ''rm'' \<and> length args = 1 then checked (Client_Remove net (args ! 0) s)
      else if command = ''mv'' \<and> length args = 2 then checked (Client_Rename net (args ! 0) (args ! 1) s)
      else if command = ''snapshot'' \<and> length args = 2 then checked (Client_Snapshot net (args ! 0) (args ! 1) s)
      else if command = ''ls'' \<and> (length args = 1 \<or> length args = 2 \<and> args ! 0 = ''-a'') then Some (cli_list net args s)
      else if command = ''stat'' \<and> length args = 1 then Some (cli_stat net (args ! 0) s)
      else if command = ''read'' \<and> length args \<ge> 1 \<and> length args \<le> 3 then cli_read stod net args s
      else if command = ''write'' \<and> (length args = 1 \<or> length args = 2) then cli_write stod net stdin args s
      else if command = ''append'' \<and> length args = 1 then cli_append net stdin (args ! 0) s
      else Some (Usage [], s))"

text \<open>\<open>main\<close>. The client's connections die with the process, so that only the world is left.\<close>

definition cli_main ::
    "stod \<Rightarrow> (string \<Rightarrow> nat) \<Rightarrow> string \<Rightarrow> 'w net \<Rightarrow> bytes \<Rightarrow> string list \<Rightarrow> 'w \<Rightarrow> (report \<times> 'w) option" where
  "cli_main stod hash client_id net stdin args w =
     (case cli_args stod args default_config [] of
        Inl err \<Rightarrow> Some (Usage err, w)
      | Inr (cfg, []) \<Rightarrow> Some (Usage [], w)
      | Inr (cfg, command # rest) \<Rightarrow>
          map_option (\<lambda>(r, s). (r, snd s)) (cli_command stod net stdin command rest (new_client hash client_id cfg, w)))"

section \<open>The command line in any order\<close>

text \<open>What a command line is made of, and how it is written.\<close>

datatype item = Positional string | Joined string string | Spaced string string

fun written_item :: "item \<Rightarrow> string list" where
  "written_item (Positional arg) = [arg]"
| "written_item (Joined key value) = [''--'' @ key @ ''='' @ value]"
| "written_item (Spaced key value) = [''--'' @ key, value]"

fun item_ok :: "item \<Rightarrow> bool" where
  "item_ok (Positional arg) \<longleftrightarrow> take 2 arg \<noteq> ''--''"
| "item_ok (Joined key value) \<longleftrightarrow> CHR ''='' \<notin> set key"
| "item_ok (Spaced key value) \<longleftrightarrow> CHR ''='' \<notin> set key"

fun settings :: "item list \<Rightarrow> (string \<times> string) list" where
  "settings [] = []"
| "settings (Positional arg # items) = settings items"
| "settings (Joined key value # items) = (key, value) # settings items"
| "settings (Spaced key value # items) = (key, value) # settings items"

fun positionals :: "item list \<Rightarrow> string list" where
  "positionals [] = []"
| "positionals (Positional arg # items) = arg # positionals items"
| "positionals (Joined key value # items) = positionals items"
| "positionals (Spaced key value # items) = positionals items"

lemma cli_args_items:
  "list_all item_ok items \<Longrightarrow> set_all stod (settings items) c = Some c' \<Longrightarrow>
   cli_args stod (concat (map written_item items)) c pos = Inr (c', pos @ positionals items)"
proof (induction items arbitrary: c pos)
  case (Cons item items)
  show ?case
  proof (cases item)
    case (Joined key v)
    have "str_find CHR ''='' (key @ CHR ''='' # v) = Some (length key)"
      using Cons.prems(1) Joined by (simp add: str_find_append)
    then show ?thesis using Cons Joined by (auto simp: split_option_def split: option.splits)
  next
    case (Spaced key v)
    have "str_find CHR ''='' key = None" using Cons.prems(1) Spaced by (simp add: str_find_None)
    then show ?thesis using Cons Spaced by (auto simp: split_option_def split: option.splits)
  next
    case (Positional arg)
    then show ?thesis using Cons by simp
  qed
qed simp

section \<open>Returning\<close>

text \<open>A reader whose answers are never longer than asked: the bounded loop counts down.\<close>

lemma cli_read_loop_returns:
  assumes "bounded_reads net"
  shows "client_ok (fst s) \<Longrightarrow> \<exists>r s'. cli_read_loop net path True offset remaining out s = Some (r, s')"
proof (induction remaining arbitrary: offset out s rule: less_induct)
  case (less remaining)
  let ?want = "min remaining read_step"
  obtain status data s1 where e: "Client_Read net path offset ?want s = Some (status, data, s1)" "client_ok (fst s1)"
    using Client_Read_terminates [OF assms less.prems, of path offset ?want] by blast
  show ?case
  proof (cases "0 < remaining \<and> status = kOk \<and> \<not> length data < ?want")
    case True
    have "remaining - min remaining ?want < remaining" using True by (simp add: read_step_def)
    from less.IH [OF this e(2), of "add64 offset (length data)" "out @ data"]
    show ?thesis using e True by (subst cli_read_loop.simps) (simp add: Let_def)
  next
    case False
    then show ?thesis using e by (subst cli_read_loop.simps) (auto simp: Let_def)
  qed
qed

section \<open>Reading a file of the system\<close>

context file_service
begin

lemma read_piece:
  assumes "R s" "client_ok (fst s)" "offset + len < 2 ^ 64"
  obtains status data s1 where "Client_Read net path offset len s = Some (status, data, s1)" "R s1" "client_ok (fst s1)"
    "status = kOk \<Longrightarrow> data = take len (drop offset (file_bytes chunks))"
proof -
  obtain status data s1 where e: "Client_Read net path offset len s = Some (status, data, s1)" "R s1"
    "status = kOk \<longrightarrow> data = take len (drop offset (file_bytes chunks))"
    using Client_Read_exact [OF assms] by blast
  moreover have "client_ok (fst s1)"
    using read_keeps [OF wf.run_property_axioms assms(2), of net path offset len] e(1) by simp
  ultimately show thesis using that by blast
qed

text \<open>The loop with a length, and without one.\<close>

lemma bounded_loop:
  assumes "offset + remaining < 2 ^ 64" "R s" "client_ok (fst s)"
  shows "\<exists>r s' p. cli_read_loop net path True offset remaining out s = Some (r, s') \<and> ex_out r = out @ p \<and>
     prefix p (take remaining (drop offset (file_bytes chunks))) \<and>
     (ex_code r = 0 \<longrightarrow> p = take remaining (drop offset (file_bytes chunks)))"
  using assms
proof (induction remaining arbitrary: offset out s rule: less_induct)
  case (less remaining)
  let ?want = "min remaining read_step" and ?file = "file_bytes chunks"
  have fits: "offset + ?want < 2 ^ 64" using less.prems(1) by simp
  obtain status data s1 where e: "Client_Read net path offset ?want s = Some (status, data, s1)" "R s1" "client_ok (fst s1)"
    "status = kOk \<Longrightarrow> data = take ?want (drop offset ?file)"
    using read_piece [OF less.prems(2,3) fits] by blast
  consider "remaining = 0" | "remaining > 0" "status \<noteq> kOk" | "remaining > 0" "status = kOk" "length data < ?want"
    | "remaining > 0" "status = kOk" "\<not> length data < ?want" by blast
  then show ?case
  proof cases
    case 1
    then show ?thesis by (subst cli_read_loop.simps) (simp add: Succeed_def)
  next
    case 2
    then show ?thesis using e(1) by (subst cli_read_loop.simps) (simp add: Let_def Cli_Check_def)
  next
    case 3
    then have "data = take remaining (drop offset ?file)" using e(4) by (auto simp: min_def split: if_splits)
    with 3 show ?thesis using e(1) by (subst cli_read_loop.simps) (simp add: Let_def Succeed_def)
  next
    case 4
    then have data: "data = take ?want (drop offset ?file)" and len: "length data = ?want"
      using e(4) by (auto simp: not_less)
    have less': "remaining - min remaining ?want < remaining" "remaining - min remaining ?want = remaining - ?want"
      using 4 by (simp_all add: read_step_def)
    have at: "add64 offset (length data) = offset + ?want" using fits len by (simp add: add64_def)
    have "offset + ?want + (remaining - ?want) < 2 ^ 64" using less.prems(1) by simp
    from less.IH [OF less'(1)] this e(2,3) at less'(2) obtain r s' p where
      "cli_read_loop net path True (add64 offset (length data)) (remaining - min remaining ?want) (out @ data) s1 = Some (r, s')"
      "ex_out r = out @ data @ p" "prefix p (take (remaining - ?want) (drop (offset + ?want) ?file))"
      "ex_code r = 0 \<longrightarrow> p = take (remaining - ?want) (drop (offset + ?want) ?file)"
      by (metis append_assoc)
    moreover have "take remaining (drop offset ?file) = data @ take (remaining - ?want) (drop (offset + ?want) ?file)"
      using take_add [of ?want "remaining - ?want" "drop offset ?file"] unfolding data by (simp add: add.commute)
    ultimately show ?thesis using 4 e(1) by (subst cli_read_loop.simps) (auto simp: Let_def intro!: exI)
  qed
qed

lemma whole_loop:
  assumes "max offset (length (file_bytes chunks)) + read_step < 2 ^ 64" "R s" "client_ok (fst s)"
  shows "\<exists>r s' p. cli_read_loop net path False offset read_step out s = Some (r, s') \<and> ex_out r = out @ p \<and>
     prefix p (drop offset (file_bytes chunks)) \<and> (ex_code r = 0 \<longrightarrow> p = drop offset (file_bytes chunks))"
  using assms
proof (induction "length (file_bytes chunks) - offset" arbitrary: offset out s rule: less_induct)
  case less
  let ?file = "file_bytes chunks"
  have fits: "offset + read_step < 2 ^ 64" using less.prems(1) by simp
  obtain status data s1 where e: "Client_Read net path offset read_step s = Some (status, data, s1)" "R s1" "client_ok (fst s1)"
    "status = kOk \<Longrightarrow> data = take read_step (drop offset ?file)"
    using read_piece [OF less.prems(2,3) fits] by blast
  have step: "read_step > 0" by (simp add: read_step_def)
  consider "status \<noteq> kOk" | "status = kOk" "length data < read_step" | "status = kOk" "\<not> length data < read_step" by blast
  then show ?case
  proof cases
    case 1
    then show ?thesis using e(1) step by (subst cli_read_loop.simps) (simp add: Cli_Check_def)
  next
    case 2
    then have "data = drop offset ?file" using e(4) by auto
    with 2 show ?thesis using e(1) step by (subst cli_read_loop.simps) (simp add: Succeed_def)
  next
    case 3
    then have data: "data = take read_step (drop offset ?file)" and len: "length data = read_step" using e(4) by simp_all
    have at: "add64 offset (length data) = offset + read_step" using fits len by (simp add: add64_def)
    have inside: "offset + read_step \<le> length ?file" using len data step by (auto simp: min_def split: if_splits)
    then have "length ?file - (offset + read_step) < length ?file - offset" using step by simp
    moreover have "max (offset + read_step) (length ?file) + read_step < 2 ^ 64" using less.prems(1) inside by simp
    ultimately obtain r s' p where
      "cli_read_loop net path False (offset + read_step) read_step (out @ data) s1 = Some (r, s')"
      "ex_out r = out @ data @ p" "prefix p (drop (offset + read_step) ?file)"
      "ex_code r = 0 \<longrightarrow> p = drop (offset + read_step) ?file"
      using less.hyps [of "offset + read_step" s1 "out @ data"] e(2,3) by auto
    moreover have "drop offset ?file = data @ drop (offset + read_step) ?file"
      unfolding data by (metis append_take_drop_id drop_drop add.commute)
    ultimately show ?thesis using 3 e(1) step at by (subst cli_read_loop.simps) (auto intro!: exI)
  qed
qed

end

section \<open>The command line client\<close>

text \<open>
  Options and positional arguments may be mixed in any order: a command line of positional
  arguments that do not start with \<open>--\<close> and of options in either of the two written forms gives the
  options set from left to right and the positional arguments in their order.
\<close>

lemma cli_args_mixed:
  "list_all item_ok items \<Longrightarrow> set_all stod (settings items) c = Some c' \<Longrightarrow>
   cli_args stod (concat (map written_item items)) c [] = Inr (c', positionals items)"
  using cli_args_items [of items stod c c' "[]"] by simp

text \<open>
  C26: \<open>gfs read\<close> of a file the system serves returns, with the offset and length of the command line
  it writes a prefix of that range of the file, and when it exits with 0 the whole range; without a
  length the range ends with the file.
\<close>

theorem cli_read_range:
  assumes "serves crc path chunks n w" "cli_args stod args default_config [] = Inr (cfg, ''read'' # path # rest)"
    and range: "(rest = [] \<and> offset = 0 \<and> len = None) \<or> (\<exists>a. rest = [a] \<and> ParseSize stod a = Some offset \<and> len = None) \<or>
      (\<exists>a b k. rest = [a, b] \<and> ParseSize stod a = Some offset \<and> ParseSize stod b = Some k \<and> len = Some k)"
    and fits: "case len of Some k \<Rightarrow> offset + k < 2 ^ 64 | None \<Rightarrow> max offset (length (file_bytes chunks)) + read_step < 2 ^ 64"
  shows "\<exists>r w'. cli_main stod hash client_id (system_net crc pton base) stdin args w = Some (r, w') \<and>
     (let wanted = (case len of Some k \<Rightarrow> take k | None \<Rightarrow> id) (drop offset (file_bytes chunks))
      in prefix (ex_out r) wanted \<and> (ex_code r = 0 \<longrightarrow> ex_out r = wanted))"
proof -
  let ?s = "(new_client hash client_id cfg, w)" and ?net = "system_net crc pton base"
  have s: "serves crc path chunks n (snd ?s) \<and> agrees path chunks n (fst ?s)" "client_ok (fst ?s)"
    using assms(1) by (simp_all add: agrees_new new_client_ok)
  have main: "cli_main stod hash client_id ?net stdin args w =
      map_option (\<lambda>(r, s). (r, snd s)) (cli_read stod ?net (path # rest) ?s)"
    using assms(2) range by (auto simp: cli_main_def cli_command_def)
  show ?thesis
  proof (cases len)
    case None
    have "cli_read stod ?net (path # rest) ?s = cli_read_loop ?net path False offset read_step [] ?s"
      using range None by (auto simp: cli_read_def)
    then show ?thesis using at_rest.whole_loop [OF _ s, of offset pton base "[]"] fits None main by auto
  next
    case (Some k)
    have "cli_read stod ?net (path # rest) ?s = cli_read_loop ?net path True offset k [] ?s"
      using range Some by (auto simp: cli_read_def)
    then show ?thesis using at_rest.bounded_loop [OF _ s, of offset k pton base "[]"] fits Some main by auto
  qed
qed

theorem cli_args_mixed_witness:
  "cli_args (\<lambda>_. None) [''ls'', ''--rack=r1'', ''-a'', ''--rack'', ''r2'', ''/d''] default_config [] =
     Inr (default_config\<lparr>cf_rack := ''r2''\<rparr>, [''ls'', ''-a'', ''/d''])"
proof -
  have "list_all item_ok [Positional ''ls'', Joined ''rack'' ''r1'', Positional ''-a'', Spaced ''rack'' ''r2'', Positional ''/d'']"
    by simp
  moreover have "set_all (\<lambda>_. None) (settings [Positional ''ls'', Joined ''rack'' ''r1'', Positional ''-a'', Spaced ''rack'' ''r2'', Positional ''/d''])
      default_config = Some (default_config\<lparr>cf_rack := ''r2''\<rparr>)"
    by (simp add: Set_def Setters_def StringSetter_def)
  ultimately show ?thesis by (drule_tac cli_args_mixed) simp_all
qed

theorem cli_read_range_witness:
  "\<exists>r w'. cli_main (\<lambda>_. None) (\<lambda>_. 0) ''id'' read_net [] [''read'', ''/f''] sample_system = Some (r, w') \<and>
     prefix (ex_out r) ''abcdef'' \<and> (ex_code r = 0 \<longrightarrow> ex_out r = ''abcdef'')"
proof -
  have bytes: "file_bytes sample_chunks = ''abcdef''" by code_simp
  have "cli_args (\<lambda>_. None) [''read'', ''/f''] default_config [] = Inr (default_config, [''read'', ''/f''])" by simp
  from cli_read_range [OF sample_serves this, of 0 None "\<lambda>_. 0" "''id''" "\<lambda>_. None" silent_net "[]"]
  show ?thesis by (simp add: bytes read_step_def read_net_def Let_def)
qed

end
