(* ===== verification/Spec2Isabelle.thy ===== *)
theory Spec2Isabelle
  imports MasterService LeaseSafety LockSets Scheduling LogSink Startup ClientPushes StaleReplica Cli
begin

text \<open>
  A verification of a distributed file system in the style of GFS: one master that keeps the
  name space and the chunks of every file, chunkservers that keep replicas of the chunks, and
  clients. The theories model the code under \<open>src/src\<close>, one per part of it:

  \<^item> \<open>Prelude\<close>, \<open>StdMap\<close>: machine types, string searches, and the ordered maps and sets of the C++
    library (\<open>omap\<close>: an association list in key order, also for \<open>std::unordered_map\<close>, on whose
    order nothing here depends).
  \<^item> \<open>Paths\<close>, \<open>Codec\<close>, \<open>Config\<close>, \<open>Distance\<close>, \<open>Rpc\<close>: \<open>common/\<close> and the messages of \<open>proto/gfs.proto\<close>.
  \<^item> \<open>Namespace\<close>, \<open>ChunkTable\<close>, \<open>MasterState\<close>: the state of the master and its log records
    (\<open>master/namespace.cc\<close>, \<open>chunk_table.cc\<close>, \<open>master_state.cc\<close>).
  \<^item> \<open>MasterInvariant\<close>, \<open>Replay\<close>, \<open>MasterRecovery\<close>, \<open>MasterQuiet\<close>: its invariant, what a restart
    preserves, and the changes that a restart does not see.
  \<^item> \<open>LogFiles\<close>, \<open>OpLog\<close>, \<open>MasterLog\<close>: the operation log and the checkpoints on disk
    (\<open>master/oplog.cc\<close>, \<open>checkpoint.cc\<close>, \<open>Master::Recover\<close>), with crashes at any point; \<open>LogSink\<close>: the calls
    that write them (\<open>LocalFileSink\<close>).
  \<^item> \<open>LockTable\<close>, \<open>LockSets\<close>: the path locks of the master with their waiting threads, and the objects that
    own them (\<open>master/lock_table.cc\<close>).
  \<^item> \<open>Registry\<close>, \<open>LeaseManager\<close>: the table of chunkservers and the leases
    (\<open>master/chunkserver_registry.cc\<close>, \<open>lease_manager.cc\<close>).
  \<^item> \<open>MasterRequests\<close>, \<open>MasterChunks\<close>, \<open>MasterChores\<close>, \<open>MasterService\<close>: the handlers of the master
    (\<open>master/master.cc\<close>): the requests on the name space, those on chunks and leases, heartbeats,
    sweeps and garbage collection, and all of them together as steps of one machine.
  \<^item> \<open>LeaseSafety\<close>: a lease as its two ends see it, each with its own clock.
  \<^item> \<open>ChunkStore\<close>, \<open>DataBuffer\<close>, \<open>LeaseTable\<close>, \<open>Chunkserver\<close>, \<open>Replicas\<close>, \<open>Cluster\<close>: the chunkserver
    (\<open>chunkserver/\<close>) and several of them together.
  \<^item> \<open>Scheduling\<close>: the threads of the master (\<open>master/worker_pool.cc\<close>, \<open>timer_queue.cc\<close>) and the queue
    of lease renewals on top of them (\<open>LeaseManager::RequestRegrant\<close>).
  \<^item> \<open>LocationCache\<close>, \<open>Client\<close>: the client (\<open>client/location_cache.h\<close>, \<open>gfs_client.cc\<close>) over a record of
    remote calls, \<open>net\<close>; \<open>ClientRuns\<close>, \<open>ClientTermination\<close>, \<open>ClientPushes\<close>, \<open>ClientReads\<close>: what holds
    of its runs, whatever answers the calls or for answers that a law describes.
  \<^item> \<open>System\<close>, \<open>ClientWrites\<close>: the client on the models of the master and of the chunkservers, with calls
    that are delayed, lost on the way or carried out without an answer (\<open>chunkserver_service.cc\<close>).
  \<^item> \<open>Grants\<close>, \<open>StaleReplica\<close>: the grant of a lease with its calls carried out on the chunkservers, up to the
    write of a client under the lease, and what a repeated round can do (\<open>LeaseManager::GrantSerialized\<close>).
  \<^item> \<open>Startup\<close>: the processes of the master and of a chunkserver, their start and their end (\<open>main.cc\<close>,
    \<open>Master::Start\<close>, \<open>Master::Stop\<close>, \<open>OpLog::Stop\<close>, \<open>LoadOrCreateChunkserverId\<close>, the heartbeat thread).
  \<^item> \<open>Cli\<close>: the command line client (\<open>cli/gfs_cli.cc\<close>).

  Interfaces. \<open>Replay.replicated\<close> is what a state has to promise so that a checkpoint and a log
  restore it; the master's state machine provides it and the log (\<open>OpLog.durable_log\<close>) relies on it.
  \<open>Replicas.replica_store\<close> is what a chunk store promises to the primary that orders the
  mutations; \<open>ChunkStore\<close> provides it. \<open>ClientRuns.run_property\<close> and \<open>client_property\<close> are what a
  predicate on runs of the client needs so that every operation keeps it, and are interpreted for the
  well-formed client, the loaded client and the log of its pushes. \<open>ClientReads.file_service\<close> is what
  servers promise to a reader of a file; \<open>System\<close> provides it on the master and the chunkservers.

  Conventions. Handles, versions and sequence numbers are words of 64 bits and wrap;
  reference counts are words of 32 bits. Positions, sizes and indices are \<open>nat\<close>, and the sums that a
  request can push over \<open>2 ^ 64\<close> are written out with \<open>add64\<close>. Times are integers of
  nanoseconds, and the current time is an argument. An operation that fails returns its code, and
  the dereference of an empty optional is a value \<open>None\<close>. Code outside \<open>src/\<close> is a parameter: the
  checksum (\<open>crc\<close>, zlib), the serialization of records (\<open>codec\<close>, protobuf), \<open>inet_pton\<close>,
  \<open>std::stod\<close>, the random device, and the outcome of remote calls. A critical section of the
  master is one step; what other threads do between two sections of a handler is covered as far
  as the theory in question says.

  Loops. Recursion follows the code and terminates by a measure; the rounds of a grant are
  a list of eight environments, as the code has eight rounds. The loops of the client whose end
  depends on the answers are partial functions with \<open>None\<close> for a run without end, and that they
  return is proved where it holds (\<open>ClientTermination\<close>). Threads are step relations with the trace of
  what happened.

  What the theorems show. No acknowledged change of the master is lost by a crash
  (\<open>MasterLog\<close>), each record refines its specification (\<open>MasterRecovery\<close>), the master's invariant is
  kept, path locks are exclusive along subtrees and never deadlock (\<open>LockTable\<close>), a chunk store
  holds what was written and notices damage (\<open>ChunkStore\<close>), an acknowledged mutation is on every
  replica (\<open>Cluster\<close>), a grant of a lease reaches every live replica (\<open>LeaseManager\<close>), every
  handler is a run of the logged state machine, chunks are copied before a shared one is written and
  leases do not overlap (\<open>MasterService\<close>, \<open>MasterChunks\<close>, \<open>LeaseSafety\<close>), heartbeats and garbage
  collection remove what they should and nothing else (\<open>MasterChores\<close>), and the helpers compute
  what they should. A client that reads gets the bytes of the file or an error and a write it reports
  as done is on every replica, with calls lost at any point (\<open>System\<close>, \<open>ClientWrites\<close>), and these are all
  the live holders that the master knows when it has granted the lease (\<open>Grants\<close>); its writes and
  reads return, and an append need not (\<open>ClientTermination\<close>); the pool, the timers and the renewals
  neither lose nor repeat work (\<open>Scheduling\<close>). A chunkserver or a master that is started again is the
  one it was (\<open>Startup\<close>).

  Where the code does not keep what it promises, a theorem shows the run that breaks it: a failed
  write to the log is acknowledged (\<open>MasterLog\<close>) and hides what is logged after it (\<open>LogSink\<close>); a replica
  that missed an acknowledged write can become a holder of the chunk again (\<open>StaleReplica\<close>); removing a
  file can put it onto a directory (\<open>MasterRequests\<close>); an append can spin (\<open>ClientTermination\<close>).

  Not modelled: logging, the text of messages, connections and deadlines of calls, signals, and the
  reactors of the gRPC library that hand a request to the worker pool (\<open>master_service.cc\<close>). A process
  is taken to end between two operations, except for the master's log, whose crashes come at any point.
\<close>

end
